(* ===== verification/Prelude.thy ===== *)
theory Prelude
  imports Main "HOL-Library.Word"
begin

text \<open>
  Shared vocabulary of the development: C strings as byte lists with a
  terminating NUL, the unsigned 32-bit decrement of C, and
  the generic facts on lists and numbers that the component theories use.
\<close>

section \<open>Collections of facts\<close>

named_theorems scan_le \<open>a scanner never moves its cursor backwards\<close>
named_theorems frame \<open>what an operation leaves unchanged\<close>
named_theorems inv_pres \<open>operations that keep a component's invariant\<close>

section \<open>C strings\<close>

text \<open>
  A C string is the list of its bytes in front of the terminating NUL. Reading
  at the end of the list yields that NUL.
\<close>

definition cread :: "string \<Rightarrow> nat \<Rightarrow> char" where
  "cread s i = (if i < length s then s ! i else CHR 0x00)"

lemma cread_in_range [simp]: "i < length s \<Longrightarrow> cread s i = s ! i"
  by (simp add: cread_def)

lemma cread_past_end [simp]: "length s \<le> i \<Longrightarrow> cread s i = CHR 0x00"
  by (simp add: cread_def)

lemma cread_nonzero_in_range: "cread s i \<noteq> CHR 0x00 \<Longrightarrow> i < length s"
  by (simp add: cread_def split: if_splits)

lemma cread_append_left [simp]: "i < length s \<Longrightarrow> cread (s @ t) i = s ! i"
  by (simp add: cread_def nth_append)

lemma cread_append_right [simp]: "length s \<le> i \<Longrightarrow> cread (s @ t) i = cread t (i - length s)"
  by (auto simp: cread_def nth_append)

lemma cread_drop:
  assumes "drop i s = c # xs"
  shows "cread s i = c" "drop (Suc i) s = xs" "i < length s"
proof -
  show "i < length s" using assms by (metis drop_all list.distinct(1) not_le)
  then have "drop i s = s ! i # drop (Suc i) s" by (simp add: Cons_nth_drop_Suc)
  with assms \<open>i < length s\<close> show "cread s i = c" "drop (Suc i) s = xs" by simp_all
qed

text \<open>The bytes of a text from position \<open>i\<close> up to, not including, position \<open>k\<close>.\<close>

definition substr :: "string \<Rightarrow> nat \<Rightarrow> nat \<Rightarrow> string" where
  "substr js i k = take (k - i) (drop i js)"

lemma substr_same [simp]: "substr js i i = []"
  by (simp add: substr_def)

lemma substr_Cons:
  assumes "i < k" "cread js i \<noteq> CHR 0x00"
  shows "substr js i k = cread js i # substr js (Suc i) k"
proof -
  have "i < length js" using assms(2) by (rule cread_nonzero_in_range)
  then have "drop i js = cread js i # drop (Suc i) js" by (simp add: Cons_nth_drop_Suc)
  with assms(1) show ?thesis by (simp add: substr_def Suc_diff_Suc [symmetric])
qed

lemma substr_append: "\<lbrakk>i \<le> j; j \<le> k\<rbrakk> \<Longrightarrow> substr js i k = substr js i j @ substr js j k"
proof -
  assume "i \<le> j" "j \<le> k"
  then have "k - i = (j - i) + (k - j)" "drop j js = drop (j - i) (drop i js)" by simp_all
  then show ?thesis unfolding substr_def by (metis take_add)
qed

lemma substr_length: "\<lbrakk>i \<le> k; k \<le> length js\<rbrakk> \<Longrightarrow> length (substr js i k) = k - i"
  by (simp add: substr_def)

section \<open>Unsigned decrement\<close>

text \<open>The C expression \<open>x--\<close> on an \<open>unsigned int\<close> wraps from zero to the largest value.\<close>

definition u32_dec :: "nat \<Rightarrow> nat" where
  "u32_dec n = (if n = 0 then 2 ^ 32 - 1 else n - 1)"

lemma u32_dec_pos [simp]: "0 < n \<Longrightarrow> u32_dec n = n - 1"
  by (simp add: u32_dec_def)

lemma Suc_u32_dec [simp]: "0 < n \<Longrightarrow> Suc (u32_dec n) = n"
  by simp

section \<open>Lists\<close>

lemma nth_list_update_if: "i < length xs \<Longrightarrow> xs[j := v] ! i = (if i = j then v else xs ! i)"
  by simp

lemma bind_SomeE: "\<lbrakk>Option.bind x f = Some y; \<And>a. \<lbrakk>x = Some a; f a = Some y\<rbrakk> \<Longrightarrow> P\<rbrakk> \<Longrightarrow> P"
  by (cases x) auto

end
