(* ===== verification/Jsmn.thy ===== *)
theory Jsmn
  imports Prelude
begin

text \<open>
  The JSON tokenizer \<open>jsmn.c\<close> of the device projects (the three copies under
  \<open>Project\<close> are identical), compiled as the projects compile it: neither
  \<open>JSMN_STRICT\<close> nor \<open>JSMN_PARENT_LINKS\<close> is defined. The parser struct and the
  token struct are records; the token array is passed and returned; a null token
  pointer (counting mode) is \<open>None\<close>. A negative return code is a value of
  \<open>jsmnerr\<close>. The positions in the text are natural numbers: a lemma shows that
  they never exceed the length given to the parser, so only the decrement of
  \<open>pos\<close> needs its wrap-around written out.
\<close>

section \<open>Data\<close>

datatype jsmntype_t = JSMN_UNDEFINED | JSMN_OBJECT | JSMN_ARRAY | JSMN_STRING | JSMN_PRIMITIVE

datatype jsmnerr = JSMN_ERROR_NOMEM | JSMN_ERROR_INVAL | JSMN_ERROR_PART

record jsmntok_t =
  ttype :: jsmntype_t
  tstart :: int
  tend :: int
  tsize :: int

record jsmn_parser =
  pos :: nat
  toknext :: nat
  toksuper :: int

type_synonym tokens = "jsmntok_t list"

definition jsmn_init :: jsmn_parser where
  "jsmn_init = \<lparr>pos = 0, toknext = 0, toksuper = -1\<rparr>"

section \<open>Token allocation\<close>

definition jsmn_alloc_token ::
    "jsmn_parser \<Rightarrow> tokens \<Rightarrow> nat \<Rightarrow> (nat \<times> jsmn_parser \<times> tokens) option" where
  "jsmn_alloc_token p ts num_tokens =
     (if toknext p \<ge> num_tokens then None
      else let i = toknext p in
        Some (i, p\<lparr>toknext := Suc i\<rparr>,
              ts[i := (ts ! i)\<lparr>tstart := -1, tend := -1, tsize := 0\<rparr>]))"

definition jsmn_fill_token :: "jsmntok_t \<Rightarrow> jsmntype_t \<Rightarrow> int \<Rightarrow> int \<Rightarrow> jsmntok_t" where
  "jsmn_fill_token tok ty start fin =
     tok\<lparr>ttype := ty, tstart := start, tend := fin, tsize := 0\<rparr>"

section \<open>Primitives\<close>

definition prim_delim :: "char \<Rightarrow> bool" where
  "prim_delim c \<longleftrightarrow>
     c \<in> set [CHR '':'', CHR 0x09, CHR 0x0D, CHR 0x0A, CHR '' '', CHR '','', CHR '']'', CHR ''}'']"

definition prim_invalid :: "char \<Rightarrow> bool" where
  "prim_invalid c \<longleftrightarrow> of_char c < (32::nat) \<or> of_char c \<ge> (127::nat)"

text \<open>The loop of \<open>jsmn_parse_primitive\<close>: \<open>None\<close> is its \<open>JSMN_ERROR_INVAL\<close> exit.\<close>

function prim_scan :: "string \<Rightarrow> nat \<Rightarrow> nat \<Rightarrow> nat option" where
  "prim_scan js len i =
     (if i < len \<and> cread js i \<noteq> CHR 0x00 then
        (if prim_delim (cread js i) then Some i
         else if prim_invalid (cread js i) then None
         else prim_scan js len (Suc i))
      else Some i)"
  by pat_completeness auto
termination
  by (relation "measure (\<lambda>(js, len, i). len - i)") auto

definition jsmn_parse_primitive ::
    "jsmn_parser \<Rightarrow> string \<Rightarrow> nat \<Rightarrow> tokens option \<Rightarrow> nat
      \<Rightarrow> jsmnerr option \<times> jsmn_parser \<times> tokens option" where
  "jsmn_parse_primitive p js len toks num_tokens =
     (let start = pos p in
      case prim_scan js len start of
        None \<Rightarrow> (Some JSMN_ERROR_INVAL, p\<lparr>pos := start\<rparr>, toks)
      | Some i \<Rightarrow>
          (case toks of
             None \<Rightarrow> (None, p\<lparr>pos := u32_dec i\<rparr>, None)
           | Some ts \<Rightarrow>
               (case jsmn_alloc_token (p\<lparr>pos := i\<rparr>) ts num_tokens of
                  None \<Rightarrow> (Some JSMN_ERROR_NOMEM, p\<lparr>pos := start\<rparr>, Some ts)
                | Some (k, p', ts') \<Rightarrow>
                    (None, p'\<lparr>pos := u32_dec i\<rparr>,
                     Some (ts'[k := jsmn_fill_token (ts' ! k) JSMN_PRIMITIVE (int start) (int i)])))))"

section \<open>Strings\<close>

definition is_hex :: "char \<Rightarrow> bool" where
  "is_hex c \<longleftrightarrow>
     (of_char c \<ge> (48::nat) \<and> of_char c \<le> (57::nat)) \<or>
     (of_char c \<ge> (65::nat) \<and> of_char c \<le> (70::nat)) \<or>
     (of_char c \<ge> (97::nat) \<and> of_char c \<le> (102::nat))"

definition simple_escape :: "char \<Rightarrow> bool" where
  "simple_escape c \<longleftrightarrow>
     c \<in> set [CHR 0x22, CHR ''/'', CHR 0x5C, CHR ''b'', CHR ''f'', CHR ''r'', CHR ''n'', CHR ''t'']"

text \<open>The loop over at most four hexadecimal digits: \<open>None\<close> is the error exit.\<close>

fun hex_scan :: "string \<Rightarrow> nat \<Rightarrow> nat \<Rightarrow> nat \<Rightarrow> nat option" where
  "hex_scan js len 0 k = Some k"
| "hex_scan js len (Suc n) k =
     (if k < len \<and> cread js k \<noteq> CHR 0x00 then
        (if \<not> is_hex (cread js k) then None else hex_scan js len n (Suc k))
      else Some k)"

lemma hex_scan_le [scan_le]: "hex_scan js len n k = Some k' \<Longrightarrow> k \<le> k'"
  by (induction n arbitrary: k) (auto split: if_splits dest: Suc_leD)

datatype str_scan_result = Str_Quote nat | Str_Inval | Str_Part

function str_scan :: "string \<Rightarrow> nat \<Rightarrow> nat \<Rightarrow> str_scan_result" where
  "str_scan js len i =
     (if i < len \<and> cread js i \<noteq> CHR 0x00 then
        (let c = cread js i in
         if c = CHR 0x22 then Str_Quote i
         else if c = CHR 0x5C \<and> i + 1 < len then
           (let j = i + 1 in
            if simple_escape (cread js j) then str_scan js len (Suc j)
            else if cread js j = CHR ''u'' then
              (case hex_scan js len 4 (Suc j) of
                 None \<Rightarrow> Str_Inval
               | Some k \<Rightarrow> str_scan js len (Suc (u32_dec k)))
            else Str_Inval)
         else str_scan js len (Suc i))
      else Str_Part)"
  by pat_completeness auto
termination
proof (relation "measure (\<lambda>(js, len, i). len - i)", goal_cases)
  case (3 js len i c j k)
  then show ?case using hex_scan_le [of js len 4 "Suc j" k] by auto
qed auto

definition jsmn_parse_string ::
    "jsmn_parser \<Rightarrow> string \<Rightarrow> nat \<Rightarrow> tokens option \<Rightarrow> nat
      \<Rightarrow> jsmnerr option \<times> jsmn_parser \<times> tokens option" where
  "jsmn_parse_string p js len toks num_tokens =
     (let start = pos p in
      case str_scan js len (Suc start) of
        Str_Quote q \<Rightarrow>
          (case toks of
             None \<Rightarrow> (None, p\<lparr>pos := q\<rparr>, None)
           | Some ts \<Rightarrow>
               (case jsmn_alloc_token (p\<lparr>pos := q\<rparr>) ts num_tokens of
                  None \<Rightarrow> (Some JSMN_ERROR_NOMEM, p\<lparr>pos := start\<rparr>, Some ts)
                | Some (k, p', ts') \<Rightarrow>
                    (None, p',
                     Some (ts'[k := jsmn_fill_token (ts' ! k) JSMN_STRING (int start + 1) (int q)]))))
      | Str_Inval \<Rightarrow> (Some JSMN_ERROR_INVAL, p\<lparr>pos := start\<rparr>, toks)
      | Str_Part \<Rightarrow> (Some JSMN_ERROR_PART, p\<lparr>pos := start\<rparr>, toks))"

section \<open>Brackets, colon and comma\<close>

definition is_open :: "jsmntok_t \<Rightarrow> bool" where
  "is_open t \<longleftrightarrow> tstart t \<noteq> -1 \<and> tend t = -1"

definition is_container :: "jsmntok_t \<Rightarrow> bool" where
  "is_container t \<longleftrightarrow> ttype t = JSMN_ARRAY \<or> ttype t = JSMN_OBJECT"

text \<open>The loops that walk from token \<open>i - 1\<close> down to token \<open>0\<close>.\<close>

fun find_last :: "(jsmntok_t \<Rightarrow> bool) \<Rightarrow> tokens \<Rightarrow> nat \<Rightarrow> nat option" where
  "find_last P ts 0 = None"
| "find_last P ts (Suc i) = (if P (ts ! i) then Some i else find_last P ts i)"

definition inc_super :: "jsmn_parser \<Rightarrow> tokens \<Rightarrow> tokens" where
  "inc_super p ts =
     (if toksuper p \<noteq> -1
      then ts[nat (toksuper p) := (ts ! nat (toksuper p))\<lparr>tsize := tsize (ts ! nat (toksuper p)) + 1\<rparr>]
      else ts)"

definition open_bracket ::
    "char \<Rightarrow> jsmn_parser \<Rightarrow> tokens \<Rightarrow> nat \<Rightarrow> jsmnerr option \<times> jsmn_parser \<times> tokens" where
  "open_bracket c p ts num_tokens =
     (case jsmn_alloc_token p ts num_tokens of
        None \<Rightarrow> (Some JSMN_ERROR_NOMEM, p, ts)
      | Some (k, p1, ts1) \<Rightarrow>
          let ts2 = inc_super p1 ts1;
              ts3 = ts2[k := (ts2 ! k)\<lparr>ttype := (if c = CHR ''{'' then JSMN_OBJECT else JSMN_ARRAY),
                                       tstart := int (pos p1)\<rparr>]
          in (None, p1\<lparr>toksuper := int (toknext p1) - 1\<rparr>, ts3))"

definition close_bracket ::
    "char \<Rightarrow> jsmn_parser \<Rightarrow> tokens \<Rightarrow> jsmnerr option \<times> jsmn_parser \<times> tokens" where
  "close_bracket c p ts =
     (let ty = (if c = CHR ''}'' then JSMN_OBJECT else JSMN_ARRAY) in
      case find_last is_open ts (toknext p) of
        None \<Rightarrow> (Some JSMN_ERROR_INVAL, p, ts)
      | Some i \<Rightarrow>
          if ttype (ts ! i) \<noteq> ty then (Some JSMN_ERROR_INVAL, p, ts)
          else
            let p1 = p\<lparr>toksuper := -1\<rparr>;
                ts1 = ts[i := (ts ! i)\<lparr>tend := int (pos p) + 1\<rparr>]
            in (case find_last is_open ts1 (Suc i) of
                  None \<Rightarrow> (None, p1, ts1)
                | Some k \<Rightarrow> (None, p1\<lparr>toksuper := int k\<rparr>, ts1)))"

definition comma :: "jsmn_parser \<Rightarrow> tokens option \<Rightarrow> jsmn_parser" where
  "comma p toks =
     (case toks of
        None \<Rightarrow> p
      | Some ts \<Rightarrow>
          if toksuper p \<noteq> -1 \<and> \<not> is_container (ts ! nat (toksuper p)) then
            (case find_last (\<lambda>t. is_container t \<and> is_open t) ts (toknext p) of
               None \<Rightarrow> p
             | Some i \<Rightarrow> p\<lparr>toksuper := int i\<rparr>)
          else p)"

section \<open>The parser\<close>

text \<open>
  One turn of the loop of \<open>jsmn_parse\<close>, before its \<open>pos++\<close>: the error with which
  the function returns, if any, and the new values of \<open>count\<close>, the parser and the
  tokens.
\<close>

definition jsmn_step ::
    "string \<Rightarrow> nat \<Rightarrow> nat \<Rightarrow> nat \<Rightarrow> jsmn_parser \<Rightarrow> tokens option
      \<Rightarrow> jsmnerr option \<times> nat \<times> jsmn_parser \<times> tokens option" where
  "jsmn_step js len num_tokens count p toks =
     (let c = cread js (pos p) in
      if c = CHR ''{'' \<or> c = CHR ''['' then
        (case toks of
           None \<Rightarrow> (None, count + 1, p, None)
         | Some ts \<Rightarrow>
             (case open_bracket c p ts num_tokens of (e, p', ts') \<Rightarrow> (e, count + 1, p', Some ts')))
      else if c = CHR ''}'' \<or> c = CHR '']'' then
        (case toks of
           None \<Rightarrow> (None, count, p, None)
         | Some ts \<Rightarrow> (case close_bracket c p ts of (e, p', ts') \<Rightarrow> (e, count, p', Some ts')))
      else if c = CHR 0x22 then
        (case jsmn_parse_string p js len toks num_tokens of
           (Some e, p', toks') \<Rightarrow> (Some e, count, p', toks')
         | (None, p', toks') \<Rightarrow> (None, count + 1, p', map_option (inc_super p') toks'))
      else if c = CHR 0x09 \<or> c = CHR 0x0D \<or> c = CHR 0x0A \<or> c = CHR '' '' then
        (None, count, p, toks)
      else if c = CHR '':'' then
        (None, count, p\<lparr>toksuper := int (toknext p) - 1\<rparr>, toks)
      else if c = CHR '','' then
        (None, count, comma p toks, toks)
      else
        (case jsmn_parse_primitive p js len toks num_tokens of
           (Some e, p', toks') \<Rightarrow> (Some e, count, p', toks')
         | (None, p', toks') \<Rightarrow> (None, count + 1, p', map_option (inc_super p') toks')))"

text \<open>The parser's position never moves backwards within a turn that succeeds.\<close>

declare prim_scan.simps [simp del] str_scan.simps [simp del]

lemma prim_scan_le [scan_le]: "prim_scan js len i = Some k \<Longrightarrow> i \<le> k"
proof (induction js len i rule: prim_scan.induct)
  case (1 js len i)
  then show ?case
    by (subst (asm) (2) prim_scan.simps) (auto split: if_splits)
qed

lemma prim_scan_gt:
  assumes "prim_scan js len i = Some k" "i < len" "cread js i \<noteq> CHR 0x00"
    "\<not> prim_delim (cread js i)"
  shows "i < k"
  using assms prim_scan_le [of js len "Suc i" k]
  by (subst (asm) prim_scan.simps) (auto split: if_splits)

lemma str_scan_le [scan_le]: "str_scan js len i = Str_Quote q \<Longrightarrow> i \<le> q"
proof (induction js len i rule: str_scan.induct)
  case (1 js len i)
  show ?case
  proof (cases "hex_scan js len 4 (Suc (i + 1))")
    case None
    with 1 show ?thesis
      by (subst (asm) (4) str_scan.simps) (fastforce simp: Let_def split: if_splits)
  next
    case (Some k)
    then have "Suc (i + 1) \<le> k" by (rule hex_scan_le)
    with 1 Some show ?thesis
      by (subst (asm) (4) str_scan.simps) (fastforce simp: Let_def split: if_splits)
  qed
qed

lemma jsmn_parse_primitive_pos:
  assumes "jsmn_parse_primitive p js len toks n = (None, p', toks')"
    "pos p < len" "cread js (pos p) \<noteq> CHR 0x00" "\<not> prim_delim (cread js (pos p))"
  shows "pos p \<le> pos p'"
  using assms
  by (auto simp: jsmn_parse_primitive_def Let_def jsmn_alloc_token_def
      dest!: prim_scan_gt split: option.splits if_splits)

lemma jsmn_parse_string_pos:
  assumes "jsmn_parse_string p js len toks n = (None, p', toks')"
  shows "pos p < pos p'"
  using assms
  by (auto simp: jsmn_parse_string_def Let_def jsmn_alloc_token_def
      dest!: str_scan_le split: option.splits if_splits str_scan_result.splits)

lemma jsmn_step_pos [scan_le]:
  assumes "jsmn_step js len n count p toks = (None, count', p', toks')"
    "pos p < len" "cread js (pos p) \<noteq> CHR 0x00"
  shows "pos p \<le> pos p'"
proof -
  note 1 = jsmn_parse_primitive_pos [of p js len toks n p'] and
    2 = jsmn_parse_string_pos [of p js len toks n p']
  show ?thesis
    using assms
    by (auto simp: jsmn_step_def Let_def open_bracket_def close_bracket_def comma_def
        jsmn_alloc_token_def prim_delim_def split: if_splits option.splits prod.splits
        dest!: 1 2)
qed

function jsmn_loop ::
    "string \<Rightarrow> nat \<Rightarrow> nat \<Rightarrow> nat \<Rightarrow> jsmn_parser \<Rightarrow> tokens option
      \<Rightarrow> (jsmnerr + nat) \<times> jsmn_parser \<times> tokens option" where
  "jsmn_loop js len num_tokens count p toks =
     (if pos p < len \<and> cread js (pos p) \<noteq> CHR 0x00 then
        (case jsmn_step js len num_tokens count p toks of
           (Some e, count', p', toks') \<Rightarrow> (Inl e, p', toks')
         | (None, count', p', toks') \<Rightarrow>
             jsmn_loop js len num_tokens count' (p'\<lparr>pos := Suc (pos p')\<rparr>) toks')
      else (Inr count, p, toks))"
  by pat_completeness auto
termination
  by (relation "measure (\<lambda>(js, len, n, count, p, toks). len - pos p)")
    (auto dest!: jsmn_step_pos [OF sym])

declare jsmn_loop.simps [simp del]

definition jsmn_parse ::
    "jsmn_parser \<Rightarrow> string \<Rightarrow> nat \<Rightarrow> tokens option \<Rightarrow> nat
      \<Rightarrow> (jsmnerr + nat) \<times> jsmn_parser \<times> tokens option" where
  "jsmn_parse p js len toks num_tokens =
     (case jsmn_loop js len num_tokens (toknext p) p toks of
        (Inl e, p', toks') \<Rightarrow> (Inl e, p', toks')
      | (Inr count, p', None) \<Rightarrow> (Inr count, p', None)
      | (Inr count, p', Some ts) \<Rightarrow>
          (case find_last is_open ts (toknext p') of
             Some i \<Rightarrow> (Inl JSMN_ERROR_PART, p', Some ts)
           | None \<Rightarrow> (Inr count, p', Some ts)))"

section \<open>What a token delimits\<close>

text \<open>
  The body of a string literal, as the string scanner accepts it: plain characters,
  two-character escapes and \<open>\u\<close> with exactly four hexadecimal digits.
\<close>

inductive json_str :: "string \<Rightarrow> bool" where
  json_str_Nil: "json_str []"
| json_str_plain:
    "\<lbrakk>c \<noteq> CHR 0x22; c \<noteq> CHR 0x5C; c \<noteq> CHR 0x00; json_str s\<rbrakk> \<Longrightarrow> json_str (c # s)"
| json_str_escape: "\<lbrakk>simple_escape c; json_str s\<rbrakk> \<Longrightarrow> json_str (CHR 0x5C # c # s)"
| json_str_unicode:
    "\<lbrakk>length ds = 4; list_all is_hex ds; json_str s\<rbrakk> \<Longrightarrow> json_str (CHR 0x5C # CHR ''u'' # ds @ s)"

definition prim_text :: "string \<Rightarrow> bool" where
  "prim_text s \<longleftrightarrow> s \<noteq> [] \<and> list_all (\<lambda>c. \<not> prim_delim c \<and> \<not> prim_invalid c) s"

text \<open>The scanners accept exactly these texts.\<close>

lemma hex_scan_spec:
  assumes "hex_scan js len n k = Some k'" "k' < len" "cread js k' \<noteq> CHR 0x00"
  shows "k' = k + n \<and> list_all is_hex (substr js k k') \<and> length (substr js k k') = n"
  using assms
proof (induction n arbitrary: k)
  case (Suc n)
  then have h: "k < len" "cread js k \<noteq> CHR 0x00" "is_hex (cread js k)"
    "hex_scan js len n (Suc k) = Some k'" by (auto split: if_splits)
  with Suc.IH Suc.prems have "k' = Suc k + n \<and> list_all is_hex (substr js (Suc k) k') \<and>
    length (substr js (Suc k) k') = n" by blast
  with h substr_Cons [of k k' js] show ?case by auto
qed simp

lemma str_scan_quote:
  assumes "str_scan js len i = Str_Quote q"
  shows "q < len \<and> cread js q = CHR 0x22 \<and> json_str (substr js i q)"
  using assms
proof (induction js len i rule: str_scan.induct)
  case (1 js len i)
  let ?c = "cread js i" and ?d = "cread js (i + 1)"
  have in_text: "i < len" "?c \<noteq> CHR 0x00"
    using "1.prems" by (subst (asm) str_scan.simps, auto split: if_splits)+
  consider (quote) "?c = CHR 0x22" "q = i"
    | (plain) "?c \<noteq> CHR 0x22" "\<not> (?c = CHR 0x5C \<and> i + 1 < len)" "str_scan js len (Suc i) = Str_Quote q"
    | (esc) "?c = CHR 0x5C" "i + 1 < len" "simple_escape ?d" "str_scan js len (Suc (i + 1)) = Str_Quote q"
    | (uni) k where "?c = CHR 0x5C" "i + 1 < len" "\<not> simple_escape ?d" "?d = CHR ''u''"
        "hex_scan js len 4 (Suc (i + 1)) = Some k" "str_scan js len (Suc (u32_dec k)) = Str_Quote q"
    using "1.prems" in_text
    by (subst (asm) str_scan.simps) (auto simp: Let_def split: if_splits option.splits)
  then show ?case
  proof cases
    case quote
    with in_text show ?thesis by (simp add: json_str_Nil)
  next
    case plain
    have IH: "q < len \<and> cread js q = CHR 0x22 \<and> json_str (substr js (Suc i) q)"
      using "1.IH"(3) [OF _ refl] in_text plain by blast
    have "Suc i \<le> q" using plain(3) by (rule str_scan_le)
    with IH have "?c \<noteq> CHR 0x5C" using plain(2) by auto
    with IH in_text plain \<open>Suc i \<le> q\<close> show ?thesis
      by (simp add: substr_Cons [of i q js] json_str_plain)
  next
    case esc
    have IH: "q < len \<and> cread js q = CHR 0x22 \<and> json_str (substr js (Suc (i + 1)) q)"
      using "1.IH"(1) [OF _ refl] in_text esc by auto
    have "Suc (i + 1) \<le> q" using esc(4) by (rule str_scan_le)
    moreover have "?d \<noteq> CHR 0x00" using esc(3) by (auto simp: simple_escape_def)
    ultimately have "substr js i q = CHR 0x5C # ?d # substr js (Suc (i + 1)) q"
      using esc(1) by (simp add: substr_Cons)
    with IH esc(3) show ?thesis by (simp add: json_str_escape)
  next
    case (uni k)
    have le: "Suc (i + 1) \<le> k" using uni(5) by (rule hex_scan_le)
    then have sk: "str_scan js len k = Str_Quote q" using uni(6) by simp
    then have "k \<le> q" "k < len" "cread js k \<noteq> CHR 0x00"
      using str_scan_le [OF sk] by (subst (asm) str_scan.simps, auto split: if_splits)+
    then have ds: "list_all is_hex (substr js (Suc (i + 1)) k)" "length (substr js (Suc (i + 1)) k) = 4"
      using hex_scan_spec [OF uni(5)] by auto
    have IH: "q < len \<and> cread js q = CHR 0x22 \<and> json_str (substr js k q)"
      using "1.IH"(2) [OF _ refl] in_text uni le by auto
    have "substr js i q = CHR 0x5C # CHR ''u'' # substr js (Suc (i + 1)) k @ substr js k q"
      using uni(1,4) le \<open>k \<le> q\<close> by (simp add: substr_Cons substr_append [of "Suc (Suc i)" k q])
    with IH ds show ?thesis by (simp add: json_str_unicode)
  qed
qed

lemma hex_scan_digits:
  assumes "drop k js = ds @ rest" "list_all is_hex ds" "k + length ds \<le> len"
  shows "hex_scan js len (length ds) k = Some (k + length ds)"
  using assms
proof (induction ds arbitrary: k)
  case (Cons d ds)
  have "d \<noteq> CHR 0x00" using Cons.prems(2) by (auto simp: is_hex_def)
  with Cons cread_drop [of k js d "ds @ rest"] show ?case by auto
qed simp

lemma str_scan_complete:
  assumes "json_str s" "drop i js = s @ CHR 0x22 # rest" "i + length s < len"
  shows "str_scan js len i = Str_Quote (i + length s)"
  using assms
proof (induction s arbitrary: i rule: json_str.induct)
  case json_str_Nil
  then show ?case using cread_drop [of i js] by (subst str_scan.simps) auto
next
  case (json_str_plain c s)
  then show ?case using cread_drop [of i js c "s @ CHR 0x22 # rest"] 
    by (subst str_scan.simps) auto
next
  case (json_str_escape c s)
  note 1 = cread_drop [of i js "CHR 0x5C" "c # s @ CHR 0x22 # rest"]
  note 2 = cread_drop [of "Suc i" js c "s @ CHR 0x22 # rest"]
  show ?case using json_str_escape 1 2 by (subst str_scan.simps) (auto simp: Let_def)
next
  case (json_str_unicode ds s)
  have d: "drop i js = CHR 0x5C # CHR ''u'' # ds @ s @ CHR 0x22 # rest"
    using json_str_unicode.prems(1) by simp
  note 1 = cread_drop [OF d]
  note 2 = cread_drop [OF 1(2)]
  have hex: "hex_scan js len 4 (Suc (Suc i)) = Some (Suc (Suc i) + 4)"
    using hex_scan_digits [OF 2(2)] json_str_unicode by simp
  have "drop (i + 6) js = drop 4 (drop (Suc (Suc i)) js)" by (simp add: add.commute)
  also have "\<dots> = s @ CHR 0x22 # rest" using 2(2) json_str_unicode.hyps(1) by simp
  finally have "str_scan js len (i + 6) = Str_Quote (i + 6 + length s)"
    using json_str_unicode by simp
  then show ?case using json_str_unicode 1 2 hex
    by (subst str_scan.simps) (auto simp: Let_def simple_escape_def eval_nat_numeral)
qed

lemma prim_scan_text:
  assumes "prim_scan js len i = Some k" "i < k"
  shows "prim_text (substr js i k) \<and> k \<le> len"
  using assms
proof (induction js len i rule: prim_scan.induct)
  case (1 js len i)
  have h: "i < len" "cread js i \<noteq> CHR 0x00" "\<not> prim_delim (cread js i)"
    "\<not> prim_invalid (cread js i)" "prim_scan js len (Suc i) = Some k"
    using "1.prems" by (subst (asm) prim_scan.simps, auto split: if_splits)+
  show ?case
  proof (cases "Suc i = k")
    case True
    with h show ?thesis by (simp add: substr_Cons prim_text_def)
  next
    case False
    with "1.prems" have "Suc i < k" by simp
    with h "1.IH" have "prim_text (substr js (Suc i) k) \<and> k \<le> len" by blast
    with h "1.prems" show ?thesis by (simp add: substr_Cons [of i k] prim_text_def)
  qed
qed

text \<open>
  \<open>tok_text js b t\<close>: token \<open>t\<close> describes text of \<open>js\<close> in front of position \<open>b\<close> of the
  kind its type says; only an object or an array may still be open.
\<close>

definition bracketed :: "char \<Rightarrow> char \<Rightarrow> string \<Rightarrow> nat \<Rightarrow> jsmntok_t \<Rightarrow> bool" where
  "bracketed l r js b t \<longleftrightarrow>
     0 \<le> tstart t \<and> tstart t < int b \<and> cread js (nat (tstart t)) = l \<and>
     (tend t = -1 \<or>
      tstart t + 2 \<le> tend t \<and> tend t \<le> int b \<and> cread js (nat (tend t) - 1) = r)"

definition tok_text :: "string \<Rightarrow> nat \<Rightarrow> jsmntok_t \<Rightarrow> bool" where
  "tok_text js b t \<longleftrightarrow>
     (case ttype t of
        JSMN_UNDEFINED \<Rightarrow> False
      | JSMN_OBJECT \<Rightarrow> bracketed CHR ''{'' CHR ''}'' js b t
      | JSMN_ARRAY \<Rightarrow> bracketed CHR ''['' CHR '']'' js b t
      | JSMN_STRING \<Rightarrow>
          1 \<le> tstart t \<and> tstart t \<le> tend t \<and> tend t < int b \<and>
          cread js (nat (tstart t) - 1) = CHR 0x22 \<and> cread js (nat (tend t)) = CHR 0x22 \<and>
          json_str (substr js (nat (tstart t)) (nat (tend t)))
      | JSMN_PRIMITIVE \<Rightarrow>
          0 \<le> tstart t \<and> tstart t < tend t \<and> tend t \<le> int b \<and>
          prim_text (substr js (nat (tstart t)) (nat (tend t))))"

text \<open>Tokens are laid out in the order of their starts, and either nested or disjoint.\<close>

definition tok_before :: "jsmntok_t \<Rightarrow> jsmntok_t \<Rightarrow> bool" where
  "tok_before t u \<longleftrightarrow>
     tstart t < tstart u \<and>
     (tend t = -1 \<or> tend t \<le> tstart u \<or> (tend u \<noteq> -1 \<and> tend u \<le> tend t))"

definition jsmn_inv :: "string \<Rightarrow> nat \<Rightarrow> nat \<Rightarrow> jsmn_parser \<Rightarrow> tokens \<Rightarrow> bool" where
  "jsmn_inv js n b p ts \<longleftrightarrow>
     toknext p \<le> n \<and> n \<le> length ts \<and> -1 \<le> toksuper p \<and> toksuper p < int (toknext p) \<and>
     (\<forall>i < toknext p. tok_text js b (ts ! i)) \<and>
     (\<forall>i j. i < j \<and> j < toknext p \<longrightarrow> tok_before (ts ! i) (ts ! j))"

section \<open>The invariant\<close>

definition same_span :: "jsmntok_t \<Rightarrow> jsmntok_t \<Rightarrow> bool" where
  "same_span t u \<longleftrightarrow> ttype t = ttype u \<and> tstart t = tstart u \<and> tend t = tend u"

lemma tok_text_mono: "\<lbrakk>tok_text js b t; b \<le> b'\<rbrakk> \<Longrightarrow> tok_text js b' t"
  by (auto simp: tok_text_def bracketed_def split: jsmntype_t.splits)

lemma tok_text_bounds:
  assumes "tok_text js b t"
  shows "0 \<le> tstart t" "tstart t < int b" "tend t \<le> int b" "tend t = -1 \<or> tstart t \<le> tend t"
  using assms by (auto simp: tok_text_def bracketed_def split: jsmntype_t.splits)

lemma tok_text_open:
  assumes "tok_text js b t" "tend t = -1"
  shows "is_container t"
  using assms by (auto simp: tok_text_def is_container_def split: jsmntype_t.splits)

lemma same_span_text: "same_span t u \<Longrightarrow> tok_text js b t = tok_text js b u"
  by (auto simp: same_span_def tok_text_def bracketed_def split: jsmntype_t.splits)

lemma same_span_before:
  "\<lbrakk>same_span t t'; same_span u u'\<rbrakk> \<Longrightarrow> tok_before t u = tok_before t' u'"
  by (simp add: same_span_def tok_before_def)

lemma jsmn_inv_cong:
  assumes "jsmn_inv js n b p ts" "length ts' = length ts" "toknext p' = toknext p"
    "\<And>i. i < toknext p \<Longrightarrow> same_span (ts' ! i) (ts ! i)"
    "-1 \<le> toksuper p'" "toksuper p' < int (toknext p)" "b \<le> b'"
  shows "jsmn_inv js n b' p' ts'"
proof -
  have "tok_text js b' (ts' ! i)" if "i < toknext p" for i
  proof -
    have "tok_text js b (ts ! i)" using assms(1) that by (simp add: jsmn_inv_def)
    then show ?thesis using same_span_text [OF assms(4) [OF that]] tok_text_mono assms(7) by blast
  qed
  moreover have "tok_before (ts' ! i) (ts' ! j)" if "i < j" "j < toknext p" for i j
  proof -
    have "tok_before (ts ! i) (ts ! j)" using assms(1) that by (simp add: jsmn_inv_def)
    moreover have "i < toknext p" using that by simp
    ultimately show ?thesis using same_span_before assms(4) that(2) by blast
  qed
  ultimately show ?thesis using assms(1,2,3,5,6) by (simp add: jsmn_inv_def)
qed

lemma same_span_update: "same_span u (ts ! j) \<Longrightarrow> same_span (ts[j := u] ! i) (ts ! i)"
  by (cases "j < length ts"; cases "i = j") (simp_all add: same_span_def list_update_beyond)

lemma inc_super_frame [frame]:
  shows "length (inc_super p ts) = length ts"
    and "same_span (inc_super p ts ! i) (ts ! i)"
    and "jsmn_inv js n b p ts \<Longrightarrow> drop (toknext p) (inc_super p ts) = drop (toknext p) ts"
proof -
  show "length (inc_super p ts) = length ts" by (simp add: inc_super_def)
  have "same_span ((ts ! nat (toksuper p))\<lparr>tsize := k\<rparr>) (ts ! nat (toksuper p))" for k
    by (simp add: same_span_def)
  then show "same_span (inc_super p ts ! i) (ts ! i)"
    by (simp add: inc_super_def same_span_update) (simp add: same_span_def)
  show "drop (toknext p) (inc_super p ts) = drop (toknext p) ts" if "jsmn_inv js n b p ts"
    using that by (auto simp: inc_super_def jsmn_inv_def nat_less_iff)
qed

lemma jsmn_inv_push:
  assumes "jsmn_inv js n b p ts" "toknext p < n" "tok_text js b' t" "int b \<le> tstart t" "b \<le> b'"
    "toknext p' = Suc (toknext p)" "-1 \<le> toksuper p'" "toksuper p' \<le> int (toknext p)"
    "length ts' = length ts" "same_span (ts' ! toknext p) t"
    "\<And>i. i < toknext p \<Longrightarrow> same_span (ts' ! i) (ts ! i)"
  shows "jsmn_inv js n b' p' ts'"
proof -
  have old: "tok_text js b (ts ! i)" if "i < toknext p" for i
    using assms(1) that by (simp add: jsmn_inv_def)
  have texts: "tok_text js b' (ts' ! i)" if "i < toknext p'" for i
  proof (cases "i = toknext p")
    case True
    then show ?thesis using same_span_text [OF assms(10)] assms(3) by simp
  next
    case False
    with that assms(6) have "i < toknext p" by simp
    then show ?thesis
      using same_span_text [OF assms(11)] tok_text_mono [OF old assms(5)] by blast
  qed
  have ordered: "tok_before (ts' ! i) (ts' ! j)" if "i < j" "j < toknext p'" for i j
  proof (cases "j = toknext p")
    case True
    with that have "i < toknext p" by simp
    then have "tok_before (ts ! i) t"
      using tok_text_bounds [OF old] assms(4) by (force simp: tok_before_def)
    with True \<open>i < toknext p\<close> show ?thesis
      using assms(10) assms(11) [of i] same_span_before by blast
  next
    case False
    with that assms(6) have "j < toknext p" by simp
    with that assms(1) have "tok_before (ts ! i) (ts ! j)" by (simp add: jsmn_inv_def)
    with \<open>j < toknext p\<close> that(1) show ?thesis 
      using same_span_before [OF assms(11) assms(11), of i j] by simp
  qed
  from assms(1) have "n \<le> length ts" by (simp add: jsmn_inv_def)
  with texts ordered assms(2,6-9) show ?thesis by (simp add: jsmn_inv_def)
qed

lemma find_last_Some:
  "find_last P ts k = Some i \<Longrightarrow> i < k \<and> P (ts ! i) \<and> (\<forall>j. i < j \<and> j < k \<longrightarrow> \<not> P (ts ! j))"
  by (induction k) (auto split: if_splits simp: less_Suc_eq)

lemma find_last_None: "find_last P ts k = None \<longleftrightarrow> (\<forall>j < k. \<not> P (ts ! j))"
  by (induction k) (auto simp: less_Suc_eq)

lemma jsmn_inv_close:
  assumes "jsmn_inv js n b p ts" "find_last is_open ts (toknext p) = Some i"
    "tok_text js b' ((ts ! i)\<lparr>tend := int b'\<rparr>)" "b \<le> b'"
    "toknext p' = toknext p" "-1 \<le> toksuper p'" "toksuper p' < int (toknext p)"
  shows "jsmn_inv js n b' p' (ts[i := (ts ! i)\<lparr>tend := int b'\<rparr>])" (is "jsmn_inv _ _ _ _ ?ts")
proof -
  note i = find_last_Some [OF assms(2)]
  have len: "toknext p \<le> length ts" using assms(1) by (simp add: jsmn_inv_def)
  have texts: "tok_text js b (ts ! j)" if "j < toknext p" for j
    using assms(1) that by (simp add: jsmn_inv_def)
  have ordered: "tok_before (ts ! j) (ts ! k)" if "j < k" "k < toknext p" for j k
    using assms(1) that by (simp add: jsmn_inv_def)
  have "tok_before (ts ! j) ((ts ! i)\<lparr>tend := int b'\<rparr>)" if "j < i" for j
    using ordered [OF that] i by (auto simp: tok_before_def is_open_def)
  moreover have "tok_before ((ts ! i)\<lparr>tend := int b'\<rparr>) (ts ! k)" if "i < k" "k < toknext p" for k
    using ordered [OF that] i texts [OF that(2)] tok_text_bounds [OF texts [OF that(2)]] that assms(4)
    by (auto simp: tok_before_def is_open_def)
  ultimately have ord: "tok_before (?ts ! j) (?ts ! k)" if "j < k" "k < toknext p" for j k
    using that i len ordered [OF that] by (auto simp: nth_list_update)
  have "tok_text js b' (?ts ! j)" if "j < toknext p" for j
    using assms(3) tok_text_mono [OF texts [OF that] assms(4)] i len by (auto simp: nth_list_update)
  with ord show ?thesis using assms(1,5-7) by (simp add: jsmn_inv_def)
qed

lemma jsmn_inv_pos [simp]: "jsmn_inv js n b (p\<lparr>pos := x\<rparr>) ts = jsmn_inv js n b p ts"
  by (simp add: jsmn_inv_def)

lemma jsmn_inv_update_pos:
  "jsmn_inv js n b p ts \<Longrightarrow> b \<le> b' \<Longrightarrow> jsmn_inv js n b' p ts"
  by (rule jsmn_inv_cong) (auto simp: same_span_def jsmn_inv_def)

text \<open>
  The parser between two turns: \<open>ts0\<close> is the array the caller passed. Everything
  at and above \<open>toknext\<close> is as the caller left it.
\<close>

definition jsmn_state ::
    "string \<Rightarrow> nat \<Rightarrow> nat \<Rightarrow> tokens \<Rightarrow> nat \<Rightarrow> jsmn_parser \<Rightarrow> tokens \<Rightarrow> bool" where
  "jsmn_state js len n ts0 count p ts \<longleftrightarrow>
     jsmn_inv js n (pos p) p ts \<and> pos p \<le> len \<and> count = toknext p \<and>
     length ts = length ts0 \<and> drop (toknext p) ts = drop (toknext p) ts0"

lemma open_bracket_ok:
  assumes "jsmn_inv js n (pos p) p ts" "open_bracket c p ts n = (None, p', ts')"
    "c = cread js (pos p)" "c = CHR ''{'' \<or> c = CHR ''[''"
  shows "jsmn_inv js n (Suc (pos p')) p' ts' \<and> pos p' = pos p \<and> toknext p' = Suc (toknext p) \<and>
    length ts' = length ts \<and> drop (toknext p') ts' = drop (toknext p') ts"
proof -
  let ?k = "toknext p"
  let ?p1 = "p\<lparr>toknext := Suc ?k\<rparr>"
  let ?ts1 = "ts[?k := (ts ! ?k)\<lparr>tstart := -1, tend := -1, tsize := 0\<rparr>]"
  let ?ts2 = "inc_super ?p1 ?ts1"
  let ?t = "(?ts2 ! ?k)\<lparr>ttype := (if c = CHR ''{'' then JSMN_OBJECT else JSMN_ARRAY), tstart := int (pos p)\<rparr>"
  have k: "?k < n" and p': "p' = ?p1\<lparr>toksuper := int ?k\<rparr>" and ts': "ts' = ?ts2[?k := ?t]"
    using assms(2) by (auto simp: open_bracket_def jsmn_alloc_token_def Let_def split: if_splits)
  have len: "n \<le> length ts" and sup: "-1 \<le> toksuper p" "toksuper p < int ?k"
    using assms(1) by (auto simp: jsmn_inv_def)
  have "tend (?ts2 ! ?k) = -1"
    using inc_super_frame(2) [of ?p1 ?ts1 ?k] k len by (simp add: same_span_def)
  then have "tok_text js (Suc (pos p)) ?t"
    using assms(3,4) by (auto simp: tok_text_def bracketed_def)
  moreover have "same_span (ts' ! i) (ts ! i)" if "i < ?k" for i
    using that inc_super_frame(2) [of ?p1 ?ts1 i] by (simp add: ts')
  moreover have "drop (Suc ?k) ts' = drop (Suc ?k) ts"
    using sup by (auto simp: ts' inc_super_def nat_less_iff)
  ultimately show ?thesis
    using k len p' by (auto intro!: jsmn_inv_push [OF assms(1) k, of "Suc (pos p)" ?t]
        simp: ts' inc_super_frame(1) same_span_def)
qed

lemma fill_ok:
  assumes "jsmn_inv js n b p ts" "jsmn_alloc_token p0 ts n = Some (k, p1, ts1)"
    "toknext p0 = toknext p" "toksuper p0 = toksuper p" "toknext p1 = toknext p'" "toksuper p1 = toksuper p'"
    "tok_text js b' (jsmn_fill_token (ts1 ! k) ty s e)" "int b \<le> s" "b \<le> b'"
    "ts' = ts1[k := jsmn_fill_token (ts1 ! k) ty s e]"
  shows "jsmn_inv js n b' p' (inc_super p' ts') \<and> toknext p' = Suc (toknext p) \<and>
    length (inc_super p' ts') = length ts \<and> drop (toknext p') (inc_super p' ts') = drop (toknext p') ts"
proof -
  have k: "toknext p < n" "k = toknext p" "toknext p' = Suc (toknext p)" "toksuper p' = toksuper p"
    and ts1: "ts1 = ts[k := (ts ! k)\<lparr>tstart := -1, tend := -1, tsize := 0\<rparr>]"
    using assms(2-6) by (auto simp: jsmn_alloc_token_def Let_def split: if_splits)
  have len: "n \<le> length ts" and sup: "-1 \<le> toksuper p" "toksuper p < int (toknext p)"
    using assms(1) by (auto simp: jsmn_inv_def)
  have inv: "jsmn_inv js n b' p' ts'"
    by (rule jsmn_inv_push [OF assms(1) k(1) assms(7)])
      (use assms(8,9) k sup len in \<open>auto simp: assms(10) ts1 jsmn_fill_token_def same_span_def\<close>)
  then have "jsmn_inv js n b' p' (inc_super p' ts')"
    by (rule jsmn_inv_cong) (use sup k in \<open>auto simp: inc_super_frame\<close>)
  moreover have "drop (toknext p') (inc_super p' ts') = drop (toknext p') ts'"
    using inv by (rule inc_super_frame(3))
  ultimately show ?thesis using k by (simp add: inc_super_frame(1) assms(10) ts1)
qed

lemma jsmn_parse_string_ok:
  assumes "jsmn_inv js n (pos p) p ts" "jsmn_parse_string p js len (Some ts) n = (None, p', toks')"
    "cread js (pos p) = CHR 0x22"
  shows "\<exists>ts'. toks' = Some ts' \<and> jsmn_inv js n (Suc (pos p')) p' (inc_super p' ts') \<and>
    pos p' < len \<and> toknext p' = Suc (toknext p) \<and> length (inc_super p' ts') = length ts \<and>
    drop (toknext p') (inc_super p' ts') = drop (toknext p') ts"
proof -
  obtain q k ts1 where q: "str_scan js len (Suc (pos p)) = Str_Quote q"
    and a: "jsmn_alloc_token (p\<lparr>pos := q\<rparr>) ts n = Some (k, p', ts1)"
    and toks': "toks' = Some (ts1[k := jsmn_fill_token (ts1 ! k) JSMN_STRING (int (pos p) + 1) (int q)])"
    using assms(2) by (auto simp: jsmn_parse_string_def Let_def split: str_scan_result.splits option.splits)
  have pos: "pos p' = q" using a by (auto simp: jsmn_alloc_token_def Let_def split: if_splits)
  note sc = str_scan_quote [OF q] str_scan_le [OF q]
  then have tt: "tok_text js (Suc q) (jsmn_fill_token t JSMN_STRING (int (pos p) + 1) (int q))" for t
    using assms(3) by (simp add: tok_text_def jsmn_fill_token_def nat_add_distrib)
  show ?thesis using fill_ok [OF assms(1) a _ _ refl refl tt _ _ refl] sc by (auto simp: toks' pos)
qed

lemma jsmn_parse_primitive_ok:
  assumes "jsmn_inv js n (pos p) p ts" "jsmn_parse_primitive p js len (Some ts) n = (None, p', toks')"
    "pos p < len" "cread js (pos p) \<noteq> CHR 0x00" "\<not> prim_delim (cread js (pos p))"
  shows "\<exists>ts'. toks' = Some ts' \<and> jsmn_inv js n (Suc (pos p')) p' (inc_super p' ts') \<and>
    pos p' < len \<and> toknext p' = Suc (toknext p) \<and> length (inc_super p' ts') = length ts \<and>
    drop (toknext p') (inc_super p' ts') = drop (toknext p') ts"
proof -
  obtain e k p1 ts1 where e: "prim_scan js len (pos p) = Some e"
    and a: "jsmn_alloc_token (p\<lparr>pos := e\<rparr>) ts n = Some (k, p1, ts1)"
    and p': "p' = p1\<lparr>pos := u32_dec e\<rparr>"
    and toks': "toks' = Some (ts1[k := jsmn_fill_token (ts1 ! k) JSMN_PRIMITIVE (int (pos p)) (int e)])"
    using assms(2) by (auto simp: jsmn_parse_primitive_def Let_def split: option.splits)
  have gt: "pos p < e" by (rule prim_scan_gt [OF e assms(3-5)])
  note sc = prim_scan_text [OF e gt]
  then have tt: "tok_text js e (jsmn_fill_token t JSMN_PRIMITIVE (int (pos p)) (int e))" for t
    using gt by (simp add: tok_text_def jsmn_fill_token_def)
  show ?thesis using fill_ok [OF assms(1) a _ _ _ _ tt _ _ refl, of p'] sc gt by (auto simp: toks' p')
qed


lemma close_bracket_ok:
  assumes "jsmn_inv js n (pos p) p ts" "close_bracket c p ts = (None, p', ts')"
    "c = cread js (pos p)" "c = CHR ''}'' \<or> c = CHR '']''"
  shows "jsmn_inv js n (Suc (pos p')) p' ts' \<and> pos p' = pos p \<and> toknext p' = toknext p \<and>
    length ts' = length ts \<and> drop (toknext p') ts' = drop (toknext p') ts"
proof -
  let ?ty = "if c = CHR ''}'' then JSMN_OBJECT else JSMN_ARRAY"
  obtain i where i: "find_last is_open ts (toknext p) = Some i" and ty: "ttype (ts ! i) = ?ty"
    and ts': "ts' = ts[i := (ts ! i)\<lparr>tend := int (Suc (pos p))\<rparr>]"
    and p': "p' = p\<lparr>toksuper := (case find_last is_open ts' (Suc i) of None \<Rightarrow> -1 | Some k \<Rightarrow> int k)\<rparr>"
    using assms(2) by (auto simp: close_bracket_def Let_def algebra_simps split: option.splits if_splits)
  note last = find_last_Some [OF i]
  have "toksuper p' < int (toknext p)" "-1 \<le> toksuper p'"
    using last by (auto simp: p' dest!: find_last_Some split: option.splits)
  moreover have "tok_text js (Suc (pos p)) ((ts ! i)\<lparr>tend := int (Suc (pos p))\<rparr>)"
  proof -
    have "tok_text js (pos p) (ts ! i)" using assms(1) last by (simp add: jsmn_inv_def)
    then show ?thesis using ty assms(3,4)
      by (auto simp: tok_text_def bracketed_def nat_add_distrib split: if_splits)
  qed
  ultimately have "jsmn_inv js n (Suc (pos p)) p' ts'"
    unfolding ts' by (intro jsmn_inv_close [OF assms(1) i]) (auto simp: p')
  then show ?thesis using last by (simp add: p' ts')
qed

lemma comma_ok:
  assumes "jsmn_inv js n b p ts"
  shows "jsmn_inv js n b (comma p (Some ts)) ts \<and> pos (comma p (Some ts)) = pos p \<and>
    toknext (comma p (Some ts)) = toknext p"
  using assms
  by (auto simp: comma_def jsmn_inv_def dest!: find_last_Some split: option.splits)

lemma jsmn_step_ok [inv_pres]:
  assumes st: "jsmn_state js len n ts0 count p ts"
    and step: "jsmn_step js len n count p (Some ts) = (None, count', p', toks')"
    and here: "pos p < len" "cread js (pos p) \<noteq> CHR 0x00"
  shows "\<exists>ts'. toks' = Some ts' \<and> jsmn_state js len n ts0 count' (p'\<lparr>pos := Suc (pos p')\<rparr>) ts'"
proof -
  let ?c = "cread js (pos p)"
  have inv: "jsmn_inv js n (pos p) p ts" and cnt: "count = toknext p"
    and old: "length ts = length ts0" "drop (toknext p) ts = drop (toknext p) ts0"
    using st by (auto simp: jsmn_state_def)
  have drops: "drop m ts = drop m ts0" if "toknext p \<le> m" for m
  proof -
    have "drop m xs = drop (m - toknext p) (drop (toknext p) xs)" for xs :: tokens
      using that by simp
    then show ?thesis using old(2) by metis
  qed
  consider (op) "?c = CHR ''{'' \<or> ?c = CHR ''[''" | (cl) "?c = CHR ''}'' \<or> ?c = CHR '']''"
    | (str) "?c = CHR 0x22"
    | (oth) "?c = CHR 0x09 \<or> ?c = CHR 0x0D \<or> ?c = CHR 0x0A \<or> ?c = CHR '' '' \<or> ?c = CHR '':'' \<or> ?c = CHR '',''"
    | (prim) "\<not> prim_delim ?c" "?c \<noteq> CHR 0x22" "?c \<noteq> CHR ''{''" "?c \<noteq> CHR ''[''"
    by (auto simp: prim_delim_def)
  then show ?thesis
  proof cases
    case op
    then obtain ts' where "open_bracket ?c p ts n = (None, p', ts')" "count' = count + 1" "toks' = Some ts'"
      using step by (auto simp: jsmn_step_def Let_def split: prod.splits)
    with open_bracket_ok [OF inv _ refl op] here(1) cnt old drops show ?thesis
      by (auto simp: jsmn_state_def)
  next
    case cl
    then obtain ts' where "close_bracket ?c p ts = (None, p', ts')" "count' = count" "toks' = Some ts'"
      using step by (auto simp: jsmn_step_def Let_def split: prod.splits)
    with close_bracket_ok [OF inv _ refl cl] here(1) cnt old drops show ?thesis
      by (auto simp: jsmn_state_def)
  next
    case str
    then obtain t where "jsmn_parse_string p js len (Some ts) n = (None, p', t)" "count' = count + 1"
      "toks' = map_option (inc_super p') t"
      using step by (auto simp: jsmn_step_def Let_def split: prod.splits option.splits)
    with jsmn_parse_string_ok [OF inv _ str] cnt old drops show ?thesis
      by (force simp: jsmn_state_def)
  next
    case oth
    have inv': "jsmn_inv js n (Suc (pos p)) p ts" using inv by (rule jsmn_inv_update_pos) simp
    then have "jsmn_inv js n (Suc (pos p)) (p\<lparr>toksuper := int (toknext p) - 1\<rparr>) ts"
      by (simp add: jsmn_inv_def)
    with oth inv' step here(1) cnt old comma_ok [OF inv'] show ?thesis
      by (auto simp: jsmn_step_def jsmn_state_def Let_def)
  next
    case prim
    then obtain t where "jsmn_parse_primitive p js len (Some ts) n = (None, p', t)" "count' = count + 1"
      "toks' = map_option (inc_super p') t"
      using step by (auto simp: jsmn_step_def Let_def prim_delim_def split: prod.splits option.splits)
    with jsmn_parse_primitive_ok [OF inv _ here prim(1)] cnt old drops show ?thesis
      by (force simp: jsmn_state_def)
  qed
qed

lemma jsmn_step_error [frame]:
  assumes "jsmn_step js len n count p toks = (Some e, count', p', toks')"
  shows "p' = p" "toks' = toks"
  using assms
  by (auto simp: jsmn_step_def jsmn_parse_string_def jsmn_parse_primitive_def open_bracket_def
      close_bracket_def jsmn_alloc_token_def Let_def
      split: if_splits option.splits prod.splits str_scan_result.splits)

lemma jsmn_loop_ok:
  assumes "jsmn_state js len n ts0 count p ts" "jsmn_loop js len n count p (Some ts) = (r, p', toks')"
  shows "\<exists>ts'. toks' = Some ts' \<and> jsmn_state js len n ts0 (toknext p') p' ts' \<and>
    (\<forall>c. r = Inr c \<longrightarrow> c = toknext p' \<and> \<not> (pos p' < len \<and> cread js (pos p') \<noteq> CHR 0x00))"
  using assms
proof (induction js len n count p "Some ts" arbitrary: ts rule: jsmn_loop.induct)
  case (1 js len n count p ts)
  show ?case
  proof (cases "pos p < len \<and> cread js (pos p) \<noteq> CHR 0x00")
    case False
    with 1(2,3) show ?thesis by (subst (asm) jsmn_loop.simps) (auto simp: jsmn_state_def)
  next
    case here: True
    obtain e c1 p1 t1 where st: "jsmn_step js len n count p (Some ts) = (e, c1, p1, t1)"
      by (metis prod_cases4)
    show ?thesis
    proof (cases e)
      case (Some err)
      with st here 1(3) jsmn_step_error [of js len n count p "Some ts" err] have "p' = p" "toks' = Some ts" "r = Inl err"
        by (subst (asm) jsmn_loop.simps, auto)+
      with 1(2) show ?thesis by (auto simp: jsmn_state_def)
    next
      case None
      with st here obtain ts1 where t1: "t1 = Some ts1"
        and ok: "jsmn_state js len n ts0 c1 (p1\<lparr>pos := Suc (pos p1)\<rparr>) ts1"
        using jsmn_step_ok [OF 1(2)] by blast
      have "jsmn_loop js len n c1 (p1\<lparr>pos := Suc (pos p1)\<rparr>) (Some ts1) = (r, p', toks')"
        using 1(3) st here None t1 by (subst (asm) jsmn_loop.simps) simp
      with 1(1) st here None t1 ok show ?thesis by metis
    qed
  qed
qed

text \<open>Counting mode: the run without a token array makes the same turns.\<close>

lemma jsmn_step_counting:
  assumes "jsmn_step js len n count p (Some ts) = (None, count', p', toks')" "pos pc = pos p"
  shows "\<exists>pc'. jsmn_step js len m count pc None = (None, count', pc', None) \<and> pos pc' = pos p'"
  using assms
  by (auto simp: jsmn_step_def jsmn_parse_string_def jsmn_parse_primitive_def open_bracket_def
      close_bracket_def comma_def jsmn_alloc_token_def Let_def
      split: if_splits option.splits prod.splits str_scan_result.splits)

lemma jsmn_step_counting_back:
  assumes "jsmn_step js len m count pc None = (None, count', pc', None)" "pos pc = pos p"
    "jsmn_step js len n count p (Some ts) = (Some JSMN_ERROR_NOMEM, x)"
  shows "n \<le> toknext p \<and> count' = Suc count"
  using assms
  by (auto simp: jsmn_step_def jsmn_parse_string_def jsmn_parse_primitive_def open_bracket_def
      close_bracket_def comma_def jsmn_alloc_token_def Let_def
      split: if_splits option.splits prod.splits str_scan_result.splits)

lemma jsmn_step_None:
  "jsmn_step js len n count p None = (e, count', p', toks') \<Longrightarrow> toks' = None"
  by (auto simp: jsmn_step_def jsmn_parse_string_def jsmn_parse_primitive_def Let_def
      split: if_splits option.splits prod.splits str_scan_result.splits)

lemma jsmn_loop_None: "jsmn_loop js len n count p None = (r, p', toks') \<Longrightarrow> toks' = None"
proof (induction js len n count p "None :: tokens option" rule: jsmn_loop.induct)
  case (1 js len n count p)
  have go: "toks' = None"
    if "pos p < len" "cread js (pos p) \<noteq> CHR 0x00" "jsmn_step js len n count p None = (None, c1, p1, t1)"
      "jsmn_loop js len n c1 (p1\<lparr>pos := Suc (pos p1)\<rparr>) t1 = (r, p', toks')" for c1 p1 t1
    using 1(1) that jsmn_step_None [OF that(3)] by simp
  from 1(2) show ?case
    by (subst (asm) jsmn_loop.simps)
      (auto split: if_splits prod.splits option.splits dest: jsmn_step_None intro: go)
qed

lemma jsmn_loop_counting:
  assumes "jsmn_loop js len n count p (Some ts) = (Inr c, p', toks')" "pos pc = pos p"
    "jsmn_state js len n ts0 count p ts"
  shows "fst (jsmn_loop js len m count pc None) = Inr c"
  using assms
proof (induction js len n count p "Some ts" arbitrary: ts pc rule: jsmn_loop.induct)
  case (1 js len n count p ts pc)
  show ?case
  proof (cases "pos p < len \<and> cread js (pos p) \<noteq> CHR 0x00")
    case False
    with 1(2,3) show ?thesis
      by (subst (asm) jsmn_loop.simps, subst jsmn_loop.simps) auto
  next
    case here: True
    with 1(2) obtain c1 p1 t1 where st: "jsmn_step js len n count p (Some ts) = (None, c1, p1, t1)"
      and rest: "jsmn_loop js len n c1 (p1\<lparr>pos := Suc (pos p1)\<rparr>) t1 = (Inr c, p', toks')"
      by (subst (asm) jsmn_loop.simps) (auto split: prod.splits option.splits)
    obtain ts1 where t1: "t1 = Some ts1"
      and ok: "jsmn_state js len n ts0 c1 (p1\<lparr>pos := Suc (pos p1)\<rparr>) ts1"
      using jsmn_step_ok [OF 1(4) st] here by blast
    obtain pc1 where c: "jsmn_step js len m count pc None = (None, c1, pc1, None)" "pos pc1 = pos p1"
      using jsmn_step_counting [OF st 1(3)] by blast
    have "fst (jsmn_loop js len m c1 (pc1\<lparr>pos := Suc (pos pc1)\<rparr>) None) = Inr c"
      using 1(1) here st rest t1 ok c(2) by simp
    with here 1(3) c(1) show ?thesis by (subst jsmn_loop.simps) simp
  qed
qed

lemma jsmn_step_count: "jsmn_step js len n count p toks = (e, count', p', toks') \<Longrightarrow> count \<le> count'"
  by (auto simp: jsmn_step_def Let_def split: if_splits option.splits prod.splits)

lemma jsmn_loop_count:
  "fst (jsmn_loop js len n count p toks) = Inr c \<Longrightarrow> count \<le> c"
proof (induction js len n count p toks rule: jsmn_loop.induct)
  case (1 js len n count p toks)
  show ?case
  proof (cases "\<exists>c1 p1 t1. pos p < len \<and> cread js (pos p) \<noteq> CHR 0x00 \<and>
      jsmn_step js len n count p toks = (None, c1, p1, t1)")
    case True
    then obtain c1 p1 t1 where st: "pos p < len" "cread js (pos p) \<noteq> CHR 0x00"
      "jsmn_step js len n count p toks = (None, c1, p1, t1)" by blast
    then have "fst (jsmn_loop js len n c1 (p1\<lparr>pos := Suc (pos p1)\<rparr>) t1) = Inr c"
      using 1(2) by (subst (asm) jsmn_loop.simps) simp
    with 1(1) st jsmn_step_count [OF st(3)] show ?thesis by fastforce
  next
    case False
    with 1(2) show ?thesis
      by (subst (asm) jsmn_loop.simps) (auto split: if_splits option.splits prod.splits)
  qed
qed

lemma jsmn_loop_enough:
  assumes "fst (jsmn_loop js len m count pc None) = Inr c" "c \<le> n" "pos pc = pos p"
    "jsmn_state js len n ts0 count p ts"
  shows "fst (jsmn_loop js len n count p (Some ts)) \<noteq> Inl JSMN_ERROR_NOMEM"
  using assms
proof (induction js len n count p "Some ts" arbitrary: ts pc rule: jsmn_loop.induct)
  case (1 js len n count p ts pc)
  show ?case
  proof (cases "pos p < len \<and> cread js (pos p) \<noteq> CHR 0x00")
    case False
    then show ?thesis by (subst jsmn_loop.simps) auto
  next
    case here: True
    obtain e c1 p1 t1 where st: "jsmn_step js len n count p (Some ts) = (e, c1, p1, t1)"
      by (metis prod_cases4)
    from 1(2,4) here obtain c2 pc2 t2 where cst: "jsmn_step js len m count pc None = (None, c2, pc2, t2)"
      and crest: "fst (jsmn_loop js len m c2 (pc2\<lparr>pos := Suc (pos pc2)\<rparr>) t2) = Inr c"
      by (subst (asm) jsmn_loop.simps) (auto split: prod.splits option.splits)
    have t2: "t2 = None" using cst by (rule jsmn_step_None)
    show ?thesis
    proof (cases e)
      case (Some err)
      have "err \<noteq> JSMN_ERROR_NOMEM"
      proof
        assume "err = JSMN_ERROR_NOMEM"
        with jsmn_step_counting_back [of js len m count pc c2 pc2 p n ts] cst t2 1(4) st Some
        have "n \<le> toknext p" "c2 = Suc count" by auto
        moreover have "c2 \<le> c" using jsmn_loop_count [OF crest] .
        ultimately show False using 1(3,5) by (simp add: jsmn_state_def)
      qed
      with st here Some show ?thesis by (subst jsmn_loop.simps) simp
    next
      case None
      obtain ts1 where t1: "t1 = Some ts1"
        and ok: "jsmn_state js len n ts0 c1 (p1\<lparr>pos := Suc (pos p1)\<rparr>) ts1"
        using jsmn_step_ok [OF 1(5)] st None here by blast
      have "c2 = c1" "pos pc2 = pos p1"
        using jsmn_step_counting [of js len n count p ts c1 p1 t1 pc m] st None cst 1(4) by auto
      with 1(1) here st None t1 t2 crest ok 1(3) 
      have "fst (jsmn_loop js len n c1 (p1\<lparr>pos := Suc (pos p1)\<rparr>) (Some ts1)) \<noteq> Inl JSMN_ERROR_NOMEM"
        by simp
      with st here None t1 show ?thesis by (subst jsmn_loop.simps) simp
    qed
  qed
qed


lemma jsmn_state_init:
  "n \<le> length ts \<Longrightarrow> jsmn_state js len n ts 0 jsmn_init ts"
  by (simp add: jsmn_state_def jsmn_inv_def jsmn_init_def)

lemma str_scan_iff:
  "str_scan js len i = Str_Quote q \<longleftrightarrow>
     i \<le> q \<and> q < len \<and> cread js q = CHR 0x22 \<and> json_str (substr js i q)"
proof
  assume "str_scan js len i = Str_Quote q"
  then show "i \<le> q \<and> q < len \<and> cread js q = CHR 0x22 \<and> json_str (substr js i q)"
    using str_scan_le str_scan_quote by blast
next
  assume a: "i \<le> q \<and> q < len \<and> cread js q = CHR 0x22 \<and> json_str (substr js i q)"
  then have q: "q < length js" using cread_nonzero_in_range [of js q] by simp
  then have "drop q js = CHR 0x22 # drop (Suc q) js" using a by (simp add: Cons_nth_drop_Suc [symmetric])
  then have "drop i js = substr js i q @ CHR 0x22 # drop (Suc q) js"
    using a append_take_drop_id [of "q - i" "drop i js"] by (simp add: substr_def)
  with a q show "str_scan js len i = Str_Quote q"
    using str_scan_complete [of "substr js i q" i js "drop (Suc q) js" len] by (simp add: substr_length)
qed

section \<open>A sample document\<close>

text \<open>The document \<open>{"a":[1,2]}\<close>, on which the properties are exercised.\<close>

definition tok0 :: jsmntok_t where
  "tok0 = \<lparr>ttype = JSMN_UNDEFINED, tstart = 0, tend = 0, tsize = 0\<rparr>"

definition sample_text :: string where
  "sample_text = [CHR ''{'', CHR 0x22, CHR ''a'', CHR 0x22, CHR '':'', CHR ''['', CHR ''1'', CHR '','',
     CHR ''2'', CHR '']'', CHR ''}'']"

lemma sample_run:
  "jsmn_parse jsmn_init sample_text 11 (Some (replicate 6 tok0)) 6 =
     (Inr 5, \<lparr>pos = 11, toknext = 5, toksuper = -1\<rparr>,
      Some [\<lparr>ttype = JSMN_OBJECT, tstart = 0, tend = 11, tsize = 1\<rparr>,
            \<lparr>ttype = JSMN_STRING, tstart = 2, tend = 3, tsize = 1\<rparr>,
            \<lparr>ttype = JSMN_ARRAY, tstart = 5, tend = 10, tsize = 2\<rparr>,
            \<lparr>ttype = JSMN_PRIMITIVE, tstart = 6, tend = 7, tsize = 0\<rparr>,
            \<lparr>ttype = JSMN_PRIMITIVE, tstart = 8, tend = 9, tsize = 0\<rparr>, tok0])"
  by code_simp


section \<open>Properties\<close>

text \<open>
  C16. A successful run of \<open>jsmn_parse\<close> on a fresh parser returns the number of
  tokens it filled, at most \<open>num_tokens\<close>; every one of them is closed and delimits
  text of the kind its type names (an object from its \<open>{\<close> to its \<open>}\<close>, an array from
  \<open>[\<close> to \<open>]\<close>, a string between its quotes with only well-formed escapes, a primitive
  of printable non-delimiter characters); the tokens are in the order of their
  starts and any two are nested or disjoint; and the array beyond them is untouched.
\<close>

theorem jsmn_parse_tokens:
  assumes "jsmn_parse jsmn_init js len (Some ts) n = (Inr c, p', toks')" "n \<le> length ts"
  shows "\<exists>ts'. toks' = Some ts' \<and> c \<le> n \<and> toknext p' = c \<and>
    length ts' = length ts \<and> drop c ts' = drop c ts \<and>
    (\<forall>i < c. tend (ts' ! i) \<noteq> -1 \<and> tok_text js len (ts' ! i)) \<and>
    (\<forall>i j. i < j \<and> j < c \<longrightarrow> tok_before (ts' ! i) (ts' ! j))"
proof -
  obtain ts' where l: "jsmn_loop js len n 0 jsmn_init (Some ts) = (Inr c, p', Some ts')"
    and closed: "find_last is_open ts' (toknext p') = None" and toks': "toks' = Some ts'"
    using assms(1) jsmn_loop_ok [OF jsmn_state_init [OF assms(2)], of js len]
    by (fastforce simp: jsmn_parse_def jsmn_init_def split: sum.splits option.splits prod.splits)
  have st: "jsmn_state js len n ts (toknext p') p' ts'" and c: "toknext p' = c"
    using jsmn_loop_ok [OF jsmn_state_init [OF assms(2)] l] by auto
  have texts: "tok_text js len (ts' ! i)" if "i < c" for i
    using st that c tok_text_mono [of js "pos p'" "ts' ! i" len] by (auto simp: jsmn_state_def jsmn_inv_def)
  have "tend (ts' ! i) \<noteq> -1" if "i < c" for i
    using closed that c tok_text_bounds(1) [OF texts [OF that]] by (force simp: find_last_None is_open_def)
  with texts st c show ?thesis by (simp add: jsmn_state_def jsmn_inv_def toks')
qed


theorem jsmn_parse_tokens_witness:
  "drop 5 (replicate 6 tok0) = [tok0] \<and> tok_text sample_text 11 \<lparr>ttype = JSMN_ARRAY, tstart = 5, tend = 10, tsize = 2\<rparr>"
proof -
  let ?t = "\<lparr>ttype = JSMN_ARRAY, tstart = 5, tend = 10, tsize = 2\<rparr>"
  obtain ts' where ts': "Some [\<lparr>ttype = JSMN_OBJECT, tstart = 0, tend = 11, tsize = 1\<rparr>,
      \<lparr>ttype = JSMN_STRING, tstart = 2, tend = 3, tsize = 1\<rparr>, ?t,
      \<lparr>ttype = JSMN_PRIMITIVE, tstart = 6, tend = 7, tsize = 0\<rparr>,
      \<lparr>ttype = JSMN_PRIMITIVE, tstart = 8, tend = 9, tsize = 0\<rparr>, tok0] = Some ts'"
    and ok: "\<forall>i < 5. tend (ts' ! i) \<noteq> -1 \<and> tok_text sample_text 11 (ts' ! i)"
    using jsmn_parse_tokens [OF sample_run] by auto
  have "ts' ! 2 = ?t" using ts' by auto
  moreover have "tok_text sample_text 11 (ts' ! 2)" using ok by auto
  ultimately show ?thesis by (simp add: numeral_eq_Suc)
qed

text \<open>
  C27. Whatever \<open>jsmn_parse\<close> returns, error or not, it leaves the parser consistent
  when it was consistent before: the cursor within the text, the token index within
  the array, the super token a filled token or \<open>-1\<close>, each filled token describing
  its text, and nothing written beyond the filled tokens. A run that was cut short
  can so be resumed with the same parser.
\<close>

theorem jsmn_parse_consistent:
  assumes "jsmn_state js len n ts0 (toknext p) p ts"
    "jsmn_parse p js len (Some ts) n = (r, p', toks')"
  shows "\<exists>ts'. toks' = Some ts' \<and> jsmn_state js len n ts0 (toknext p') p' ts'"
proof -
  obtain r1 p1 t1 where l: "jsmn_loop js len n (toknext p) p (Some ts) = (r1, p1, t1)"
    by (metis prod_cases3)
  with jsmn_loop_ok [OF assms(1) l] assms(2) show ?thesis
    by (auto simp: jsmn_parse_def split: sum.splits option.splits)
qed

lemma sample_run_part:
  "jsmn_parse jsmn_init (take 6 sample_text) 6 (Some (replicate 6 tok0)) 6 =
     (Inl JSMN_ERROR_PART, \<lparr>pos = 6, toknext = 3, toksuper = 2\<rparr>,
      Some [\<lparr>ttype = JSMN_OBJECT, tstart = 0, tend = -1, tsize = 1\<rparr>,
            \<lparr>ttype = JSMN_STRING, tstart = 2, tend = 3, tsize = 1\<rparr>,
            \<lparr>ttype = JSMN_ARRAY, tstart = 5, tend = -1, tsize = 0\<rparr>, tok0, tok0, tok0])"
  by code_simp

theorem jsmn_parse_consistent_witness:
  "jsmn_state (take 6 sample_text) 6 6 (replicate 6 tok0) 3 \<lparr>pos = 6, toknext = 3, toksuper = 2\<rparr>
     [\<lparr>ttype = JSMN_OBJECT, tstart = 0, tend = -1, tsize = 1\<rparr>,
      \<lparr>ttype = JSMN_STRING, tstart = 2, tend = 3, tsize = 1\<rparr>,
      \<lparr>ttype = JSMN_ARRAY, tstart = 5, tend = -1, tsize = 0\<rparr>, tok0, tok0, tok0]"
  using jsmn_parse_consistent [OF _ sample_run_part, of "replicate 6 tok0"]
    jsmn_state_init [of 6 "replicate 6 tok0" "take 6 sample_text" 6]
  by (auto simp: jsmn_init_def)

lemma jsmn_parse_None: "fst (jsmn_parse p js len None m) = fst (jsmn_loop js len m (toknext p) p None)"
  using jsmn_loop_None [of js len m "toknext p" p]
  by (auto simp: jsmn_parse_def split: sum.splits option.splits prod.splits)

lemma jsmn_parse_loop:
  "fst (jsmn_parse p js len (Some ts) n) = Inr c \<Longrightarrow>
     \<exists>p' t. jsmn_loop js len n (toknext p) p (Some ts) = (Inr c, p', t)"
  "fst (jsmn_parse p js len (Some ts) n) = Inl JSMN_ERROR_NOMEM \<Longrightarrow>
     fst (jsmn_loop js len n (toknext p) p (Some ts)) = Inl JSMN_ERROR_NOMEM"
  by (auto simp: jsmn_parse_def split: sum.splits option.splits prod.splits)

text \<open>
  C32. The counting mode (a null token array) tells how many tokens a text needs: a
  run that succeeds with a token array returns the count the counting mode returns,
  and a run that is given at least that many tokens never fails for want of tokens.
\<close>

theorem jsmn_parse_counting:
  assumes "n \<le> length ts"
  shows "(fst (jsmn_parse jsmn_init js len (Some ts) n) = Inr c \<longrightarrow>
        fst (jsmn_parse jsmn_init js len None m) = Inr c) \<and>
    (fst (jsmn_parse jsmn_init js len None m) = Inr c \<and> c \<le> n \<longrightarrow>
        fst (jsmn_parse jsmn_init js len (Some ts) n) \<noteq> Inl JSMN_ERROR_NOMEM)"
proof -
  have z: "toknext jsmn_init = 0" by (simp add: jsmn_init_def)
  note st = jsmn_state_init [OF assms, of js len]
  show ?thesis
    using jsmn_loop_counting [OF _ refl st] jsmn_loop_enough [OF _ _ refl st]
      jsmn_parse_loop [of jsmn_init js len ts n, unfolded z]
    unfolding jsmn_parse_None z by blast
qed

theorem jsmn_parse_counting_witness:
  "fst (jsmn_parse jsmn_init sample_text 11 None 0) = Inr 5"
proof -
  have "6 \<le> length (replicate 6 tok0)" by simp
  from jsmn_parse_counting [OF this, of sample_text 11 5 0] sample_run show ?thesis by simp
qed

text \<open>
  \<open>jsmn_parse_string\<close> succeeds exactly when there is a token left and the text
  after the opening quote is the body of a string literal, with well-formed escapes
  only, followed by a quote within the text.
\<close>

theorem jsmn_parse_string_accepts:
  "fst (jsmn_parse_string p js len (Some ts) n) = None \<longleftrightarrow>
     toknext p < n \<and>
     (\<exists>q > pos p. q < len \<and> cread js q = CHR 0x22 \<and> json_str (substr js (Suc (pos p)) q))"
proof (cases "str_scan js len (Suc (pos p))")
  case (Str_Quote q)
  then have "\<exists>q > pos p. q < len \<and> cread js q = CHR 0x22 \<and> json_str (substr js (Suc (pos p)) q)"
    using str_scan_iff [of js len "Suc (pos p)" q] by (intro exI [of _ q]) auto
  with Str_Quote show ?thesis
    by (simp add: jsmn_parse_string_def jsmn_alloc_token_def Let_def split: option.splits)
next
  case Str_Inval
  then show ?thesis using str_scan_iff [of js len "Suc (pos p)"]
    by (auto simp: jsmn_parse_string_def Let_def)
next
  case Str_Part
  then show ?thesis using str_scan_iff [of js len "Suc (pos p)"]
    by (auto simp: jsmn_parse_string_def Let_def)
qed

end
