(* ===== verification/Jsmn_Render.thy ===== *)
theory Jsmn_Render
  imports Jsmn
begin

text \<open>
  JSON values, the compact text of a value, and the tokens that describe it. The main
  result is that \<open>jsmn_parse\<close>, run on the text of a value, fills exactly these tokens:
  type, start, end and number of children.
\<close>

section \<open>Values, their text and their tokens\<close>

datatype jval = JPrim string | JStr string | JArr jvals | JObj jmems
  and jvals = VNil | VCons jval jvals
  and jmems = MNil | MCons string jval jmems

abbreviation quoted :: "string \<Rightarrow> string" where
  "quoted s \<equiv> CHR 0x22 # s @ [CHR 0x22]"

fun render :: "jval \<Rightarrow> string" and render_vs :: "jvals \<Rightarrow> string" and render_ms :: "jmems \<Rightarrow> string" where
  "render (JPrim s) = s"
| "render (JStr s) = quoted s"
| "render (JArr vs) = CHR ''['' # render_vs vs @ [CHR '']'']"
| "render (JObj ms) = CHR ''{'' # render_ms ms @ [CHR ''}'']"
| "render_vs VNil = []"
| "render_vs (VCons v VNil) = render v"
| "render_vs (VCons v (VCons w vs)) = render v @ CHR '','' # render_vs (VCons w vs)"
| "render_ms MNil = []"
| "render_ms (MCons k v MNil) = quoted k @ CHR '':'' # render v"
| "render_ms (MCons k v (MCons l w ms)) = quoted k @ CHR '':'' # render v @ CHR '','' # render_ms (MCons l w ms)"

definition prim_ok :: "string \<Rightarrow> bool" where
  "prim_ok s \<longleftrightarrow> prim_text s \<and> hd s \<noteq> CHR ''{'' \<and> hd s \<noteq> CHR ''['' \<and> hd s \<noteq> CHR 0x22"

fun jval_ok :: "jval \<Rightarrow> bool" and jvals_ok :: "jvals \<Rightarrow> bool" and jmems_ok :: "jmems \<Rightarrow> bool" where
  "jval_ok (JPrim s) \<longleftrightarrow> prim_ok s"
| "jval_ok (JStr s) \<longleftrightarrow> json_str s"
| "jval_ok (JArr vs) \<longleftrightarrow> jvals_ok vs"
| "jval_ok (JObj ms) \<longleftrightarrow> jmems_ok ms"
| "jvals_ok VNil \<longleftrightarrow> True"
| "jvals_ok (VCons v vs) \<longleftrightarrow> jval_ok v \<and> jvals_ok vs"
| "jmems_ok MNil \<longleftrightarrow> True"
| "jmems_ok (MCons k v ms) \<longleftrightarrow> json_str k \<and> jval_ok v \<and> jmems_ok ms"

fun vcount :: "jvals \<Rightarrow> nat" where
  "vcount VNil = 0"
| "vcount (VCons v vs) = Suc (vcount vs)"

fun mcount :: "jmems \<Rightarrow> nat" where
  "mcount MNil = 0"
| "mcount (MCons k v ms) = Suc (mcount ms)"

definition mk_tok :: "jsmntype_t \<Rightarrow> nat \<Rightarrow> nat \<Rightarrow> nat \<Rightarrow> jsmntok_t" where
  "mk_tok ty s e n = \<lparr>ttype = ty, tstart = int s, tend = int e, tsize = int n\<rparr>"

fun toks :: "nat \<Rightarrow> jval \<Rightarrow> tokens" and toks_vs :: "nat \<Rightarrow> jvals \<Rightarrow> tokens"
  and toks_ms :: "nat \<Rightarrow> jmems \<Rightarrow> tokens" where
  "toks b (JPrim s) = [mk_tok JSMN_PRIMITIVE b (b + length s) 0]"
| "toks b (JStr s) = [mk_tok JSMN_STRING (b + 1) (b + 1 + length s) 0]"
| "toks b (JArr vs) = mk_tok JSMN_ARRAY b (b + 2 + length (render_vs vs)) (vcount vs) # toks_vs (b + 1) vs"
| "toks b (JObj ms) = mk_tok JSMN_OBJECT b (b + 2 + length (render_ms ms)) (mcount ms) # toks_ms (b + 1) ms"
| "toks_vs b VNil = []"
| "toks_vs b (VCons v vs) = toks b v @ toks_vs (b + length (render v) + 1) vs"
| "toks_ms b MNil = []"
| "toks_ms b (MCons k v ms) =
     mk_tok JSMN_STRING (b + 1) (b + 1 + length k) 1 # toks (b + length k + 3) v @
     toks_ms (b + length k + length (render v) + 4) ms"

section \<open>One turn of the parser\<close>

text \<open>
  The filled tokens are kept apart from the free ones: \<open>T @ U\<close> with \<open>toknext = length T\<close>.
\<close>

definition bump :: "int \<Rightarrow> tokens \<Rightarrow> tokens" where
  "bump s T = (if s = -1 then T else T[nat s := (T ! nat s)\<lparr>tsize := tsize (T ! nat s) + 1\<rparr>])"

lemma bump_length [simp]: "length (bump s T) = length T"
  by (simp add: bump_def)

definition last_open :: "tokens \<Rightarrow> int" where
  "last_open T = (case find_last is_open T (length T) of None \<Rightarrow> -1 | Some i \<Rightarrow> int i)"

lemma find_last_append [simp]: "k \<le> length T \<Longrightarrow> find_last P (T @ U) k = find_last P T k"
  by (induction k) (simp_all add: nth_append)

lemma inc_super_append:
  "\<lbrakk>-1 \<le> toksuper p; toksuper p < int (length T)\<rbrakk> \<Longrightarrow> inc_super p (T @ U) = bump (toksuper p) T @ U"
  by (auto simp: inc_super_def bump_def nth_append list_update_append nat_less_iff)

definition mk_p :: "nat \<Rightarrow> tokens \<Rightarrow> int \<Rightarrow> jsmn_parser" where
  "mk_p b T s = \<lparr>pos = b, toknext = length T, toksuper = s\<rparr>"

definition run :: "string \<Rightarrow> nat \<Rightarrow> nat \<Rightarrow> nat \<Rightarrow> tokens \<Rightarrow> int \<Rightarrow> tokens
    \<Rightarrow> (jsmnerr + nat) \<times> jsmn_parser \<times> tokens option" where
  "run js len n b T s U = jsmn_loop js len n (length T) (mk_p b T s) (Some (T @ U))"

lemma loop_turn:
  assumes "b < len" "cread js b \<noteq> CHR 0x00"
    "jsmn_step js len n (length T) (mk_p b T s) (Some (T @ U)) =
       (None, length T', mk_p b' T' s', Some (T' @ U'))"
  shows "run js len n b T s U = run js len n (Suc b') T' s' U'"
  using assms by (simp add: run_def jsmn_loop.simps [of js len n "length T"] mk_p_def)

lemma turn_open:
  assumes "drop b js = c # xs" "c = CHR ''{'' \<or> c = CHR ''[''" "b < len" "length T < n"
    "-1 \<le> s" "s < int (length T)"
  shows "run js len n b T s (u # U) =
    run js len n (Suc b) (bump s T @ [\<lparr>ttype = (if c = CHR ''{'' then JSMN_OBJECT else JSMN_ARRAY),
      tstart = int b, tend = -1, tsize = 0\<rparr>]) (int (length T)) U"
proof (rule loop_turn)
  note c = cread_drop [OF assms(1)]
  show "cread js b \<noteq> CHR 0x00" using c assms(2) by auto
  let ?p = "mk_p b T s" and ?u = "u\<lparr>tstart := -1, tend := -1, tsize := 0\<rparr>"
  have "inc_super (?p\<lparr>toknext := Suc (length T)\<rparr>) (T @ ?u # U) = bump s T @ ?u # U"
    using assms(5,6) by (subst inc_super_append) (simp_all add: mk_p_def)
  then show "jsmn_step js len n (length T) ?p (Some (T @ u # U)) =
    (None, length (bump s T @ [\<lparr>ttype = (if c = CHR ''{'' then JSMN_OBJECT else JSMN_ARRAY),
      tstart = int b, tend = -1, tsize = 0\<rparr>]),
     mk_p b (bump s T @ [\<lparr>ttype = (if c = CHR ''{'' then JSMN_OBJECT else JSMN_ARRAY),
      tstart = int b, tend = -1, tsize = 0\<rparr>]) (int (length T)),
     Some ((bump s T @ [\<lparr>ttype = (if c = CHR ''{'' then JSMN_OBJECT else JSMN_ARRAY),
      tstart = int b, tend = -1, tsize = 0\<rparr>]) @ U))"
    using c assms(2,4)
    by (auto simp: jsmn_step_def open_bracket_def jsmn_alloc_token_def Let_def mk_p_def nth_append
        list_update_append)
qed (rule assms(3))


lemma turn_string:
  assumes "drop b js = quoted k @ xs" "json_str k" "Suc (b + length k) < len" "length T < n"
    "-1 \<le> s" "s < int (length T)"
  shows "run js len n b T s (u # U) =
    run js len n (b + length k + 2) (bump s T @ [mk_tok JSMN_STRING (b + 1) (b + 1 + length k) 0]) s U"
proof -
  note c = cread_drop [of b js "CHR 0x22" "k @ CHR 0x22 # xs"]
  have sc: "str_scan js len (Suc b) = Str_Quote (Suc (b + length k))"
    using str_scan_complete [OF assms(2), of "Suc b" js xs len] c assms(1,3) by simp
  let ?t = "mk_tok JSMN_STRING (b + 1) (b + 1 + length k) 0"
  let ?p = "mk_p (Suc (b + length k)) (T @ [?t]) s"
  have "inc_super ?p (T @ ?t # U) = bump s T @ ?t # U"
    using assms(5,6) by (subst inc_super_append) (simp_all add: mk_p_def)
  then have "jsmn_step js len n (length T) (mk_p b T s) (Some (T @ u # U)) =
      (None, length (bump s T @ [?t]), mk_p (Suc (b + length k)) (bump s T @ [?t]) s, Some ((bump s T @ [?t]) @ U))"
    using c assms(1,4) sc
    by (cases u) (auto simp: add.commute jsmn_step_def jsmn_parse_string_def jsmn_alloc_token_def jsmn_fill_token_def
        Let_def mk_p_def mk_tok_def nth_append list_update_append)
  then show ?thesis using loop_turn [of b len js] c assms(1,3) by simp
qed

definition stops :: "string \<Rightarrow> nat \<Rightarrow> nat \<Rightarrow> bool" where
  "stops js len i \<longleftrightarrow> \<not> (i < len \<and> cread js i \<noteq> CHR 0x00) \<or> prim_delim (cread js i)"

lemma prim_scan_complete:
  assumes "drop b js = w @ xs" "list_all (\<lambda>c. \<not> prim_delim c \<and> \<not> prim_invalid c) w"
    "b + length w \<le> len" "stops js len (b + length w)"
  shows "prim_scan js len b = Some (b + length w)"
  using assms
proof (induction w arbitrary: b)
  case Nil
  then show ?case by (subst prim_scan.simps) (auto simp: stops_def)
next
  case (Cons c w)
  have "c \<noteq> CHR 0x00" using Cons.prems(2) by (auto simp: prim_invalid_def)
  with Cons cread_drop [of b js c "w @ xs"] show ?case
    by (subst prim_scan.simps) auto
qed

lemma turn_prim:
  assumes "drop b js = w @ xs" "prim_ok w" "b + length w \<le> len" "stops js len (b + length w)"
    "length T < n" "-1 \<le> s" "s < int (length T)"
  shows "run js len n b T s (u # U) =
    run js len n (b + length w) (bump s T @ [mk_tok JSMN_PRIMITIVE b (b + length w) 0]) s U"
proof -
  obtain c w' where w: "w = c # w'" using assms(2) by (cases w) (auto simp: prim_ok_def prim_text_def)
  note c = cread_drop [of b js c "w' @ xs"]
  have cc: "\<not> prim_delim c" "\<not> prim_invalid c" "c \<noteq> CHR ''{''" "c \<noteq> CHR ''[''" "c \<noteq> CHR 0x22"
    using assms(2) by (auto simp: w prim_ok_def prim_text_def)
  have sc: "prim_scan js len b = Some (b + length w)"
    using prim_scan_complete [OF assms(1) _ assms(3,4)] assms(2) by (simp add: prim_ok_def prim_text_def)
  let ?t = "mk_tok JSMN_PRIMITIVE b (b + length w) 0"
  let ?p = "mk_p (b + length w') (T @ [?t]) s"
  have "inc_super ?p (T @ ?t # U) = bump s T @ ?t # U"
    using assms(6,7) by (subst inc_super_append) (simp_all add: mk_p_def)
  then have "jsmn_step js len n (length T) (mk_p b T s) (Some (T @ u # U)) =
      (None, length (bump s T @ [?t]), mk_p (b + length w') (bump s T @ [?t]) s, Some ((bump s T @ [?t]) @ U))"
    using c assms(1,5) cc sc
    by (cases u) (auto simp: jsmn_step_def jsmn_parse_primitive_def jsmn_alloc_token_def jsmn_fill_token_def
        prim_delim_def Let_def mk_p_def mk_tok_def nth_append list_update_append w)
  moreover have "c \<noteq> CHR 0x00" using cc(2) by (auto simp: prim_invalid_def)
  ultimately show ?thesis using loop_turn [of b len js] c assms(1,3) by (simp add: w)
qed

lemma turn_colon:
  assumes "drop b js = CHR '':'' # xs" "b < len"
  shows "run js len n b T s U = run js len n (Suc b) T (int (length T) - 1) U"
  using cread_drop [OF assms(1)] assms(2)
  by (intro loop_turn) (auto simp: jsmn_step_def mk_p_def)

definition comma_super :: "tokens \<Rightarrow> int \<Rightarrow> int" where
  "comma_super T s =
     (if s \<noteq> -1 \<and> \<not> is_container (T ! nat s) then
        (case find_last (\<lambda>t. is_container t \<and> is_open t) T (length T) of
           None \<Rightarrow> s | Some i \<Rightarrow> int i)
      else s)"

lemma turn_comma:
  assumes "drop b js = CHR '','' # xs" "b < len" "-1 \<le> s" "s < int (length T)"
  shows "run js len n b T s U = run js len n (Suc b) T (comma_super T s) U"
  using cread_drop [OF assms(1)] assms(2-4)
  by (intro loop_turn) (auto simp: jsmn_step_def mk_p_def comma_def comma_super_def nth_append
      split: option.splits)

lemma find_last_skip: "list_all (\<lambda>t. \<not> P t) T1 \<Longrightarrow>
    find_last P (T0 @ T1) (length T0 + length T1) = find_last P T0 (length T0)"
proof (induction T1 rule: rev_induct)
  case (snoc t T1)
  have "find_last P (T0 @ T1 @ [t]) (length T0 + length T1) = find_last P (T0 @ T1) (length T0 + length T1)"
    using find_last_append [of "length T0 + length T1" "T0 @ T1" P "[t]"] by simp
  with snoc show ?case by (simp add: nth_append)
qed simp

lemma find_last_here:
  "\<lbrakk>P t; list_all (\<lambda>t. \<not> P t) T1\<rbrakk> \<Longrightarrow>
     find_last P (T0 @ t # T1) (Suc (length T0 + length T1)) = Some (length T0)"
  using find_last_skip [of P T1 "T0 @ [t]"] by simp

lemma turn_close:
  assumes "drop b js = c # xs" "c = CHR ''}'' \<and> ttype t = JSMN_OBJECT \<or> c = CHR '']'' \<and> ttype t = JSMN_ARRAY"
    "b < len" "is_open t" "list_all (\<lambda>t. \<not> is_open t) T1"
  shows "run js len n b (T0 @ t # T1) s U =
    run js len n (Suc b) (T0 @ t\<lparr>tend := int b + 1\<rparr> # T1) (last_open T0) U"
proof (rule loop_turn)
  note c = cread_drop [OF assms(1)]
  show "cread js b \<noteq> CHR 0x00" using c assms(2) by auto
  have fl: "find_last is_open (T0 @ t # T1 @ U) (Suc (length T0 + length T1)) = Some (length T0)"
    using find_last_append [of "Suc (length T0 + length T1)" "T0 @ t # T1" is_open U]
      find_last_here [OF assms(4,5)] by simp
  have "\<not> is_open (t\<lparr>tend := int b + 1\<rparr>)" by (simp add: is_open_def)
  then have fl2: "find_last is_open (T0 @ t\<lparr>tend := int b + 1\<rparr> # T1 @ U) (Suc (length T0)) =
      find_last is_open T0 (length T0)"
    by (simp add: nth_append)
  show "jsmn_step js len n (length (T0 @ t # T1)) (mk_p b (T0 @ t # T1) s) (Some ((T0 @ t # T1) @ U)) =
    (None, length (T0 @ t\<lparr>tend := int b + 1\<rparr> # T1),
     mk_p b (T0 @ t\<lparr>tend := int b + 1\<rparr> # T1) (last_open T0),
     Some ((T0 @ t\<lparr>tend := int b + 1\<rparr> # T1) @ U))"
    using c assms(2) fl fl2
    by (auto simp: jsmn_step_def close_bracket_def Let_def mk_p_def nth_append list_update_append
        last_open_def split: option.splits simp del: find_last.simps)
qed (rule assms(3))


section \<open>Running over the text of a value\<close>

fun ntoks :: "jval \<Rightarrow> nat" and ntoks_vs :: "jvals \<Rightarrow> nat" and ntoks_ms :: "jmems \<Rightarrow> nat" where
  "ntoks (JPrim s) = 1"
| "ntoks (JStr s) = 1"
| "ntoks (JArr vs) = Suc (ntoks_vs vs)"
| "ntoks (JObj ms) = Suc (ntoks_ms ms)"
| "ntoks_vs VNil = 0"
| "ntoks_vs (VCons v vs) = ntoks v + ntoks_vs vs"
| "ntoks_ms MNil = 0"
| "ntoks_ms (MCons k v ms) = Suc (ntoks v + ntoks_ms ms)"

lemma toks_length [simp]:
  "length (toks b v) = ntoks v" "length (toks_vs b vs) = ntoks_vs vs" "length (toks_ms b ms) = ntoks_ms ms"
  by (induction b v and b vs and b ms rule: toks_toks_vs_toks_ms.induct) simp_all

lemma toks_closed:
  "list_all (\<lambda>t. \<not> is_open t) (toks b v)" "list_all (\<lambda>t. \<not> is_open t) (toks_vs b vs)"
  "list_all (\<lambda>t. \<not> is_open t) (toks_ms b ms)"
  by (induction b v and b vs and b ms rule: toks_toks_vs_toks_ms.induct)
    (simp_all add: mk_tok_def is_open_def)

lemma bump_same_span: "same_span (bump s T ! i) (T ! i)"
proof -
  have "same_span ((T ! k)\<lparr>tsize := x\<rparr>) (T ! k)" "same_span t t" for k x t
    by (simp_all add: same_span_def)
  then show ?thesis unfolding bump_def by (auto intro: same_span_update)
qed

lemma find_last_cong: "(\<And>i. i < k \<Longrightarrow> P (ts ! i) = P (us ! i)) \<Longrightarrow> find_last P ts k = find_last P us k"
  by (induction k) simp_all

lemma last_open_bump [simp]: "last_open (bump s T) = last_open T"
proof -
  have "is_open (bump s T ! i) = is_open (T ! i)" for i
    using bump_same_span [of s T i] by (simp add: same_span_def is_open_def)
  then have "find_last is_open (bump s T) (length T) = find_last is_open T (length T)"
    by (rule find_last_cong)
  then show ?thesis by (simp add: last_open_def)
qed

lemma bump_mid: "bump (int (length T0)) (T0 @ t # T1) = T0 @ t\<lparr>tsize := tsize t + 1\<rparr> # T1"
  by (simp add: bump_def)

lemma last_open_mid:
  "\<lbrakk>is_open t; list_all (\<lambda>t. \<not> is_open t) T1\<rbrakk> \<Longrightarrow> last_open (T0 @ t # T1) = int (length T0)"
  by (simp add: last_open_def find_last_here del: find_last.simps)

lemma last_open_range: "-1 \<le> last_open T" "last_open T < int (length T)"
  by (auto simp: last_open_def dest: find_last_Some split: option.splits)

lemma comma_super_mid:
  assumes "is_open t" "is_container t" "list_all (\<lambda>t. \<not> is_open t) T1"
    "s = int (length T0) \<or> 0 \<le> s \<and> \<not> is_container ((T0 @ t # T1) ! nat s)"
  shows "comma_super (T0 @ t # T1) s = int (length T0)"
proof -
  have "list_all (\<lambda>t. \<not> (is_container t \<and> is_open t)) T1" using assms(3) by (auto simp: list_all_iff)
  then have "find_last (\<lambda>t. is_container t \<and> is_open t) (T0 @ t # T1) (Suc (length T0 + length T1)) = Some (length T0)"
    using assms(1,2) by (intro find_last_here) simp_all
  with assms(2,4) show ?thesis
    by (auto simp: comma_super_def simp del: find_last.simps)
qed

definition after_super :: "jval \<Rightarrow> int \<Rightarrow> tokens \<Rightarrow> int" where
  "after_super v s T = (case v of JArr _ \<Rightarrow> last_open T | JObj _ \<Rightarrow> last_open T | _ \<Rightarrow> s)"

lemma after_super_range: "\<lbrakk>-1 \<le> s; s < int (length T)\<rbrakk> \<Longrightarrow> -1 \<le> after_super v s T \<and> after_super v s T < int (length T)"
  using last_open_range [of T] by (auto simp: after_super_def split: jval.splits)

definition at :: "string \<Rightarrow> nat \<Rightarrow> nat \<Rightarrow> string \<Rightarrow> bool" where
  "at js len b w \<longleftrightarrow> (\<exists>rest. drop b js = w @ rest) \<and> b + length w \<le> len"

lemma at_Cons: "at js len b (c # w) \<Longrightarrow> (\<exists>xs. drop b js = c # xs) \<and> b < len \<and> at js len (Suc b) w"
  by (auto simp: at_def dest: cread_drop(2))

lemma at_append: "at js len b (v @ w) \<Longrightarrow> at js len b v \<and> at js len (b + length v) w"
proof -
  assume "at js len b (v @ w)"
  then obtain rest where r: "drop b js = v @ w @ rest" "b + length v + length w \<le> len" by (auto simp: at_def)
  have "drop (b + length v) js = drop (length v) (drop b js)" by (simp add: add.commute)
  with r show ?thesis by (auto simp: at_def)
qed

lemma at_delim: "at js len b (c # w) \<Longrightarrow> prim_delim c \<Longrightarrow> stops js len b"
  by (auto simp: at_def stops_def dest: cread_drop)



text \<open>
  What the parser does on the text of a value, of the elements of an array and of the
  members of an object; for the latter two \<open>t\<close> is the enclosing open token.
\<close>

definition run_v :: "string \<Rightarrow> nat \<Rightarrow> nat \<Rightarrow> jval \<Rightarrow> bool" where
  "run_v js len n v \<longleftrightarrow> (\<forall>b T s U.
     at js len b (render v) \<and> stops js len (b + length (render v)) \<and>
     length T + ntoks v \<le> n \<and> ntoks v \<le> length U \<and> -1 \<le> s \<and> s < int (length T) \<longrightarrow>
     run js len n b T s U =
       run js len n (b + length (render v)) (bump s T @ toks b v) (after_super v s T) (drop (ntoks v) U))"

definition inside :: "tokens \<Rightarrow> jsmntok_t \<Rightarrow> tokens \<Rightarrow> int \<Rightarrow> bool" where
  "inside T0 t T1 s \<longleftrightarrow> is_open t \<and> is_container t \<and> list_all (\<lambda>t. \<not> is_open t) T1 \<and>
     (s = int (length T0) \<or>
      int (length T0) < s \<and> s < int (length (T0 @ t # T1)) \<and> \<not> is_container ((T0 @ t # T1) ! nat s))"

definition run_vs :: "string \<Rightarrow> nat \<Rightarrow> nat \<Rightarrow> jvals \<Rightarrow> bool" where
  "run_vs js len n vs \<longleftrightarrow> (\<forall>b T0 t T1 U.
     at js len b (render_vs vs) \<and> stops js len (b + length (render_vs vs)) \<and>
     Suc (length T0 + length T1) + ntoks_vs vs \<le> n \<and> ntoks_vs vs \<le> length U \<and>
     inside T0 t T1 (int (length T0)) \<longrightarrow>
     run js len n b (T0 @ t # T1) (int (length T0)) U =
       run js len n (b + length (render_vs vs))
         (T0 @ t\<lparr>tsize := tsize t + int (vcount vs)\<rparr> # T1 @ toks_vs b vs)
         (int (length T0)) (drop (ntoks_vs vs) U))"

definition run_ms :: "string \<Rightarrow> nat \<Rightarrow> nat \<Rightarrow> jmems \<Rightarrow> bool" where
  "run_ms js len n ms \<longleftrightarrow> (\<forall>b T0 t T1 U.
     at js len b (render_ms ms) \<and> stops js len (b + length (render_ms ms)) \<and>
     Suc (length T0 + length T1) + ntoks_ms ms \<le> n \<and> ntoks_ms ms \<le> length U \<and>
     inside T0 t T1 (int (length T0)) \<longrightarrow>
     (\<exists>s'. run js len n b (T0 @ t # T1) (int (length T0)) U =
       run js len n (b + length (render_ms ms))
         (T0 @ t\<lparr>tsize := tsize t + int (mcount ms)\<rparr> # T1 @ toks_ms b ms) s' (drop (ntoks_ms ms) U)))"

lemma run_v_prim: "prim_ok w \<Longrightarrow> run_v js len n (JPrim w)"
  unfolding run_v_def
proof (intro allI impI, elim conjE, goal_cases)
  case (1 b T s U)
  then obtain u U' where "U = u # U'" by (cases U) auto
  with 1 show ?case by (auto simp: at_def after_super_def turn_prim)
qed

lemma run_v_string: "json_str w \<Longrightarrow> run_v js len n (JStr w)"
  unfolding run_v_def
proof (intro allI impI, elim conjE, goal_cases)
  case (1 b T s U)
  then obtain u U' where "U = u # U'" by (cases U) auto
  moreover obtain xs where "drop b js = quoted w @ xs" using 1 by (auto simp: at_def)
  ultimately show ?case using 1 by (auto simp: at_def after_super_def turn_string)
qed

text \<open>Arrays and objects share the turns of their brackets.\<close>

lemma run_bracketed:
  assumes l: "l = CHR ''['' \<and> r = CHR '']'' \<and> ty = JSMN_ARRAY \<or> l = CHR ''{'' \<and> r = CHR ''}'' \<and> ty = JSMN_OBJECT"
    and src: "at js len b (l # w @ [r])" and room: "length T < n" "U \<noteq> []" and s: "-1 \<le> s" "s < int (length T)"
    and closed: "list_all (\<lambda>t. \<not> is_open t) Ts"
    and inner: "\<And>t. \<lbrakk>at js len (Suc b) w; stops js len (Suc b + length w); inside (bump s T) t [] (int (length T))\<rbrakk> \<Longrightarrow>
      \<exists>s'. run js len n (Suc b) (bump s T @ [t]) (int (length T)) (tl U) =
        run js len n (Suc b + length w) (bump s T @ t\<lparr>tsize := tsize t + int k\<rparr> # Ts) s' U'"
  shows "run js len n b T s U =
    run js len n (b + 2 + length w) (bump s T @ mk_tok ty b (b + 2 + length w) k # Ts) (last_open T) U'"
proof -
  let ?c = "\<lparr>ttype = ty, tstart = int b, tend = -1, tsize = 0\<rparr>" and ?e = "Suc b + length w"
  obtain xs where o1: "drop b js = l # xs" "b < len" using at_Cons [OF src] by auto
  have a: "at js len (Suc b) w" "at js len ?e [r]"
    using at_append [of js len "Suc b" w "[r]"] at_Cons [OF src] by auto
  obtain ys where c1: "drop ?e js = r # ys" "?e < len" using at_Cons [OF a(2)] by auto
  obtain u where u: "U = u # tl U" using room(2) by (cases U) auto
  have "run js len n b T s (u # tl U) = run js len n (Suc b) (bump s T @ [?c]) (int (length T)) (tl U)"
    using turn_open [OF o1(1) _ o1(2), of T n s u "tl U"] l room s by auto
  moreover have "stops js len ?e" using at_delim [OF a(2)] l by (auto simp: prim_delim_def)
  moreover have "inside (bump s T) ?c [] (int (length T))"
    using l by (auto simp: inside_def is_open_def is_container_def)
  ultimately obtain s' where "run js len n b T s U =
      run js len n ?e (bump s T @ ?c\<lparr>tsize := int k\<rparr> # Ts) s' U'"
    using inner [OF a(1), of ?c] u by auto
  also have "\<dots> = run js len n (Suc ?e) (bump s T @ mk_tok ty b (b + 2 + length w) k # Ts) (last_open T) U'"
    using turn_close [OF c1(1) _ c1(2), of "?c\<lparr>tsize := int k\<rparr>" Ts n "bump s T" s' U'] l closed
    by (auto simp: is_open_def mk_tok_def algebra_simps)
  finally show ?thesis by simp
qed

lemma run_v_array: "run_vs js len n vs \<Longrightarrow> run_v js len n (JArr vs)"
  unfolding run_v_def
proof (intro allI impI, elim conjE, goal_cases)
  case (1 b T s U)
  have "\<exists>s'. run js len n (Suc b) (bump s T @ [t]) (int (length T)) (tl U) =
      run js len n (Suc b + length (render_vs vs)) (bump s T @ t\<lparr>tsize := tsize t + int (vcount vs)\<rparr> # toks_vs (Suc b) vs) s'
        (drop (ntoks_vs vs) (tl U))"
    if "at js len (Suc b) (render_vs vs)" "stops js len (Suc b + length (render_vs vs))"
      "inside (bump s T) t [] (int (length T))" for t
    using 1(1) [unfolded run_vs_def, rule_format, of "Suc b" "bump s T" "[]" "tl U" t] that 1(4,5)
    by auto
  with run_bracketed [of "CHR ''[''" "CHR '']''" JSMN_ARRAY js len b "render_vs vs" T n U s
      "toks_vs (Suc b) vs" "vcount vs"] toks_closed 1
  have "run js len n b T s U = run js len n (b + 2 + length (render_vs vs))
      (bump s T @ mk_tok JSMN_ARRAY b (b + 2 + length (render_vs vs)) (vcount vs) # toks_vs (Suc b) vs)
      (last_open T) (drop (ntoks_vs vs) (tl U))"
    by (cases U) simp_all
  then show ?case by (simp add: after_super_def drop_Suc)
qed

lemma run_v_object: "run_ms js len n ms \<Longrightarrow> run_v js len n (JObj ms)"
  unfolding run_v_def
proof (intro allI impI, elim conjE, goal_cases)
  case (1 b T s U)
  have "\<exists>s'. run js len n (Suc b) (bump s T @ [t]) (int (length T)) (tl U) =
      run js len n (Suc b + length (render_ms ms)) (bump s T @ t\<lparr>tsize := tsize t + int (mcount ms)\<rparr> # toks_ms (Suc b) ms) s'
        (drop (ntoks_ms ms) (tl U))"
    if "at js len (Suc b) (render_ms ms)" "stops js len (Suc b + length (render_ms ms))"
      "inside (bump s T) t [] (int (length T))" for t
    using 1(1) [unfolded run_ms_def, rule_format, of "Suc b" "bump s T" "[]" "tl U" t] that 1(4,5)
    by auto
  with run_bracketed [of "CHR ''{''" "CHR ''}''" JSMN_OBJECT js len b "render_ms ms" T n U s
      "toks_ms (Suc b) ms" "mcount ms"] toks_closed 1
  have "run js len n b T s U = run js len n (b + 2 + length (render_ms ms))
      (bump s T @ mk_tok JSMN_OBJECT b (b + 2 + length (render_ms ms)) (mcount ms) # toks_ms (Suc b) ms)
      (last_open T) (drop (ntoks_ms ms) (tl U))"
    by (cases U) simp_all
  then show ?case by (simp add: after_super_def drop_Suc)
qed

lemma inside_grow:
  assumes "inside T0 t T1 s" "list_all (\<lambda>t. \<not> is_open t) Ts"
  shows "inside T0 (t\<lparr>tsize := m\<rparr>) (T1 @ Ts) (int (length T0))"
  using assms by (auto simp: inside_def is_open_def is_container_def)

lemma run_element:
  assumes "run_v js len n v" "at js len b (render v)" "stops js len (b + length (render v))"
    "Suc (length T0 + length T1) + ntoks v \<le> n" "ntoks v \<le> length U" "inside T0 t T1 (int (length T0))"
  shows "run js len n b (T0 @ t # T1) (int (length T0)) U =
    run js len n (b + length (render v)) (T0 @ t\<lparr>tsize := tsize t + 1\<rparr> # T1 @ toks b v)
      (int (length T0)) (drop (ntoks v) U)"
proof -
  have "last_open (T0 @ t # T1) = int (length T0)"
    using assms(6) by (intro last_open_mid) (auto simp: inside_def)
  then have "after_super v (int (length T0)) (T0 @ t # T1) = int (length T0)"
    by (auto simp: after_super_def split: jval.splits)
  with assms(1) [unfolded run_v_def, rule_format, of b "T0 @ t # T1" U "int (length T0)"] assms(2-5)
  show ?thesis by (simp add: bump_mid)
qed

lemma run_vs_one: "run_v js len n v \<Longrightarrow> run_vs js len n (VCons v VNil)"
  unfolding run_vs_def by (auto simp: run_element)

lemma run_vs_more:
  assumes "run_v js len n v" "run_vs js len n (VCons w vs)"
  shows "run_vs js len n (VCons v (VCons w vs))"
  unfolding run_vs_def
proof (intro allI impI, elim conjE, goal_cases)
  case (1 b T0 t T1 U)
  let ?r = "render_vs (VCons w vs)" and ?b = "b + length (render v)" and ?t = "t\<lparr>tsize := tsize t + 1\<rparr>"
  have a: "at js len b (render v)" "at js len ?b (CHR '','' # ?r)" "at js len (Suc ?b) ?r"
    using at_append [of js len b "render v" "CHR '','' # ?r"] at_Cons [of js len ?b] 1(1) by auto
  have ins: "inside T0 ?t (T1 @ toks b v) (int (length T0))"
    using 1(5) toks_closed(1) by (rule inside_grow)
  have "run js len n b (T0 @ t # T1) (int (length T0)) U =
      run js len n ?b (T0 @ ?t # T1 @ toks b v) (int (length T0)) (drop (ntoks v) U)"
    using assms(1) a(1) at_delim [OF a(2)] 1 by (intro run_element) (auto simp: prim_delim_def)
  also have "\<dots> = run js len n (Suc ?b) (T0 @ ?t # T1 @ toks b v) (int (length T0)) (drop (ntoks v) U)"
    using at_Cons [OF a(2)] ins comma_super_mid [of ?t "T1 @ toks b v" "int (length T0)" T0] turn_comma
    by (auto simp: inside_def)
  also have "\<dots> = run js len n (Suc ?b + length ?r)
      (T0 @ ?t\<lparr>tsize := tsize ?t + int (vcount (VCons w vs))\<rparr> # (T1 @ toks b v) @ toks_vs (Suc ?b) (VCons w vs))
      (int (length T0)) (drop (ntoks_vs (VCons w vs)) (drop (ntoks v) U))"
    using assms(2) [unfolded run_vs_def, rule_format, of "Suc ?b" T0 "T1 @ toks b v" "drop (ntoks v) U" ?t]
      a(3) ins 1 by (simp add: add.assoc)
  finally show ?case by (simp add: algebra_simps)
qed

lemma run_member:
  assumes "json_str k" "run_v js len n v" "at js len b (quoted k @ CHR '':'' # render v)"
    "stops js len (b + length k + 3 + length (render v))"
    "Suc (length T0 + length T1) + Suc (ntoks v) \<le> n" "Suc (ntoks v) \<le> length U" "inside T0 t T1 (int (length T0))"
  shows "\<exists>s'. run js len n b (T0 @ t # T1) (int (length T0)) U =
    run js len n (b + length k + 3 + length (render v))
      (T0 @ t\<lparr>tsize := tsize t + 1\<rparr> # T1 @ mk_tok JSMN_STRING (b + 1) (b + 1 + length k) 1 # toks (b + length k + 3) v)
      s' (drop (Suc (ntoks v)) U) \<and>
    inside T0 (t\<lparr>tsize := tsize t + 1\<rparr>)
      (T1 @ mk_tok JSMN_STRING (b + 1) (b + 1 + length k) 1 # toks (b + length k + 3) v) s'"
proof -
  let ?t = "t\<lparr>tsize := tsize t + 1\<rparr>" and ?c = "b + length k + 2" and ?v = "b + length k + 3"
  let ?key = "mk_tok JSMN_STRING (b + 1) (b + 1 + length k)"
  let ?T = "T0 @ ?t # T1 @ [?key 0]" and ?s = "int (Suc (length T0 + length T1))"
  have a: "at js len b (quoted k)" "at js len ?c (CHR '':'' # render v)" "at js len ?v (render v)"
    using at_append [OF assms(3)] at_Cons [of js len ?c] by (auto simp: numeral_3_eq_3)
  obtain u where u: "U = u # tl U" using assms(6) by (cases U) auto
  obtain xs where q: "drop b js = quoted k @ xs" "Suc (b + length k) < len" using a(1) by (auto simp: at_def)
  have key: "\<not> is_open (?key m)" "\<not> is_container (?key m)" for m
    by (simp_all add: mk_tok_def is_open_def is_container_def)
  have ins: "inside T0 ?t (T1 @ [?key 0]) (int (length T0))"
    using key by (intro inside_grow [OF assms(7)]) simp
  have bump_key: "bump ?s ?T = T0 @ ?t # T1 @ [?key 1]"
    using bump_mid [of "T0 @ ?t # T1" "?key 0" "[]"] by (simp add: mk_tok_def)
  have "run js len n b (T0 @ t # T1) (int (length T0)) U = run js len n ?c ?T (int (length T0)) (tl U)"
    using turn_string [OF q(1) assms(1) q(2), of "T0 @ t # T1" n "int (length T0)" u "tl U"] assms(5) u
    by (simp add: bump_mid)
  also have "\<dots> = run js len n ?v ?T ?s (tl U)"
    using at_Cons [OF a(2)] turn_colon [of ?c js] by (auto simp: numeral_3_eq_3)
  also have "\<dots> = run js len n (?v + length (render v)) (bump ?s ?T @ toks ?v v) (after_super v ?s ?T) (drop (ntoks v) (tl U))"
    using assms(2) [unfolded run_v_def, rule_format, of ?v ?T "tl U" ?s] a(3) assms(4-6) by simp
  finally have "run js len n b (T0 @ t # T1) (int (length T0)) U =
    run js len n (?v + length (render v)) (T0 @ ?t # T1 @ ?key 1 # toks ?v v) (after_super v ?s ?T) (drop (Suc (ntoks v)) U)"
    unfolding bump_key by (simp add: drop_Suc)
  moreover have "inside T0 ?t (T1 @ ?key 1 # toks ?v v) (after_super v ?s ?T)"
  proof -
    have "last_open ?T = int (length T0)" using ins by (intro last_open_mid) (auto simp: inside_def)
    then have "after_super v ?s ?T = int (length T0) \<or> after_super v ?s ?T = ?s"
      by (auto simp: after_super_def split: jval.splits)
    then show ?thesis using assms(7) key toks_closed(1)
      by (auto simp: inside_def is_open_def [of "t\<lparr>tsize := _\<rparr>"] is_container_def [of "t\<lparr>tsize := _\<rparr>"]
          is_open_def [of t] is_container_def [of t] nat_add_distrib nth_append)
  qed
  ultimately show ?thesis by blast
qed

lemma run_ms_one: "\<lbrakk>json_str k; run_v js len n v\<rbrakk> \<Longrightarrow> run_ms js len n (MCons k v MNil)"
  unfolding run_ms_def
proof (intro allI impI, elim conjE, goal_cases)
  case (1 b T0 t T1 U)
  then show ?case using run_member [of k js len n v b T0 T1 U t]
    by (auto simp: algebra_simps eval_nat_numeral)
qed

lemma run_ms_more:
  assumes "json_str k" "run_v js len n v" "run_ms js len n (MCons l w ms)"
  shows "run_ms js len n (MCons k v (MCons l w ms))"
  unfolding run_ms_def
proof (intro allI impI, elim conjE, goal_cases)
  case (1 b T0 t T1 U)
  let ?r = "render_ms (MCons l w ms)" and ?t = "t\<lparr>tsize := tsize t + 1\<rparr>"
  let ?b = "b + length k + 3 + length (render v)"
  let ?K = "mk_tok JSMN_STRING (b + 1) (b + 1 + length k) 1 # toks (b + length k + 3) v"
  have a: "at js len b (quoted k @ CHR '':'' # render v)" "at js len ?b (CHR '','' # ?r)" "at js len (Suc ?b) ?r"
    using at_append [of js len b "quoted k @ CHR '':'' # render v" "CHR '','' # ?r"] at_Cons [of js len ?b] 1(1)
    by (auto simp: eval_nat_numeral add.assoc)
  obtain s' where m: "run js len n b (T0 @ t # T1) (int (length T0)) U =
      run js len n ?b (T0 @ ?t # T1 @ ?K) s' (drop (Suc (ntoks v)) U)"
    and ins: "inside T0 ?t (T1 @ ?K) s'"
    using run_member [OF assms(1,2) a(1), of T0 T1 U t] at_delim [OF a(2)] 1 by (auto simp: prim_delim_def)
  have ins': "inside T0 ?t (T1 @ ?K) (int (length T0))" using ins by (auto simp: inside_def)
  have prem: "at js len (Suc ?b) ?r \<and> stops js len (Suc ?b + length ?r) \<and>
      Suc (length T0 + length (T1 @ ?K)) + ntoks_ms (MCons l w ms) \<le> n \<and>
      ntoks_ms (MCons l w ms) \<le> length (drop (Suc (ntoks v)) U) \<and> inside T0 ?t (T1 @ ?K) (int (length T0))"
    using a(3) ins' 1 by (simp add: add.assoc eval_nat_numeral)
  note m
  also have "run js len n ?b (T0 @ ?t # T1 @ ?K) s' (drop (Suc (ntoks v)) U) =
      run js len n (Suc ?b) (T0 @ ?t # T1 @ ?K) (int (length T0)) (drop (Suc (ntoks v)) U)"
    using at_Cons [OF a(2)] ins comma_super_mid [of ?t "T1 @ ?K" s' T0] turn_comma [of ?b js _ len s' "T0 @ ?t # T1 @ ?K"]
    by (auto simp: inside_def)
  also obtain s'' where "\<dots> = run js len n (Suc ?b + length ?r)
      (T0 @ ?t\<lparr>tsize := tsize ?t + int (mcount (MCons l w ms))\<rparr> # (T1 @ ?K) @ toks_ms (Suc ?b) (MCons l w ms))
      s'' (drop (ntoks_ms (MCons l w ms)) (drop (Suc (ntoks v)) U))"
    using assms(3) [unfolded run_ms_def, rule_format, OF prem] by blast
  finally show ?case by (intro exI [of _ s'']) (simp add: algebra_simps eval_nat_numeral)
qed

lemma run_render:
  "jval_ok v \<Longrightarrow> run_v js len n v" "jvals_ok vs \<Longrightarrow> run_vs js len n vs" "jmems_ok ms \<Longrightarrow> run_ms js len n ms"
proof (induction v and vs and ms rule: render_render_vs_render_ms.induct)
  case 5
  then show ?case by (simp add: run_vs_def)
next
  case 8
  then show ?case by (auto simp: run_ms_def)
qed (simp_all add: run_v_prim run_v_string run_v_array run_v_object run_vs_one run_vs_more run_ms_one run_ms_more)

lemma jsmn_parse_run:
  assumes "toknext p = 0" "pos p = 0" "toksuper p = -1"
    "run js len n 0 [] (-1) U = run js len n b T s U'" "\<not> (b < len \<and> cread js b \<noteq> CHR 0x00)"
    "list_all (\<lambda>t. \<not> is_open t) T"
  shows "jsmn_parse p js len (Some U) n = (Inr (length T), mk_p b T s, Some (T @ U'))"
proof -
  have p: "p = mk_p 0 [] (-1)" using assms(1-3) by (simp add: mk_p_def)
  have "run js len n b T s U' = (Inr (length T), mk_p b T s, Some (T @ U'))"
    using assms(5) by (auto simp: run_def jsmn_loop.simps [of js len n "length T"] mk_p_def)
  with assms(4) have "jsmn_loop js len n 0 p (Some U) = (Inr (length T), mk_p b T s, Some (T @ U'))"
    by (simp add: run_def p)
  moreover have "find_last is_open (T @ U') (length T) = None"
    using assms(6) by (simp add: find_last_None list_all_length nth_append)
  ultimately show ?thesis by (simp add: jsmn_parse_def p mk_p_def)
qed

lemma parse_render:
  assumes "jval_ok v" "ntoks v \<le> n" "n \<le> length ts"
  shows "jsmn_parse jsmn_init (render v) (length (render v)) (Some ts) n =
    (Inr (ntoks v), \<lparr>pos = length (render v), toknext = ntoks v, toksuper = -1\<rparr>,
     Some (toks 0 v @ drop (ntoks v) ts))"
proof -
  let ?js = "render v"
  have "run ?js (length ?js) n 0 [] (-1) ts =
      run ?js (length ?js) n (length ?js) (toks 0 v) (after_super v (-1) []) (drop (ntoks v) ts)"
    using run_render(1) [OF assms(1), of ?js "length ?js" n, unfolded run_v_def, rule_format, of 0 "[]" ts "-1"]
      assms(2,3) by (simp add: at_def stops_def bump_def)
  moreover have "after_super v (-1) [] = -1"
    by (simp add: after_super_def last_open_def split: jval.splits)
  ultimately show ?thesis
    using jsmn_parse_run [of jsmn_init ?js "length ?js" n ts "length ?js" "toks 0 v" "-1" "drop (ntoks v) ts"]
      toks_closed(1) by (simp add: jsmn_init_def mk_p_def)
qed

section \<open>Properties\<close>

text \<open>
  C6. \<open>jsmn_parse\<close> inverts the printing of JSON: run on the compact text of any JSON
  value, with a fresh parser and enough tokens, it succeeds and fills exactly the
  tokens of the value, in preorder, each with the type, the start and end in the text
  and the number of children of the node (a key counts its value as its child).
\<close>

theorem jsmn_parse_render:
  assumes "jval_ok v" "ntoks v \<le> n" "n \<le> length ts"
  shows "jsmn_parse jsmn_init (render v) (length (render v)) (Some ts) n =
    (Inr (ntoks v), \<lparr>pos = length (render v), toknext = ntoks v, toksuper = -1\<rparr>,
     Some (toks 0 v @ drop (ntoks v) ts))"
  using assms by (rule parse_render)

theorem jsmn_parse_render_witness:
  "snd (snd (jsmn_parse jsmn_init ''[7,[]]'' 6 (Some (replicate 4 tok0)) 4)) =
     Some [mk_tok JSMN_ARRAY 0 6 2, mk_tok JSMN_PRIMITIVE 1 2 0, mk_tok JSMN_ARRAY 3 5 0, tok0]"
proof -
  let ?v = "JArr (VCons (JPrim ''7'') (VCons (JArr VNil) VNil))"
  have "jval_ok ?v" by (simp add: prim_ok_def prim_text_def prim_delim_def prim_invalid_def)
  from jsmn_parse_render [OF this, of 4 "replicate 4 tok0"] show ?thesis
    by (simp add: numeral_eq_Suc)
qed

end
