(* ===== verification/Json.thy ===== *)
theory Json
  imports Jsmn_Render "HOL-Library.Monad_Syntax"
begin

text \<open>
  The JSON messages of the device, \<open>json.c\<close>: the comparison of a token with a key,
  the reader of a received message, the generator of the message that is sent, and
  the number parser. A read outside an object, a write outside a buffer and a signed
  overflow are the value \<open>None\<close>. The generator has two versions, that of the project
  \<open>tcp_echo_client\<close> and that of the project \<open>working\<close>. The text that \<open>printf\<close> makes of
  a \<open>float\<close> is a field of the environment record.
\<close>

section \<open>Formatted output\<close>

fun nat_dec :: "nat \<Rightarrow> string" where
  "nat_dec n = (if n < 10 then [char_of (48 + n)] else nat_dec (n div 10) @ [char_of (48 + n mod 10)])"

declare nat_dec.simps [simp del]

text \<open>The conversions \<open>%d\<close>, \<open>%.kd\<close> and \<open>%02X\<close> (on a byte).\<close>

definition fmt_d :: "int \<Rightarrow> string" where
  "fmt_d z = (if z < 0 then CHR ''-'' # nat_dec (nat (- z)) else nat_dec (nat z))"

definition fmt_prec_d :: "nat \<Rightarrow> int \<Rightarrow> string" where
  "fmt_prec_d k z =
     (let ds = nat_dec (nat \<bar>z\<bar>) in
      (if z < 0 then [CHR ''-''] else []) @ replicate (k - length ds) (CHR ''0'') @ ds)"

definition hex_digit :: "nat \<Rightarrow> char" where
  "hex_digit d = (if d < 10 then char_of (48 + d) else char_of (55 + d))"

definition fmt_02X :: "nat \<Rightarrow> string" where
  "fmt_02X b = [hex_digit (b div 16), hex_digit (b mod 16)]"

text \<open>\<open>sprintf\<close> into an array of \<open>n\<close> bytes: the text and its terminating NUL must fit.\<close>

definition sprintf_into :: "nat \<Rightarrow> string \<Rightarrow> string option" where
  "sprintf_into n s = (if length s < n then Some s else None)"

definition dq :: string where
  "dq = [CHR 0x22]"

definition crlf :: string where
  "crlf = [CHR 0x0D, CHR 0x0A]"

section \<open>The message sent\<close>

record json_env =
  recv_serial :: int
  RTC_year :: int
  RTC_month :: int
  RTC_day :: int
  RTC_hour :: int
  RTC_minute :: int
  RTC_second :: int
  item_1_text :: string
  item_2_text :: string

definition MAC_ADDR :: "nat list" where
  "MAC_ADDR = [0xA0, 0xCA, 0x11, 0x1A, 0x17, 0xFF]"

definition mac_text :: string where
  "mac_text = fmt_02X (MAC_ADDR ! 0) @ '':'' @ fmt_02X (MAC_ADDR ! 1) @ '':'' @ fmt_02X (MAC_ADDR ! 2) @
     '':'' @ fmt_02X (MAC_ADDR ! 3) @ '':'' @ fmt_02X (MAC_ADDR ! 4) @ '':'' @ fmt_02X (MAC_ADDR ! 5)"

definition time_text :: "json_env \<Rightarrow> string" where
  "time_text e = fmt_prec_d 4 (RTC_year e) @ ''-'' @ fmt_prec_d 2 (RTC_month e) @ ''-'' @
     fmt_prec_d 2 (RTC_day e) @ '':'' @ fmt_prec_d 2 (RTC_hour e) @ '':'' @
     fmt_prec_d 2 (RTC_minute e) @ '':'' @ fmt_prec_d 2 (RTC_second e)"

definition key_val :: "string \<Rightarrow> string \<Rightarrow> string" where
  "key_val k v = dq @ k @ dq @ '':'' @ dq @ v @ dq"

text \<open>The JSON text of the project \<open>tcp_echo_client\<close>, and the packet that carries it.\<close>

definition json_packet :: "json_env \<Rightarrow> string option" where
  "json_packet e = do {
     mac_addr \<leftarrow> sprintf_into 40 (key_val ''iot_mac_addr'' mac_text @ ''}'');
     request_serial_no \<leftarrow> sprintf_into 40 (key_val ''iot_request_history_id'' (fmt_d (recv_serial e)));
     check_Time \<leftarrow> sprintf_into 40 (key_val ''check_time'' (time_text e));
     check_data \<leftarrow> sprintf_into 100 (dq @ ''check_data'' @ dq @ '':[{'' @
       key_val ''iot_item_id'' ''A001'' @ '','' @ key_val ''data'' (item_1_text e) @ ''}]'');
     sprintf_into 300
       (''{'' @ mac_addr @ '','' @ request_serial_no @ '','' @ check_Time @ '','' @ check_data @ ''}'')
   }"

definition json_Packet_Gen :: "json_env \<Rightarrow> string option" where
  "json_Packet_Gen e = do {
     packet \<leftarrow> json_packet e;
     post_header \<leftarrow> sprintf_into 150
       (''POST HTTP/1.1'' @ crlf @ ''Host: 192.168.25.36::25261'' @ crlf @
        ''Content-Type: application/json; charset=utf-8Content-Length: '' @
        fmt_d (int (length packet)) @ crlf);
     sprintf_into 300 (post_header @ crlf @ '' '' @ packet @ crlf @ crlf)
   }"

text \<open>The version of the project \<open>working\<close>, up to the JSON text and then as it is sent.\<close>

definition json_packet_working :: "json_env \<Rightarrow> string option" where
  "json_packet_working e = do {
     mac_addr \<leftarrow> sprintf_into 40 (key_val ''iot_mac_addr'' mac_text);
     request_serial_no \<leftarrow> sprintf_into 40 (key_val ''iot_request_history_id'' (fmt_d (recv_serial e)));
     check_Time \<leftarrow> sprintf_into 40 (key_val ''check_time'' (time_text e));
     check_data \<leftarrow> sprintf_into 150 (dq @ ''check_data'' @ dq @ '':[{'' @
       key_val ''iot_item_id'' ''5'' @ '','' @ key_val ''data'' (item_1_text e) @ ''},{'' @
       key_val ''iot_item_id'' ''6'' @ '','' @ key_val ''data'' (item_2_text e) @ ''}]'');
     sprintf_into 300
       (''{'' @ mac_addr @ '','' @ request_serial_no @ '','' @ check_Time @ '','' @ check_data @ ''}'')
   }"

definition json_Packet_Gen_working :: "json_env \<Rightarrow> string option" where
  "json_Packet_Gen_working e = do {
     json_packet \<leftarrow> json_packet_working e;
     sprintf_into 450 (json_packet @ ''EOF'' @ crlf)
   }"

section \<open>The number parser\<close>

text \<open>
  \<open>str2int\<close> reads from memory: the argument is what can be read there, a NUL included
  when the text has one. Running off its end is \<open>None\<close>, and so is an \<open>int\<close> overflow.
\<close>

definition in_s32 :: "int \<Rightarrow> bool" where
  "in_s32 z \<longleftrightarrow> - (2 ^ 31) \<le> z \<and> z < 2 ^ 31"

definition is_digit :: "char \<Rightarrow> bool" where
  "is_digit c \<longleftrightarrow> 48 \<le> (of_char c :: nat) \<and> (of_char c :: nat) \<le> 57"

definition digit_val :: "char \<Rightarrow> int" where
  "digit_val c = int (of_char c :: nat) - 48"

fun scan_sign :: "string \<Rightarrow> int \<Rightarrow> (int \<times> string) option" where
  "scan_sign [] puiss = None"
| "scan_sign (c # cs) puiss =
     (if c = CHR ''-'' then scan_sign cs (puiss * -1)
      else if c = CHR ''+'' then scan_sign cs puiss
      else Some (puiss, c # cs))"

fun scan_digits :: "string \<Rightarrow> int \<Rightarrow> int option" where
  "scan_digits [] res = None"
| "scan_digits (c # cs) res =
     (if is_digit c then
        (if in_s32 (res * 10) \<and> in_s32 (res * 10 + digit_val c)
         then scan_digits cs (res * 10 + digit_val c) else None)
      else Some res)"

definition str2int :: "string \<Rightarrow> int option" where
  "str2int str = do {
     (puiss, rest) \<leftarrow> scan_sign str 1;
     res \<leftarrow> scan_digits rest 0;
     if in_s32 (res * puiss) then Some (res * puiss) else None
   }"

section \<open>The message received\<close>

fun strncmp_eq :: "string \<Rightarrow> nat \<Rightarrow> string \<Rightarrow> nat \<Rightarrow> nat \<Rightarrow> bool" where
  "strncmp_eq a i b j 0 \<longleftrightarrow> True"
| "strncmp_eq a i b j (Suc n) \<longleftrightarrow>
     cread a i = cread b j \<and> (cread a i = CHR 0x00 \<or> strncmp_eq a (Suc i) b (Suc j) n)"

definition jsoneq :: "string \<Rightarrow> jsmntok_t \<Rightarrow> string \<Rightarrow> bool" where
  "jsoneq json tok s \<longleftrightarrow>
     ttype tok = JSMN_STRING \<and> int (length s) = tend tok - tstart tok \<and>
     strncmp_eq json (nat (tstart tok)) s 0 (nat (tend tok - tstart tok))"

text \<open>
  The loop over the tokens behind the root object. On the key \<open>iot_mac_addr\<close> the code
  prints through a pointer that was never set: \<open>None\<close>. So is a token beyond the array.
\<close>

function key_loop :: "string \<Rightarrow> tokens \<Rightarrow> nat \<Rightarrow> nat \<Rightarrow> nat option" where
  "key_loop str t i r =
     (if i < r then
        (if length t \<le> i then None
         else if jsoneq str (t ! i) ''iot_mac_addr'' then None
         else if jsoneq str (t ! i) ''request_serial_no'' then key_loop str t (Suc (Suc i)) r
         else if jsoneq str (t ! i) ''check_time'' then key_loop str t (Suc (Suc i)) r
         else if jsoneq str (t ! i) ''check_data'' then
           (if length t \<le> i + 1 then None
            else if ttype (t ! (i + 1)) \<noteq> JSMN_ARRAY then key_loop str t (Suc i) r
            else key_loop str t (Suc (i + nat (tsize (t ! (i + 1))) + 1)) r)
         else key_loop str t (Suc i) r)
      else Some 0)"
  by pat_completeness auto
termination
  by (relation "measure (\<lambda>(str, t, i, r). r - i)") auto

definition sizeof_ptr :: nat where
  "sizeof_ptr = 4"

definition sizeof_jsmntok_t :: nat where
  "sizeof_jsmntok_t = 16"

definition json_Parser :: "tokens \<Rightarrow> jsmn_parser \<Rightarrow> string \<Rightarrow> nat option" where
  "json_Parser t p str =
     (case jsmn_parse p str (length str) (Some t) (sizeof_ptr div sizeof_jsmntok_t) of
        (Inr r, _, Some t') \<Rightarrow>
          if r < 1 then Some 1
          else if t' = [] then None
          else if ttype (t' ! 0) \<noteq> JSMN_OBJECT then Some 1
          else key_loop str t' 1 r
      | _ \<Rightarrow> Some 1)"

declare key_loop.simps [simp del]

section \<open>Lemmas\<close>

lemma jsmn_parse_count_le:
  assumes "jsmn_parse jsmn_init js len (Some ts) n = (Inr c, p', toks')" "n \<le> length ts"
  shows "c \<le> n"
proof -
  obtain p1 t where l: "jsmn_loop js len n 0 jsmn_init (Some ts) = (Inr c, p1, t)"
    using jsmn_parse_loop(1) [of jsmn_init js len ts n c] assms(1) by (auto simp: jsmn_init_def)
  with jsmn_loop_ok [OF jsmn_state_init [OF assms(2)] l] show ?thesis
    by (auto simp: jsmn_state_def jsmn_inv_def)
qed

lemma scan_digits_nat_dec:
  "int n < 2 ^ 31 \<Longrightarrow> scan_digits (nat_dec n @ xs) 0 = scan_digits xs (int n)"
proof (induction n arbitrary: xs rule: nat_dec.induct)
  case (1 n)
  show ?case
  proof (cases "n < 10")
    case True
    then have "is_digit (char_of (48 + n))" "digit_val (char_of (48 + n)) = int n"
      by (simp_all add: is_digit_def digit_val_def)
    with True show ?thesis by (simp add: nat_dec.simps [of n] in_s32_def)
  next
    case False
    let ?d = "char_of (48 + n mod 10) :: char"
    have "is_digit ?d" "digit_val ?d = int (n mod 10)"
      by (simp_all add: is_digit_def digit_val_def)
    moreover have "int (n div 10) * 10 + int (n mod 10) = int n"
      by (metis div_mult_mod_eq of_nat_add of_nat_mult of_nat_numeral)
    ultimately show ?thesis using False 1 by (simp add: nat_dec.simps [of n] in_s32_def)
  qed
qed

lemma nat_dec_Cons: "\<exists>d ds. nat_dec n = d # ds \<and> is_digit d"
proof (induction n rule: nat_dec.induct)
  case (1 n)
  show ?case
  proof (cases "n < 10")
    case True
    then show ?thesis by (simp add: nat_dec.simps [of n] is_digit_def)
  next
    case False
    with 1 show ?thesis by (auto simp: nat_dec.simps [of n])
  qed
qed

lemma nat_dec_length: "\<lbrakk>n < 10 ^ k; 0 < k\<rbrakk> \<Longrightarrow> length (nat_dec n) \<le> k"
proof (induction n arbitrary: k rule: nat_dec.induct)
  case (1 n)
  show ?case
  proof (cases "n < 10")
    case True
    with 1 show ?thesis by (simp add: nat_dec.simps [of n])
  next
    case False
    with 1 obtain j where j: "k = Suc j" "0 < j" by (cases k; cases "k - 1") auto
    with 1(2) have "n div 10 < 10 ^ j" by (simp add: less_mult_imp_div_less mult.commute)
    with 1 False j show ?thesis by (simp add: nat_dec.simps [of n])
  qed
qed

lemma nat_dec_digits: "list_all is_digit (nat_dec n)"
proof (induction n rule: nat_dec.induct)
  case (1 n)
  then show ?case by (subst nat_dec.simps) (auto simp: is_digit_def [of "char_of _"])
qed

lemma scan_sign_signs:
  "set signs \<subseteq> {CHR ''+'', CHR ''-''} \<Longrightarrow>
     scan_sign (signs @ xs) u = scan_sign xs (u * (-1) ^ count_list signs CHR ''-'')"
  by (induction signs arbitrary: u) (auto simp: mult.assoc)

lemma scan_sign_digit: "is_digit d \<Longrightarrow> scan_sign (d # xs) u = Some (u, d # xs)"
  by (auto simp: is_digit_def)

lemma fmt_d_length:
  assumes "in_s32 z"
  shows "length (fmt_d z) \<le> 11"
proof -
  have "length (nat_dec (nat \<bar>z\<bar>)) \<le> 10"
    using assms by (intro nat_dec_length) (auto simp: in_s32_def)
  then show ?thesis by (auto simp: fmt_d_def abs_if split: if_splits)
qed

lemma fmt_prec_d_length:
  assumes "0 \<le> z" "z < 10 ^ k" "0 < k"
  shows "length (fmt_prec_d k z) = k"
proof -
  have "nat z < 10 ^ k" using assms(1,2) by (simp add: nat_less_iff)
  then have "length (nat_dec (nat z)) \<le> k" using assms(3) by (rule nat_dec_length)
  with assms(1) show ?thesis by (simp add: fmt_prec_d_def Let_def)
qed

lemma in_s32_sign: "int n < 2 ^ 31 \<Longrightarrow> in_s32 (int n * (-1) ^ k)"
  by (cases "even k") (simp_all add: in_s32_def)

text \<open>The values the message generators are run on: a calendar date and a 32-bit serial number.\<close>

definition env_ok :: "json_env \<Rightarrow> bool" where
  "env_ok e \<longleftrightarrow> in_s32 (recv_serial e) \<and>
     0 \<le> RTC_year e \<and> RTC_year e < 10000 \<and> 0 \<le> RTC_month e \<and> RTC_month e < 100 \<and>
     0 \<le> RTC_day e \<and> RTC_day e < 100 \<and> 0 \<le> RTC_hour e \<and> RTC_hour e < 100 \<and>
     0 \<le> RTC_minute e \<and> RTC_minute e < 100 \<and> 0 \<le> RTC_second e \<and> RTC_second e < 100"

lemma time_text_length: "env_ok e \<Longrightarrow> length (time_text e) = 19"
  by (simp add: time_text_def env_ok_def fmt_prec_d_length)

lemma mac_text_length: "length mac_text = 17"
  by (simp add: mac_text_def fmt_02X_def)

lemmas text_lengths = mac_text_length time_text_length key_val_def dq_def crlf_def sprintf_into_def

definition sample_env :: json_env where
  "sample_env = \<lparr>recv_serial = 1, RTC_year = 2017, RTC_month = 7, RTC_day = 10, RTC_hour = 10,
     RTC_minute = 15, RTC_second = 7, item_1_text = ''11.100000'', item_2_text = ''12.100000''\<rparr>"

lemma str2int_signed:
  assumes "set signs \<subseteq> {CHR ''+'', CHR ''-''}" "int n < 2 ^ 31" "\<not> is_digit c"
  shows "str2int (signs @ nat_dec n @ c # rest) = Some ((-1) ^ count_list signs CHR ''-'' * int n)"
proof -
  obtain d ds where d: "nat_dec n = d # ds" "is_digit d" using nat_dec_Cons by blast
  have "scan_sign (signs @ nat_dec n @ c # rest) 1 =
      Some ((-1) ^ count_list signs CHR ''-'', nat_dec n @ c # rest)"
    using scan_sign_signs [OF assms(1), of "nat_dec n @ c # rest" 1] d
      scan_sign_digit [of d "ds @ c # rest"] by (simp del: scan_sign.simps)
  with scan_digits_nat_dec [OF assms(2), of "c # rest"] assms(3) in_s32_sign [OF assms(2)]
  show ?thesis by (simp add: str2int_def mult.commute)
qed

lemma json_Packet_Gen_fit:
  assumes "env_ok e" "length (item_1_text e) \<le> 24" "length (item_2_text e) \<le> 24"
  shows "json_Packet_Gen e \<noteq> None \<and> json_Packet_Gen_working e \<noteq> None"
proof -
  have s: "length (fmt_d (recv_serial e)) \<le> 11" using assms(1) by (simp add: fmt_d_length env_ok_def)
  let ?k = "148 + (int (length (fmt_d (recv_serial e))) + int (length (item_1_text e)))"
  have "length (nat_dec (nat ?k)) \<le> 3" using s assms(2) by (intro nat_dec_length) auto
  then have "length (fmt_d ?k) \<le> 3" by (simp add: fmt_d_def)
  with s assms(2,3) show ?thesis
    by (auto simp: json_Packet_Gen_def json_packet_def json_Packet_Gen_working_def json_packet_working_def
        text_lengths assms(1))
qed


section \<open>Properties\<close>

text \<open>
  \<open>str2int\<close> returns the number it reads: after any run of signs (each minus
  negates) and the decimal digits of a number below \<open>2 ^ 31\<close>, up to the first
  character that is no digit, the result is the signed number.
\<close>

theorem str2int_value:
  assumes "set signs \<subseteq> {CHR ''+'', CHR ''-''}" "int n < 2 ^ 31" "\<not> is_digit c"
  shows "str2int (signs @ nat_dec n @ c # rest) = Some ((-1) ^ count_list signs CHR ''-'' * int n)"
  using assms by (rule str2int_signed)

theorem str2int_value_witness: "str2int ''-42 left'' = Some (-42)"
proof -
  have "nat_dec 42 = ''42''" by code_simp
  with str2int_value [of "''-''" 42 "CHR '' ''" "''left''"] show ?thesis by (simp add: is_digit_def)
qed

text \<open>
  \<open>json_Parser\<close> never reads a message: it passes the size of a pointer in place
  of the size of the token array, so \<open>jsmn_parse\<close> gets room for no token and the
  function returns \<open>1\<close> (not parsed) for every text.
\<close>

theorem json_Parser_rejects_all: "json_Parser t jsmn_init str = Some 1"
proof -
  have "r < 1" if "jsmn_parse jsmn_init str (length str) (Some t) 0 = (Inr r, p', toks')" for r p' toks'
    using jsmn_parse_count_le [OF that] by simp
  then show ?thesis
    by (auto simp: json_Parser_def sizeof_ptr_def sizeof_jsmntok_t_def
        split: prod.splits sum.splits option.splits)
qed

text \<open>
  C40. Both message generators stay within every buffer they print to, for every
  serial number of 32 bits, every calendar date and time, and item texts of up to
  24 characters.
\<close>

theorem json_Packet_Gen_fits:
  assumes "env_ok e" "length (item_1_text e) \<le> 24" "length (item_2_text e) \<le> 24"
  shows "json_Packet_Gen e \<noteq> None \<and> json_Packet_Gen_working e \<noteq> None"
  using assms by (rule json_Packet_Gen_fit)

theorem json_Packet_Gen_fits_witness:
  "json_Packet_Gen sample_env \<noteq> None \<and> json_Packet_Gen_working sample_env \<noteq> None"
  by (rule json_Packet_Gen_fits) (simp_all add: sample_env_def env_ok_def in_s32_def)

end
