(* ===== verification/Json_Packets.thy ===== *)
theory Json_Packets
  imports Json
begin

text \<open>
  Whether the messages the device sends are JSON: the generated texts of \<open>json.c\<close> are
  run through \<open>jsmn_parse\<close>. The message of the project \<open>working\<close> is the text of a JSON
  value; that of \<open>tcp_echo_client\<close> is not.
\<close>

section \<open>Texts without escapes\<close>

lemma json_str_plain_text:
  "list_all (\<lambda>c. c \<noteq> CHR 0x22 \<and> c \<noteq> CHR 0x5C \<and> c \<noteq> CHR 0x00) s \<Longrightarrow> json_str s"
  by (induction s) (auto intro: json_str.intros)

definition plain :: "string \<Rightarrow> bool" where
  "plain s \<longleftrightarrow> list_all (\<lambda>c. c \<noteq> CHR 0x22 \<and> c \<noteq> CHR 0x5C \<and> c \<noteq> CHR 0x00) s"

lemma plain_simps [simp]:
  "plain []" "plain (c # s) \<longleftrightarrow> c \<noteq> CHR 0x22 \<and> c \<noteq> CHR 0x5C \<and> c \<noteq> CHR 0x00 \<and> plain s"
  "plain (s @ t) \<longleftrightarrow> plain s \<and> plain t"
  by (auto simp: plain_def)

lemma plain_json_str: "plain s \<Longrightarrow> json_str s"
  by (simp add: plain_def json_str_plain_text)

lemma plain_digits: "plain (nat_dec n)"
  using nat_dec_digits [of n] unfolding plain_def by (rule list.pred_mono_strong) (auto simp: is_digit_def)

lemma plain_zeros: "plain (replicate n CHR ''0'')"
  by (induction n) simp_all

lemma plain_fmt [simp]: "plain (fmt_d z)" "plain (fmt_prec_d k z)" "plain mac_text" "plain (time_text e)"
proof -
  show fd: "plain (fmt_d z)" for z using plain_digits by (simp add: fmt_d_def)
  show fp: "plain (fmt_prec_d k z)" for k z
    using plain_digits plain_zeros by (simp add: fmt_prec_d_def Let_def)
  show "plain mac_text" by code_simp
  show "plain (time_text e)" by (simp add: time_text_def fp)
qed

definition items_val :: "json_env \<Rightarrow> jval" where
  "items_val e = JArr
     (VCons (JObj (MCons ''iot_item_id'' (JStr ''5'') (MCons ''data'' (JStr (item_1_text e)) MNil)))
     (VCons (JObj (MCons ''iot_item_id'' (JStr ''6'') (MCons ''data'' (JStr (item_2_text e)) MNil))) VNil))"

definition packet_val :: "json_env \<Rightarrow> jval" where
  "packet_val e = JObj
     (MCons ''iot_mac_addr'' (JStr mac_text)
     (MCons ''iot_request_history_id'' (JStr (fmt_d (recv_serial e)))
     (MCons ''check_time'' (JStr (time_text e))
     (MCons ''check_data'' (items_val e) MNil))))"

lemma json_packet_working_render:
  "json_packet_working e = Some pk \<Longrightarrow> pk = render (packet_val e)"
  by (auto simp: json_packet_working_def sprintf_into_def packet_val_def items_val_def key_val_def dq_def
      split: if_splits Option.bind_splits)

lemma packet_val_ok: "\<lbrakk>plain (item_1_text e); plain (item_2_text e)\<rbrakk> \<Longrightarrow> jval_ok (packet_val e)"
  by (simp add: packet_val_def items_val_def plain_json_str)

lemma packet_val_ntoks: "ntoks (packet_val e) = 19"
  by (simp add: packet_val_def items_val_def)

text \<open>A text in which no container is open when a closing bracket comes.\<close>

definition loose :: "tokens \<Rightarrow> int \<Rightarrow> bool" where
  "loose T s \<longleftrightarrow> list_all (\<lambda>t. \<not> is_open t) T \<and> -1 \<le> s \<and> s < int (length T)"

lemma list_all_bump: "list_all (\<lambda>t. \<not> is_open t) (bump s T) = list_all (\<lambda>t. \<not> is_open t) T"
  using bump_same_span [of s T] by (auto simp: list_all_length same_span_def is_open_def)

lemma run_loose_value:
  assumes "jval_ok v" "at js len b (render v)" "stops js len (b + length (render v))"
    "length T + ntoks v \<le> n" "ntoks v \<le> length U" "loose T s"
  shows "\<exists>T' s'. run js len n b T s U = run js len n (b + length (render v)) T' s' (drop (ntoks v) U) \<and>
    loose T' s' \<and> length T' = length T + ntoks v"
proof -
  let ?T = "bump s T @ toks b v" and ?s = "after_super v s T"
  have "run js len n b T s U = run js len n (b + length (render v)) ?T ?s (drop (ntoks v) U)"
    using run_render(1) [OF assms(1), of js len n] assms(2-6) by (simp add: run_v_def loose_def)
  moreover have "loose ?T ?s"
    using assms(6) after_super_range [of s T v] toks_closed(1) by (simp add: loose_def list_all_bump)
  ultimately show ?thesis by (intro exI [of _ ?T] exI [of _ ?s]) simp
qed

lemma run_loose_comma:
  assumes "at js len b [CHR '','']" "loose T s"
  shows "\<exists>s'. run js len n b T s U = run js len n (Suc b) T s' U \<and> loose T s'"
proof -
  obtain xs where "drop b js = CHR '','' # xs" "b < len" using at_Cons [OF assms(1)] by auto
  moreover have "loose T (comma_super T s)"
    using assms(2) by (auto simp: loose_def comma_super_def dest!: find_last_Some split: option.splits)
  ultimately show ?thesis using turn_comma assms(2) by (auto simp: loose_def)
qed

lemma run_loose_member:
  assumes "json_str k" "jval_ok v" "at js len b (quoted k @ CHR '':'' # render v)"
    "stops js len (b + length k + 3 + length (render v))"
    "length T + Suc (ntoks v) \<le> n" "Suc (ntoks v) \<le> length U" "loose T s"
  shows "\<exists>T' s'. run js len n b T s U = run js len n (b + length k + 3 + length (render v)) T' s' (drop (Suc (ntoks v)) U) \<and>
    loose T' s' \<and> length T' = length T + Suc (ntoks v)"
proof -
  let ?c = "b + length k + 2" and ?v = "b + length k + 3"
  have a: "at js len b (quoted k)" "at js len ?c (CHR '':'' # render v)" "at js len ?v (render v)"
    using at_append [OF assms(3)] at_Cons [of js len ?c] by (auto simp: numeral_3_eq_3)
  obtain T1 s1 where 1: "run js len n b T s U = run js len n ?c T1 s1 (tl U)" "loose T1 s1" "length T1 = Suc (length T)"
    using run_loose_value [of "JStr k" js len b T n U s] assms(1,5-7) a at_delim [OF a(2)]
    by (auto simp: prim_delim_def drop_Suc)
  have 2: "run js len n ?c T1 s1 (tl U) = run js len n ?v T1 (int (length T)) (tl U)"
    using at_Cons [OF a(2)] turn_colon [of ?c js] 1(3) by (auto simp: numeral_3_eq_3)
  have l1: "loose T1 (int (length T))" "ntoks v \<le> length (tl U)"
    using 1(2,3) assms(6) by (auto simp: loose_def)
  obtain T2 s2 where 3: "run js len n ?v T1 (int (length T)) (tl U) =
      run js len n (?v + length (render v)) T2 s2 (drop (ntoks v) (tl U))" "loose T2 s2"
      "length T2 = length T1 + ntoks v"
    using run_loose_value [OF assms(2) a(3) assms(4) _ l1(2) l1(1), of n] assms(5) 1(3) by auto
  with 1 2 show ?thesis by (fastforce simp: drop_Suc)
qed

text \<open>\<open>reach b k\<close>: the parser gets to position \<open>b\<close> with \<open>k\<close> tokens filled, all of them closed.\<close>

definition reach :: "string \<Rightarrow> nat \<Rightarrow> nat \<Rightarrow> tokens \<Rightarrow> nat \<Rightarrow> nat \<Rightarrow> bool" where
  "reach js len n ts b k \<longleftrightarrow> (\<exists>T s. run js len n 0 [] (-1) ts = run js len n b T s (drop k ts) \<and>
     loose T s \<and> length T = k)"

lemma reach_start: "reach js len n ts 0 0"
  unfolding reach_def by (intro exI [of _ "[]"] exI [of _ "-1"]) (simp add: loose_def)

lemma reach_comma: "\<lbrakk>reach js len n ts b k; at js len b '',''\<rbrakk> \<Longrightarrow> reach js len n ts (b + length '','') k"
  unfolding reach_def using run_loose_comma by fastforce

lemma reach_value:
  assumes "reach js len n ts b k" "jval_ok v" "at js len b (render v)" "stops js len (b + length (render v))"
    "k + ntoks v \<le> n" "n \<le> length ts"
  shows "reach js len n ts (b + length (render v)) (k + ntoks v)"
proof -
  obtain T s where "run js len n 0 [] (-1) ts = run js len n b T s (drop k ts)" "loose T s" "length T = k"
    using assms(1) unfolding reach_def by blast
  with run_loose_value [OF assms(2-4), of T n "drop k ts" s] assms(5,6) show ?thesis
    unfolding reach_def by (auto simp: add.commute)
qed

lemma reach_member:
  assumes "reach js len n ts b k" "json_str w" "jval_ok v" "at js len b (quoted w @ CHR '':'' # render v)"
    "stops js len (b + length (quoted w @ CHR '':'' # render v))" "k + Suc (ntoks v) \<le> n" "n \<le> length ts"
  shows "reach js len n ts (b + length (quoted w @ CHR '':'' # render v)) (k + Suc (ntoks v))"
proof -
  obtain T s where "run js len n 0 [] (-1) ts = run js len n b T s (drop k ts)" "loose T s" "length T = k"
    using assms(1) unfolding reach_def by blast
  moreover have "Suc (ntoks v) \<le> length (drop k ts)" using assms(6,7) by simp
  moreover have e: "b + length w + 3 + length (render v) = b + length (quoted w @ CHR '':'' # render v)" by simp
  ultimately show ?thesis
    using run_loose_member [OF assms(2-4), of T n "drop k ts" s, unfolded e, OF assms(5)] assms(6)
    unfolding reach_def by (auto simp: add.commute)
qed

lemma jsmn_parse_unmatched:
  assumes "reach js len n ts b k" "at js len b ''}''"
  shows "fst (jsmn_parse jsmn_init js len (Some ts) n) = Inl JSMN_ERROR_INVAL"
proof -
  obtain T s where r: "run js len n 0 [] (-1) ts = run js len n b T s (drop k ts)" "loose T s"
    using assms(1) unfolding reach_def by blast
  obtain xs where x: "drop b js = CHR ''}'' # xs" "b < len" using at_Cons [OF assms(2)] by auto
  note c = cread_drop [OF x(1)]
  have "find_last is_open T (length T) = None"
    using r(2) by (auto simp: find_last_None loose_def list_all_length)
  then have "fst (run js len n b T s (drop k ts)) = Inl JSMN_ERROR_INVAL"
    using c x(2) by (simp add: run_def jsmn_loop.simps [of js len n "length T"] mk_p_def jsmn_step_def
        close_bracket_def del: find_last.simps)
  with r(1) show ?thesis
    by (auto simp: run_def mk_p_def jsmn_init_def jsmn_parse_def split: prod.splits)
qed

definition echo_items :: "json_env \<Rightarrow> jval" where
  "echo_items e = JArr (VCons
     (JObj (MCons ''iot_item_id'' (JStr ''A001'') (MCons ''data'' (JStr (item_1_text e)) MNil))) VNil)"

lemma json_packet_text:
  assumes "json_packet e = Some pk"
  shows "pk = render (JObj (MCons ''iot_mac_addr'' (JStr mac_text) MNil)) @ '','' @
    (quoted ''iot_request_history_id'' @ CHR '':'' # render (JStr (fmt_d (recv_serial e)))) @ '','' @
    (quoted ''check_time'' @ CHR '':'' # render (JStr (time_text e))) @ '','' @
    (quoted ''check_data'' @ CHR '':'' # render (echo_items e)) @ ''}''"
  using assms by (auto simp: json_packet_def sprintf_into_def echo_items_def key_val_def dq_def
      split: if_splits Option.bind_splits)


text \<open>The braces of the message of \<open>tcp_echo_client\<close> do not match.\<close>

lemma json_packet_rejected:
  assumes "json_packet e = Some pk" "plain (item_1_text e)" "14 \<le> n" "n \<le> length ts"
  shows "fst (jsmn_parse jsmn_init pk (length pk) (Some ts) n) = Inl JSMN_ERROR_INVAL"
proof -
  let ?o = "JObj (MCons ''iot_mac_addr'' (JStr mac_text) MNil)"
  let ?k2 = "''iot_request_history_id''" and ?v2 = "JStr (fmt_d (recv_serial e))"
  let ?k3 = "''check_time''" and ?v3 = "JStr (time_text e)"
  let ?k4 = "''check_data''" and ?v4 = "echo_items e"
  have ok: "jval_ok ?o" "jval_ok ?v2" "jval_ok ?v3" "jval_ok ?v4" "json_str ?k2" "json_str ?k3" "json_str ?k4"
    "ntoks ?o = 3" "ntoks ?v2 = 1" "ntoks ?v3 = 1" "ntoks ?v4 = 6"
    using assms(2) by (simp_all add: echo_items_def plain_json_str)
  have "at pk (length pk) 0 pk" by (simp add: at_def)
  then have "at pk (length pk) 0 (render ?o @ '','' @ (quoted ?k2 @ CHR '':'' # render ?v2) @ '','' @
      (quoted ?k3 @ CHR '':'' # render ?v3) @ '','' @ (quoted ?k4 @ CHR '':'' # render ?v4) @ ''}'')"
    by (subst (asm) (3) json_packet_text [OF assms(1)])
  note p1 = at_append [OF this]
  note p2 = at_append [OF conjunct2 [OF p1]]
  note p3 = at_append [OF conjunct2 [OF p2]]
  note p4 = at_append [OF conjunct2 [OF p3]]
  note p5 = at_append [OF conjunct2 [OF p4]]
  note p6 = at_append [OF conjunct2 [OF p5]]
  note p7 = at_append [OF conjunct2 [OF p6]]
  have comma: "prim_delim CHR '',''" "prim_delim CHR ''}''" by (simp_all add: prim_delim_def)
  note r1 = reach_value [OF reach_start ok(1) conjunct1 [OF p1] at_delim [OF conjunct1 [OF p2] comma(1)]]
  note r2 = reach_comma [OF r1 conjunct1 [OF p2]]
  note r3 = reach_member [OF r2 ok(5,2) conjunct1 [OF p3] at_delim [OF conjunct1 [OF p4] comma(1)]]
  note r4 = reach_comma [OF r3 conjunct1 [OF p4]]
  note r5 = reach_member [OF r4 ok(6,3) conjunct1 [OF p5] at_delim [OF conjunct1 [OF p6] comma(1)]]
  note r6 = reach_comma [OF r5 conjunct1 [OF p6]]
  note r7 = reach_member [OF r6 ok(7,4) conjunct1 [OF p7] at_delim [OF conjunct2 [OF p7] comma(2)]]
  show ?thesis by (rule jsmn_parse_unmatched [OF r7 conjunct2 [OF p7]]) (use assms(3,4) ok(8-11) in simp_all)
qed

section \<open>Properties\<close>

lemma json_packet_working_fits:
  assumes "env_ok e" "length (item_1_text e) \<le> 24" "length (item_2_text e) \<le> 24"
  shows "json_packet_working e \<noteq> None" "json_packet e \<noteq> None"
proof -
  have "length (fmt_d (recv_serial e)) \<le> 11" using assms(1) by (simp add: fmt_d_length env_ok_def)
  with assms(2,3) show "json_packet_working e \<noteq> None" "json_packet e \<noteq> None"
    by (auto simp: json_packet_working_def json_packet_def text_lengths assms(1))
qed

text \<open>
  C37. The message of the project \<open>working\<close> is a JSON document, whatever the serial
  number, the time and the (quote-free) item texts: it prints the intended object, and
  \<open>jsmn_parse\<close> reads it back as the 19 tokens of that object.
\<close>

theorem json_packet_working_parses:
  assumes "env_ok e" "length (item_1_text e) \<le> 24" "length (item_2_text e) \<le> 24"
    "plain (item_1_text e)" "plain (item_2_text e)" "19 \<le> n" "n \<le> length ts"
  shows "\<exists>pk. json_packet_working e = Some pk \<and> pk = render (packet_val e) \<and>
    fst (jsmn_parse jsmn_init pk (length pk) (Some ts) n) = Inr 19 \<and>
    snd (snd (jsmn_parse jsmn_init pk (length pk) (Some ts) n)) = Some (toks 0 (packet_val e) @ drop 19 ts)"
proof -
  obtain pk where pk: "json_packet_working e = Some pk" using json_packet_working_fits(1) [OF assms(1-3)] by blast
  note r = json_packet_working_render [OF pk] and ok = packet_val_ok [OF assms(4,5)]
  have "jsmn_parse jsmn_init pk (length pk) (Some ts) n =
      (Inr 19, \<lparr>pos = length pk, toknext = 19, toksuper = -1\<rparr>, Some (toks 0 (packet_val e) @ drop 19 ts))"
    using parse_render [OF ok, of n ts] assms(6,7) by (simp add: r packet_val_ntoks)
  with pk r show ?thesis by simp
qed

theorem json_packet_working_parses_witness:
  "\<exists>pk. json_packet_working sample_env = Some pk \<and>
    fst (jsmn_parse jsmn_init pk (length pk) (Some (replicate 20 tok0)) 20) = Inr 19"
  using json_packet_working_parses [of sample_env 20 "replicate 20 tok0"]
  by (auto simp: sample_env_def env_ok_def in_s32_def)

text \<open>
  The message of the project \<open>tcp_echo_client\<close> is no JSON document, whatever the
  serial number, the time and the (quote-free) item text: the brace printed behind the
  hardware address closes the object, the last brace closes nothing, and \<open>jsmn_parse\<close>
  returns \<open>JSMN_ERROR_INVAL\<close>.
\<close>

theorem json_packet_malformed:
  assumes "env_ok e" "length (item_1_text e) \<le> 24" "length (item_2_text e) \<le> 24"
    "plain (item_1_text e)" "14 \<le> n" "n \<le> length ts"
  shows "\<exists>pk. json_packet e = Some pk \<and>
    fst (jsmn_parse jsmn_init pk (length pk) (Some ts) n) = Inl JSMN_ERROR_INVAL"
  using json_packet_working_fits(2) [OF assms(1-3)] json_packet_rejected [OF _ assms(4-6)] by blast

theorem json_packet_malformed_witness:
  "\<exists>pk. json_packet sample_env = Some pk \<and>
    fst (jsmn_parse jsmn_init pk (length pk) (Some (replicate 20 tok0)) 20) = Inl JSMN_ERROR_INVAL"
  by (rule json_packet_malformed) (simp_all add: sample_env_def env_ok_def in_s32_def)

end
