(* ===== verification/Pbuf.thy ===== *)
theory Pbuf
  imports Prelude "HOL-Library.Monad_Syntax"
begin

text \<open>
  The packet buffers of lwIP, \<open>core/pbuf.c\<close>, on an explicit heap: a buffer is a record
  under its address, the \<open>next\<close> pointer an address or \<open>None\<close> (\<open>NULL\<close>). \<open>mem\<close> is the
  memory behind the structure (or the memory a \<open>PBUF_REF\<close> refers to) and \<open>pay\<close> the offset
  of the payload pointer in it. An access through a dangling pointer and a loop that does
  not end are the value \<open>None\<close> of an operation. Lengths and reference counts are \<open>u16_t\<close>:
  their wrap-around is written out. The configuration is that of the projects:
  assertions expand to nothing, \<open>LWIP_ERROR\<close> returns, \<open>TCP_QUEUE_OOSEQ\<close> is 0. Memory
  requests are answered by a list of grants; a custom pbuf (IP fragments) is outside the
  model.
\<close>

section \<open>Heap\<close>

type_synonym byte = "8 word"

datatype pbuf_layer = PBUF_TRANSPORT | PBUF_IP | PBUF_LINK | PBUF_RAW

datatype pbuf_type = PBUF_RAM | PBUF_ROM | PBUF_REF | PBUF_POOL

datatype err_t = ERR_OK | ERR_MEM | ERR_BUF | ERR_TIMEOUT | ERR_RTE | ERR_INPROGRESS | ERR_VAL |
  ERR_WOULDBLOCK | ERR_USE | ERR_ISCONN | ERR_ABRT | ERR_RST | ERR_CLSD | ERR_CONN | ERR_ARG | ERR_IF

record pbuf =
  nxt :: "nat option"
  mem :: "byte list"
  pay :: nat
  tot_len :: nat
  len :: nat
  ptype :: pbuf_type
  ref :: nat
  custom :: bool

record pheap =
  cells :: "nat \<Rightarrow> pbuf option"
  brk :: nat
  grants :: "bool list"
  garbage :: "nat \<Rightarrow> byte"

definition u16 :: "int \<Rightarrow> nat" where
  "u16 z = nat (z mod 65536)"

definition put :: "nat \<Rightarrow> pbuf \<Rightarrow> pheap \<Rightarrow> pheap" where
  "put a b h = h\<lparr>cells := (cells h)(a \<mapsto> b)\<rparr>"

definition drop_cell :: "nat \<Rightarrow> pheap \<Rightarrow> pheap" where
  "drop_cell a h = h\<lparr>cells := (cells h)(a := None)\<rparr>"

definition fresh_bytes :: "pheap \<Rightarrow> nat \<Rightarrow> byte list" where
  "fresh_bytes h n = map (garbage h) [0..<n]"

text \<open>\<open>mem_malloc\<close> and \<open>memp_malloc\<close>: a new address, or none when the request is denied.\<close>

definition malloc :: "pheap \<Rightarrow> nat option \<times> pheap" where
  "malloc h =
     (case grants h of
        [] \<Rightarrow> (None, h)
      | g # gs \<Rightarrow> if g then (Some (brk h), h\<lparr>brk := Suc (brk h), grants := gs\<rparr>) else (None, h\<lparr>grants := gs\<rparr>))"

section \<open>Reference counts\<close>

partial_function (option) pbuf_free_loop :: "pheap \<Rightarrow> nat option \<Rightarrow> nat \<Rightarrow> (nat \<times> pheap) option" where
  "pbuf_free_loop h p count =
     (case p of
        None \<Rightarrow> Some (count, h)
      | Some a \<Rightarrow>
          (case cells h a of
             None \<Rightarrow> None
           | Some b \<Rightarrow>
               (let r = u16 (int (ref b) - 1) in
                if r = 0 then
                  (if custom b then None else pbuf_free_loop (drop_cell a h) (nxt b) ((count + 1) mod 256))
                else Some (count, put a (b\<lparr>ref := r\<rparr>) h))))"

definition pbuf_free :: "nat option \<Rightarrow> pheap \<Rightarrow> (nat \<times> pheap) option" where
  "pbuf_free p h = pbuf_free_loop h p 0"

definition pbuf_ref :: "nat option \<Rightarrow> pheap \<Rightarrow> pheap option" where
  "pbuf_ref p h =
     (case p of
        None \<Rightarrow> Some h
      | Some a \<Rightarrow> (case cells h a of None \<Rightarrow> None | Some b \<Rightarrow> Some (put a (b\<lparr>ref := u16 (int (ref b) + 1)\<rparr>) h)))"

partial_function (option) pbuf_clen_loop :: "pheap \<Rightarrow> nat option \<Rightarrow> nat \<Rightarrow> nat option" where
  "pbuf_clen_loop h p n =
     (case p of
        None \<Rightarrow> Some n
      | Some a \<Rightarrow> (case cells h a of None \<Rightarrow> None | Some b \<Rightarrow> pbuf_clen_loop h (nxt b) ((n + 1) mod 256)))"

definition pbuf_clen :: "nat option \<Rightarrow> pheap \<Rightarrow> nat option" where
  "pbuf_clen p h = pbuf_clen_loop h p 0"

section \<open>Chains\<close>

partial_function (option) pbuf_cat_loop :: "pheap \<Rightarrow> nat \<Rightarrow> nat \<Rightarrow> pheap option" where
  "pbuf_cat_loop h a t =
     (case cells h a of
        None \<Rightarrow> None
      | Some b \<Rightarrow>
          (case cells h t of
             None \<Rightarrow> None
           | Some tb \<Rightarrow>
               (let b' = b\<lparr>tot_len := u16 (int (tot_len b) + int (tot_len tb))\<rparr> in
                case nxt b of
                  Some c \<Rightarrow> pbuf_cat_loop (put a b' h) c t
                | None \<Rightarrow> Some (put a (b'\<lparr>nxt := Some t\<rparr>) h))))"

definition pbuf_cat :: "nat option \<Rightarrow> nat option \<Rightarrow> pheap \<Rightarrow> pheap option" where
  "pbuf_cat h t heap =
     (case (h, t) of (Some a, Some b) \<Rightarrow> pbuf_cat_loop heap a b | _ \<Rightarrow> Some heap)"

definition pbuf_chain :: "nat option \<Rightarrow> nat option \<Rightarrow> pheap \<Rightarrow> pheap option" where
  "pbuf_chain h t heap = do { heap \<leftarrow> pbuf_cat h t heap; pbuf_ref t heap }"

definition pbuf_dechain :: "nat \<Rightarrow> pheap \<Rightarrow> (nat option \<times> pheap) option" where
  "pbuf_dechain p h =
     (case cells h p of
        None \<Rightarrow> None
      | Some b \<Rightarrow>
          (case nxt b of
             None \<Rightarrow> Some (None, h)
           | Some q \<Rightarrow>
               (case cells h q of
                  None \<Rightarrow> None
                | Some qb \<Rightarrow> do {
                    let h1 = put q (qb\<lparr>tot_len := u16 (int (tot_len b) - int (len b))\<rparr>) h;
                    b1 \<leftarrow> cells h1 p;
                    let h2 = put p (b1\<lparr>nxt := None, tot_len := len b1\<rparr>) h1;
                    (tail_gone, h3) \<leftarrow> pbuf_free (Some q) h2;
                    Some (if tail_gone > 0 then None else Some q, h3)
                  })))"

section \<open>Allocation\<close>

definition mem_align :: "nat \<Rightarrow> nat" where
  "mem_align n = (n + 3) div 4 * 4"

definition MEM_SIZE :: nat where
  "MEM_SIZE = 10 * 1024"

definition SIZEOF_STRUCT_PBUF :: nat where
  "SIZEOF_STRUCT_PBUF = 16"

text \<open>
  \<open>mem_malloc\<close> with the size of the request, which its argument type \<open>mem_size_t\<close> (\<open>u16_t\<close>, as \<open>MEM_SIZE\<close> is at
  most 64000) reduces. Where in the heap the block lies, and whether the heap has room for it, is left to \<open>malloc\<close>.
\<close>

definition ram_malloc :: "nat \<Rightarrow> pheap \<Rightarrow> nat option \<times> pheap" where
  "ram_malloc n h =
     (let size = n mod 65536 in
      if size = 0 then (None, h)
      else if mem_align size mod 65536 > MEM_SIZE then (None, h)
      else malloc h)"

definition layer_offset :: "pbuf_layer \<Rightarrow> nat" where
  "layer_offset l = (case l of PBUF_TRANSPORT \<Rightarrow> 14 + 20 + 20 | PBUF_IP \<Rightarrow> 14 + 20 | PBUF_LINK \<Rightarrow> 14 | PBUF_RAW \<Rightarrow> 0)"

definition PBUF_POOL_BUFSIZE :: nat where
  "PBUF_POOL_BUFSIZE = 500"

text \<open>The loop that allocates the tail of a chain from the pool; \<open>p\<close> is the head, \<open>r\<close> the last buffer.\<close>

function pool_tail :: "pheap \<Rightarrow> nat \<Rightarrow> nat \<Rightarrow> nat \<Rightarrow> (nat option \<times> pheap) option" where
  "pool_tail h p r rem_len =
     (if rem_len = 0 then Some (Some p, h)
      else
        (case malloc h of
           (None, h1) \<Rightarrow> do { (n, h2) \<leftarrow> pbuf_free (Some p) h1; Some (None, h2) }
         | (Some q, h1) \<Rightarrow>
             (case cells h1 r of
                None \<Rightarrow> None
              | Some rb \<Rightarrow>
                  (let l = min rem_len PBUF_POOL_BUFSIZE;
                       qb = \<lparr>nxt = None, mem = fresh_bytes h1 PBUF_POOL_BUFSIZE, pay = 0, tot_len = rem_len,
                             len = l, ptype = PBUF_POOL, ref = 1, custom = False\<rparr>
                   in pool_tail (put r (rb\<lparr>nxt := Some q\<rparr>) (put q qb h1)) p q (rem_len - l)))))"
  by pat_completeness auto
termination
  by (relation "measure (\<lambda>(h, p, r, n). n)") (auto simp: PBUF_POOL_BUFSIZE_def)

declare pool_tail.simps [simp del]

definition pbuf_alloc :: "pbuf_layer \<Rightarrow> nat \<Rightarrow> pbuf_type \<Rightarrow> pheap \<Rightarrow> (nat option \<times> pheap) option" where
  "pbuf_alloc layer n type h =
     (let offset = mem_align (layer_offset layer) in
      case type of
        PBUF_POOL \<Rightarrow>
          (case malloc h of
             (None, h1) \<Rightarrow> Some (None, h1)
           | (Some p, h1) \<Rightarrow>
               (let l = min n (PBUF_POOL_BUFSIZE - offset) in
                pool_tail (put p \<lparr>nxt = None, mem = fresh_bytes h1 PBUF_POOL_BUFSIZE, pay = offset, tot_len = n,
                                  len = l, ptype = PBUF_POOL, ref = 1, custom = False\<rparr> h1) p p (n - l)))
      | PBUF_RAM \<Rightarrow>
          (let size = mem_align (SIZEOF_STRUCT_PBUF + layer_offset layer) + mem_align n in
           case ram_malloc size h of
             (None, h1) \<Rightarrow> Some (None, h1)
           | (Some p, h1) \<Rightarrow>
               if size mod 65536 < SIZEOF_STRUCT_PBUF then None
               else Some (Some p, put p \<lparr>nxt = None, mem = fresh_bytes h1 (size mod 65536 - SIZEOF_STRUCT_PBUF), pay = offset,
                                         tot_len = n, len = n, ptype = PBUF_RAM, ref = 1, custom = False\<rparr> h1))
      | _ \<Rightarrow>
          (case malloc h of
             (None, h1) \<Rightarrow> Some (None, h1)
           | (Some p, h1) \<Rightarrow>
               Some (Some p, put p \<lparr>nxt = None, mem = [], pay = 0, tot_len = n, len = n, ptype = type, ref = 1,
                                    custom = False\<rparr> h1)))"

section \<open>Resizing\<close>

text \<open>The loop of \<open>pbuf_realloc\<close>: the new last buffer and its length.\<close>

partial_function (option) realloc_loop :: "pheap \<Rightarrow> nat \<Rightarrow> nat \<Rightarrow> int \<Rightarrow> (nat \<times> nat \<times> pheap) option" where
  "realloc_loop h q rem_len grow =
     (case cells h q of
        None \<Rightarrow> None
      | Some b \<Rightarrow>
          if rem_len > len b then
            (case nxt b of
               None \<Rightarrow> None
             | Some c \<Rightarrow> realloc_loop (put q (b\<lparr>tot_len := u16 (int (tot_len b) + grow)\<rparr>) h) c (rem_len - len b) grow)
          else Some (q, rem_len, h))"

text \<open>
  What \<open>pbuf_realloc\<close> does with the new last buffer \<open>q\<close>. \<open>mem_trim\<close> gives the memory
  behind the new end of the payload back to the heap.
\<close>

definition realloc_finish :: "nat \<Rightarrow> nat \<Rightarrow> pheap \<Rightarrow> pheap option" where
  "realloc_finish q rem_len h1 = do {
     qb \<leftarrow> cells h1 q;
     let qb1 = (if ptype qb = PBUF_RAM \<and> rem_len \<noteq> len qb
                then qb\<lparr>mem := take (pay qb + mem_align rem_len) (mem qb)\<rparr> else qb);
     let h2 = put q (qb1\<lparr>len := rem_len, tot_len := rem_len\<rparr>) h1;
     (n, h3) \<leftarrow> (if nxt qb \<noteq> None then pbuf_free (nxt qb) h2 else Some (0, h2));
     qb3 \<leftarrow> cells h3 q;
     Some (put q (qb3\<lparr>nxt := None\<rparr>) h3)
   }"

definition pbuf_realloc :: "nat \<Rightarrow> nat \<Rightarrow> pheap \<Rightarrow> pheap option" where
  "pbuf_realloc p new_len h =
     (case cells h p of
        None \<Rightarrow> None
      | Some b \<Rightarrow>
          if new_len \<ge> tot_len b then Some h
          else do {
            (q, rem_len, h1) \<leftarrow> realloc_loop h p new_len (int new_len - int (tot_len b));
            realloc_finish q rem_len h1
          })"

text \<open>Returns \<open>True\<close> on failure, as the non-zero value of the code.\<close>

definition pbuf_header :: "nat \<Rightarrow> int \<Rightarrow> pheap \<Rightarrow> (bool \<times> pheap) option" where
  "pbuf_header p inc h =
     (if inc = 0 then Some (False, h)
      else
        (case cells h p of
           None \<Rightarrow> None
         | Some b \<Rightarrow>
             (if inc < 0 \<and> \<not> - inc \<le> int (len b) then Some (True, h)
              else
                (let b' = b\<lparr>pay := nat (int (pay b) - inc), len := u16 (int (len b) + inc),
                            tot_len := u16 (int (tot_len b) + inc)\<rparr> in
                 case ptype b of
                   PBUF_REF \<Rightarrow> if inc < 0 then Some (False, put p b' h) else Some (True, h)
                 | PBUF_ROM \<Rightarrow> if inc < 0 then Some (False, put p b' h) else Some (True, h)
                 | _ \<Rightarrow> if int (pay b) - inc < 0 then Some (True, h) else Some (False, put p b' h)))))"

section \<open>Content\<close>

definition bytes :: "pbuf \<Rightarrow> byte list" where
  "bytes b = take (len b) (drop (pay b) (mem b))"

text \<open>\<open>MEMCPY\<close> into the memory of a buffer at offset \<open>i\<close> of its payload; none when it would write behind the memory.\<close>

definition poke :: "nat \<Rightarrow> byte list \<Rightarrow> pbuf \<Rightarrow> pbuf" where
  "poke i xs b = b\<lparr>mem := take (pay b + i) (mem b) @ xs @ drop (pay b + i + length xs) (mem b)\<rparr>"

definition memcpy_at :: "nat \<Rightarrow> byte list \<Rightarrow> pbuf \<Rightarrow> pbuf option" where
  "memcpy_at i xs b = (if pay b + i + length xs \<le> length (mem b) then Some (poke i xs b) else None)"

partial_function (option) copy_partial_loop ::
    "pheap \<Rightarrow> nat option \<Rightarrow> nat \<Rightarrow> nat \<Rightarrow> byte list \<Rightarrow> byte list option" where
  "copy_partial_loop h p n offset acc =
     (if n = 0 then Some acc
      else
        (case p of
           None \<Rightarrow> Some acc
         | Some a \<Rightarrow>
             (case cells h a of
                None \<Rightarrow> None
              | Some b \<Rightarrow>
                  if offset \<noteq> 0 \<and> offset \<ge> len b then copy_partial_loop h (nxt b) n (offset - len b) acc
                  else
                    (let l = min (len b - offset) n in
                     copy_partial_loop h (nxt b) (n - l) 0 (acc @ take l (drop (pay b + offset) (mem b)))))))"

definition pbuf_copy_partial :: "nat option \<Rightarrow> nat \<Rightarrow> nat \<Rightarrow> pheap \<Rightarrow> byte list option" where
  "pbuf_copy_partial p n offset h = copy_partial_loop h p n offset []"

partial_function (option) take_loop :: "pheap \<Rightarrow> nat option \<Rightarrow> byte list \<Rightarrow> pheap option" where
  "take_loop h p dat =
     (if dat = [] then Some h
      else
        (case p of
           None \<Rightarrow> None
         | Some a \<Rightarrow>
             (case cells h a of
                None \<Rightarrow> None
              | Some b \<Rightarrow>
                  (let l = min (length dat) (len b) in
                   case memcpy_at 0 (take l dat) b of
                     None \<Rightarrow> None
                   | Some b1 \<Rightarrow> take_loop (put a b1 h) (nxt b) (drop l dat)))))"

definition pbuf_take :: "nat option \<Rightarrow> byte list \<Rightarrow> pheap \<Rightarrow> (err_t \<times> pheap) option" where
  "pbuf_take p dat h =
     (case p of
        None \<Rightarrow> Some (ERR_OK, h)
      | Some a \<Rightarrow>
          (case cells h a of
             None \<Rightarrow> None
           | Some b \<Rightarrow>
               if tot_len b < length dat then Some (ERR_ARG, h)
               else map_option (\<lambda>h'. (ERR_OK, h')) (take_loop h p dat)))"

partial_function (option) seek :: "pheap \<Rightarrow> nat option \<Rightarrow> nat \<Rightarrow> (nat option \<times> nat) option" where
  "seek h q i =
     (case q of
        None \<Rightarrow> Some (None, i)
      | Some a \<Rightarrow>
          (case cells h a of
             None \<Rightarrow> None
           | Some b \<Rightarrow> if len b \<le> i then seek h (nxt b) (i - len b) else Some (q, i)))"

definition pbuf_get_at :: "nat option \<Rightarrow> nat \<Rightarrow> pheap \<Rightarrow> byte option" where
  "pbuf_get_at p offset h = do {
     (q, i) \<leftarrow> seek h p offset;
     (case q of
        None \<Rightarrow> Some 0
      | Some a \<Rightarrow> (case cells h a of None \<Rightarrow> None | Some b \<Rightarrow> Some (mem b ! (pay b + i))))
   }"

text \<open>The comparison loop: the index of the first difference plus one, or zero.\<close>

fun memcmp_loop :: "pheap \<Rightarrow> nat option \<Rightarrow> nat \<Rightarrow> byte list \<Rightarrow> nat \<Rightarrow> nat option" where
  "memcmp_loop h q start [] i = Some 0"
| "memcmp_loop h q start (b # s2) i =
     (case pbuf_get_at q (u16 (int start + int i)) h of
        None \<Rightarrow> None
      | Some a \<Rightarrow> if a \<noteq> b then Some (u16 (int i + 1)) else memcmp_loop h q start s2 (i + 1))"

definition pbuf_memcmp :: "nat option \<Rightarrow> nat \<Rightarrow> byte list \<Rightarrow> pheap \<Rightarrow> nat option" where
  "pbuf_memcmp p offset s2 h = do {
     (q, start) \<leftarrow> seek h p offset;
     (case q of None \<Rightarrow> Some 0xFFFF | Some a \<Rightarrow> memcmp_loop h q start s2 0)
   }"

partial_function (option) memfind_loop :: "pheap \<Rightarrow> nat option \<Rightarrow> byte list \<Rightarrow> nat \<Rightarrow> nat \<Rightarrow> nat option" where
  "memfind_loop h p m i mx =
     (if i \<le> mx then
        (case pbuf_memcmp p i m h of
           None \<Rightarrow> None
         | Some d \<Rightarrow> if d = 0 then Some i else memfind_loop h p m (u16 (int i + int d)) mx)
      else Some 0xFFFF)"

definition pbuf_memfind :: "nat \<Rightarrow> byte list \<Rightarrow> nat \<Rightarrow> pheap \<Rightarrow> nat option" where
  "pbuf_memfind p m start_offset h =
     (case cells h p of
        None \<Rightarrow> None
      | Some b \<Rightarrow>
          if tot_len b \<ge> length m + start_offset
          then memfind_loop h (Some p) m start_offset (u16 (int (tot_len b) - int (length m)))
          else Some 0xFFFF)"

definition pbuf_strstr :: "nat \<Rightarrow> byte list \<Rightarrow> pheap \<Rightarrow> nat option" where
  "pbuf_strstr p sub h =
     (case cells h p of
        None \<Rightarrow> None
      | Some b \<Rightarrow>
          if sub = [] \<or> tot_len b = 0xFFFF \<or> length sub \<ge> 0xFFFF then Some 0xFFFF
          else pbuf_memfind p sub 0 h)"

text \<open>The check of \<open>pbuf_copy\<close> for packet queues: a buffer that ends a packet and has a successor.\<close>

definition is_queue :: "nat option \<Rightarrow> pheap \<Rightarrow> bool option" where
  "is_queue p h =
     (case p of
        None \<Rightarrow> Some False
      | Some a \<Rightarrow> map_option (\<lambda>b. len b = tot_len b \<and> nxt b \<noteq> None) (cells h a))"

text \<open>
  One turn of the do-while loop: the returned error code, or the positions in both
  chains for the next turn.
\<close>

definition copy_turn ::
    "pheap \<Rightarrow> nat \<Rightarrow> nat \<Rightarrow> nat \<Rightarrow> nat \<Rightarrow> (err_t + nat \<times> nat \<times> nat \<times> nat) option \<times> pheap" where
  "copy_turn h p_to offset_to p_from offset_from =
     (case cells h p_to of
        None \<Rightarrow> (None, h)
      | Some bt \<Rightarrow>
          (case cells h p_from of
             None \<Rightarrow> (None, h)
           | Some bf \<Rightarrow>
               (let l = (if len bt - offset_to \<ge> len bf - offset_from then len bf - offset_from else len bt - offset_to);
                    dat = take l (drop (pay bf + offset_from) (mem bf));
                    h1 = put p_to (poke offset_to dat bt) h;
                    ot = offset_to + l; fo = offset_from + l;
                    from' = (if fo \<ge> len bf then nxt bf else Some p_from);
                    fo' = (if fo \<ge> len bf then 0 else fo);
                    to' = (if ot = len bt then nxt bt else Some p_to);
                    ot' = (if ot = len bt then 0 else ot)
                in if memcpy_at offset_to dat bt = None then (None, h)
                   else if ot = len bt \<and> to' = None \<and> from' \<noteq> None then (Some (Inl ERR_ARG), h1)
                   else
                     (case is_queue from' h1 of
                        None \<Rightarrow> (None, h1)
                      | Some qf \<Rightarrow>
                          if qf then (Some (Inl ERR_VAL), h1)
                          else
                            (case is_queue to' h1 of
                               None \<Rightarrow> (None, h1)
                             | Some qt \<Rightarrow>
                                 if qt then (Some (Inl ERR_VAL), h1)
                                 else
                                   (case from' of
                                      None \<Rightarrow> (Some (Inl ERR_OK), h1)
                                    | Some f \<Rightarrow>
                                        (case to' of
                                           None \<Rightarrow> (None, h1)
                                         | Some t \<Rightarrow> (Some (Inr (t, ot', f, fo')), h1))))))))"

partial_function (option) copy_loop :: "pheap \<Rightarrow> nat \<Rightarrow> nat \<Rightarrow> nat \<Rightarrow> nat \<Rightarrow> (err_t \<times> pheap) option" where
  "copy_loop h p_to offset_to p_from offset_from =
     (case copy_turn h p_to offset_to p_from offset_from of
        (r, h1) \<Rightarrow>
          (case r of
             None \<Rightarrow> None
           | Some e \<Rightarrow>
               (case e of
                  Inl err \<Rightarrow> Some (err, h1)
                | Inr x \<Rightarrow> (case x of (t, ot, f, fo) \<Rightarrow> copy_loop h1 t ot f fo))))"

definition pbuf_copy :: "nat option \<Rightarrow> nat option \<Rightarrow> pheap \<Rightarrow> (err_t \<times> pheap) option" where
  "pbuf_copy p_to p_from h =
     (case (p_to, p_from) of
        (Some t, Some f) \<Rightarrow>
          (case (cells h t, cells h f) of
             (Some bt, Some bf) \<Rightarrow> if tot_len bt \<ge> tot_len bf then copy_loop h t 0 f 0 else Some (ERR_ARG, h)
           | _ \<Rightarrow> None)
      | _ \<Rightarrow> Some (ERR_ARG, h))"

definition pbuf_coalesce :: "nat \<Rightarrow> pbuf_layer \<Rightarrow> pheap \<Rightarrow> (nat \<times> pheap) option" where
  "pbuf_coalesce p layer h =
     (case cells h p of
        None \<Rightarrow> None
      | Some b \<Rightarrow>
          (if nxt b = None then Some (p, h)
           else do {
             (q, h1) \<leftarrow> pbuf_alloc layer (tot_len b) PBUF_RAM h;
             (case q of
                None \<Rightarrow> Some (p, h1)
              | Some a \<Rightarrow> do {
                  (e, h2) \<leftarrow> pbuf_copy q (Some p) h1;
                  (n, h3) \<leftarrow> pbuf_free (Some p) h2;
                  Some (a, h3) })
           }))"


section \<open>Packets\<close>

text \<open>
  \<open>packet m p xs\<close>: the chain from \<open>p\<close> consists of the buffers at the addresses \<open>xs\<close> and
  keeps the invariant of \<open>pbuf.h\<close>, \<open>tot_len = len + next->tot_len\<close>. In \<open>pchain k\<close> every
  \<open>tot_len\<close> counts \<open>k\<close> bytes more: a chain under construction.
\<close>

fun sumlen :: "(nat \<Rightarrow> pbuf option) \<Rightarrow> nat list \<Rightarrow> nat" where
  "sumlen m [] = 0"
| "sumlen m (a # as) = (case m a of None \<Rightarrow> 0 | Some b \<Rightarrow> len b) + sumlen m as"

fun content :: "(nat \<Rightarrow> pbuf option) \<Rightarrow> nat list \<Rightarrow> byte list" where
  "content m [] = []"
| "content m (a # as) = (case m a of None \<Rightarrow> [] | Some b \<Rightarrow> bytes b) @ content m as"

fun pchain :: "nat \<Rightarrow> (nat \<Rightarrow> pbuf option) \<Rightarrow> nat option \<Rightarrow> nat list \<Rightarrow> bool" where
  "pchain k m p [] \<longleftrightarrow> p = None"
| "pchain k m p (a # as) \<longleftrightarrow> p = Some a \<and>
     (case m a of
        None \<Rightarrow> False
      | Some b \<Rightarrow> tot_len b = len b + sumlen m as + k \<and> tot_len b < 65536 \<and> pay b + len b \<le> length (mem b) \<and>
          pchain k m (nxt b) as)"

abbreviation packet :: "(nat \<Rightarrow> pbuf option) \<Rightarrow> nat option \<Rightarrow> nat list \<Rightarrow> bool" where
  "packet \<equiv> pchain 0"

lemma u16_id [simp]: "u16 (int n) = n mod 65536" "n < 65536 \<Longrightarrow> u16 (int n) = n"
  by (simp_all add: u16_def nat_mod_distrib)

lemma packet_Cons:
  "pchain k m p (a # as) \<longleftrightarrow> p = Some a \<and> (\<exists>b. m a = Some b \<and> tot_len b = len b + sumlen m as + k \<and> tot_len b < 65536 \<and>
     pay b + len b \<le> length (mem b) \<and> pchain k m (nxt b) as)"
  by (auto split: option.splits)

lemma packet_cases:
  assumes "pchain k m p xs"
  obtains "p = None" "xs = []"
  | a as b where "p = Some a" "xs = a # as" "m a = Some b" "tot_len b = len b + sumlen m as + k" "tot_len b < 65536"
      "pay b + len b \<le> length (mem b)" "pchain k m (nxt b) as"
  using assms by (cases xs) (auto simp: packet_Cons simp del: pchain.simps(2))

declare pchain.simps(2) [simp del]

lemma packet_unique: "\<lbrakk>pchain k m p xs; pchain k m p ys\<rbrakk> \<Longrightarrow> xs = ys"
proof (induction xs arbitrary: p ys)
  case Nil
  then show ?case by (cases ys) (auto simp: packet_Cons)
next
  case (Cons a xs)
  then obtain ys' where "ys = a # ys'" by (cases ys) (auto simp: packet_Cons)
  with Cons show ?case by (auto simp: packet_Cons)
qed

lemma packet_suffix: "pchain k m p (xs @ a # ys) \<Longrightarrow> pchain k m (Some a) (a # ys)"
proof (induction xs arbitrary: p)
  case Nil
  then show ?case by (auto simp: packet_Cons)
next
  case (Cons b xs)
  then show ?case by (auto simp: packet_Cons)
qed

lemma packet_distinct: "pchain k m p xs \<Longrightarrow> distinct xs"
proof (induction xs arbitrary: p)
  case (Cons a xs)
  then have "distinct xs" by (auto simp: packet_Cons)
  moreover have "a \<notin> set xs"
  proof
    assume "a \<in> set xs"
    then obtain us vs where xs: "xs = us @ a # vs" by (meson split_list)
    have "pchain k m (Some a) (a # us @ a # vs)" using Cons.prems by (simp add: xs packet_Cons)
    moreover have "pchain k m (Some a) (a # vs)"
      using packet_suffix [of k m p "a # us" a vs] Cons.prems by (simp add: xs)
    ultimately have "a # us @ a # vs = a # vs" by (rule packet_unique)
    then show False by simp
  qed
  ultimately show ?case by simp
qed simp

lemma packet_frame [frame]:
  "(\<And>a. a \<in> set xs \<Longrightarrow> m' a = m a) \<Longrightarrow> pchain k m' p xs = pchain k m p xs"
  "(\<And>a. a \<in> set xs \<Longrightarrow> m' a = m a) \<Longrightarrow> sumlen m' xs = sumlen m xs"
  "(\<And>a. a \<in> set xs \<Longrightarrow> m' a = m a) \<Longrightarrow> content m' xs = content m xs"
proof -
  show t: "(\<And>a. a \<in> set xs \<Longrightarrow> m' a = m a) \<Longrightarrow> sumlen m' xs = sumlen m xs" for xs
    by (induction xs) auto
  show "(\<And>a. a \<in> set xs \<Longrightarrow> m' a = m a) \<Longrightarrow> content m' xs = content m xs"
    by (induction xs) auto
  show "(\<And>a. a \<in> set xs \<Longrightarrow> m' a = m a) \<Longrightarrow> pchain k m' p xs = pchain k m p xs"
  proof (induction xs arbitrary: p)
    case (Cons a xs)
    then have "m' a = m a" "sumlen m' xs = sumlen m xs" "\<And>q. pchain k m' q xs = pchain k m q xs"
      using t [of xs] by auto
    then show ?case by (simp add: packet_Cons)
  qed simp
qed

lemma packet_frame_upd [simp]:
  assumes "a \<notin> set xs"
  shows "pchain k (m(a := v)) p xs = pchain k m p xs" "sumlen (m(a := v)) xs = sumlen m xs" "content (m(a := v)) xs = content m xs"
  using assms by (intro packet_frame; auto)+

lemma packet_cells: "\<lbrakk>pchain k m p xs; a \<in> set xs\<rbrakk> \<Longrightarrow> \<exists>b. m a = Some b \<and> pay b + len b \<le> length (mem b)"
  by (induction xs arbitrary: p) (auto simp: packet_Cons)

lemma content_length: "pchain k m p xs \<Longrightarrow> length (content m xs) = sumlen m xs"
  by (induction xs arbitrary: p) (auto simp: packet_Cons bytes_def)

lemma content_append [simp]: "content m (xs @ ys) = content m xs @ content m ys"
  by (induction xs) auto

lemma sumlen_append [simp]: "sumlen m (xs @ ys) = sumlen m xs + sumlen m ys"
  by (induction xs) auto

lemma packet_tot_len: "packet m (Some a) xs \<Longrightarrow> \<exists>b. m a = Some b \<and> tot_len b = sumlen m xs"
  by (cases xs) (auto simp: packet_Cons)

lemma cells_put [simp]: "cells (put a b h) = (cells h)(a \<mapsto> b)"
  by (simp add: put_def)

lemma brk_put [simp]: "brk (put a b h) = brk h"
  by (simp add: put_def)

lemma cells_drop_cell [simp]: "cells (drop_cell a h) = (cells h)(a := None)"
  by (simp add: drop_cell_def)

section \<open>Freeing\<close>

text \<open>
  The heap after \<open>pbuf_free\<close> on a chain \<open>xs @ ys\<close>: the buffers \<open>xs\<close> are gone, and the first
  buffer of \<open>ys\<close> has lost one reference.
\<close>

definition freed :: "nat list \<Rightarrow> nat list \<Rightarrow> (nat \<Rightarrow> pbuf option) \<Rightarrow> nat \<Rightarrow> pbuf option" where
  "freed xs ys m a =
     (if a \<in> set xs then None
      else if ys \<noteq> [] \<and> a = hd ys then map_option (\<lambda>b. b\<lparr>ref := ref b - 1\<rparr>) (m a)
      else m a)"

definition sole :: "(nat \<Rightarrow> pbuf option) \<Rightarrow> nat \<Rightarrow> bool" where
  "sole m a \<longleftrightarrow> (\<exists>b. m a = Some b \<and> ref b = 1 \<and> \<not> custom b)"

definition shared :: "(nat \<Rightarrow> pbuf option) \<Rightarrow> nat \<Rightarrow> bool" where
  "shared m a \<longleftrightarrow> (\<exists>b. m a = Some b \<and> 1 < ref b \<and> ref b < 65536)"

lemma freed_Cons:
  assumes "a \<notin> set xs" "a \<notin> set ys"
  shows "freed xs ys (m(a := None)) = freed (a # xs) ys m"
proof -
  have "ys \<noteq> [] \<longrightarrow> hd ys \<noteq> a" using assms(2) by (cases ys) auto
  with assms show ?thesis by (auto simp: freed_def fun_eq_iff)
qed

lemma pbuf_free_loop_chain:
  assumes "pchain k (cells h) p (xs @ ys)" "\<forall>a\<in>set xs. sole (cells h) a"
    "ys \<noteq> [] \<longrightarrow> shared (cells h) (hd ys)" "n + length xs < 256"
  shows "pbuf_free_loop h p n = Some (n + length xs, h\<lparr>cells := freed xs ys (cells h)\<rparr>)"
  using assms
proof (induction xs arbitrary: h p n)
  case Nil
  show ?case
  proof (cases ys)
    case Nil
    then have "freed [] ys (cells h) = cells h" by (simp add: freed_def fun_eq_iff)
    with Nil Nil.prems show ?thesis by (simp add: pbuf_free_loop.simps)
  next
    case (Cons y ys')
    with Nil.prems obtain b where b: "p = Some y" "cells h y = Some b" "1 < ref b" "ref b < 65536"
      by (auto simp: packet_Cons shared_def)
    have "u16 (int (ref b) - 1) = ref b - 1" using b(3,4) by (simp add: u16_def)
    moreover have "freed [] ys (cells h) = (cells h)(y \<mapsto> b\<lparr>ref := ref b - 1\<rparr>)"
      using b(2) Cons by (auto simp: freed_def fun_eq_iff)
    ultimately show ?thesis using b by (simp add: pbuf_free_loop.simps put_def Let_def fun_upd_def)
  qed
next
  case (Cons a xs)
  then obtain b where b: "p = Some a" "cells h a = Some b" "ref b = 1" "\<not> custom b" "pchain k (cells h) (nxt b) (xs @ ys)"
    by (auto simp: packet_Cons sole_def)
  have d: "a \<notin> set xs" "a \<notin> set ys" using packet_distinct [OF Cons.prems(1)] by auto
  then have "ys \<noteq> [] \<longrightarrow> hd ys \<noteq> a" by (cases ys) auto
  let ?h = "drop_cell a h"
  have "pbuf_free_loop ?h (nxt b) (Suc n) = Some (Suc n + length xs, ?h\<lparr>cells := freed xs ys (cells ?h)\<rparr>)"
  proof (rule Cons.IH)
    show "\<forall>a\<in>set xs. sole (cells ?h) a" using Cons.prems(2) d by (auto simp: drop_cell_def sole_def)
    show "ys \<noteq> [] \<longrightarrow> shared (cells ?h) (hd ys)"
      using Cons.prems(3) \<open>ys \<noteq> [] \<longrightarrow> hd ys \<noteq> a\<close> by (auto simp: drop_cell_def shared_def)
  qed (use Cons.prems(4) b(5) d in \<open>simp_all flip: fun_upd_def\<close>)
  moreover have "pbuf_free_loop h p n = pbuf_free_loop ?h (nxt b) (Suc n)"
    using b Cons.prems(4) by (subst pbuf_free_loop.simps) (simp add: u16_def)
  ultimately show ?case by (simp add: drop_cell_def freed_Cons [OF d])
qed

lemma pbuf_free_chain:
  assumes "pchain k (cells h) p (xs @ ys)" "\<forall>a\<in>set xs. sole (cells h) a"
    "ys \<noteq> [] \<longrightarrow> shared (cells h) (hd ys)" "length xs < 256"
  shows "pbuf_free p h = Some (length xs, h\<lparr>cells := freed xs ys (cells h)\<rparr>)"
  using pbuf_free_loop_chain [OF assms(1-3), of 0] assms(4) by (simp add: pbuf_free_def)

section \<open>Joining\<close>

lemma pbuf_cat_loop_chain:
  assumes "packet (cells h) (Some a) xs" "packet (cells h) (Some t) ys" "set xs \<inter> set ys = {}"
    "sumlen (cells h) xs + sumlen (cells h) ys < 65536"
  shows "\<exists>h'. pbuf_cat_loop h a t = Some h' \<and> packet (cells h') (Some a) (xs @ ys) \<and>
    content (cells h') (xs @ ys) = content (cells h) xs @ content (cells h) ys \<and>
    (\<forall>c. c \<notin> set xs \<longrightarrow> cells h' c = cells h c) \<and>
    (\<forall>c. map_option ref (cells h' c) = map_option ref (cells h c))"
  using assms
proof (induction xs arbitrary: h a)
  case (Cons x xs)
  obtain b where b: "a = x" "cells h x = Some b" "tot_len b = len b + sumlen (cells h) xs"
    "pay b + len b \<le> length (mem b)" "packet (cells h) (nxt b) xs" using Cons.prems(1) by (auto simp: packet_Cons)
  obtain tb where tb: "cells h t = Some tb" "tot_len tb = sumlen (cells h) ys"
    using packet_tot_len [OF Cons.prems(2)] by blast
  have d: "x \<notin> set xs" "x \<notin> set ys" using packet_distinct [OF Cons.prems(1)] Cons.prems(3) by auto
  have t: "t \<in> set ys" using Cons.prems(2) by (cases ys) (auto simp: packet_Cons)
  let ?b = "b\<lparr>tot_len := tot_len b + tot_len tb\<rparr>"
  have u: "u16 (int (tot_len b) + int (tot_len tb)) = tot_len b + tot_len tb"
    using Cons.prems(4) b(2,3) tb(2) by (simp flip: of_nat_add)
  show ?case
  proof (cases "nxt b")
    case None
    then have xs: "xs = []" using b(5) by (cases xs) (auto simp: packet_Cons)
    let ?h = "put x (?b\<lparr>nxt := Some t\<rparr>) h"
    have "pbuf_cat_loop h a t = Some ?h" using b tb u None by (simp add: pbuf_cat_loop.simps Let_def)
    moreover have "packet (cells ?h) (Some a) ([x] @ ys)"
      using Cons.prems(2,4) b tb d xs by (auto simp: packet_Cons)
    moreover have "content (cells ?h) ([x] @ ys) = content (cells h) [x] @ content (cells h) ys"
      using b(2) d by (simp add: bytes_def)
    ultimately show ?thesis using xs b(2) by auto
  next
    case (Some c)
    let ?h = "put x ?b h"
    have "pbuf_cat_loop h a t = pbuf_cat_loop ?h c t"
      using b tb u Some by (subst pbuf_cat_loop.simps) (simp add: Let_def)
    moreover have "\<exists>h'. pbuf_cat_loop ?h c t = Some h' \<and> packet (cells h') (Some c) (xs @ ys) \<and>
      content (cells h') (xs @ ys) = content (cells ?h) xs @ content (cells ?h) ys \<and>
      (\<forall>c. c \<notin> set xs \<longrightarrow> cells h' c = cells ?h c) \<and> (\<forall>c. map_option ref (cells h' c) = map_option ref (cells ?h c))"
    proof (rule Cons.IH)
      show "set xs \<inter> set ys = {}" using Cons.prems(3) by auto
    qed (use Cons.prems b(5) d Some in \<open>simp_all flip: fun_upd_def\<close>)
    ultimately obtain h' where h': "pbuf_cat_loop h a t = Some h'" "packet (cells h') (Some c) (xs @ ys)"
      "content (cells h') (xs @ ys) = content (cells h) xs @ content (cells h) ys"
      "\<forall>c. c \<notin> set xs \<longrightarrow> cells h' c = cells ?h c" "\<forall>c. map_option ref (cells h' c) = map_option ref (cells ?h c)"
      using d by auto
    have hx: "cells h' x = Some ?b" using h'(4) d by simp
    have "sumlen (cells h') (xs @ ys) = sumlen (cells h) xs + sumlen (cells h) ys"
      using content_length [OF h'(2)] h'(3) content_length [OF b(5)] content_length [OF Cons.prems(2)] by (metis length_append)
    then have "packet (cells h') (Some a) ((x # xs) @ ys)"
      using h'(2) hx b tb Some Cons.prems(4) by (simp add: packet_Cons)
    moreover have "content (cells h') ((x # xs) @ ys) = content (cells h) (x # xs) @ content (cells h) ys"
      using h'(3) hx b(2) by (simp add: bytes_def)
    moreover have "\<forall>c. c \<notin> set (x # xs) \<longrightarrow> cells h' c = cells h c" using h'(4) by simp
    moreover have "\<forall>c. map_option ref (cells h' c) = map_option ref (cells h c)"
      using h'(5) b(2) by simp
    ultimately show ?thesis using h'(1) by blast
  qed
qed simp


lemma packet_ref:
  assumes "packet m p xs" "m t = Some b"
  shows "packet (m(t \<mapsto> b\<lparr>ref := r\<rparr>)) p xs" "content (m(t \<mapsto> b\<lparr>ref := r\<rparr>)) xs = content m xs"
    "sumlen (m(t \<mapsto> b\<lparr>ref := r\<rparr>)) xs = sumlen m xs"
proof -
  show s: "sumlen (m(t \<mapsto> b\<lparr>ref := r\<rparr>)) xs = sumlen m xs" for xs using assms(2) by (induction xs) auto
  show "content (m(t \<mapsto> b\<lparr>ref := r\<rparr>)) xs = content m xs" using assms(2) by (induction xs) (auto simp: bytes_def)
  show "packet (m(t \<mapsto> b\<lparr>ref := r\<rparr>)) p xs"
    using assms by (induction xs arbitrary: p) (auto simp: packet_Cons s)
qed

lemma pbuf_chain_chain:
  assumes "packet (cells h) (Some a) xs" "packet (cells h) (Some t) ys" "set xs \<inter> set ys = {}"
    "sumlen (cells h) xs + sumlen (cells h) ys < 65536" "cells h t = Some tb" "ref tb < 65535"
  shows "\<exists>h'. pbuf_chain (Some a) (Some t) h = Some h' \<and> packet (cells h') (Some a) (xs @ ys) \<and>
    content (cells h') (xs @ ys) = content (cells h) xs @ content (cells h) ys \<and>
    (\<forall>c. c \<notin> set xs \<and> c \<noteq> t \<longrightarrow> cells h' c = cells h c) \<and>
    (\<forall>c. map_option ref (cells h' c) = map_option ref (if c = t then Some (tb\<lparr>ref := ref tb + 1\<rparr>) else cells h c))"
proof -
  obtain h1 where h1: "pbuf_cat_loop h a t = Some h1" "packet (cells h1) (Some a) (xs @ ys)"
    "content (cells h1) (xs @ ys) = content (cells h) xs @ content (cells h) ys"
    "\<forall>c. c \<notin> set xs \<longrightarrow> cells h1 c = cells h c" "\<forall>c. map_option ref (cells h1 c) = map_option ref (cells h c)"
    using pbuf_cat_loop_chain [OF assms(1-4)] by blast
  obtain ys' where ys: "ys = t # ys'" using assms(2) by (cases ys) (auto simp: packet_Cons)
  then have t: "cells h1 t = Some tb" using h1(4) assms(3,5) by auto
  let ?b = "tb\<lparr>ref := ref tb + 1\<rparr>" and ?h = "put t (tb\<lparr>ref := ref tb + 1\<rparr>) h1"
  have "u16 (int (ref tb) + 1) = ref tb + 1" using assms(6) by (simp add: u16_def nat_add_distrib)
  then have "pbuf_chain (Some a) (Some t) h = Some ?h"
    using h1(1) t by (simp add: pbuf_chain_def pbuf_cat_def pbuf_ref_def)
  moreover have "packet (cells ?h) (Some a) (xs @ ys)" "content (cells ?h) (xs @ ys) = content (cells h1) (xs @ ys)"
    using packet_ref [OF h1(2) t] by simp_all
  ultimately show ?thesis using h1 t by auto
qed

section \<open>Reading and writing\<close>

lemma copy_partial_loop_chain:
  assumes "packet (cells h) p xs"
  shows "copy_partial_loop h p n i acc = Some (acc @ take n (drop i (content (cells h) xs)))"
  using assms
proof (induction xs arbitrary: p n i acc)
  case Nil
  then show ?case by (simp add: copy_partial_loop.simps)
next
  case (Cons a xs)
  then obtain b where b: "p = Some a" "cells h a = Some b" "pay b + len b \<le> length (mem b)" "packet (cells h) (nxt b) xs"
    by (auto simp: packet_Cons)
  have lb: "length (bytes b) = len b" using b(3) by (simp add: bytes_def)
  show ?case
  proof (cases "n = 0")
    case True
    then show ?thesis by (simp add: copy_partial_loop.simps)
  next
    case n: False
    show ?thesis
    proof (cases "i \<noteq> 0 \<and> i \<ge> len b")
      case True
      then have "copy_partial_loop h p n i acc = copy_partial_loop h (nxt b) n (i - len b) acc"
        using n b by (subst copy_partial_loop.simps) simp
      with Cons.IH [OF b(4)] True b(2) lb show ?thesis by simp
    next
      case False
      then have i: "i \<le> len b" by auto
      let ?l = "min (len b - i) n"
      have "copy_partial_loop h p n i acc = copy_partial_loop h (nxt b) (n - ?l) 0 (acc @ take ?l (drop (pay b + i) (mem b)))"
        using n b False by (subst copy_partial_loop.simps) (auto simp: Let_def)
      moreover have "take ?l (drop (pay b + i) (mem b)) = take n (drop i (bytes b))"
        by (simp add: bytes_def drop_take min.commute add.commute take_take)
      ultimately show ?thesis using Cons.IH [OF b(4)] b(2) lb i by (simp add: min_def)
    qed
  qed
qed

lemma seek_chain:
  assumes "packet (cells h) p xs"
  shows "\<exists>q j. seek h p i = Some (q, j) \<and>
    (case q of
       None \<Rightarrow> length (content (cells h) xs) \<le> i
     | Some a \<Rightarrow> \<exists>b ys. cells h a = Some b \<and> j < len b \<and> packet (cells h) q (a # ys) \<and>
         drop j (content (cells h) (a # ys)) = drop i (content (cells h) xs) \<and> i < length (content (cells h) xs))"
  using assms
proof (induction xs arbitrary: p i)
  case Nil
  then show ?case by (simp add: seek.simps)
next
  case (Cons a xs)
  then obtain b where b: "p = Some a" "cells h a = Some b" "pay b + len b \<le> length (mem b)" "packet (cells h) (nxt b) xs"
    by (auto simp: packet_Cons)
  have lb: "length (bytes b) = len b" using b(3) by (simp add: bytes_def)
  show ?case
  proof (cases "len b \<le> i")
    case True
    then have "seek h p i = seek h (nxt b) (i - len b)" using b by (subst seek.simps) simp
    with Cons.IH [OF b(4), of "i - len b"] True b(2) lb show ?thesis
      by (fastforce split: option.splits)
  next
    case False
    then have "seek h p i = Some (p, i)" using b by (subst seek.simps) simp
    with False b lb Cons.prems show ?thesis by auto
  qed
qed

lemma pbuf_get_at_chain:
  assumes "packet (cells h) p xs"
  shows "pbuf_get_at p i h = Some (if i < length (content (cells h) xs) then content (cells h) xs ! i else 0)"
proof -
  obtain q j where s: "seek h p i = Some (q, j)" and
    q: "case q of None \<Rightarrow> length (content (cells h) xs) \<le> i
      | Some a \<Rightarrow> \<exists>b ys. cells h a = Some b \<and> j < len b \<and> packet (cells h) q (a # ys) \<and>
          drop j (content (cells h) (a # ys)) = drop i (content (cells h) xs) \<and> i < length (content (cells h) xs)"
    using seek_chain [OF assms, of i] by blast
  show ?thesis
  proof (cases q)
    case None
    with s q show ?thesis by (simp add: pbuf_get_at_def)
  next
    case (Some a)
    with q obtain b ys where b: "cells h a = Some b" "j < len b" "pay b + len b \<le> length (mem b)"
      "drop j (content (cells h) (a # ys)) = drop i (content (cells h) xs)" "i < length (content (cells h) xs)"
      by (auto simp: packet_Cons)
    have "content (cells h) xs ! i = hd (drop i (content (cells h) xs))" using b(5) by (simp add: hd_drop_conv_nth)
    also have "\<dots> = content (cells h) (a # ys) ! j"
      using b by (subst b(4) [symmetric], subst hd_drop_conv_nth) (auto simp: bytes_def)
    also have "\<dots> = mem b ! (pay b + j)" using b by (simp add: bytes_def nth_append)
    finally show ?thesis using s Some b by (simp add: pbuf_get_at_def)
  qed
qed


lemma poke_bytes:
  assumes "pay b + len b \<le> length (mem b)" "length xs \<le> len b"
  shows "bytes (poke 0 xs b) = xs @ drop (length xs) (bytes b)" "length (mem (poke 0 xs b)) = length (mem b)"
    "len (poke 0 xs b) = len b" "pay (poke 0 xs b) = pay b" "nxt (poke 0 xs b) = nxt b" "tot_len (poke 0 xs b) = tot_len b"
    "ref (poke 0 xs b) = ref b"
  using assms by (auto simp: bytes_def poke_def drop_take min_def add.commute)

lemma packet_same_shape:
  assumes "pchain k m p xs" "m a = Some b" "len b' = len b" "nxt b' = nxt b" "tot_len b' = tot_len b"
    "pay b' + len b' \<le> length (mem b')"
  shows "pchain k (m(a \<mapsto> b')) p xs" "sumlen (m(a \<mapsto> b')) xs = sumlen m xs"
proof -
  show s: "sumlen (m(a \<mapsto> b')) xs = sumlen m xs" for xs using assms(2,3) by (induction xs) auto
  show "pchain k (m(a \<mapsto> b')) p xs"
    using assms by (induction xs arbitrary: p) (auto simp: packet_Cons s)
qed

lemma take_loop_chain:
  assumes "packet (cells h) p xs" "length dat \<le> sumlen (cells h) xs"
  shows "\<exists>h'. take_loop h p dat = Some h' \<and> packet (cells h') p xs \<and>
    content (cells h') xs = dat @ drop (length dat) (content (cells h) xs) \<and>
    (\<forall>c. c \<notin> set xs \<longrightarrow> cells h' c = cells h c) \<and> (\<forall>c. map_option ref (cells h' c) = map_option ref (cells h c))"
  using assms
proof (induction xs arbitrary: h p dat)
  case Nil
  then show ?case by (auto simp: take_loop.simps)
next
  case (Cons a xs)
  show ?case
  proof (cases "dat = []")
    case True
    with Cons.prems show ?thesis by (auto simp: take_loop.simps)
  next
    case False
    obtain b where b: "p = Some a" "cells h a = Some b" "pay b + len b \<le> length (mem b)" "packet (cells h) (nxt b) xs"
      using Cons.prems(1) by (auto simp: packet_Cons)
    have d: "a \<notin> set xs" using packet_distinct [OF Cons.prems(1)] by simp
    let ?l = "min (length dat) (len b)"
    let ?b = "poke 0 (take ?l dat) b" let ?h = "put a ?b h"
    note pk = poke_bytes [OF b(3), of "take ?l dat"]
    have st: "take_loop h p dat = take_loop ?h (nxt b) (drop ?l dat)"
      using b False by (subst take_loop.simps) (simp add: Let_def memcpy_at_def min_def)
    have "packet (cells ?h) (nxt b) xs" "length (drop ?l dat) \<le> sumlen (cells ?h) xs"
      using b(2,4) d Cons.prems(2) by (auto simp: min_def)
    from Cons.IH [OF this] obtain h' where h': "take_loop ?h (nxt b) (drop ?l dat) = Some h'" "packet (cells h') (nxt b) xs"
      "content (cells h') xs = drop ?l dat @ drop (length (drop ?l dat)) (content (cells h) xs)"
      "\<forall>c. c \<notin> set xs \<longrightarrow> cells h' c = cells ?h c" "\<forall>c. map_option ref (cells h' c) = map_option ref (cells ?h c)"
      using d by (auto simp flip: fun_upd_def)
    have ha: "cells h' a = Some ?b" using h'(4) d by simp
    have lb: "length (bytes b) = len b" using b(3) by (simp add: bytes_def)
    have "sumlen (cells h') xs = sumlen (cells h) xs"
      using content_length [OF h'(2)] content_length [OF b(4)] h'(3) Cons.prems(2) b(2) by (auto simp: min_def)
    then have "packet (cells h') p (a # xs)"
      using Cons.prems(1) b ha h'(2) pk by (auto simp: packet_Cons)
    moreover have "content (cells h') (a # xs) = dat @ drop (length dat) (content (cells h) (a # xs))"
      using h'(3) ha b(2) pk lb by (auto simp: min_def)
    moreover have "\<forall>c. map_option ref (cells h' c) = map_option ref (cells h c)" using h'(5) b(2) pk by auto
    ultimately show ?thesis using st h'(1,4) by auto
  qed
qed

lemma take_loop_frame:
  assumes "take_loop h p dat = Some h'"
  shows "brk h' = brk h \<and> grants h' = grants h \<and> (\<forall>c. map_option custom (cells h' c) = map_option custom (cells h c))"
  by (rule take_loop.raw_induct [of "\<lambda>h p dat h'. brk h' = brk h \<and> grants h' = grants h \<and>
      (\<forall>c. map_option custom (cells h' c) = map_option custom (cells h c))", OF _ assms])
    (fastforce simp: Let_def put_def memcpy_at_def poke_def split: option.splits if_splits)

section \<open>Shrinking\<close>

lemma mem_align_ge: "n \<le> mem_align n"
  by (simp add: mem_align_def)

lemma mem_align_le: "mem_align n \<le> n + 3"
  by (simp add: mem_align_def)

lemma realloc_finish_chain:
  assumes "packet (cells h) (Some a) (a # xs)" "\<forall>c\<in>set xs. sole (cells h) c" "length xs < 256"
    "cells h a = Some b" "r \<le> len b"
  shows "\<exists>h' b'. realloc_finish a r h = Some h' \<and> packet (cells h') (Some a) [a] \<and>
    content (cells h') [a] = take r (bytes b) \<and> cells h' a = Some b' \<and> len b' = r \<and> ref b' = ref b \<and>
    cells h' = (\<lambda>c. if c \<in> set xs then None else if c = a then Some b' else cells h c)"
proof -
  let ?q = "if ptype b = PBUF_RAM \<and> r \<noteq> len b then b\<lparr>mem := take (pay b + mem_align r) (mem b)\<rparr> else b"
  let ?b = "?q\<lparr>len := r, tot_len := r\<rparr>" let ?h = "put a ?b h"
  have p: "packet (cells h) (nxt b) xs" "pay b + len b \<le> length (mem b)" "tot_len b < 65536" "len b \<le> tot_len b"
    using assms(1,4) by (auto simp: packet_Cons)
  have d: "a \<notin> set xs" using packet_distinct [OF assms(1)] by simp
  have "(if nxt b \<noteq> None then pbuf_free (nxt b) ?h else Some (0, ?h)) = Some (length xs, ?h\<lparr>cells := freed xs [] (cells ?h)\<rparr>)"
  proof -
    have "pbuf_free (nxt b) ?h = Some (length xs, ?h\<lparr>cells := freed xs [] (cells ?h)\<rparr>)"
      using p(1) d assms(2,3) by (intro pbuf_free_chain [where k = 0]) (auto simp: sole_def)
    moreover have "xs = [] \<and> freed xs [] (cells ?h) = cells ?h" if "nxt b = None"
      using p(1) that by (cases xs) (auto simp: packet_Cons freed_def fun_eq_iff)
    ultimately show ?thesis by auto
  qed
  then have "realloc_finish a r h = Some (put a (?b\<lparr>nxt := None\<rparr>) (?h\<lparr>cells := freed xs [] (cells ?h)\<rparr>))"
    using assms(4) d by (simp add: realloc_finish_def Let_def freed_def)
  moreover have "bytes (?b\<lparr>nxt := None\<rparr>) = take r (bytes b)" "pay ?q + r \<le> length (mem ?q)"
    using p(2) assms(5) mem_align_ge [of r] by (auto simp: bytes_def drop_take min_def)
  ultimately show ?thesis
    using p(3,4) assms(5) d by (intro exI [of _ "put a (?b\<lparr>nxt := None\<rparr>) (?h\<lparr>cells := freed xs [] (cells ?h)\<rparr>)"]
        exI [of _ "?b\<lparr>nxt := None\<rparr>"]) (auto simp: packet_Cons freed_def fun_eq_iff)
qed


lemma realloc_chain:
  assumes "packet (cells h) (Some a) xs" "\<forall>c\<in>set (tl xs). sole (cells h) c" "length xs < 256"
    "r \<le> sumlen (cells h) xs" "g = int r - int (sumlen (cells h) xs)"
  shows "\<exists>h' ys zs. (do { (q, rem_len, h1) \<leftarrow> realloc_loop h a r g; realloc_finish q rem_len h1 }) = Some h' \<and>
    xs = ys @ zs \<and> packet (cells h') (Some a) ys \<and> content (cells h') ys = take r (content (cells h) xs) \<and>
    (\<forall>c. c \<notin> set xs \<longrightarrow> cells h' c = cells h c) \<and> (\<forall>c\<in>set zs. cells h' c = None)"
  using assms
proof (induction xs arbitrary: h a r)
  case (Cons x xs)
  obtain b where b: "a = x" "cells h x = Some b" "tot_len b = len b + sumlen (cells h) xs" "tot_len b < 65536"
    "pay b + len b \<le> length (mem b)" "packet (cells h) (nxt b) xs" using Cons.prems(1) by (auto simp: packet_Cons)
  have d: "x \<notin> set xs" using packet_distinct [OF Cons.prems(1)] by simp
  have lb: "length (bytes b) = len b" using b(5) by (simp add: bytes_def)
  show ?case
  proof (cases "r \<le> len b")
    case True
    then have l: "realloc_loop h a r g = Some (x, r, h)" using b by (simp add: realloc_loop.simps)
    obtain h' b' where f: "realloc_finish x r h = Some h'" "packet (cells h') (Some x) [x]"
      "content (cells h') [x] = take r (bytes b)"
      "cells h' = (\<lambda>c. if c \<in> set xs then None else if c = x then Some b' else cells h c)"
      using realloc_finish_chain [of h x xs b r] Cons.prems(1-3) b(1,2) True by auto
    show ?thesis using l f b(1,2) lb True
      by (intro exI [of _ h'] exI [of _ "[x]"] exI [of _ xs]) auto
  next
    case False
    with Cons.prems(4) b(2,6) obtain c where c: "nxt b = Some c" by (cases xs) (auto simp: packet_Cons)
    let ?b = "b\<lparr>tot_len := r\<rparr>" let ?h = "put x ?b h"
    have u: "u16 (int (tot_len b) + g) = r"
      using Cons.prems(4,5) b(2-4) by (simp add: u16_def nat_mod_distrib)
    have l: "realloc_loop h a r g = realloc_loop ?h c (r - len b) g"
      using False b(1,2) c u by (subst realloc_loop.simps) simp
    have "packet (cells ?h) (Some c) xs" "\<forall>c\<in>set (tl xs). sole (cells ?h) c" "length xs < 256"
      "r - len b \<le> sumlen (cells ?h) xs" "g = int (r - len b) - int (sumlen (cells ?h) xs)"
      using b(2,6) c d Cons.prems(2-5) False by (auto simp: sole_def dest: list.set_sel(2) [rotated])
    from Cons.IH [OF this] obtain h' ys zs where h': "(do { (q, rem_len, h1) \<leftarrow> realloc_loop ?h c (r - len b) g;
        realloc_finish q rem_len h1 }) = Some h'" "xs = ys @ zs" "packet (cells h') (Some c) ys"
      "content (cells h') ys = take (r - len b) (content (cells h) xs)"
      "\<forall>c. c \<notin> set xs \<longrightarrow> cells h' c = cells ?h c" "\<forall>c\<in>set zs. cells h' c = None"
      using d by (auto simp flip: fun_upd_def)
    have hx: "cells h' x = Some ?b" using h'(5) d by simp
    have "sumlen (cells h') ys = r - len b"
      using content_length [OF h'(3)] h'(4) content_length [OF b(6)] Cons.prems(4) b(2)
      by (auto simp: min_def split: if_splits)
    then have "packet (cells h') (Some a) (x # ys)"
      using hx b h'(3) c False Cons.prems(4) by (auto simp: packet_Cons)
    moreover have "content (cells h') (x # ys) = take r (content (cells h) (x # xs))"
      using h'(4) hx b(2) lb False by (simp add: bytes_def [of ?b] bytes_def [of b])
    ultimately show ?thesis using l h' by (intro exI [of _ h'] exI [of _ "x # ys"] exI [of _ zs]) auto
  qed
qed simp


section \<open>Searching\<close>

definition at_pos :: "byte list \<Rightarrow> nat \<Rightarrow> byte" where
  "at_pos c i = (if i < length c then c ! i else 0)"

lemma memcmp_loop_chain:
  assumes "packet (cells h) q ys" "start + i + length s2 < 65536"
  shows "\<exists>r. memcmp_loop h q start s2 i = Some r \<and>
    (if r = 0 then \<forall>k < length s2. at_pos (content (cells h) ys) (start + i + k) = s2 ! k else i < r \<and> r \<le> i + length s2)"
  using assms(2)
proof (induction s2 arbitrary: i)
  case (Cons b s2)
  have u: "u16 (int start + int i) = start + i" "u16 (int i + 1) = i + 1"
    using Cons.prems by (simp_all add: u16_def flip: of_nat_add of_nat_Suc)
  let ?a = "at_pos (content (cells h) ys) (start + i)"
  have g: "pbuf_get_at q (start + i) h = Some ?a" using pbuf_get_at_chain [OF assms(1)] by (simp add: at_pos_def)
  show ?case
  proof (cases "?a = b")
    case False
    with g u show ?thesis by auto
  next
    case True
    obtain r where r: "memcmp_loop h q start s2 (i + 1) = Some r"
      "if r = 0 then \<forall>k < length s2. at_pos (content (cells h) ys) (start + (i + 1) + k) = s2 ! k
       else i + 1 < r \<and> r \<le> i + 1 + length s2" using Cons.IH [of "i + 1"] Cons.prems by auto
    have "at_pos (content (cells h) ys) (start + i + k) = (b # s2) ! k" if "r = 0" "k < length (b # s2)" for k
      using r(2) that True by (cases k) auto
    with r True g u show ?thesis by (auto split: if_splits)
  qed
qed simp

lemma seek_le: "seek h p i = Some (q, j) \<Longrightarrow> j \<le> i"
  using seek.raw_induct [of "\<lambda>h p i r. snd r \<le> i" h p i "(q, j)"]
  by (fastforce split: option.splits if_splits)

lemma at_pos_drop: "drop j c = drop i d \<Longrightarrow> at_pos c (j + k) = at_pos d (i + k)"
proof -
  assume e: "drop j c = drop i d"
  have "at_pos c (j + k) = (if k < length (drop j c) then drop j c ! k else 0)"
    "at_pos d (i + k) = (if k < length (drop i d) then drop i d ! k else 0)"
    by (auto simp: at_pos_def)
  with e show ?thesis by simp
qed

lemma pbuf_memcmp_chain:
  assumes "packet (cells h) p xs" "i < length (content (cells h) xs)" "i + length s2 < 65536"
  shows "\<exists>r. pbuf_memcmp p i s2 h = Some r \<and>
    (if r = 0 then \<forall>k < length s2. at_pos (content (cells h) xs) (i + k) = s2 ! k else r \<le> length s2)"
proof -
  obtain q j where s: "seek h p i = Some (q, j)" and
    q: "case q of None \<Rightarrow> length (content (cells h) xs) \<le> i
      | Some a \<Rightarrow> \<exists>b ys. cells h a = Some b \<and> j < len b \<and> packet (cells h) q (a # ys) \<and>
          drop j (content (cells h) (a # ys)) = drop i (content (cells h) xs) \<and> i < length (content (cells h) xs)"
    using seek_chain [OF assms(1), of i] by blast
  then obtain a b ys where a: "q = Some a" "cells h a = Some b" "j < len b" "packet (cells h) q (a # ys)"
    "drop j (content (cells h) (a # ys)) = drop i (content (cells h) xs)" using assms(2) by (auto split: option.splits)
  have j: "j \<le> i" using seek_le [OF s] .
  then obtain r where r: "memcmp_loop h q j s2 0 = Some r"
    "if r = 0 then \<forall>k < length s2. at_pos (content (cells h) (a # ys)) (j + k) = s2 ! k else r \<le> length s2"
    using memcmp_loop_chain [OF a(4), of j 0 s2] assms(3) by (auto split: if_splits)
  have "at_pos (content (cells h) (a # ys)) (j + k) = at_pos (content (cells h) xs) (i + k)" for k
    using a(5) by (rule at_pos_drop)
  with r s a(1) show ?thesis by (auto simp: pbuf_memcmp_def)
qed

lemma memfind_loop_chain:
  assumes "packet (cells h) p xs" "m \<noteq> []" "length (content (cells h) xs) = mx + length m" "mx + length m < 65535"
  shows "\<exists>r. memfind_loop h p m i mx = Some r \<and>
    (r \<noteq> 0xFFFF \<longrightarrow> i \<le> r \<and> take (length m) (drop r (content (cells h) xs)) = m)"
proof (induction "Suc mx - i" arbitrary: i rule: less_induct)
  case less
  show ?case
  proof (cases "i \<le> mx")
    case False
    then show ?thesis by (simp add: memfind_loop.simps)
  next
    case True
    let ?c = "content (cells h) xs"
    have "i < length ?c" using True assms(2,3) by (cases m) auto
    then obtain d where d: "pbuf_memcmp p i m h = Some d"
      "if d = 0 then \<forall>k < length m. at_pos ?c (i + k) = m ! k else d \<le> length m"
      using pbuf_memcmp_chain [OF assms(1), of i m] True assms(4) by auto
    show ?thesis
    proof (cases "d = 0")
      case z: True
      have "take (length m) (drop i ?c) = m"
        using d(2) z True assms(3) by (intro nth_equalityI) (auto simp: at_pos_def)
      with d(1) z True show ?thesis by (simp add: memfind_loop.simps)
    next
      case nz: False
      then have "u16 (int i + int d) = i + d"
        using d(2) True assms(4) by (simp flip: of_nat_add)
      then have st: "memfind_loop h p m i mx = memfind_loop h p m (i + d) mx"
        using d(1) nz True by (subst memfind_loop.simps) simp
      moreover have "Suc mx - (i + d) < Suc mx - i" using nz True by simp
      ultimately show ?thesis using less [of "i + d"] by auto
    qed
  qed
qed


section \<open>Headers\<close>

lemma u16_diff: "\<lbrakk>n \<le> m; m < 65536\<rbrakk> \<Longrightarrow> u16 (int m - int n) = m - n"
  by (simp flip: of_nat_diff)

lemma pbuf_header_hide:
  assumes "packet (cells h) (Some a) (a # xs)" "cells h a = Some b" "0 < n" "n \<le> len b" "ptype b = PBUF_RAM \<or> ptype b = PBUF_POOL"
  shows "\<exists>h1. pbuf_header a (- int n) h = Some (False, h1) \<and> packet (cells h1) (Some a) (a # xs) \<and>
    content (cells h1) (a # xs) = drop n (content (cells h) (a # xs)) \<and> pbuf_header a (int n) h1 = Some (False, h)"
proof -
  have b: "tot_len b = len b + sumlen (cells h) xs" "tot_len b < 65536" "pay b + len b \<le> length (mem b)"
    "packet (cells h) (nxt b) xs" using assms(1,2) by (auto simp: packet_Cons)
  have d: "a \<notin> set xs" using packet_distinct [OF assms(1)] by simp
  have u: "u16 (int (len b) - int n) = len b - n" "u16 (int (tot_len b) - int n) = tot_len b - n"
    using assms(4) b(1,2) u16_diff [of n "tot_len b"] u16_diff [of n "len b"] by simp_all
  let ?b = "b\<lparr>pay := pay b + n, len := len b - n, tot_len := tot_len b - n\<rparr>" let ?h = "put a ?b h"
  have "pbuf_header a (- int n) h = Some (False, ?h)"
    using assms(2-5) u by (auto simp: pbuf_header_def Let_def nat_add_distrib)
  moreover have "packet (cells ?h) (Some a) (a # xs)"
    using b d assms(4) by (simp add: packet_Cons)
  moreover have "content (cells ?h) (a # xs) = drop n (content (cells h) (a # xs))"
    using b d assms(2,4) by (simp add: bytes_def drop_take add.commute)
  moreover have "pbuf_header a (int n) ?h = Some (False, h)"
  proof -
    have v: "u16 (int (len b - n) + int n) = len b" "u16 (int (tot_len b - n) + int n) = tot_len b"
      using assms(4) b(1,2) by (simp_all flip: of_nat_add)
    have "put a b ?h = h" using assms(2) by (simp add: put_def map_upd_triv)
    with v assms(3-5) show ?thesis by (auto simp: pbuf_header_def Let_def)
  qed
  ultimately show ?thesis by blast
qed

section \<open>Allocating\<close>

definition heap_ok :: "pheap \<Rightarrow> bool" where
  "heap_ok h \<longleftrightarrow> (\<forall>a \<ge> brk h. cells h a = None)"

lemma sumlen_snoc_upd: "sumlen (m(a \<mapsto> b)) [a] = len b"
  by simp

lemma pchain_snoc:
  assumes "pchain k m p (xs @ [r])" "m r = Some rb" "q \<notin> set (xs @ [r])" "len qb \<le> k" "tot_len qb = k" "k < 65536"
    "pay qb + len qb \<le> length (mem qb)" "nxt qb = None"
  shows "pchain (k - len qb) (m(q \<mapsto> qb, r \<mapsto> rb\<lparr>nxt := Some q\<rparr>)) p (xs @ [r, q])"
  using assms(1,3)
proof (induction xs arbitrary: p)
  case Nil
  then show ?case using assms(2,4-8) by (auto simp: packet_Cons)
next
  case (Cons x xs)
  let ?m = "m(q \<mapsto> qb, r \<mapsto> rb\<lparr>nxt := Some q\<rparr>)"
  obtain b where b: "p = Some x" "m x = Some b" "tot_len b = len b + sumlen m (xs @ [r]) + k" "tot_len b < 65536"
    "pay b + len b \<le> length (mem b)" "pchain k m (nxt b) (xs @ [r])" using Cons.prems(1) by (auto simp: packet_Cons)
  have d: "x \<noteq> r" "x \<noteq> q" "r \<noteq> q" "x \<notin> set xs" "r \<notin> set xs" "q \<notin> set xs"
    using packet_distinct [OF Cons.prems(1)] Cons.prems(2) by auto
  have "pchain (k - len qb) ?m (nxt b) (xs @ [r, q])"
    by (rule Cons.IH [OF b(6)]) (use Cons.prems(2) in simp)
  moreover have "sumlen ?m (xs @ [r, q]) + (k - len qb) = sumlen m (xs @ [r]) + k"
    using d assms(2,4) by simp
  ultimately show ?case using b d by (simp add: packet_Cons flip: fun_upd_def)
qed

lemma sumlen_same: "\<lbrakk>m r = Some b; len b' = len b\<rbrakk> \<Longrightarrow> sumlen (m(r \<mapsto> b')) xs = sumlen m xs"
  by (induction xs) auto

lemma pool_tail_chain:
  assumes "pchain k (cells h) (Some p) (xs @ [r])" "\<forall>c\<in>set (xs @ [r]). sole (cells h) c" "heap_ok h" "k < 65536"
    "0 < k \<longrightarrow> 500 * length xs + k \<le> 65535"
  shows "\<exists>res h'. pool_tail h p r k = Some (res, h') \<and> heap_ok h' \<and>
    (case res of
       None \<Rightarrow> (\<forall>c. cells h' c = (if c \<in> set (xs @ [r]) then None else cells h c))
     | Some a \<Rightarrow> a = p \<and> (\<exists>ys. packet (cells h') (Some p) (xs @ [r] @ ys) \<and>
         sumlen (cells h') (xs @ [r] @ ys) = sumlen (cells h) (xs @ [r]) + k \<and> (\<forall>c\<in>set (xs @ [r] @ ys). sole (cells h') c) \<and>
         (\<forall>c\<in>set ys. cells h c = None) \<and> (\<forall>c. c \<notin> set (r # ys) \<longrightarrow> cells h' c = cells h c)))"
  using assms
proof (induction k arbitrary: h xs r rule: less_induct)
  case (less k)
  show ?case
  proof (cases "k = 0")
    case True
    with less.prems show ?thesis by (auto simp: pool_tail.simps intro: exI [of _ "[]"])
  next
    case k: False
    have len: "length (xs @ [r]) < 256" using less.prems(5) k by simp
    obtain q h1 where m: "malloc h = (q, h1)" by (cases "malloc h")
    have c1: "cells h1 = cells h" "heap_ok h1" and q: "\<And>a. q = Some a \<Longrightarrow> a = brk h \<and> brk h1 = Suc (brk h)"
      using m less.prems(3) by (auto simp: malloc_def heap_ok_def split: list.splits if_splits)
    show ?thesis
    proof (cases q)
      case None
      have "pbuf_free (Some p) h1 = Some (length (xs @ [r]), h1\<lparr>cells := freed (xs @ [r]) [] (cells h1)\<rparr>)"
        using less.prems(1,2) len c1(1) by (intro pbuf_free_chain [where k = k]) simp_all
      then show ?thesis using m None k c1
        by (auto simp: pool_tail.simps [of h] freed_def heap_ok_def)
    next
      case (Some a)
      obtain rb where rb: "cells h r = Some rb" using less.prems(2) by (auto simp: sole_def)
      let ?l = "min k PBUF_POOL_BUFSIZE"
      let ?q = "\<lparr>nxt = None, mem = fresh_bytes h1 PBUF_POOL_BUFSIZE, pay = 0, tot_len = k, len = ?l,
        ptype = PBUF_POOL, ref = 1, custom = False\<rparr>"
      let ?h = "put r (rb\<lparr>nxt := Some a\<rparr>) (put a ?q h1)"
      have ca: "cells h a = None" using q [OF Some] less.prems(3) by (simp add: heap_ok_def)
      have na: "a \<notin> set (xs @ [r])" using less.prems(2) ca by (auto simp: sole_def)
      have st: "pool_tail h p r k = pool_tail ?h p a (k - ?l)"
        using m Some k rb c1(1) by (subst pool_tail.simps) (simp add: Let_def)
      have pr: "pchain (k - ?l) (cells ?h) (Some p) ((xs @ [r]) @ [a])" "\<forall>c\<in>set ((xs @ [r]) @ [a]). sole (cells ?h) c"
        "heap_ok ?h" "k - ?l < 65536" "0 < k - ?l \<longrightarrow> 500 * length (xs @ [r]) + (k - ?l) \<le> 65535"
      proof -
        show "pchain (k - ?l) (cells ?h) (Some p) ((xs @ [r]) @ [a])"
          using pchain_snoc [OF less.prems(1) rb na, of ?q] less.prems(4) c1(1)
          by (simp add: fresh_bytes_def fun_upd_twist)
        show "\<forall>c\<in>set ((xs @ [r]) @ [a]). sole (cells ?h) c"
          using less.prems(2) c1(1) rb na by (auto simp: sole_def)
        show "heap_ok ?h" using c1 q [OF Some] less.prems(3) rb by (auto simp: heap_ok_def)
      qed (use less.prems(4,5) k in \<open>auto simp: PBUF_POOL_BUFSIZE_def\<close>)
      have lt: "k - ?l < k" using k by (simp add: PBUF_POOL_BUFSIZE_def)
      obtain res h' where IH: "pool_tail ?h p a (k - ?l) = Some (res, h')" "heap_ok h'"
        "case res of
           None \<Rightarrow> (\<forall>c. cells h' c = (if c \<in> set ((xs @ [r]) @ [a]) then None else cells ?h c))
         | Some b \<Rightarrow> b = p \<and> (\<exists>ys. packet (cells h') (Some p) ((xs @ [r]) @ [a] @ ys) \<and>
             sumlen (cells h') ((xs @ [r]) @ [a] @ ys) = sumlen (cells ?h) ((xs @ [r]) @ [a]) + (k - ?l) \<and>
             (\<forall>c\<in>set ((xs @ [r]) @ [a] @ ys). sole (cells h') c) \<and>
             (\<forall>c\<in>set ys. cells ?h c = None) \<and> (\<forall>c. c \<notin> set (a # ys) \<longrightarrow> cells h' c = cells ?h c))"
        using less.IH [OF lt pr] by blast
      show ?thesis
      proof (cases res)
        case None
        with IH st c1(1) ca show ?thesis by auto
      next
        case (Some b)
        have "sumlen (cells ?h) ((xs @ [r]) @ [a]) = sumlen (cells h) (xs @ [r]) + ?l"
          using sumlen_same [of "cells (put a ?q h1)" r rb "rb\<lparr>nxt := Some a\<rparr>" "(xs @ [r]) @ [a]"] rb na c1(1)
          by (simp flip: fun_upd_def)
        then have sl: "sumlen (cells ?h) ((xs @ [r]) @ [a]) + (k - ?l) = sumlen (cells h) (xs @ [r]) + k" by simp
        obtain ys where ys: "b = p" "packet (cells h') (Some p) (xs @ [r] @ a # ys)"
          "\<forall>c\<in>set (xs @ [r] @ a # ys). sole (cells h') c" "\<forall>c\<in>set ys. cells ?h c = None"
          "\<forall>c. c \<notin> set (a # ys) \<longrightarrow> cells h' c = cells ?h c"
          "sumlen (cells h') (xs @ [r] @ a # ys) = sumlen (cells h) (xs @ [r]) + k"
          using IH(3) unfolding sl Some by auto
        have "\<forall>c\<in>set (a # ys). cells h c = None" using ys(4) ca c1(1) by (auto split: if_splits)
        moreover have "\<forall>c. c \<notin> set (r # a # ys) \<longrightarrow> cells h' c = cells h c" using ys(5) c1(1) by auto
        ultimately show ?thesis using IH(1,2) st ys(1-3,6) Some
          by (intro exI [of _ res] exI [of _ h']) (auto intro!: exI [of _ "a # ys"])
      qed
    qed
  qed
qed


lemma malloc_cells: "malloc h = (q, h1) \<Longrightarrow> cells h1 = cells h \<and>
    (heap_ok h \<longrightarrow> heap_ok h1 \<and> (\<forall>a. q = Some a \<longrightarrow> a = brk h \<and> brk h1 = Suc a \<and> cells h a = None))"
  by (auto simp: malloc_def heap_ok_def split: list.splits if_splits)

lemma layer_room: "mem_align (layer_offset l) < PBUF_POOL_BUFSIZE"
  by (cases l) (simp_all add: mem_align_def layer_offset_def PBUF_POOL_BUFSIZE_def)

definition sample_heap :: pheap where
  "sample_heap = \<lparr>cells = (\<lambda>a. None), brk = 0, grants = [True, True], garbage = (\<lambda>i. 0)\<rparr>"

definition sample_pbuf :: pbuf where
  "sample_pbuf = \<lparr>nxt = None, mem = [1, 1, 1, 2], pay = 0, tot_len = 4, len = 4, ptype = PBUF_RAM, ref = 1, custom = False\<rparr>"

definition one_heap :: pheap where
  "one_heap = \<lparr>cells = (\<lambda>a. if a = 0 then Some sample_pbuf else if a = 1 then Some sample_pbuf else None), brk = 2,
     grants = [], garbage = (\<lambda>i. 0)\<rparr>"

lemma one_heap_packet: "packet (cells one_heap) (Some 0) [0]" "packet (cells one_heap) (Some 1) [1]"
  by (simp_all add: packet_Cons one_heap_def sample_pbuf_def)

lemma one_heap_missed: "pbuf_memfind 0 [1, 1, 2] 0 one_heap = Some 0xFFFF"
proof -
  have c: "content (cells one_heap) [0] = [1, 1, 1, 2]" by (simp add: one_heap_def sample_pbuf_def bytes_def)
  have g: "pbuf_get_at (Some 0) i one_heap = Some (if i < 4 then [1, 1, 1, 2] ! i else 0)" for i
    using pbuf_get_at_chain [OF one_heap_packet(1), of i] c by simp
  have "seek one_heap (Some 0) 0 = Some (Some 0, 0)"
    by (simp add: seek.simps one_heap_def sample_pbuf_def)
  then have m: "pbuf_memcmp (Some 0) 0 [1, 1, 2] one_heap = Some 3"
    by (simp add: pbuf_memcmp_def g u16_def)
  have "memfind_loop one_heap (Some 0) [1, 1, 2] 3 1 = Some 0xFFFF" by (simp add: memfind_loop.simps)
  then have "memfind_loop one_heap (Some 0) [1, 1, 2] 0 1 = Some 0xFFFF"
    using m by (subst memfind_loop.simps) (simp add: u16_def)
  then show ?thesis by (simp add: pbuf_memfind_def one_heap_def sample_pbuf_def u16_def)
qed

text \<open>The size of a request for RAM does not wrap.\<close>

definition ram_fits :: "pbuf_layer \<Rightarrow> nat \<Rightarrow> bool" where
  "ram_fits layer n \<longleftrightarrow> mem_align (SIZEOF_STRUCT_PBUF + layer_offset layer) + mem_align n < 65536"

lemma ram_fits_less: "n \<le> 65460 \<Longrightarrow> ram_fits layer n"
  using mem_align_le [of n] by (cases layer) (simp_all add: ram_fits_def mem_align_def layer_offset_def SIZEOF_STRUCT_PBUF_def)

lemma struct_align: "mem_align (SIZEOF_STRUCT_PBUF + n) = SIZEOF_STRUCT_PBUF + mem_align n"
  unfolding mem_align_def SIZEOF_STRUCT_PBUF_def by presburger

lemma ram_malloc_cells: "ram_malloc n h = (q, h1) \<Longrightarrow> cells h1 = cells h \<and>
    (heap_ok h \<longrightarrow> heap_ok h1 \<and> (\<forall>a. q = Some a \<longrightarrow> a = brk h \<and> brk h1 = Suc a \<and> cells h a = None))"
  using malloc_cells [of h q h1] by (auto simp: ram_malloc_def Let_def split: if_splits)

lemma pbuf_alloc_ram:
  assumes "heap_ok h" "n < 65536" "ram_fits layer n"
  obtains (denied) h1 where "pbuf_alloc layer n PBUF_RAM h = Some (None, h1)" "cells h1 = cells h" "heap_ok h1"
  | (granted) h1 b where "pbuf_alloc layer n PBUF_RAM h = Some (Some (brk h), h1)" "heap_ok h1" "cells h (brk h) = None" "brk h < brk h1"
      "cells h1 = (cells h)(brk h \<mapsto> b)" "nxt b = None" "ref b = 1" "\<not> custom b" "tot_len b = n" "len b = n" "ptype b = PBUF_RAM"
      "pay b = mem_align (layer_offset layer)" "pay b + n \<le> length (mem b)"
proof -
  let ?s = "mem_align (SIZEOF_STRUCT_PBUF + layer_offset layer) + mem_align n"
  obtain q h1 where m: "ram_malloc ?s h = (q, h1)" by (cases "ram_malloc ?s h")
  note mc = ram_malloc_cells [OF m]
  have s: "?s mod 65536 = ?s" "SIZEOF_STRUCT_PBUF \<le> ?s" "?s - SIZEOF_STRUCT_PBUF = mem_align (layer_offset layer) + mem_align n"
    using assms(3) by (simp_all add: ram_fits_def struct_align)
  show ?thesis
  proof (cases q)
    case None
    then show ?thesis using that(1) [of h1] m mc assms(1) by (simp add: pbuf_alloc_def Let_def)
  next
    case (Some p)
    let ?b = "\<lparr>nxt = None, mem = fresh_bytes h1 (?s - SIZEOF_STRUCT_PBUF), pay = mem_align (layer_offset layer), tot_len = n, len = n,
        ptype = PBUF_RAM, ref = 1, custom = False\<rparr>"
    have p: "p = brk h" "brk h1 = Suc p" "cells h p = None" "heap_ok h1" "cells h1 = cells h" using mc assms(1) Some by auto
    have "pbuf_alloc layer n PBUF_RAM h = Some (Some p, put p ?b h1)" using m Some s by (simp add: pbuf_alloc_def Let_def not_less)
    moreover have "pay ?b + n \<le> length (mem ?b)" using s(3) mem_align_ge [of n] by (simp add: fresh_bytes_def)
    moreover have "heap_ok (put p ?b h1)" using p by (auto simp: heap_ok_def)
    ultimately show ?thesis using that(2) [of "put p ?b h1" ?b] p by simp
  qed
qed

lemma pbuf_alloc_ram_wraps:
  assumes "n < 65536" "\<not> ram_fits layer n" "pbuf_alloc layer n PBUF_RAM h = Some (Some a, h')"
  shows "\<exists>b. cells h' a = Some b \<and> len b = n \<and> length (mem b) < pay b + len b"
proof -
  let ?s = "mem_align (SIZEOF_STRUCT_PBUF + layer_offset layer) + mem_align n"
  have o: "mem_align (SIZEOF_STRUCT_PBUF + layer_offset layer) \<le> 72" by (cases layer) (simp_all add: mem_align_def layer_offset_def SIZEOF_STRUCT_PBUF_def)
  have n: "mem_align n \<le> n + 3" "mem_align n \<le> 65536" using assms(1) by (simp_all add: mem_align_def)
  have "65536 \<le> ?s" using assms(2) by (simp add: ram_fits_def)
  then have s: "?s mod 65536 = ?s - 65536" "?s - 65536 \<le> 72" "65461 \<le> n" using o n by (simp_all add: mod_if)
  obtain q h1 where m: "ram_malloc ?s h = (q, h1)" by (cases "ram_malloc ?s h")
  then show ?thesis using assms(3) s by (auto simp: pbuf_alloc_def Let_def fresh_bytes_def split: option.splits if_splits)
qed

lemma pbuf_alloc_outcome:
  assumes "heap_ok h" "n < 65536" "type = PBUF_RAM \<and> ram_fits layer n \<or> type = PBUF_POOL"
  shows "\<exists>res h'. pbuf_alloc layer n type h = Some (res, h') \<and> heap_ok h' \<and>
    (case res of
       None \<Rightarrow> cells h' = cells h
     | Some a \<Rightarrow> \<exists>xs. packet (cells h') (Some a) xs \<and> sumlen (cells h') xs = n \<and>
         (\<forall>c\<in>set xs. sole (cells h') c \<and> cells h c = None) \<and> (\<forall>c. c \<notin> set xs \<longrightarrow> cells h' c = cells h c))"
  using assms(3)
proof
  assume t: "type = PBUF_RAM \<and> ram_fits layer n"
  from assms(1,2) conjunct2 [OF t] show ?thesis
  proof (cases rule: pbuf_alloc_ram)
    case (granted h1 b)
    then have "packet (cells h1) (Some (brk h)) [brk h]" "sole (cells h1) (brk h)" using assms(2) by (simp_all add: packet_Cons sole_def)
    then show ?thesis using granted t by (intro exI [of _ "Some (brk h)"] exI [of _ h1]) (auto intro!: exI [of _ "[brk h]"])
  qed (use t in auto)
next
  assume t: "type = PBUF_POOL"
  obtain q h1 where m: "malloc h = (q, h1)" by (cases "malloc h")
  note mc = malloc_cells [OF m]
  let ?o = "mem_align (layer_offset layer)"
  show ?thesis
  proof (cases q)
    case None
    with m mc assms(1) t show ?thesis by (auto simp: pbuf_alloc_def)
  next
    case (Some p)
    then have p: "p = brk h" "brk h1 = Suc p" "cells h p = None" "heap_ok h1" "cells h1 = cells h" using mc assms(1) by auto
    show ?thesis
    proof -
      let ?l = "min n (PBUF_POOL_BUFSIZE - ?o)"
      let ?b = "\<lparr>nxt = None, mem = fresh_bytes h1 PBUF_POOL_BUFSIZE, pay = ?o, tot_len = n, len = ?l,
        ptype = PBUF_POOL, ref = 1, custom = False\<rparr>"
      let ?h = "put p ?b h1"
      have al: "pbuf_alloc layer n type h = pool_tail ?h p p (n - ?l)" using m Some t by (simp add: pbuf_alloc_def Let_def)
      have c1: "pchain (n - ?l) (cells ?h) (Some p) ([] @ [p])"
        using assms(2) layer_room [of layer] by (auto simp: packet_Cons fresh_bytes_def)
      have c2: "\<forall>c\<in>set ([] @ [p]). sole (cells ?h) c" by (simp add: sole_def)
      have c3: "heap_ok ?h" using p by (auto simp: heap_ok_def)
      have c4: "n - ?l < 65536" "0 < n - ?l \<longrightarrow> 500 * length ([] :: nat list) + (n - ?l) \<le> 65535" using assms(2) by auto
      obtain res h' where r: "pool_tail ?h p p (n - ?l) = Some (res, h')" "heap_ok h'"
        "case res of
           None \<Rightarrow> (\<forall>c. cells h' c = (if c \<in> set ([] @ [p]) then None else cells ?h c))
         | Some a \<Rightarrow> a = p \<and> (\<exists>ys. packet (cells h') (Some p) ([] @ [p] @ ys) \<and>
             sumlen (cells h') ([] @ [p] @ ys) = sumlen (cells ?h) ([] @ [p]) + (n - ?l) \<and>
             (\<forall>c\<in>set ([] @ [p] @ ys). sole (cells h') c) \<and> (\<forall>c\<in>set ys. cells ?h c = None) \<and> (\<forall>c. c \<notin> set (p # ys) \<longrightarrow> cells h' c = cells ?h c))"
        using pool_tail_chain [OF c1 c2 c3 c4] by blast
      show ?thesis
      proof (cases res)
        case None
        with r al p show ?thesis by (auto simp: fun_eq_iff)
      next
        case (Some a)
        with r(3) obtain ys where ys: "a = p" "packet (cells h') (Some p) (p # ys)" "\<forall>c\<in>set (p # ys). sole (cells h') c"
          "\<forall>c\<in>set ys. cells ?h c = None" "\<forall>c. c \<notin> set (p # ys) \<longrightarrow> cells h' c = cells ?h c"
          "sumlen (cells h') (p # ys) = n" by auto
        have "p \<notin> set ys" using packet_distinct [OF ys(2)] by simp
        then have "\<forall>c\<in>set (p # ys). sole (cells h') c \<and> cells h c = None"
          using ys(3,4) p(3,5) by (auto split: if_splits)
        moreover have "\<forall>c. c \<notin> set (p # ys) \<longrightarrow> cells h' c = cells h c" using ys(5) p(5) by auto
        ultimately have "\<exists>xs. packet (cells h') (Some a) xs \<and> sumlen (cells h') xs = n \<and>
          (\<forall>c\<in>set xs. sole (cells h') c \<and> cells h c = None) \<and> (\<forall>c. c \<notin> set xs \<longrightarrow> cells h' c = cells h c)"
          using ys(1,2,6) by blast
        then show ?thesis using al r(1,2) Some by auto
      qed
    qed
  qed
qed


section \<open>Properties\<close>

text \<open>
  C24. \<open>pbuf_alloc\<close> by type. A buffer from the pool, or in RAM with a length whose request does not exceed the 16 bits of
  \<open>mem_size_t\<close> (\<open>ram_fits\<close>; all lengths up to 65460 do), is all or nothing: a chain of
  new buffers, each with one reference and its memory, whose lengths add up to the length asked and
  keep the chain invariant; or \<open>NULL\<close>, and every buffer taken on the way is
  given back. For \<open>PBUF_ROM\<close> and \<open>PBUF_REF\<close> the result is \<open>NULL\<close> or one new structure of that length that refers to nothing yet.
  A length in RAM that does not fit never yields a usable buffer: if one is returned, its memory is shorter than its length.
  Other buffers are untouched.
\<close>

theorem pbuf_alloc_all_or_nothing:
  assumes "heap_ok h" "n < 65536"
  shows "(type = PBUF_POOL \<or> type = PBUF_RAM \<and> ram_fits layer n \<longrightarrow>
      (\<exists>res h'. pbuf_alloc layer n type h = Some (res, h') \<and> heap_ok h' \<and>
        (case res of
           None \<Rightarrow> cells h' = cells h
         | Some a \<Rightarrow> \<exists>xs. packet (cells h') (Some a) xs \<and> sumlen (cells h') xs = n \<and>
             (\<forall>c\<in>set xs. sole (cells h') c \<and> cells h c = None) \<and> (\<forall>c. c \<notin> set xs \<longrightarrow> cells h' c = cells h c)))) \<and>
    (type = PBUF_ROM \<or> type = PBUF_REF \<longrightarrow>
      (\<exists>res h'. pbuf_alloc layer n type h = Some (res, h') \<and> heap_ok h' \<and>
        (case res of
           None \<Rightarrow> cells h' = cells h
         | Some a \<Rightarrow> cells h a = None \<and> cells h' = (cells h)(a \<mapsto> \<lparr>nxt = None, mem = [], pay = 0, tot_len = n, len = n,
             ptype = type, ref = 1, custom = False\<rparr>)))) \<and>
    (type = PBUF_RAM \<and> \<not> ram_fits layer n \<longrightarrow>
      (\<forall>a h'. pbuf_alloc layer n type h = Some (Some a, h') \<longrightarrow> (\<exists>b. cells h' a = Some b \<and> len b = n \<and> length (mem b) < pay b + len b)))"
proof (intro conjI impI, goal_cases)
  case 1
  then show ?case using pbuf_alloc_outcome [OF assms] by blast
next
  case 2
  obtain q h1 where m: "malloc h = (q, h1)" by (cases "malloc h")
  have "pbuf_alloc layer n type h = (case q of None \<Rightarrow> Some (None, h1) | Some p \<Rightarrow>
      Some (Some p, put p \<lparr>nxt = None, mem = [], pay = 0, tot_len = n, len = n, ptype = type, ref = 1, custom = False\<rparr> h1))"
    using 2 m by (auto simp: pbuf_alloc_def Let_def split: option.splits)
  then show ?case using malloc_cells [OF m] assms(1) by (cases q) (auto simp: heap_ok_def)
next
  case 3
  then show ?case using pbuf_alloc_ram_wraps [OF assms(2)] by blast
qed

theorem pbuf_alloc_all_or_nothing_witness:
  "(\<exists>h' xs. pbuf_alloc PBUF_RAW 900 PBUF_POOL sample_heap = Some (Some 0, h') \<and> packet (cells h') (Some 0) xs \<and> sumlen (cells h') xs = 900) \<and>
   (\<exists>h'. pbuf_alloc PBUF_RAW 65535 PBUF_RAM sample_heap = Some (Some 0, h') \<and> (\<exists>b. cells h' 0 = Some b \<and> len b = 65535 \<and> length (mem b) < 65535))"
proof
  have ok: "heap_ok sample_heap" by (simp add: heap_ok_def sample_heap_def)
  have "map_option fst (pbuf_alloc PBUF_RAW 900 PBUF_POOL sample_heap) = Some (Some 0)" by code_simp
  with pbuf_alloc_all_or_nothing [OF ok, of 900 PBUF_POOL PBUF_RAW]
  show "\<exists>h' xs. pbuf_alloc PBUF_RAW 900 PBUF_POOL sample_heap = Some (Some 0, h') \<and> packet (cells h') (Some 0) xs \<and> sumlen (cells h') xs = 900" by auto
  have "map_option fst (pbuf_alloc PBUF_RAW 65535 PBUF_RAM sample_heap) = Some (Some 0)"
    by (simp add: pbuf_alloc_def ram_malloc_def malloc_def sample_heap_def mem_align_def layer_offset_def SIZEOF_STRUCT_PBUF_def MEM_SIZE_def)
  then obtain h' where h': "pbuf_alloc PBUF_RAW 65535 PBUF_RAM sample_heap = Some (Some 0, h')" by auto
  have f: "\<not> ram_fits PBUF_RAW 65535" by (simp add: ram_fits_def mem_align_def layer_offset_def SIZEOF_STRUCT_PBUF_def)
  have p: "pay b = 0" if "cells h' 0 = Some b" for b
    using h' that by (auto simp: pbuf_alloc_def ram_malloc_def malloc_def sample_heap_def mem_align_def layer_offset_def SIZEOF_STRUCT_PBUF_def MEM_SIZE_def)
  from pbuf_alloc_all_or_nothing [OF ok, of 65535 PBUF_RAM PBUF_RAW] h' f p
  show "\<exists>h'. pbuf_alloc PBUF_RAW 65535 PBUF_RAM sample_heap = Some (Some 0, h') \<and> (\<exists>b. cells h' 0 = Some b \<and> len b = 65535 \<and> length (mem b) < 65535)"
    by fastforce
qed

text \<open>
  C21. \<open>pbuf_free\<close> frees exactly the buffers at the front of the chain that nobody else
  refers to, takes one reference from the first buffer that is shared, leaves every
  other buffer alone, and returns the number of buffers it freed.
\<close>

theorem pbuf_free_front:
  assumes "packet (cells h) p (xs @ ys)" "\<forall>a\<in>set xs. sole (cells h) a"
    "ys \<noteq> [] \<longrightarrow> shared (cells h) (hd ys)" "length xs < 256"
  shows "pbuf_free p h = Some (length xs, h\<lparr>cells := freed xs ys (cells h)\<rparr>)"
  using assms by (rule pbuf_free_chain)

theorem pbuf_free_front_witness: "pbuf_free (Some 0) one_heap = Some (1, one_heap\<lparr>cells := freed [0] [] (cells one_heap)\<rparr>)"
  using pbuf_free_front [of one_heap "Some 0" "[0]" "[]"] one_heap_packet
  by (simp add: sole_def one_heap_def sample_pbuf_def)

text \<open>
  \<open>pbuf_chain\<close> joins two disjoint chains: the result is a chain over the buffers of
  both that keeps the \<open>tot_len\<close> invariant, its content is the concatenation of theirs, and
  the only reference count that changes is that of the first buffer of the tail, which
  grows by one.
\<close>

theorem pbuf_chain_joins:
  assumes "packet (cells h) (Some a) xs" "packet (cells h) (Some t) ys" "set xs \<inter> set ys = {}"
    "sumlen (cells h) xs + sumlen (cells h) ys < 65536" "cells h t = Some tb" "ref tb < 65535"
  shows "\<exists>h'. pbuf_chain (Some a) (Some t) h = Some h' \<and> packet (cells h') (Some a) (xs @ ys) \<and>
    content (cells h') (xs @ ys) = content (cells h) xs @ content (cells h) ys \<and>
    (\<forall>c. map_option ref (cells h' c) = map_option ref (if c = t then Some (tb\<lparr>ref := ref tb + 1\<rparr>) else cells h c))"
  using pbuf_chain_chain [OF assms] by blast

theorem pbuf_chain_joins_witness:
  "\<exists>h'. pbuf_chain (Some 0) (Some 1) one_heap = Some h' \<and> content (cells h') [0, 1] = [1, 1, 1, 2, 1, 1, 1, 2]"
proof -
  have "cells one_heap 1 = Some sample_pbuf" "content (cells one_heap) [0] = [1, 1, 1, 2]"
    "content (cells one_heap) [1] = [1, 1, 1, 2]" "sumlen (cells one_heap) [0] + sumlen (cells one_heap) [1] < 65536" "ref sample_pbuf < 65535"
    by (simp_all add: one_heap_def sample_pbuf_def bytes_def)
  with pbuf_chain_joins [OF one_heap_packet] show ?thesis by fastforce
qed

text \<open>
  C28. What \<open>pbuf_take\<close> writes, \<open>pbuf_copy_partial\<close> reads: after copying data that fits
  into a chain, any part of the chain reads as the data followed by the old content,
  however the chain is cut into buffers, and no buffer outside the chain changes.
\<close>

theorem pbuf_take_copy_partial:
  assumes "packet (cells h) (Some a) xs" "length dat \<le> sumlen (cells h) xs"
  shows "\<exists>h'. pbuf_take (Some a) dat h = Some (ERR_OK, h') \<and> (\<forall>c. c \<notin> set xs \<longrightarrow> cells h' c = cells h c) \<and>
    (\<forall>n i. pbuf_copy_partial (Some a) n i h' =
       Some (take n (drop i (dat @ drop (length dat) (content (cells h) xs)))))"
proof -
  obtain h' where h': "take_loop h (Some a) dat = Some h'" "packet (cells h') (Some a) xs"
    "content (cells h') xs = dat @ drop (length dat) (content (cells h) xs)" "\<forall>c. c \<notin> set xs \<longrightarrow> cells h' c = cells h c"
    using take_loop_chain [OF assms] by blast
  obtain b where "cells h a = Some b" "tot_len b = sumlen (cells h) xs" using packet_tot_len [OF assms(1)] by blast
  with h'(1) assms(2) have "pbuf_take (Some a) dat h = Some (ERR_OK, h')" by (simp add: pbuf_take_def)
  moreover have "pbuf_copy_partial (Some a) n i h' = Some (take n (drop i (dat @ drop (length dat) (content (cells h) xs))))" for n i
    using copy_partial_loop_chain [OF h'(2)] h'(3) by (simp add: pbuf_copy_partial_def)
  ultimately show ?thesis using h'(4) by blast
qed

theorem pbuf_take_copy_partial_witness:
  "\<exists>h'. pbuf_take (Some 0) [7, 8] one_heap = Some (ERR_OK, h') \<and> pbuf_copy_partial (Some 0) 2 1 h' = Some [8, 1]"
proof -
  have "length [7, 8 :: byte] \<le> sumlen (cells one_heap) [0]" "content (cells one_heap) [0] = [1, 1, 1, 2]"
    by (simp_all add: one_heap_def sample_pbuf_def bytes_def)
  with pbuf_take_copy_partial [OF one_heap_packet(1)] show ?thesis by fastforce
qed

text \<open>
  C30. \<open>pbuf_realloc\<close> to a smaller length leaves a chain that keeps the invariant and
  holds exactly the first bytes of the old content; the buffers behind it are freed and
  nothing else changes.
\<close>

theorem pbuf_realloc_shrinks:
  assumes "packet (cells h) (Some a) xs" "\<forall>c\<in>set (tl xs). sole (cells h) c" "length xs < 256"
    "n < sumlen (cells h) xs"
  shows "\<exists>h' ys zs. pbuf_realloc a n h = Some h' \<and> xs = ys @ zs \<and> packet (cells h') (Some a) ys \<and>
    content (cells h') ys = take n (content (cells h) xs) \<and> sumlen (cells h') ys = n \<and>
    (\<forall>c. c \<notin> set xs \<longrightarrow> cells h' c = cells h c) \<and> (\<forall>c\<in>set zs. cells h' c = None)"
proof -
  obtain b where b: "cells h a = Some b" "tot_len b = sumlen (cells h) xs" using packet_tot_len [OF assms(1)] by blast
  obtain h' ys zs where h': "(do { (q, rem_len, h1) \<leftarrow> realloc_loop h a n (int n - int (sumlen (cells h) xs));
      realloc_finish q rem_len h1 }) = Some h'" "xs = ys @ zs" "packet (cells h') (Some a) ys"
    "content (cells h') ys = take n (content (cells h) xs)" "\<forall>c. c \<notin> set xs \<longrightarrow> cells h' c = cells h c"
    "\<forall>c\<in>set zs. cells h' c = None"
    using realloc_chain [OF assms(1-3) _ refl, of n] assms(4) by auto
  have "pbuf_realloc a n h = Some h'" using b assms(4) h'(1) by (simp add: pbuf_realloc_def)
  moreover have "sumlen (cells h') ys = n"
    using content_length [OF h'(3)] h'(4) content_length [OF assms(1)] assms(4) by simp
  ultimately show ?thesis using h' by blast
qed

theorem pbuf_realloc_shrinks_witness: "\<exists>h' ys. pbuf_realloc 0 3 one_heap = Some h' \<and> content (cells h') ys = [1, 1, 1]"
proof -
  have "\<forall>c\<in>set (tl [0 :: nat]). sole (cells one_heap) c" "length [0 :: nat] < 256" "3 < sumlen (cells one_heap) [0]"
    "content (cells one_heap) [0] = [1, 1, 1, 2]"
    by (simp_all add: one_heap_def sample_pbuf_def bytes_def)
  with pbuf_realloc_shrinks [OF one_heap_packet(1)] show ?thesis by fastforce
qed

text \<open>
  \<open>pbuf_memfind\<close> always returns, and what it reports is an occurrence at or after the
  start offset. It misses occurrences, though: after a mismatch it skips all the bytes
  compared, and so does not find \<open>1 1 2\<close> in \<open>1 1 1 2\<close>.
\<close>

theorem pbuf_memfind_sound_incomplete:
  assumes "packet (cells h) (Some a) xs" "m \<noteq> []" "sumlen (cells h) xs < 65535"
  shows "(\<exists>r. pbuf_memfind a m i h = Some r \<and>
      (r \<noteq> 0xFFFF \<longrightarrow> i \<le> r \<and> take (length m) (drop r (content (cells h) xs)) = m)) \<and>
    pbuf_memfind 0 [1, 1, 2] 0 one_heap = Some 0xFFFF \<and> take 3 (drop 1 (content (cells one_heap) [0])) = [1, 1, 2]"
proof -
  obtain b where b: "cells h a = Some b" "tot_len b = sumlen (cells h) xs" using packet_tot_len [OF assms(1)] by blast
  have "\<exists>r. pbuf_memfind a m i h = Some r \<and> (r \<noteq> 0xFFFF \<longrightarrow> i \<le> r \<and> take (length m) (drop r (content (cells h) xs)) = m)"
  proof (cases "tot_len b \<ge> length m + i")
    case True
    then have "u16 (int (tot_len b) - int (length m)) = tot_len b - length m"
      using b(2) assms(3) by (intro u16_diff) auto
    then have "pbuf_memfind a m i h = memfind_loop h (Some a) m i (tot_len b - length m)"
      using b(1) True by (simp add: pbuf_memfind_def)
    moreover have "length (content (cells h) xs) = (tot_len b - length m) + length m"
      using content_length [OF assms(1)] b(2) True by simp
    moreover have "tot_len b - length m + length m < 65535" using b(2) assms(3) True by simp
    ultimately show ?thesis using memfind_loop_chain [OF assms(1,2)] by simp
  qed (simp add: pbuf_memfind_def b(1))
  moreover have "take 3 (drop 1 (content (cells one_heap) [0])) = [1, 1, 2]"
    by (simp add: one_heap_def sample_pbuf_def bytes_def)
  ultimately show ?thesis using one_heap_missed by blast
qed

theorem pbuf_memfind_sound_incomplete_witness:
  "\<exists>r. pbuf_memfind 1 [1, 2] 0 one_heap = Some r \<and> (r \<noteq> 0xFFFF \<longrightarrow> take 2 (drop r [1, 1, 1, 2]) = [1, 2 :: byte])"
proof -
  have "[1, 2 :: byte] \<noteq> []" "sumlen (cells one_heap) [1] < 65535" "content (cells one_heap) [1] = [1, 1, 1, 2]"
    by (simp_all add: one_heap_def sample_pbuf_def bytes_def)
  with pbuf_memfind_sound_incomplete [OF one_heap_packet(2), of "[1, 2]" 0] show ?thesis by (auto simp: numeral_2_eq_2)
qed

end
