(* ===== verification/Tcp_Out.thy ===== *)
theory Tcp_Out
  imports Pbuf
begin

unbundle bit_operations_syntax

text \<open>
  The send side of a TCP connection, \<open>core/tcp_out.c\<close>: \<open>tcp_write\<close> with its three phases,
  \<open>tcp_enqueue_flags\<close> and \<open>tcp_send_fin\<close>, on the heap of packet buffers. A queue of segments
  is a list; a segment points at its packet by the address of the first buffer. The header
  fields that the code writes into the first 20 bytes of the packet stand beside it, in
  host byte order. A function pointer is the name of the function. Requests of
  \<open>memp_malloc(MEMP_TCP_SEG)\<close> are answered by the same grants as those for buffers.
  \<open>LWIP_TCP_TIMESTAMPS\<close>, \<open>TCP_CHECKSUM_ON_COPY\<close> and \<open>LWIP_NETIF_TX_SINGLE_PBUF\<close> are 0.
\<close>

section \<open>Connections and segments\<close>

datatype tcp_state = CLOSED | LISTEN | SYN_SENT | SYN_RCVD | ESTABLISHED | FIN_WAIT_1 | FIN_WAIT_2 |
  CLOSE_WAIT | CLOSING | LAST_ACK | TIME_WAIT

record tcp_hdr =
  src :: nat
  dest :: nat
  seqno :: "32 word"
  ackno :: "32 word"
  hdrlen :: nat
  hflags :: "8 word"
  wnd :: nat

record tcp_seg =
  sp :: nat
  slen :: nat
  sflags :: "8 word"
  tcphdr :: tcp_hdr

record tcp_pcb =
  callback_arg :: "nat option"
  accept :: "string option"
  state :: tcp_state
  prio :: nat
  local_port :: nat
  remote_port :: nat
  flags :: "8 word"
  pollinterval :: nat
  rcv_nxt :: "32 word"
  rcv_wnd :: nat
  rcv_ann_wnd :: nat
  rcv_ann_right_edge :: "32 word"
  mss :: nat
  lastack :: "32 word"
  cwnd :: nat
  snd_nxt :: "32 word"
  snd_lbb :: "32 word"
  snd_wnd :: nat
  snd_wnd_max :: nat
  snd_buf :: nat
  snd_queuelen :: nat
  unsent_oversize :: nat
  unsent :: "tcp_seg list"
  unacked :: "tcp_seg list"
  sent :: "string option"
  recv :: "string option"
  poll :: "string option"
  errf :: "string option"

abbreviation "TF_ACK_DELAY \<equiv> 0x01 :: 8 word"
abbreviation "TF_ACK_NOW \<equiv> 0x02 :: 8 word"
abbreviation "TF_INFR \<equiv> 0x04 :: 8 word"
abbreviation "TF_FIN \<equiv> 0x20 :: 8 word"
abbreviation "TF_NODELAY \<equiv> 0x40 :: 8 word"
abbreviation "TF_NAGLEMEMERR \<equiv> 0x80 :: 8 word"
abbreviation "TCP_FIN \<equiv> 0x01 :: 8 word"
abbreviation "TCP_SYN \<equiv> 0x02 :: 8 word"
abbreviation "TCP_RST \<equiv> 0x04 :: 8 word"
abbreviation "TCP_PSH \<equiv> 0x08 :: 8 word"
abbreviation "TCP_ACK \<equiv> 0x10 :: 8 word"
abbreviation "TF_SEG_OPTS_MSS \<equiv> 0x01 :: 8 word"
abbreviation "TF_SEG_OPTS_TS \<equiv> 0x02 :: 8 word"
abbreviation "TCP_WRITE_FLAG_COPY \<equiv> 0x01 :: 8 word"
abbreviation "TCP_WRITE_FLAG_MORE \<equiv> 0x02 :: 8 word"
abbreviation "TCP_HLEN \<equiv> 20 :: nat"

definition TCP_MSS :: nat where "TCP_MSS = 1460"

definition TCP_SND_QUEUELEN :: nat where "TCP_SND_QUEUELEN = 4"

definition TCP_SNDQUEUELEN_OVERFLOW :: nat where "TCP_SNDQUEUELEN_OVERFLOW = 65532"

definition LWIP_TCP_OPT_LENGTH :: "8 word \<Rightarrow> nat" where
  "LWIP_TCP_OPT_LENGTH fl = (if fl AND TF_SEG_OPTS_MSS \<noteq> 0 then 4 else 0) + (if fl AND TF_SEG_OPTS_TS \<noteq> 0 then 12 else 0)"

definition tcp_sndbuf :: "tcp_pcb \<Rightarrow> nat" where
  "tcp_sndbuf pcb = snd_buf pcb"

definition mark :: "8 word \<Rightarrow> tcp_pcb \<Rightarrow> tcp_pcb" where
  "mark f pcb = pcb\<lparr>flags := flags pcb OR f\<rparr>"

definition set_hflag :: "8 word \<Rightarrow> tcp_seg \<Rightarrow> tcp_seg" where
  "set_hflag f s = s\<lparr>tcphdr := (tcphdr s)\<lparr>hflags := hflags (tcphdr s) OR f\<rparr>\<rparr>"

section \<open>Segments\<close>

definition tcp_seg_free :: "tcp_seg \<Rightarrow> pheap \<Rightarrow> pheap option" where
  "tcp_seg_free s h = do { (n, h1) \<leftarrow> pbuf_free (Some (sp s)) h; Some h1 }"

primrec tcp_segs_free :: "tcp_seg list \<Rightarrow> pheap \<Rightarrow> pheap option" where
  "tcp_segs_free [] h = Some h"
| "tcp_segs_free (s # ss) h = do { h1 \<leftarrow> tcp_seg_free s h; tcp_segs_free ss h1 }"

definition tcp_create_segment ::
    "tcp_pcb \<Rightarrow> nat \<Rightarrow> 8 word \<Rightarrow> 32 word \<Rightarrow> 8 word \<Rightarrow> pheap \<Rightarrow> (tcp_seg option \<times> pheap) option" where
  "tcp_create_segment pcb p fl sq optflags h =
     (let optlen = LWIP_TCP_OPT_LENGTH optflags in
      case malloc h of
        (None, h1) \<Rightarrow> do { (n, h2) \<leftarrow> pbuf_free (Some p) h1; Some (None, h2) }
      | (Some s, h1) \<Rightarrow> do {
          b \<leftarrow> cells h1 p;
          let seg = \<lparr>sp = p, slen = u16 (int (tot_len b) - int optlen), sflags = optflags,
                     tcphdr = \<lparr>src = local_port pcb, dest = remote_port pcb, seqno = sq, ackno = 0,
                               hdrlen = 5 + optlen div 4, hflags = fl, wnd = 0\<rparr>\<rparr>;
          (failed, h2) \<leftarrow> pbuf_header p (int TCP_HLEN) h1;
          if failed then do { h3 \<leftarrow> tcp_seg_free seg h2; Some (None, h3) }
          else Some (Some seg, h2)
        })"

text \<open>A buffer of \<open>n\<close> bytes that may have room for more, and the size of that room.\<close>

definition tcp_pbuf_prealloc ::
    "pbuf_layer \<Rightarrow> nat \<Rightarrow> nat \<Rightarrow> tcp_pcb \<Rightarrow> 8 word \<Rightarrow> bool \<Rightarrow> pheap \<Rightarrow> ((nat \<times> nat) option \<times> pheap) option" where
  "tcp_pbuf_prealloc layer n max_length pcb apiflags first_seg h =
     (let alloc =
        (if n < max_length \<and>
            (apiflags AND TCP_WRITE_FLAG_MORE \<noteq> 0 \<or>
             (flags pcb AND TF_NODELAY = 0 \<and> (\<not> first_seg \<or> unsent pcb \<noteq> [] \<or> unacked pcb \<noteq> [])))
         then min max_length (mem_align (n + TCP_MSS)) else n)
      in do {
        (r, h1) \<leftarrow> pbuf_alloc layer alloc PBUF_RAM h;
        (case r of
           None \<Rightarrow> Some (None, h1)
         | Some p \<Rightarrow> do {
             b \<leftarrow> cells h1 p;
             Some (Some (p, u16 (int (len b) - int n)), put p (b\<lparr>len := n, tot_len := n\<rparr>) h1)
           })
      })"

section \<open>Writing\<close>

definition tcp_write_checks :: "tcp_pcb \<Rightarrow> nat \<Rightarrow> err_t \<times> tcp_pcb" where
  "tcp_write_checks pcb n =
     (if state pcb \<notin> {ESTABLISHED, CLOSE_WAIT, SYN_SENT, SYN_RCVD} then (ERR_CONN, pcb)
      else if n = 0 then (ERR_OK, pcb)
      else if n > snd_buf pcb then (ERR_MEM, mark TF_NAGLEMEMERR pcb)
      else if snd_queuelen pcb \<ge> TCP_SND_QUEUELEN \<or> snd_queuelen pcb > TCP_SNDQUEUELEN_OVERFLOW
      then (ERR_MEM, mark TF_NAGLEMEMERR pcb)
      else (ERR_OK, pcb))"

text \<open>
  The buffer of a piece of the data: a copy with preallocated room, or a \<open>PBUF_ROM\<close> that
  refers to it. \<open>write_copy\<close> is the code's \<open>TCP_DATA_COPY2\<close> into a new buffer.
\<close>

definition write_copy :: "nat \<Rightarrow> byte list \<Rightarrow> pheap \<Rightarrow> pheap option" where
  "write_copy p xs h = do { b \<leftarrow> cells h p; b1 \<leftarrow> memcpy_at 0 xs b; Some (put p b1 h) }"

definition rom_refer :: "nat \<Rightarrow> byte list \<Rightarrow> pheap \<Rightarrow> pheap option" where
  "rom_refer p xs h = do { b \<leftarrow> cells h p; Some (put p (b\<lparr>mem := xs, pay := 0\<rparr>) h) }"

text \<open>Phase 2: a buffer that will extend the last unsent segment, and the new oversize.\<close>

definition write_concat ::
    "tcp_pcb \<Rightarrow> byte list \<Rightarrow> 8 word \<Rightarrow> nat \<Rightarrow> nat \<Rightarrow> pheap \<Rightarrow> ((nat \<times> nat) option \<times> pheap) option" where
  "write_concat pcb xs apiflags space oversize h =
     (if apiflags AND TCP_WRITE_FLAG_COPY \<noteq> 0 then do {
        (r, h1) \<leftarrow> tcp_pbuf_prealloc PBUF_RAW (length xs) space pcb apiflags True h;
        (case r of
           None \<Rightarrow> Some (None, h1)
         | Some (p, ov) \<Rightarrow> do { h2 \<leftarrow> write_copy p xs h1; Some (Some (p, ov), h2) })
      } else do {
        (r, h1) \<leftarrow> pbuf_alloc PBUF_RAW (length xs) PBUF_ROM h;
        (case r of
           None \<Rightarrow> Some (None, h1)
         | Some p \<Rightarrow> do { h2 \<leftarrow> rom_refer p xs h1; Some (Some (p, oversize), h2) })
      })"

text \<open>Phase 3: the packet of one new segment.\<close>

definition write_packet ::
    "tcp_pcb \<Rightarrow> byte list \<Rightarrow> 8 word \<Rightarrow> nat \<Rightarrow> nat \<Rightarrow> bool \<Rightarrow> pheap \<Rightarrow> ((nat \<times> nat) option \<times> pheap) option" where
  "write_packet pcb xs apiflags mss_local oversize first h =
     (if apiflags AND TCP_WRITE_FLAG_COPY \<noteq> 0 then do {
        (r, h1) \<leftarrow> tcp_pbuf_prealloc PBUF_TRANSPORT (length xs) mss_local pcb apiflags first h;
        (case r of
           None \<Rightarrow> Some (None, h1)
         | Some (p, ov) \<Rightarrow> do { h2 \<leftarrow> write_copy p xs h1; Some (Some (p, ov), h2) })
      } else do {
        (r2, h1) \<leftarrow> pbuf_alloc PBUF_TRANSPORT (length xs) PBUF_ROM h;
        (case r2 of
           None \<Rightarrow> Some (None, h1)
         | Some p2 \<Rightarrow> do {
             h2 \<leftarrow> rom_refer p2 xs h1;
             (r, h3) \<leftarrow> pbuf_alloc PBUF_TRANSPORT 0 PBUF_RAM h2;
             (case r of
                None \<Rightarrow> do { (n, h4) \<leftarrow> pbuf_free (Some p2) h3; Some (None, h4) }
              | Some p \<Rightarrow> do { h4 \<leftarrow> pbuf_cat (Some p) (Some p2) h3; Some (Some (p, oversize), h4) })
           })
      })"

text \<open>One turn of the loop of phase 3: the new segment, its length, the new queue length and oversize.\<close>

definition write_seg ::
    "tcp_pcb \<Rightarrow> byte list \<Rightarrow> 8 word \<Rightarrow> nat \<Rightarrow> nat \<Rightarrow> nat \<Rightarrow> nat \<Rightarrow> bool \<Rightarrow> pheap \<Rightarrow>
     ((tcp_seg \<times> nat \<times> nat \<times> nat) option \<times> pheap) option" where
  "write_seg pcb data apiflags mss_local pos queuelen oversize first h =
     (let left = length data - pos;
          seglen = (if left > mss_local then mss_local else left)
      in do {
        (r, h1) \<leftarrow> write_packet pcb (take seglen (drop pos data)) apiflags mss_local oversize first h;
        (case r of
           None \<Rightarrow> Some (None, h1)
         | Some (p, ov) \<Rightarrow> do {
             n \<leftarrow> pbuf_clen (Some p) h1;
             let queuelen = u16 (int queuelen + int n);
             if queuelen > TCP_SND_QUEUELEN \<or> queuelen > TCP_SNDQUEUELEN_OVERFLOW
             then do { (k, h2) \<leftarrow> pbuf_free (Some p) h1; Some (None, h2) }
             else do {
               (s, h2) \<leftarrow> tcp_create_segment pcb p 0 (snd_lbb pcb + of_nat pos) 0 h1;
               (case s of
                  None \<Rightarrow> Some (None, h2)
                | Some seg \<Rightarrow> Some (Some (seg, seglen, queuelen, ov), h2))
             }
           })
      })"

text \<open>The loop. The first component of the result is \<open>False\<close> after a jump to \<open>memerr\<close>.\<close>

partial_function (option) write_loop ::
    "tcp_pcb \<Rightarrow> byte list \<Rightarrow> 8 word \<Rightarrow> nat \<Rightarrow> nat \<Rightarrow> nat \<Rightarrow> nat \<Rightarrow> tcp_seg list \<Rightarrow> pheap \<Rightarrow>
     (bool \<times> nat \<times> nat \<times> tcp_seg list \<times> pheap) option" where
  "write_loop pcb data apiflags mss_local pos queuelen oversize queue h =
     (if pos < length data then
        (case write_seg pcb data apiflags mss_local pos queuelen oversize (queue = []) h of
           None \<Rightarrow> None
         | Some (r, h1) \<Rightarrow>
             (case r of
                None \<Rightarrow> Some (False, queuelen, oversize, queue, h1)
              | Some (seg, seglen, ql, ov) \<Rightarrow>
                  write_loop pcb data apiflags mss_local (pos + seglen) ql ov (queue @ [seg]) h1))
      else Some (True, queuelen, oversize, queue, h))"

text \<open>Committing phase 1: the bytes go into the room behind the last buffer of the packet.\<close>

partial_function (option) bump_loop :: "pheap \<Rightarrow> nat \<Rightarrow> byte list \<Rightarrow> pheap option" where
  "bump_loop h p xs =
     (case cells h p of
        None \<Rightarrow> None
      | Some b \<Rightarrow>
          (let b1 = b\<lparr>tot_len := u16 (int (tot_len b) + int (length xs))\<rparr> in
           case nxt b of
             Some q \<Rightarrow> bump_loop (put p b1 h) q xs
           | None \<Rightarrow>
               map_option (\<lambda>b2. put p (b2\<lparr>len := u16 (int (len b) + int (length xs))\<rparr>) h) (memcpy_at (len b) xs b1)))"

text \<open>
  Committing phases 1 and 2 to the last unsent segment: \<open>used\<close> are the bytes of phase 1,
  \<open>concat_p\<close> the buffer of phase 2.
\<close>

definition extend_last :: "tcp_seg \<Rightarrow> byte list \<Rightarrow> nat option \<Rightarrow> pheap \<Rightarrow> (tcp_seg \<times> pheap) option" where
  "extend_last s used concat_p h = do {
     h1 \<leftarrow> (if used \<noteq> [] then bump_loop h (sp s) used else Some h);
     let s1 = s\<lparr>slen := u16 (int (slen s) + int (length used))\<rparr>;
     (case concat_p of
        None \<Rightarrow> Some (s1, h1)
      | Some c \<Rightarrow> do {
          h2 \<leftarrow> pbuf_cat (Some (sp s)) (Some c) h1;
          cb \<leftarrow> cells h2 c;
          Some (s1\<lparr>slen := u16 (int (slen s1) + int (tot_len cb))\<rparr>, h2)
        })
   }"

text \<open>The exit \<open>memerr\<close>.\<close>

definition write_memerr :: "tcp_pcb \<Rightarrow> nat option \<Rightarrow> tcp_seg list \<Rightarrow> pheap \<Rightarrow> (err_t \<times> tcp_pcb \<times> pheap) option" where
  "write_memerr pcb concat_p queue h = do {
     (n, h1) \<leftarrow> (case concat_p of None \<Rightarrow> Some (0, h) | Some c \<Rightarrow> pbuf_free (Some c) h);
     h2 \<leftarrow> tcp_segs_free queue h1;
     Some (ERR_MEM, mark TF_NAGLEMEMERR pcb, h2)
   }"

text \<open>The last segment touched gets the \<open>PSH\<close> flag unless more data is announced.\<close>

definition push_last :: "8 word \<Rightarrow> tcp_seg list \<Rightarrow> tcp_seg list" where
  "push_last apiflags ss =
     (if ss \<noteq> [] \<and> apiflags AND TCP_WRITE_FLAG_MORE = 0 then butlast ss @ [set_hflag TCP_PSH (last ss)] else ss)"

definition write_commit ::
    "tcp_pcb \<Rightarrow> nat \<Rightarrow> 8 word \<Rightarrow> bool \<Rightarrow> byte list \<Rightarrow> nat option \<Rightarrow> nat \<Rightarrow> nat \<Rightarrow> tcp_seg list \<Rightarrow> pheap \<Rightarrow>
     (err_t \<times> tcp_pcb \<times> pheap) option" where
  "write_commit pcb n apiflags touched used concat_p queuelen oversize queue h = do {
     (old, h1) \<leftarrow>
       (if unsent pcb = [] then Some ([], h)
        else do {
          (s, h1) \<leftarrow> extend_last (last (unsent pcb)) used concat_p h;
          Some (butlast (unsent pcb) @ [s], h1)
        });
     let queue1 = (if queue \<noteq> [] then old @ push_last apiflags queue
                   else if touched then push_last apiflags old else old);
     Some (ERR_OK,
           pcb\<lparr>unsent_oversize := oversize, unsent := queue1, snd_lbb := snd_lbb pcb + of_nat n,
               snd_buf := u16 (int (snd_buf pcb) - int n), snd_queuelen := queuelen\<rparr>, h1)
   }"

text \<open>Phase 3 and what follows it.\<close>

definition write_rest ::
    "tcp_pcb \<Rightarrow> byte list \<Rightarrow> 8 word \<Rightarrow> nat \<Rightarrow> nat \<Rightarrow> nat \<Rightarrow> nat \<Rightarrow> bool \<Rightarrow> byte list \<Rightarrow> nat option \<Rightarrow> pheap \<Rightarrow>
     (err_t \<times> tcp_pcb \<times> pheap) option" where
  "write_rest pcb data apiflags mss_local pos queuelen oversize touched used concat_p h = do {
     (ok, queuelen, oversize, queue, h1) \<leftarrow> write_loop pcb data apiflags mss_local pos queuelen oversize [] h;
     if ok then write_commit pcb (length data) apiflags touched used concat_p queuelen oversize queue h1
     else write_memerr pcb concat_p queue h1
   }"

text \<open>
  \<open>arg\<close> is the data (\<open>len\<close> is its length) or \<open>NULL\<close>. The result is the error code, the
  connection and the heap.
\<close>

definition tcp_write :: "tcp_pcb \<Rightarrow> byte list option \<Rightarrow> 8 word \<Rightarrow> pheap \<Rightarrow> (err_t \<times> tcp_pcb \<times> pheap) option" where
  "tcp_write pcb arg apiflags h =
     (case arg of
        None \<Rightarrow> Some (ERR_ARG, pcb, h)
      | Some data \<Rightarrow>
          (let mss_local = min (mss pcb) (snd_wnd_max pcb div 2);
               (err, pcb1) = tcp_write_checks pcb (length data)
           in
           if err \<noteq> ERR_OK then Some (err, pcb1, h)
           else if unsent pcb = [] then
             write_rest pcb data apiflags mss_local 0 (snd_queuelen pcb) 0 False [] None h
           else
             (let last_unsent = last (unsent pcb);
                  space = u16 (int mss_local - int (slen last_unsent + LWIP_TCP_OPT_LENGTH (sflags last_unsent)));
                  oversize = unsent_oversize pcb;
                  oversize_used = (if oversize > 0 then min oversize (length data) else 0);
                  space1 = u16 (int space - int oversize_used);
                  oversize1 = oversize - oversize_used;
                  touched = (oversize > 0)
              in
              if oversize_used < length data \<and> space1 > 0 \<and> slen last_unsent > 0 then
                (let seglen = min space1 (length data - oversize_used) in do {
                   (r, h1) \<leftarrow> write_concat pcb (take seglen (drop oversize_used data)) apiflags space1 oversize1 h;
                   (case r of
                      None \<Rightarrow> write_memerr pcb None [] h1
                    | Some (c, ov) \<Rightarrow> do {
                        n \<leftarrow> pbuf_clen (Some c) h1;
                        write_rest pcb data apiflags mss_local (oversize_used + seglen)
                          (u16 (int (snd_queuelen pcb) + int n)) ov True (take oversize_used data) (Some c) h1
                      })
                 })
              else
                write_rest pcb data apiflags mss_local oversize_used (snd_queuelen pcb) oversize1 touched
                  (take oversize_used data) None h)))"

section \<open>Flags\<close>

definition tcp_enqueue_flags :: "tcp_pcb \<Rightarrow> 8 word \<Rightarrow> pheap \<Rightarrow> (err_t \<times> tcp_pcb \<times> pheap) option" where
  "tcp_enqueue_flags pcb fl h =
     (if snd_queuelen pcb \<ge> TCP_SND_QUEUELEN \<or> snd_queuelen pcb > TCP_SNDQUEUELEN_OVERFLOW
      then Some (ERR_MEM, mark TF_NAGLEMEMERR pcb, h)
      else
        (let optflags = (if fl AND TCP_SYN \<noteq> 0 then TF_SEG_OPTS_MSS else 0);
             optlen = LWIP_TCP_OPT_LENGTH optflags
         in
         if snd_buf pcb = 0 then Some (ERR_MEM, pcb, h)
         else do {
           (r, h1) \<leftarrow> pbuf_alloc PBUF_TRANSPORT optlen PBUF_RAM h;
           (case r of
              None \<Rightarrow> Some (ERR_MEM, mark TF_NAGLEMEMERR pcb, h1)
            | Some p \<Rightarrow> do {
                (s, h2) \<leftarrow> tcp_create_segment pcb p fl (snd_lbb pcb) optflags h1;
                (case s of
                   None \<Rightarrow> Some (ERR_MEM, mark TF_NAGLEMEMERR pcb, h2)
                 | Some seg \<Rightarrow> do {
                     n \<leftarrow> pbuf_clen (Some (sp seg)) h2;
                     let pcb1 = pcb\<lparr>unsent := unsent pcb @ [seg], unsent_oversize := 0\<rparr>;
                     let pcb2 = (if fl AND TCP_SYN \<noteq> 0 \<or> fl AND TCP_FIN \<noteq> 0
                                 then pcb1\<lparr>snd_lbb := snd_lbb pcb1 + 1, snd_buf := u16 (int (snd_buf pcb1) - 1)\<rparr>
                                 else pcb1);
                     let pcb3 = (if fl AND TCP_FIN \<noteq> 0 then mark TF_FIN pcb2 else pcb2);
                     Some (ERR_OK, pcb3\<lparr>snd_queuelen := u16 (int (snd_queuelen pcb3) + int n)\<rparr>, h2)
                   })
              })
         }))"

definition tcp_send_fin :: "tcp_pcb \<Rightarrow> pheap \<Rightarrow> (err_t \<times> tcp_pcb \<times> pheap) option" where
  "tcp_send_fin pcb h =
     (if unsent pcb \<noteq> [] \<and> hflags (tcphdr (last (unsent pcb))) AND (TCP_SYN OR TCP_FIN OR TCP_RST) = 0
      then Some (ERR_OK, mark TF_FIN (pcb\<lparr>unsent := butlast (unsent pcb) @ [set_hflag TCP_FIN (last (unsent pcb))]\<rparr>), h)
      else tcp_enqueue_flags pcb TCP_FIN h)"

section \<open>The send queue\<close>

text \<open>
  \<open>seg_ok m s xs\<close>: the packet of segment \<open>s\<close> is the chain \<open>xs\<close>, which nobody else refers to,
  and its length is that of the header, the options and \<open>slen\<close> bytes of data.
\<close>

definition seg_ok :: "(nat \<Rightarrow> pbuf option) \<Rightarrow> tcp_seg \<Rightarrow> nat list \<Rightarrow> bool" where
  "seg_ok m s xs \<longleftrightarrow> packet m (Some (sp s)) xs \<and> (\<forall>c\<in>set xs. sole m c) \<and>
     sumlen m xs = TCP_HLEN + LWIP_TCP_OPT_LENGTH (sflags s) + slen s"

definition seg_data :: "(nat \<Rightarrow> pbuf option) \<Rightarrow> tcp_seg \<Rightarrow> nat list \<Rightarrow> byte list" where
  "seg_data m s xs = drop (TCP_HLEN + LWIP_TCP_OPT_LENGTH (sflags s)) (content m xs)"

text \<open>The bytes of a queue of segments.\<close>

fun stream :: "(nat \<Rightarrow> pbuf option) \<Rightarrow> tcp_seg list \<Rightarrow> nat list list \<Rightarrow> byte list" where
  "stream m (s # ss) (xs # xss) = seg_data m s xs @ stream m ss xss"
| "stream m _ _ = []"

definition tail_room :: "(nat \<Rightarrow> pbuf option) \<Rightarrow> nat list \<Rightarrow> nat \<Rightarrow> bool" where
  "tail_room m xs ov \<longleftrightarrow> ov = 0 \<or> (\<exists>b. m (last xs) = Some b \<and> pay b + len b + ov \<le> length (mem b))"

definition mss_local :: "tcp_pcb \<Rightarrow> nat" where
  "mss_local pcb = min (mss pcb) (snd_wnd_max pcb div 2)"

definition last_room :: "(nat \<Rightarrow> pbuf option) \<Rightarrow> nat \<Rightarrow> tcp_seg list \<Rightarrow> nat list list \<Rightarrow> nat \<Rightarrow> bool" where
  "last_room m mx ss xss ov \<longleftrightarrow>
     (if ss = [] then ov = 0
      else tail_room m (last xss) ov \<and> slen (last ss) + LWIP_TCP_OPT_LENGTH (sflags (last ss)) + ov \<le> mx)"

definition conn_ok :: "pheap \<Rightarrow> tcp_pcb \<Rightarrow> nat list list \<Rightarrow> bool" where
  "conn_ok h pcb xss \<longleftrightarrow> list_all2 (seg_ok (cells h)) (unsent pcb) xss \<and> distinct (concat xss) \<and>
     length (concat xss) \<le> snd_queuelen pcb \<and> snd_queuelen pcb \<le> TCP_SND_QUEUELEN \<and> snd_buf pcb < 65536 \<and> mss pcb \<le> TCP_MSS \<and>
     last_room (cells h) (mss_local pcb) (unsent pcb) xss (unsent_oversize pcb)"

lemma seg_ok_frame:
  assumes "\<And>c. c \<in> set xs \<Longrightarrow> m' c = m c"
  shows "seg_ok m' s xs = seg_ok m s xs" "seg_data m' s xs = seg_data m s xs"
  using packet_frame [of xs m' m, OF assms] assms by (auto simp: seg_ok_def seg_data_def sole_def)

lemma segs_frame [frame]:
  assumes "\<And>c. c \<in> set (concat xss) \<Longrightarrow> m' c = m c"
  shows "list_all2 (seg_ok m') ss xss = list_all2 (seg_ok m) ss xss" "stream m' ss xss = stream m ss xss"
  using assms
proof (induction ss xss rule: list_induct2')
  case (4 s ss xs xss)
  {
    case 1
    with 4 show ?case using seg_ok_frame [of xs m' m s] by simp
  next
    case 2
    with 4 show ?case using seg_ok_frame [of xs m' m s] by simp
  }
qed simp_all

lemma stream_append: "length ss = length xss \<Longrightarrow> stream m (ss @ ts) (xss @ yss) = stream m ss xss @ stream m ts yss"
  by (induction ss xss rule: list_induct2) simp_all

lemma freed_all: "freed xs [] m = m |` (- set xs)"
  by (auto simp: freed_def restrict_map_def fun_eq_iff)

lemma tcp_segs_free_ok:
  assumes "list_all2 (seg_ok (cells h)) ss xss" "distinct (concat xss)" "\<forall>xs\<in>set xss. length xs < 256"
  shows "tcp_segs_free ss h = Some (h\<lparr>cells := cells h |` (- set (concat xss))\<rparr>)"
  using assms
proof (induction ss xss arbitrary: h rule: list_induct2')
  case (4 s ss xs xss)
  let ?h = "h\<lparr>cells := cells h |` (- set xs)\<rparr>"
  have "pbuf_free (Some (sp s)) h = Some (length xs, ?h)"
    using 4(2,4) pbuf_free_chain [of 0 h "Some (sp s)" xs "[]"] by (simp add: seg_ok_def freed_all)
  moreover have "tcp_segs_free ss ?h = Some (?h\<lparr>cells := cells ?h |` (- set (concat xss))\<rparr>)"
  proof (rule 4(1))
    have "list_all2 (seg_ok (cells ?h)) ss xss = list_all2 (seg_ok (cells h)) ss xss"
      by (rule segs_frame) (use 4(3) in \<open>auto simp: restrict_map_def\<close>)
    then show "list_all2 (seg_ok (cells ?h)) ss xss" using 4(2) by simp
  qed (use 4 in auto)
  ultimately show ?case by (simp add: tcp_seg_free_def Compl_Un)
qed (simp_all add: restrict_map_def)

section \<open>New buffers\<close>

text \<open>\<open>fresh m m' p b\<close>: \<open>m'\<close> is \<open>m\<close> with the new buffer \<open>b\<close>, of one reference and alone, at \<open>p\<close>.\<close>

definition fresh_buf :: "(nat \<Rightarrow> pbuf option) \<Rightarrow> (nat \<Rightarrow> pbuf option) \<Rightarrow> nat \<Rightarrow> pbuf \<Rightarrow> bool" where
  "fresh_buf m m' p b \<longleftrightarrow> m p = None \<and> m' = m(p \<mapsto> b) \<and> nxt b = None \<and> ref b = 1 \<and> \<not> custom b \<and> tot_len b = len b \<and>
     len b < 65536"

lemma malloc_cases:
  assumes "heap_ok h"
  obtains (denied) h1 where "malloc h = (None, h1)" "cells h1 = cells h" "heap_ok h1"
  | (granted) h1 where "malloc h = (Some (brk h), h1)" "cells h1 = cells h" "heap_ok h1" "cells h (brk h) = None" "brk h1 = Suc (brk h)"
      "garbage h1 = garbage h"
  using assms by (cases "grants h"; cases "hd (grants h)") (auto simp: malloc_def heap_ok_def)

lemma heap_ok_put: "\<lbrakk>heap_ok h; a < brk h\<rbrakk> \<Longrightarrow> heap_ok (put a b h)"
  by (simp add: heap_ok_def)

lemma pbuf_alloc_one:
  assumes "heap_ok h" "n < 65536" "type \<noteq> PBUF_POOL" "type = PBUF_RAM \<longrightarrow> n \<le> TCP_MSS"
  obtains (denied) h1 where "pbuf_alloc l n type h = Some (None, h1)" "cells h1 = cells h" "heap_ok h1"
  | (granted) p h1 b where "pbuf_alloc l n type h = Some (Some p, h1)" "heap_ok h1" "fresh_buf (cells h) (cells h1) p b" "p < brk h1"
      "len b = n" "ptype b = type" "type = PBUF_RAM \<longrightarrow> pay b = mem_align (layer_offset l) \<and> pay b + n \<le> length (mem b)"
proof (cases "type = PBUF_RAM")
  case True
  then have "ram_fits l n" using assms(4) by (intro ram_fits_less) (simp add: TCP_MSS_def)
  from assms(1,2) this show ?thesis
  proof (cases rule: pbuf_alloc_ram)
    case (denied h1)
    then show ?thesis using that(1) True by simp
  next
    case (granted h1 b)
    then show ?thesis using True assms(2) by (intro that(2) [of "brk h" h1 b]) (simp_all add: fresh_buf_def)
  qed
next
  case False
  from assms(1) show ?thesis
  proof (cases rule: malloc_cases)
    case (denied h1)
    then show ?thesis using assms(3) False by (intro that(1) [of h1]; cases type) (simp_all add: pbuf_alloc_def Let_def)
  next
    case (granted h1)
    let ?b = "\<lparr>nxt = None, mem = [], pay = 0, tot_len = n, len = n, ptype = type, ref = 1, custom = False\<rparr>"
    have "pbuf_alloc l n type h = Some (Some (brk h), put (brk h) ?b h1)"
      using granted assms(3) False by (cases type) (simp_all add: pbuf_alloc_def Let_def)
    then show ?thesis
      using granted assms(2) False by (intro that(2) [of "brk h" "put (brk h) ?b h1" ?b]) (auto simp: fresh_buf_def heap_ok_put)
  qed
qed

lemma prealloc_cases:
  assumes "heap_ok h" "mx \<le> TCP_MSS" "n \<le> mx"
  obtains (denied) h1 where "tcp_pbuf_prealloc l n mx pcb fl first h = Some (None, h1)" "cells h1 = cells h" "heap_ok h1"
  | (granted) p ov h1 b where "tcp_pbuf_prealloc l n mx pcb fl first h = Some (Some (p, ov), h1)" "heap_ok h1"
      "fresh_buf (cells h) (cells h1) p b" "p < brk h1" "len b = n" "ptype b = PBUF_RAM" "pay b = mem_align (layer_offset l)"
      "pay b + n + ov \<le> length (mem b)" "n + ov \<le> mx"
proof -
  define alloc where "alloc = (if n < mx \<and>
            (fl AND TCP_WRITE_FLAG_MORE \<noteq> 0 \<or>
             (flags pcb AND TF_NODELAY = 0 \<and> (\<not> first \<or> unsent pcb \<noteq> [] \<or> unacked pcb \<noteq> [])))
         then min mx (mem_align (n + TCP_MSS)) else n)"
  have a: "n \<le> alloc" "alloc \<le> mx" "alloc < 65536"
    using assms(2,3) TCP_MSS_def mem_align_ge [of "n + TCP_MSS"] by (auto simp: alloc_def)
  note d = tcp_pbuf_prealloc_def [of l n mx pcb fl first h, folded alloc_def, unfolded Let_def]
  have "PBUF_RAM \<noteq> PBUF_POOL" "PBUF_RAM = PBUF_RAM \<longrightarrow> alloc \<le> TCP_MSS" using a(2) assms(2) by simp_all
  from assms(1) a(3) this show ?thesis
  proof (cases rule: pbuf_alloc_one [where l = l])
    case (denied h1)
    then show ?thesis by (intro that(1) [of h1]) (simp_all add: d)
  next
    case (granted p h1 b)
    let ?b = "b\<lparr>len := n, tot_len := n\<rparr>"
    have "u16 (int alloc - int n) = alloc - n" using a by (simp add: u16_diff)
    then have "tcp_pbuf_prealloc l n mx pcb fl first h = Some (Some (p, alloc - n), put p ?b h1)"
      using granted by (simp add: d fresh_buf_def)
    moreover have "heap_ok (put p ?b h1)" using granted by (intro heap_ok_put) simp_all
    moreover have "fresh_buf (cells h) (cells (put p ?b h1)) p ?b"
      using granted(3) assms(2,3) by (simp add: fresh_buf_def TCP_MSS_def)
    ultimately show ?thesis
      using granted a by (intro that(2) [of p "alloc - n" "put p ?b h1" ?b]) simp_all
  qed
qed


definition fresh_packet :: "(nat \<Rightarrow> pbuf option) \<Rightarrow> (nat \<Rightarrow> pbuf option) \<Rightarrow> nat \<Rightarrow> nat list \<Rightarrow> byte list \<Rightarrow> bool" where
  "fresh_packet m m' p xs bs \<longleftrightarrow> (\<forall>c\<in>set xs. m c = None) \<and> (\<forall>c. c \<notin> set xs \<longrightarrow> m' c = m c) \<and>
     packet m' (Some p) xs \<and> (\<forall>c\<in>set xs. sole m' c) \<and> content m' xs = bs"

lemma fresh_packet_free:
  assumes "fresh_packet m (cells h) p xs bs" "length xs < 256"
  shows "pbuf_free (Some p) h = Some (length xs, h\<lparr>cells := m\<rparr>)"
proof -
  have "cells h |` (- set xs) = m" using assms(1) by (auto simp: fresh_packet_def restrict_map_def fun_eq_iff)
  then show ?thesis using pbuf_free_chain [of 0 h "Some p" xs "[]"] assms by (simp add: fresh_packet_def freed_all)
qed

lemma heap_ok_cells: "\<lbrakk>heap_ok h; \<forall>c. m c \<noteq> None \<longrightarrow> cells h c \<noteq> None\<rbrakk> \<Longrightarrow> heap_ok (h\<lparr>cells := m\<rparr>)"
  by (auto simp: heap_ok_def)

lemma heap_ok_free:
  assumes "fresh_packet m (cells h) p xs bs" "heap_ok h"
  shows "heap_ok (h\<lparr>cells := m\<rparr>)"
  using assms(2) by (rule heap_ok_cells) (use assms(1) in \<open>auto simp: fresh_packet_def\<close>, metis option.distinct(1))

lemma write_copy_fresh:
  assumes "fresh_buf m (cells h) p b" "len b = length xs" "pay b + len b \<le> length (mem b)"
  shows "write_copy p xs h = Some (put p (poke 0 xs b) h) \<and> fresh_packet m (cells (put p (poke 0 xs b) h)) p [p] xs"
proof -
  have b: "bytes (poke 0 xs b) = xs" "length (mem (poke 0 xs b)) = length (mem b)" using poke_bytes [of b xs] assms by (simp_all add: bytes_def)
  have "memcpy_at 0 xs b = Some (poke 0 xs b)" using assms by (simp add: memcpy_at_def)
  moreover have "custom (poke 0 xs b) = custom b" by (simp add: poke_def)
  ultimately show ?thesis using assms b poke_bytes(3-) [of b xs]
    by (auto simp: write_copy_def fresh_buf_def fresh_packet_def packet_Cons sole_def)
qed

lemma rom_refer_fresh:
  assumes "fresh_buf m (cells h) p b" "len b = length xs"
  shows "rom_refer p xs h = Some (put p (b\<lparr>mem := xs, pay := 0\<rparr>) h) \<and>
    fresh_packet m (cells (put p (b\<lparr>mem := xs, pay := 0\<rparr>) h)) p [p] xs"
  using assms by (auto simp: rom_refer_def fresh_buf_def fresh_packet_def packet_Cons sole_def bytes_def)

lemma write_concat_cases:
  assumes "heap_ok h" "length xs \<le> space" "space \<le> TCP_MSS"
  obtains (denied) h1 where "write_concat pcb xs fl space 0 h = Some (None, h1)" "cells h1 = cells h" "heap_ok h1"
  | (granted) p ov h1 where "write_concat pcb xs fl space 0 h = Some (Some (p, ov), h1)" "heap_ok h1"
      "fresh_packet (cells h) (cells h1) p [p] xs" "tail_room (cells h1) [p] ov" "length xs + ov \<le> space"
proof (cases "fl AND TCP_WRITE_FLAG_COPY = 0")
  case True
  have "length xs < 65536" "PBUF_ROM \<noteq> PBUF_POOL" "PBUF_ROM = PBUF_RAM \<longrightarrow> length xs \<le> TCP_MSS" using assms by (simp_all add: TCP_MSS_def)
  with assms(1) show ?thesis
  proof (cases rule: pbuf_alloc_one [where l = PBUF_RAW])
    case (denied h1)
    then show ?thesis using that(1) True by (simp add: write_concat_def)
  next
    case (granted p h1 b)
    note r = rom_refer_fresh [OF granted(3,5)]
    show ?thesis
      by (rule that(2) [of p 0 "put p (b\<lparr>mem := xs, pay := 0\<rparr>) h1"])
        (use r granted True assms heap_ok_put in \<open>simp_all add: write_concat_def tail_room_def del: cells_put\<close>)
  qed
next
  case False
  from assms(1,3,2) show ?thesis
  proof (cases rule: prealloc_cases [where l = PBUF_RAW and pcb = pcb and fl = fl and first = True])
    case (denied h1)
    then show ?thesis using that(1) False by (simp add: write_concat_def)
  next
    case (granted p ov h1 b)
    have "pay b + len b \<le> length (mem b)" using granted by simp
    note r = write_copy_fresh [OF granted(3,5) this]
    have "tail_room (cells (put p (poke 0 xs b) h1)) [p] ov"
      using granted poke_bytes [of b xs] by (simp add: tail_room_def)
    then show ?thesis
      by (intro that(2) [of p ov "put p (poke 0 xs b) h1"])
        (use r granted False assms heap_ok_put in \<open>simp_all add: write_concat_def del: cells_put\<close>)
  qed
qed

text \<open>What \<open>pbuf_cat\<close> leaves of a buffer.\<close>

definition kind :: "pbuf \<Rightarrow> bool \<times> pbuf_type \<times> nat \<times> byte list \<times> nat" where
  "kind b = (custom b, ptype b, pay b, mem b, len b)"

lemma pbuf_cat_loop_kind:
  assumes "pbuf_cat_loop h a t = Some h'"
  shows "map_option kind (cells h' c) = map_option kind (cells h c)"
proof (rule pbuf_cat_loop.raw_induct [where P = "\<lambda>h a t h'. map_option kind (cells h' c) = map_option kind (cells h c)", OF _ assms])
  fix f h a t h'
  assume IH: "\<And>h a t h'. f h a t = Some h' \<Longrightarrow> map_option kind (cells h' c) = map_option kind (cells h c)"
    and run: "(case cells h a of
        None \<Rightarrow> None
      | Some b \<Rightarrow>
          (case cells h t of
             None \<Rightarrow> None
           | Some tb \<Rightarrow>
               (let b' = b\<lparr>tot_len := u16 (int (tot_len b) + int (tot_len tb))\<rparr> in
                case nxt b of
                  None \<Rightarrow> Some (put a (b'\<lparr>nxt := Some t\<rparr>) h)
                | Some c \<Rightarrow> f (put a b' h) c t))) = Some h'"
  from run obtain b tb where b: "cells h a = Some b" "cells h t = Some tb" by (auto split: option.splits)
  let ?b = "b\<lparr>tot_len := u16 (int (tot_len b) + int (tot_len tb))\<rparr>"
  have put: "kind b' = kind b \<Longrightarrow> map_option kind (cells (put a b' h) c) = map_option kind (cells h c)" for b' using b by simp
  show "map_option kind (cells h' c) = map_option kind (cells h c)"
  proof (cases "nxt b")
    case None
    then have "h' = put a (?b\<lparr>nxt := Some t\<rparr>) h" using run b by (simp add: Let_def)
    then show ?thesis using put by (simp add: kind_def)
  next
    case (Some d)
    then have "f (put a ?b h) d t = Some h'" using run b by (simp add: Let_def)
    from IH [OF this] show ?thesis using put [of ?b] by (simp add: kind_def)
  qed
qed

lemma pbuf_clen_chain:
  assumes "pchain k (cells h) p xs" "length xs < 256"
  shows "pbuf_clen p h = Some (length xs)"
proof -
  have "pchain k (cells h) p xs \<Longrightarrow> n + length xs < 256 \<Longrightarrow> pbuf_clen_loop h p n = Some (n + length xs)" for p n
    by (induction xs arbitrary: p n) (auto simp: packet_Cons pbuf_clen_loop.simps)
  from this [of p 0] assms show ?thesis by (simp add: pbuf_clen_def)
qed

text \<open>The packet of a new segment: its first buffer has room for the header.\<close>

lemma write_packet_cases:
  assumes "heap_ok h" "length xs \<le> mx" "mx \<le> TCP_MSS"
  obtains (denied) h1 where "write_packet pcb xs fl mx 0 first h = Some (None, h1)" "cells h1 = cells h" "heap_ok h1"
  | (granted) p ov h1 ps b where "write_packet pcb xs fl mx 0 first h = Some (Some (p, ov), h1)" "heap_ok h1"
      "fresh_packet (cells h) (cells h1) p ps xs" "tail_room (cells h1) ps ov" "length xs + ov \<le> mx" "length ps \<le> 2"
      "cells h1 p = Some b" "ptype b = PBUF_RAM" "20 \<le> pay b"
proof (cases "fl AND TCP_WRITE_FLAG_COPY = 0")
  case False
  from assms(1,3,2) show ?thesis
  proof (cases rule: prealloc_cases [where l = PBUF_TRANSPORT and pcb = pcb and fl = fl and first = first])
    case (denied h1)
    then show ?thesis using that(1) False by (simp add: write_packet_def)
  next
    case (granted p ov h1 b)
    have "pay b + len b \<le> length (mem b)" using granted by simp
    note r = write_copy_fresh [OF granted(3,5) this]
    have "tail_room (cells (put p (poke 0 xs b) h1)) [p] ov"
      using granted poke_bytes [of b xs] by (simp add: tail_room_def)
    moreover have "ptype (poke 0 xs b) = PBUF_RAM" "20 \<le> pay (poke 0 xs b)"
      using granted(6,7) by (simp_all add: poke_def mem_align_def layer_offset_def)
    ultimately show ?thesis
      by (intro that(2) [of p ov "put p (poke 0 xs b) h1" "[p]" "poke 0 xs b"])
        (use r granted False assms heap_ok_put in \<open>simp_all add: write_packet_def del: cells_put\<close>, simp)
  qed
next
  case True
  have "length xs < 65536" "PBUF_ROM \<noteq> PBUF_POOL" "PBUF_ROM = PBUF_RAM \<longrightarrow> length xs \<le> TCP_MSS" using assms by (simp_all add: TCP_MSS_def)
  with assms(1) show ?thesis
  proof (cases rule: pbuf_alloc_one [where l = PBUF_TRANSPORT])
    case (denied h1)
    then show ?thesis using that(1) True by (simp add: write_packet_def)
  next
    case (granted p2 h1 b2)
    let ?b2 = "b2\<lparr>mem := xs, pay := 0\<rparr>" and ?h2 = "put p2 (b2\<lparr>mem := xs, pay := 0\<rparr>) h1"
    note r = rom_refer_fresh [OF granted(3,5)]
    have h2: "heap_ok ?h2" using granted by (intro heap_ok_put)
    have "(0::nat) < 65536" "PBUF_RAM \<noteq> PBUF_POOL" "PBUF_RAM = PBUF_RAM \<longrightarrow> 0 \<le> TCP_MSS" by simp_all
    with h2 show ?thesis
    proof (cases rule: pbuf_alloc_one [where l = PBUF_TRANSPORT])
      case (denied h3)
      note f = fresh_packet_free [of "cells h" h3 p2 "[p2]" xs]
      have "write_packet pcb xs fl mx 0 first h = Some (None, h3\<lparr>cells := cells h\<rparr>)"
        using f r denied granted True by (simp add: write_packet_def)
      moreover have "heap_ok (h3\<lparr>cells := cells h\<rparr>)" using r denied by (intro heap_ok_free [where bs = xs and p = p2 and xs = "[p2]"]) simp_all
      ultimately show ?thesis using that(1) by simp
    next
      case (granted p h3 b)
      have p: "p \<noteq> p2" using r granted(3) by (auto simp: fresh_buf_def)
      have c3: "cells h3 = (cells h)(p2 \<mapsto> ?b2, p \<mapsto> b)" "cells h p = None" "cells h p2 = None"
        using granted(3) \<open>fresh_buf (cells h) (cells h1) p2 b2\<close> p by (auto simp: fresh_buf_def fun_upd_twist)
      let ?b = "b\<lparr>tot_len := length xs, nxt := Some p2\<rparr>" and ?h4 = "put p (b\<lparr>tot_len := length xs, nxt := Some p2\<rparr>) h3"
      have b2: "nxt b2 = None" "ref b2 = 1" "\<not> custom b2" "tot_len b2 = length xs" "len b2 = length xs"
        using \<open>fresh_buf (cells h) (cells h1) p2 b2\<close> \<open>len b2 = length xs\<close> by (simp_all add: fresh_buf_def)
      have b: "nxt b = None" "ref b = 1" "\<not> custom b" "tot_len b = 0" "len b = 0"
        using granted(3,5) by (simp_all add: fresh_buf_def)
      have "pbuf_cat (Some p) (Some p2) h3 = Some ?h4"
        using c3 p b b2 assms by (simp add: pbuf_cat_def pbuf_cat_loop.simps Let_def TCP_MSS_def)
      then have "write_packet pcb xs fl mx 0 first h = Some (Some (p, 0), ?h4)"
        using r granted \<open>pbuf_alloc _ _ PBUF_ROM h = _\<close> True by (simp add: write_packet_def)
      moreover have "fresh_packet (cells h) (cells ?h4) p [p, p2] xs"
        using c3 p b b2 assms granted(7) by (auto simp: fresh_packet_def packet_Cons sole_def bytes_def TCP_MSS_def)
      moreover have "heap_ok ?h4" using granted by (intro heap_ok_put)
      ultimately show ?thesis
        using granted assms
        by (intro that(2) [of p 0 ?h4 "[p, p2]" ?b]) (simp_all add: tail_room_def mem_align_def layer_offset_def)
    qed
  qed
qed


lemma pbuf_header_reveal:
  assumes "packet (cells h) (Some a) xs" "cells h a = Some b" "ptype b = PBUF_RAM" "0 < n" "n \<le> pay b" "sumlen (cells h) xs + n < 65536"
  shows "\<exists>b'. pbuf_header a (int n) h = Some (False, put a b' h) \<and> packet (cells (put a b' h)) (Some a) xs \<and>
    drop n (content (cells (put a b' h)) xs) = content (cells h) xs \<and> sumlen (cells (put a b' h)) xs = sumlen (cells h) xs + n \<and>
    ref b' = ref b \<and> custom b' = custom b \<and> mem b' = mem b \<and> pay b' + len b' = pay b + len b"
proof -
  obtain as where xs: "xs = a # as" and b: "tot_len b = len b + sumlen (cells h) as" "pay b + len b \<le> length (mem b)"
    "packet (cells h) (nxt b) as" using assms(1,2) by (cases xs) (auto simp: packet_Cons)
  have d: "a \<notin> set as" using packet_distinct [OF assms(1)] xs by simp
  define b' where "b' = b\<lparr>pay := pay b - n, len := len b + n, tot_len := tot_len b + n\<rparr>"
  have u: "u16 (int (len b) + int n) = len b + n" "u16 (int (tot_len b) + int n) = tot_len b + n"
    using assms(2,6) b(1) xs by (simp_all flip: of_nat_add)
  have "pbuf_header a (int n) h = Some (False, put a b' h)"
    using assms u by (auto simp: pbuf_header_def Let_def b'_def nat_diff_distrib)
  moreover have "packet (cells (put a b' h)) (Some a) xs"
    using assms b d xs by (simp add: packet_Cons b'_def)
  moreover have "drop n (bytes b') = bytes b" using assms(5) by (simp add: b'_def bytes_def drop_take add.commute)
  moreover have "n \<le> length (bytes b')" using assms(5) b(2) by (simp add: b'_def bytes_def)
  ultimately show ?thesis using assms(2,5) d xs by (intro exI [of _ b']) (simp add: b'_def)
qed

text \<open>A new segment on a fresh packet; on failure the packet is gone.\<close>

lemma create_segment_cases:
  assumes "heap_ok h" "fresh_packet m (cells h) p ps xs" "cells h p = Some b" "ptype b = PBUF_RAM" "20 \<le> pay b"
    "length xs \<le> TCP_MSS" "length ps \<le> 2" "tail_room (cells h) ps ov"
  obtains (denied) h1 where "tcp_create_segment pcb p fl sq 0 h = Some (None, h1)" "cells h1 = m" "heap_ok h1"
  | (granted) seg h1 where "tcp_create_segment pcb p fl sq 0 h = Some (Some seg, h1)" "heap_ok h1"
      "\<forall>c. c \<notin> set ps \<longrightarrow> cells h1 c = m c" "seg_ok (cells h1) seg ps" "seg_data (cells h1) seg ps = xs"
      "slen seg = length xs" "sflags seg = 0" "tail_room (cells h1) ps ov" "seqno (tcphdr seg) = sq" "hflags (tcphdr seg) = fl"
  using assms(1)
proof (cases rule: malloc_cases)
  case (denied h1)
  have f: "fresh_packet m (cells h1) p ps xs" using assms(2) denied by simp
  then have "tcp_create_segment pcb p fl sq 0 h = Some (None, h1\<lparr>cells := m\<rparr>)"
    using denied fresh_packet_free [OF f] assms(7) by (simp add: tcp_create_segment_def Let_def)
  then show ?thesis using that(1) heap_ok_free [OF f] denied by simp
next
  case (granted h1)
  have f: "packet (cells h1) (Some p) ps" "\<forall>c\<in>set ps. sole (cells h1) c" "content (cells h1) ps = xs"
    "\<forall>c. c \<notin> set ps \<longrightarrow> cells h1 c = m c" using assms(2) granted by (simp_all add: fresh_packet_def)
  have len: "sumlen (cells h1) ps = length xs" using content_length [OF f(1)] f(3) by simp
  have b1: "cells h1 p = Some b" using assms(3) granted by simp
  have tl: "tot_len b = length xs" using packet_tot_len [OF f(1)] len b1 by auto
  obtain b' where b': "pbuf_header p (int TCP_HLEN) h1 = Some (False, put p b' h1)" "packet (cells (put p b' h1)) (Some p) ps"
      "drop TCP_HLEN (content (cells (put p b' h1)) ps) = xs" "sumlen (cells (put p b' h1)) ps = length xs + TCP_HLEN"
      "ref b' = ref b" "custom b' = custom b" "mem b' = mem b" "pay b' + len b' = pay b + len b"
    using pbuf_header_reveal [OF f(1) b1 assms(4), of TCP_HLEN] assms(5,6) len f(3) by (auto simp: TCP_MSS_def)
  define seg where "seg = \<lparr>sp = p, slen = length xs, sflags = 0,
     tcphdr = \<lparr>src = local_port pcb, dest = remote_port pcb, seqno = sq, ackno = 0, hdrlen = 5, hflags = fl, wnd = 0\<rparr>\<rparr>"
  have "tcp_create_segment pcb p fl sq 0 h = Some (Some seg, put p b' h1)"
    using granted b1 b'(1) tl assms(6) by (simp add: tcp_create_segment_def Let_def seg_def LWIP_TCP_OPT_LENGTH_def TCP_MSS_def)
  moreover have "heap_ok (put p b' h1)"
    using granted b1 by (intro heap_ok_put) (auto simp: heap_ok_def not_less [symmetric])
  moreover have p: "p \<in> set ps" using f(1) by (cases ps) (auto simp: packet_Cons)
  moreover have "\<forall>c\<in>set ps. sole (cells (put p b' h1)) c" using f(2) b1 b'(5,6) p by (auto simp: sole_def)
  moreover have "tail_room (cells (put p b' h1)) ps ov"
    using assms(8) b1 b'(7,8) granted(2) by (auto simp: tail_room_def)
  ultimately show ?thesis
    using b'(2-4) f(4) by (intro that(2) [of seg "put p b' h1"])
      (auto simp: seg_def seg_ok_def seg_data_def LWIP_TCP_OPT_LENGTH_def)
qed

lemma write_seg_cases:
  assumes "heap_ok h" "pos < length data" "mx \<le> TCP_MSS" "ql \<le> TCP_SND_QUEUELEN"
  obtains (denied) h1 where "write_seg pcb data fl mx pos ql 0 first h = Some (None, h1)" "cells h1 = cells h" "heap_ok h1"
  | (granted) seg n ps ov h1 where "write_seg pcb data fl mx pos ql 0 first h = Some (Some (seg, n, ql + length ps, ov), h1)"
      "heap_ok h1" "n = min mx (length data - pos)" "\<forall>c\<in>set ps. cells h c = None" "\<forall>c. c \<notin> set ps \<longrightarrow> cells h1 c = cells h c"
      "seg_ok (cells h1) seg ps" "seg_data (cells h1) seg ps = take n (drop pos data)" "slen seg = n" "sflags seg = 0"
      "tail_room (cells h1) ps ov" "n + ov \<le> mx" "0 < length ps" "length ps \<le> 2" "ql + length ps \<le> TCP_SND_QUEUELEN"
proof -
  define n where "n = min mx (length data - pos)"
  define xs where "xs = take n (drop pos data)"
  have lxs: "length xs = n" "n \<le> mx" by (simp_all add: xs_def n_def)
  have nn: "(if mx < length data - pos then mx else length data - pos) = n" by (simp add: n_def)
  note d = write_seg_def [of pcb data fl mx pos ql 0 first h, unfolded Let_def nn, folded xs_def]
  have "length xs \<le> mx" using lxs by simp
  from assms(1) this assms(3) show ?thesis
  proof (cases rule: write_packet_cases [where pcb = pcb and fl = fl and first = first])
    case (denied h1)
    then show ?thesis using that(1) by (simp add: d)
  next
    case (granted p ov h1 ps b)
    note wp = granted
    have pk: "packet (cells h1) (Some p) ps" using granted(3) by (simp add: fresh_packet_def)
    have ps0: "0 < length ps" using pk by (cases ps) auto
    have cl: "pbuf_clen (Some p) h1 = Some (length ps)" using pbuf_clen_chain [OF pk] granted(6) by simp
    have q: "u16 (int ql + int (length ps)) = ql + length ps"
      using assms(4) granted(6) by (simp flip: of_nat_add add: TCP_SND_QUEUELEN_def)
    show ?thesis
    proof (cases "ql + length ps > TCP_SND_QUEUELEN")
      case True
      have "write_seg pcb data fl mx pos ql 0 first h = Some (None, h1\<lparr>cells := cells h\<rparr>)"
        using granted cl q True fresh_packet_free [OF granted(3)] by (simp add: d)
      then show ?thesis using that(1) heap_ok_free [OF granted(3,2)] by simp
    next
      case False
      have "length xs \<le> TCP_MSS" using lxs assms(3) by simp
      from wp(2,3,7,8,9) this wp(6) wp(4) show ?thesis
      proof (cases rule: create_segment_cases [where pcb = pcb and fl = 0 and sq = "snd_lbb pcb + of_nat pos"])
        case (denied h2)
        then show ?thesis using that(1) wp cl q False by (simp add: d TCP_SND_QUEUELEN_def TCP_SNDQUEUELEN_OVERFLOW_def)
      next
        case (granted seg h2)
        show ?thesis
        proof (rule that(2) [of seg n ps ov h2])
          show "write_seg pcb data fl mx pos ql 0 first h = Some (Some (seg, n, ql + length ps, ov), h2)"
            using granted wp cl q False by (simp add: d TCP_SND_QUEUELEN_def TCP_SNDQUEUELEN_OVERFLOW_def)
          show "\<forall>c\<in>set ps. cells h c = None" using wp(3) by (simp add: fresh_packet_def)
        qed (use granted wp lxs ps0 False n_def in \<open>simp_all add: xs_def\<close>)
      qed
    qed
  qed
qed


text \<open>
  The invariant of the loop of phase 3 that started on the heap \<open>m\<close> at position \<open>i\<close> with \<open>q\<close>
  buffers queued: the new segments hold the data up to \<open>pos\<close> in buffers that \<open>m\<close> does not have.
\<close>

definition loop_inv ::
    "(nat \<Rightarrow> pbuf option) \<Rightarrow> byte list \<Rightarrow> nat \<Rightarrow> nat \<Rightarrow> nat \<Rightarrow> pheap \<Rightarrow> nat \<Rightarrow> nat \<Rightarrow> tcp_seg list \<Rightarrow> nat list list \<Rightarrow> bool" where
  "loop_inv m data mx i q h pos ql ss yss \<longleftrightarrow> heap_ok h \<and> list_all2 (seg_ok (cells h)) ss yss \<and> distinct (concat yss) \<and>
     (\<forall>c\<in>set (concat yss). m c = None) \<and> (\<forall>c. c \<notin> set (concat yss) \<longrightarrow> cells h c = m c) \<and>
     stream (cells h) ss yss @ drop pos data = drop i data \<and> (\<forall>ys\<in>set yss. length ys < 256) \<and> (\<forall>s\<in>set ss. sflags s = 0 \<and> slen s \<le> mx) \<and>
     i \<le> pos \<and> pos \<le> length data \<and> ql = q + length (concat yss) \<and> ql \<le> TCP_SND_QUEUELEN"

lemma loop_inv_step:
  assumes "loop_inv m data mx i q h pos ql ss yss"
    "heap_ok h1" "n = min mx (length data - pos)" "\<forall>c\<in>set ps. cells h c = None" "\<forall>c. c \<notin> set ps \<longrightarrow> cells h1 c = cells h c"
    "seg_ok (cells h1) seg ps" "seg_data (cells h1) seg ps = take n (drop pos data)" "slen seg = n" "sflags seg = 0" "length ps \<le> 2"
    "ql + length ps \<le> TCP_SND_QUEUELEN"
  shows "loop_inv m data mx i q h1 (pos + n) (ql + length ps) (ss @ [seg]) (yss @ [ps])"
proof -
  note inv = assms(1) [unfolded loop_inv_def]
  have yss: "c \<in> set (concat yss) \<Longrightarrow> \<exists>b. cells h c = Some b" for c
    using inv packet_cells unfolding list_all2_conv_all_nth seg_ok_def by (fastforce simp: in_set_conv_nth)
  then have dj: "set (concat yss) \<inter> set ps = {}" using assms(4) by fastforce
  then have same: "\<And>c. c \<in> set (concat yss) \<Longrightarrow> cells h1 c = cells h c" using assms(5) by blast
  have "distinct ps" using assms(6) packet_distinct unfolding seg_ok_def by blast
  moreover have "list_all2 (seg_ok (cells h1)) ss yss" using inv segs_frame(1) [OF same] by simp
  moreover have "stream (cells h1) ss yss = stream (cells h) ss yss" by (rule segs_frame(2) [OF same])
  moreover have "length ss = length yss" using inv by (auto dest: list_all2_lengthD)
  moreover have "take n (drop pos data) @ drop (pos + n) data = drop pos data"
    by (metis add.commute append_take_drop_id drop_drop)
  moreover have "\<forall>c\<in>set ps. m c = None" using inv assms(4) dj by (metis disjoint_iff)
  ultimately show ?thesis
    using inv assms dj by (auto simp: loop_inv_def stream_append intro!: list_all2_appendI)
qed

lemma write_loop_ok:
  assumes "loop_inv m data mx i q h pos ql ss yss" "mx \<le> TCP_MSS" "pos < length data \<longrightarrow> ov = 0"
    "ss \<noteq> [] \<longrightarrow> tail_room (cells h) (last yss) ov \<and> slen (last ss) + ov \<le> mx"
  shows "\<exists>ok pos' ql' ov' ss' h' yss'. write_loop pcb data fl mx pos ql ov ss h = Some (ok, ql', ov', ss', h') \<and>
    loop_inv m data mx i q h' pos' ql' ss' yss' \<and> (ok \<longrightarrow> pos' = length data) \<and>
    (if ss' = [] then ss = [] \<and> ov' = ov \<and> pos' = pos else tail_room (cells h') (last yss') ov' \<and> slen (last ss') + ov' \<le> mx)"
  using assms
proof (induction "TCP_SND_QUEUELEN - ql" arbitrary: h pos ql ss yss ov rule: less_induct)
  case less
  note inv = less.prems(1) [unfolded loop_inv_def]
  show ?case
  proof (cases "pos < length data")
    case False
    then have "pos = length data" using inv by simp
    moreover have "write_loop pcb data fl mx pos ql ov ss h = Some (True, ql, ov, ss, h)"
      using False by (subst write_loop.simps) simp
    ultimately show ?thesis using less.prems by fastforce
  next
    case True
    then have ov: "ov = 0" using less.prems(3) by simp
    have "heap_ok h" "ql \<le> TCP_SND_QUEUELEN" using inv by simp_all
    from this(1) True less.prems(2) this(2) show ?thesis
    proof (cases rule: write_seg_cases [where pcb = pcb and fl = fl and first = "ss = []"])
      case (denied h1)
      then have "write_loop pcb data fl mx pos ql ov ss h = Some (False, ql, ov, ss, h1)"
        using True ov by (subst write_loop.simps) simp
      moreover have "loop_inv m data mx i q h1 pos ql ss yss" using inv denied by (simp add: loop_inv_def)
      ultimately show ?thesis using less.prems(4) denied by (metis (no_types, lifting))
    next
      case (granted seg n ps ov1 h1)
      have step: "write_loop pcb data fl mx pos ql ov ss h = write_loop pcb data fl mx (pos + n) (ql + length ps) ov1 (ss @ [seg]) h1"
        using True ov granted by (subst write_loop.simps) simp
      have "\<exists>ok pos' ql' ov' ss' h' yss'.
        write_loop pcb data fl mx (pos + n) (ql + length ps) ov1 (ss @ [seg]) h1 = Some (ok, ql', ov', ss', h') \<and>
        loop_inv m data mx i q h' pos' ql' ss' yss' \<and> (ok \<longrightarrow> pos' = length data) \<and>
        (if ss' = [] then ss @ [seg] = [] \<and> ov' = ov1 \<and> pos' = pos + n else tail_room (cells h') (last yss') ov' \<and> slen (last ss') + ov' \<le> mx)"
      proof (rule less.hyps)
        show "TCP_SND_QUEUELEN - (ql + length ps) < TCP_SND_QUEUELEN - ql" using granted(12,14) by arith
        show "loop_inv m data mx i q h1 (pos + n) (ql + length ps) (ss @ [seg]) (yss @ [ps])"
          by (rule loop_inv_step [OF less.prems(1) granted(2-9) granted(13,14)])
      qed (use less.prems granted in auto)
      then show ?thesis unfolding step by (fastforce split: if_splits)
    qed
  qed
qed


section \<open>Committing\<close>

lemma bump_loop_chain:
  assumes "packet (cells h) (Some a) xs" "cells h (last xs) = Some z" "pay z + len z + length bs + k \<le> length (mem z)"
    "sumlen (cells h) xs + length bs < 65536"
  shows "\<exists>h'. bump_loop h a bs = Some h' \<and> packet (cells h') (Some a) xs \<and> content (cells h') xs = content (cells h) xs @ bs \<and>
    (\<forall>c. c \<notin> set xs \<longrightarrow> cells h' c = cells h c) \<and> (\<forall>c\<in>set xs. sole (cells h) c \<longrightarrow> sole (cells h') c) \<and>
    tail_room (cells h') xs k \<and> brk h' = brk h"
  using assms
proof (induction xs arbitrary: h a)
  case (Cons x xs)
  obtain b where b: "a = x" "cells h x = Some b" "tot_len b = len b + sumlen (cells h) xs"
    "pay b + len b \<le> length (mem b)" "packet (cells h) (nxt b) xs" using Cons.prems(1) by (auto simp: packet_Cons)
  have d: "x \<notin> set xs" using packet_distinct [OF Cons.prems(1)] by simp
  let ?b = "b\<lparr>tot_len := tot_len b + length bs\<rparr>"
  have u: "u16 (int (tot_len b) + int (length bs)) = tot_len b + length bs" "u16 (int (len b) + int (length bs)) = len b + length bs"
    using Cons.prems(4) b(2,3) by (simp_all flip: of_nat_add)
  show ?case
  proof (cases xs)
    case Nil
    then have z: "z = b" "nxt b = None" using Cons.prems(2) b(2,5) by auto
    let ?b' = "(poke (len b) bs ?b)\<lparr>len := len b + length bs\<rparr>"
    have "bytes ?b' = bytes b @ bs" "length (mem ?b') = length (mem b)"
      using Cons.prems(3) z(1) by (simp_all add: bytes_def poke_def drop_take)
    moreover have "bump_loop h a bs = Some (put x ?b' h)"
      using b z u Cons.prems(3) by (subst bump_loop.simps) (simp add: Let_def memcpy_at_def poke_def)
    ultimately show ?thesis
      using b z Nil Cons.prems(3,4) by (intro exI [of _ "put x ?b' h"])
        (auto simp: packet_Cons sole_def tail_room_def poke_def)
  next
    case (Cons y ys)
    then obtain q where q: "nxt b = Some q" using b(5) by (auto simp: packet_Cons)
    have "\<exists>h'. bump_loop (put x ?b h) q bs = Some h' \<and> packet (cells h') (Some q) xs \<and>
      content (cells h') xs = content (cells (put x ?b h)) xs @ bs \<and>
      (\<forall>c. c \<notin> set xs \<longrightarrow> cells h' c = cells (put x ?b h) c) \<and> (\<forall>c\<in>set xs. sole (cells (put x ?b h)) c \<longrightarrow> sole (cells h') c) \<and>
      tail_room (cells h') xs k \<and> brk h' = brk (put x ?b h)"
    proof (rule Cons.IH)
      have "last xs \<in> set xs" using \<open>xs = y # ys\<close> by simp
      then have "last xs \<noteq> x" using d by blast
      then show "cells (put x ?b h) (last xs) = Some z" using Cons.prems(2) \<open>xs = y # ys\<close> by simp
    qed (use Cons.prems b d q in \<open>simp_all flip: fun_upd_def\<close>)
    then obtain h' where h': "bump_loop (put x ?b h) q bs = Some h'" "packet (cells h') (Some q) xs"
      "content (cells h') xs = content (cells h) xs @ bs" "\<forall>c. c \<notin> set xs \<longrightarrow> cells h' c = cells (put x ?b h) c"
      "\<forall>c\<in>set xs. sole (cells (put x ?b h)) c \<longrightarrow> sole (cells h') c" "tail_room (cells h') xs k" "brk h' = brk h"
      using d by auto
    have "bump_loop h a bs = Some h'"
      using b q u h'(1) by (subst bump_loop.simps) (simp add: Let_def)
    moreover have hx: "cells h' x = Some ?b" using h'(4) d by simp
    moreover have "sumlen (cells h') xs = sumlen (cells h) xs + length bs"
      using content_length [OF h'(2)] h'(3) content_length [OF b(5)] by simp
    moreover have "\<forall>c\<in>set (x # xs). sole (cells h) c \<longrightarrow> sole (cells h') c"
    proof -
      have "sole (cells (put x ?b h)) c = sole (cells h) c" for c using b(2) by (simp add: sole_def)
      then show ?thesis using h'(5) hx b(2) by (auto simp: sole_def)
    qed
    moreover have "xs \<noteq> []" using \<open>xs = y # ys\<close> by simp
    ultimately show ?thesis
      using h'(2-4,6,7) b q d Cons.prems(4)
      by (intro exI [of _ h']) (simp add: packet_Cons bytes_def tail_room_def)
  qed
qed simp

lemma cat_sole:
  assumes "pbuf_cat_loop h a t = Some h'" "\<forall>c. map_option ref (cells h' c) = map_option ref (cells h c)" "sole (cells h) c"
  shows "sole (cells h') c"
  using pbuf_cat_loop_kind [OF assms(1), of c] spec [OF assms(2), of c] assms(3)
  by (auto simp: sole_def kind_def)


lemma seg_ok_data: "seg_ok m s xs \<Longrightarrow> length (content m xs) = TCP_HLEN + LWIP_TCP_OPT_LENGTH (sflags s) + slen s"
  unfolding seg_ok_def using content_length by metis

text \<open>Phase 1 on the last unsent segment.\<close>

lemma extend_used:
  assumes "seg_ok (cells h) s xs" "tail_room (cells h) xs (length used + k)"
    "TCP_HLEN + LWIP_TCP_OPT_LENGTH (sflags s) + slen s + length used < 65536"
  shows "\<exists>h'. (if used \<noteq> [] then bump_loop h (sp s) used else Some h) = Some h' \<and>
    seg_ok (cells h') (s\<lparr>slen := slen s + length used\<rparr>) xs \<and>
    content (cells h') xs = content (cells h) xs @ used \<and>
    (\<forall>c. c \<notin> set xs \<longrightarrow> cells h' c = cells h c) \<and> tail_room (cells h') xs k \<and> brk h' = brk h"
proof (cases "used = []")
  case True
  then show ?thesis using assms by simp
next
  case False
  with assms(2) obtain z where z: "cells h (last xs) = Some z" "pay z + len z + length used + k \<le> length (mem z)"
    by (auto simp: tail_room_def)
  have p: "packet (cells h) (Some (sp s)) xs" "\<forall>c\<in>set xs. sole (cells h) c" using assms(1) by (simp_all add: seg_ok_def)
  have "sumlen (cells h) xs + length used < 65536" using assms(1,3) by (simp add: seg_ok_def)
  from bump_loop_chain [OF p(1) z this] obtain h' where h': "bump_loop h (sp s) used = Some h'" "packet (cells h') (Some (sp s)) xs"
      "content (cells h') xs = content (cells h) xs @ used" "\<forall>c. c \<notin> set xs \<longrightarrow> cells h' c = cells h c"
      "\<forall>c\<in>set xs. sole (cells h) c \<longrightarrow> sole (cells h') c" "tail_room (cells h') xs k" "brk h' = brk h" by blast
  have "sumlen (cells h') xs = sumlen (cells h) xs + length used"
    using content_length [OF h'(2)] content_length [OF p(1)] h'(3) by simp
  then have "seg_ok (cells h') (s\<lparr>slen := slen s + length used\<rparr>) xs" using assms(1) h' p(2) by (simp add: seg_ok_def)
  with h' False show ?thesis by auto
qed

text \<open>Phase 2: the concatenated buffer \<open>c\<close> becomes the tail of the packet.\<close>

lemma extend_cat:
  assumes "seg_ok (cells h) s xs" "packet (cells h) (Some c) [c]" "sole (cells h) c" "c \<notin> set xs"
    "TCP_HLEN + LWIP_TCP_OPT_LENGTH (sflags s) + slen s + length (content (cells h) [c]) < 65536"
  shows "\<exists>h' cb. pbuf_cat (Some (sp s)) (Some c) h = Some h' \<and> cells h' c = Some cb \<and> tot_len cb = length (content (cells h) [c]) \<and>
    seg_ok (cells h') (s\<lparr>slen := slen s + length (content (cells h) [c])\<rparr>) (xs @ [c]) \<and>
    content (cells h') (xs @ [c]) = content (cells h) xs @ content (cells h) [c] \<and>
    (\<forall>d. d \<notin> set xs \<longrightarrow> cells h' d = cells h d) \<and> brk h' = brk h"
proof -
  have p: "packet (cells h) (Some (sp s)) xs" "\<forall>d\<in>set xs. sole (cells h) d" using assms(1) by (simp_all add: seg_ok_def)
  have lc: "sumlen (cells h) [c] = length (content (cells h) [c])" using content_length [OF assms(2)] by simp
  have "set xs \<inter> set [c] = {}" "sumlen (cells h) xs + sumlen (cells h) [c] < 65536"
    using assms(1,4,5) lc by (simp_all add: seg_ok_def del: sumlen.simps)
  from pbuf_cat_loop_chain [OF p(1) assms(2) this] obtain h' where h': "pbuf_cat_loop h (sp s) c = Some h'"
      "packet (cells h') (Some (sp s)) (xs @ [c])" "content (cells h') (xs @ [c]) = content (cells h) xs @ content (cells h) [c]"
      "\<forall>d. d \<notin> set xs \<longrightarrow> cells h' d = cells h d" "\<forall>d. map_option ref (cells h' d) = map_option ref (cells h d)" by blast
  obtain cb where cb: "cells h c = Some cb" "tot_len cb = sumlen (cells h) [c]" using packet_tot_len [OF assms(2)] by blast
  have "sumlen (cells h') (xs @ [c]) = sumlen (cells h) xs + length (content (cells h) [c])"
    using content_length [OF h'(2)] content_length [OF p(1)] h'(3) by (metis length_append)
  moreover have "\<forall>d\<in>set (xs @ [c]). sole (cells h') d" using cat_sole [OF h'(1,5)] p(2) assms(3) by auto
  ultimately have "seg_ok (cells h') (s\<lparr>slen := slen s + length (content (cells h) [c])\<rparr>) (xs @ [c])"
    using assms(1) h'(2) by (simp add: seg_ok_def)
  moreover have "brk h' = brk h"
    using pbuf_cat_loop.raw_induct [of "\<lambda>h a t h'. brk h' = brk h", OF _ h'(1)] by (fastforce simp: Let_def split: option.splits)
  ultimately show ?thesis using h' cb lc assms(4) by (intro exI [of _ h'] exI [of _ cb]) (simp add: pbuf_cat_def)
qed


lemma extend_last_ok:
  assumes "seg_ok (cells h) s xs" "TCP_HLEN + LWIP_TCP_OPT_LENGTH (sflags s) + slen s + length used + length cbs < 65536"
    "case concat_p of
       None \<Rightarrow> cbs = [] \<and> cs = [] \<and> tail_room (cells h) xs (length used + ov)
     | Some c \<Rightarrow> cs = [c] \<and> packet (cells h) (Some c) [c] \<and> sole (cells h) c \<and> content (cells h) [c] = cbs \<and> c \<notin> set xs \<and>
         tail_room (cells h) [c] ov \<and> tail_room (cells h) xs (length used)"
  shows "\<exists>h'. extend_last s used concat_p h = Some (s\<lparr>slen := slen s + length used + length cbs\<rparr>, h') \<and>
    seg_ok (cells h') (s\<lparr>slen := slen s + length used + length cbs\<rparr>) (xs @ cs) \<and>
    seg_data (cells h') s (xs @ cs) = seg_data (cells h) s xs @ used @ cbs \<and>
    (\<forall>d. d \<notin> set xs \<longrightarrow> cells h' d = cells h d) \<and> tail_room (cells h') (xs @ cs) ov \<and> brk h' = brk h"
proof -
  have sd: "seg_data m s zs = seg_data (cells h) s xs @ bs" if "content m zs = content (cells h) xs @ bs" for m zs bs
    using that seg_ok_data [OF assms(1)] by (simp add: seg_data_def)
  define k where "k = (if concat_p = None then ov else 0)"
  have room: "tail_room (cells h) xs (length used + k)" using assms(3) by (auto simp: k_def split: option.splits)
  have "TCP_HLEN + LWIP_TCP_OPT_LENGTH (sflags s) + slen s + length used < 65536" using assms(2) by simp
  from extend_used [OF assms(1) room this] obtain h1 where h1:
    "(if used \<noteq> [] then bump_loop h (sp s) used else Some h) = Some h1" "seg_ok (cells h1) (s\<lparr>slen := slen s + length used\<rparr>) xs"
    "content (cells h1) xs = content (cells h) xs @ used" "\<forall>c. c \<notin> set xs \<longrightarrow> cells h1 c = cells h c"
    "tail_room (cells h1) xs k" "brk h1 = brk h" by blast
  have u: "u16 (int (slen s) + int (length used)) = slen s + length used"
    using assms(2) by (simp flip: of_nat_add)
  show ?thesis
  proof (cases concat_p)
    case None
    then show ?thesis using h1 u sd [of "cells h1" xs used] assms(3) by (auto simp: extend_last_def k_def)
  next
    case (Some c)
    with assms(3) have c: "cs = [c]" "packet (cells h) (Some c) [c]" "sole (cells h) c" "content (cells h) [c] = cbs"
      "c \<notin> set xs" "tail_room (cells h) [c] ov" by simp_all
    have hc: "cells h1 c = cells h c" using h1(4) c(5) by simp
    then have c1: "packet (cells h1) (Some c) [c]" "sole (cells h1) c" "content (cells h1) [c] = cbs"
      using c(2-4) packet_frame [of "[c]" "cells h1" "cells h"] by (simp_all add: sole_def)
    have "TCP_HLEN + LWIP_TCP_OPT_LENGTH (sflags (s\<lparr>slen := slen s + length used\<rparr>)) + slen (s\<lparr>slen := slen s + length used\<rparr>) +
        length (content (cells h1) [c]) < 65536" using assms(2) c1(3) by simp
    from extend_cat [OF h1(2) c1(1,2) c(5) this] obtain h2 cb where h2: "pbuf_cat (Some (sp s)) (Some c) h1 = Some h2"
      "cells h2 c = Some cb" "tot_len cb = length cbs" "seg_ok (cells h2) (s\<lparr>slen := slen s + length used + length cbs\<rparr>) (xs @ [c])"
      "content (cells h2) (xs @ [c]) = content (cells h1) xs @ cbs" "\<forall>d. d \<notin> set xs \<longrightarrow> cells h2 d = cells h1 d" "brk h2 = brk h1"
      using c1(3) by auto
    have "u16 (int (slen s + length used) + int (length cbs)) = slen s + length used + length cbs"
      using assms(2) by (simp flip: of_nat_add)
    then have "extend_last s used concat_p h = Some (s\<lparr>slen := slen s + length used + length cbs\<rparr>, h2)"
      using h1(1) h2(1-3) u Some by (simp add: extend_last_def)
    moreover have "tail_room (cells h2) (xs @ [c]) ov" using c(6) hc h2(2,6) c(5) by (simp add: tail_room_def)
    ultimately show ?thesis
      using h2 h1 c(1) sd [of "cells h2" "xs @ [c]" "used @ cbs"] by auto
  qed
qed

lemma push_last_same [simp]:
  "list_all2 (seg_ok m) (push_last fl ss) xss = list_all2 (seg_ok m) ss xss"
  "length (push_last fl ss) = length ss" "push_last fl ss = [] \<longleftrightarrow> ss = []" "stream m (push_last fl ss) xss = stream m ss xss"
  "ss \<noteq> [] \<Longrightarrow> slen (last (push_last fl ss)) = slen (last ss) \<and> sflags (last (push_last fl ss)) = sflags (last ss)"
proof -
  have h: "seg_ok m (set_hflag f s) = seg_ok m s" "seg_data m (set_hflag f s) = seg_data m s" for f s
    by (auto simp: fun_eq_iff seg_ok_def seg_data_def set_hflag_def)
  have a: "list_all2 (seg_ok m) (ss @ [set_hflag f s]) xss = list_all2 (seg_ok m) (ss @ [s]) xss"
    "stream m (ss @ [set_hflag f s]) xss = stream m (ss @ [s]) xss" for ss s f
  proof (induction ss arbitrary: xss)
    case Nil
    { case 1 then show ?case using h by (cases xss) auto
    next case 2 then show ?case using h by (cases xss) auto }
  next
    case (Cons t ss)
    { case 1 then show ?case using Cons(1) by (cases xss) auto
    next case 2 then show ?case using Cons(2) by (cases xss) auto }
  qed
  show "list_all2 (seg_ok m) (push_last fl ss) xss = list_all2 (seg_ok m) ss xss" "stream m (push_last fl ss) xss = stream m ss xss"
    using a [of "butlast ss" _ "last ss"] by (auto simp: push_last_def)
  show "length (push_last fl ss) = length ss" "push_last fl ss = [] \<longleftrightarrow> ss = []" by (auto simp: push_last_def)
  show "ss \<noteq> [] \<Longrightarrow> slen (last (push_last fl ss)) = slen (last ss) \<and> sflags (last (push_last fl ss)) = sflags (last ss)"
    by (auto simp: push_last_def set_hflag_def)
qed


text \<open>
  Where phase 3 starts: \<open>h1\<close> is the heap after phase 2, \<open>cs\<close> its new buffer (if any) with the
  bytes \<open>cbs\<close>, \<open>used\<close> the bytes of phase 1, \<open>ov\<close> the room left behind them.
\<close>

definition phase3 ::
    "pheap \<Rightarrow> tcp_pcb \<Rightarrow> nat list list \<Rightarrow> byte list \<Rightarrow> byte list \<Rightarrow> nat option \<Rightarrow> nat list \<Rightarrow> byte list \<Rightarrow> nat \<Rightarrow> nat \<Rightarrow> pheap \<Rightarrow> bool" where
  "phase3 h pcb xss data used concat_p cs cbs ov ql h1 \<longleftrightarrow>
     conn_ok h pcb xss \<and> heap_ok h1 \<and> (\<exists>rest. data = used @ cbs @ rest \<and> (rest \<noteq> [] \<longrightarrow> ov = 0)) \<and> length data \<le> snd_buf pcb \<and>
     ql = snd_queuelen pcb + length cs \<and> ql \<le> TCP_SND_QUEUELEN \<and>
     (case concat_p of
        None \<Rightarrow> cs = [] \<and> cbs = [] \<and> cells h1 = cells h
      | Some c \<Rightarrow> cs = [c] \<and> unsent pcb \<noteq> [] \<and> fresh_packet (cells h) (cells h1) c [c] cbs \<and> tail_room (cells h1) [c] ov) \<and>
     (if unsent pcb = [] then used = [] \<and> ov = 0
      else tail_room (cells h) (last xss) (length used + (if concat_p = None then ov else 0)) \<and>
        slen (last (unsent pcb)) + LWIP_TCP_OPT_LENGTH (sflags (last (unsent pcb))) + length used + length cbs + ov \<le> mss_local pcb)"

lemma segs_cells:
  assumes "list_all2 (seg_ok m) ss xss" "c \<in> set (concat xss)"
  shows "\<exists>b. m c = Some b"
  using assms packet_cells unfolding list_all2_conv_all_nth seg_ok_def by (fastforce simp: in_set_conv_nth)

text \<open>What phase 2 has left of the heap.\<close>

lemma phase3_heap:
  assumes "phase3 h pcb xss data used concat_p cs cbs ov ql h1"
  shows "\<forall>c\<in>set cs. cells h c = None \<and> sole (cells h1) c" "\<forall>c. c \<notin> set cs \<longrightarrow> cells h1 c = cells h c"
    "set cs \<inter> set (concat xss) = {}" "loop_inv (cells h1) data (mss_local pcb) (length used + length cbs) ql h1 (length used + length cbs) ql [] []"
    "length cs < 256" "concat_p = (if cs = [] then None else Some (hd cs))" "packet (cells h1) concat_p cs" "content (cells h1) cs = cbs"
proof -
  note p = assms [unfolded phase3_def]
  show a: "\<forall>c\<in>set cs. cells h c = None \<and> sole (cells h1) c" "\<forall>c. c \<notin> set cs \<longrightarrow> cells h1 c = cells h c"
    "length cs < 256" "concat_p = (if cs = [] then None else Some (hd cs))" "packet (cells h1) concat_p cs" "content (cells h1) cs = cbs"
    using p by (auto simp: fresh_packet_def split: option.splits)
  show "set cs \<inter> set (concat xss) = {}" using segs_cells [of "cells h" "unsent pcb" xss] a(1) p by (fastforce simp: conn_ok_def)
  show "loop_inv (cells h1) data (mss_local pcb) (length used + length cbs) ql h1 (length used + length cbs) ql [] []"
    using p by (auto simp: loop_inv_def)
qed

lemma restrict_restrict_cells:
  assumes "\<forall>c\<in>X \<union> Y. m c = None" "\<forall>c. c \<notin> X \<union> Y \<longrightarrow> m' c = m c"
  shows "(m' |` (- X)) |` (- Y) = m"
  using assms by (auto simp: restrict_map_def fun_eq_iff)

lemma memerr_ok:
  assumes "phase3 h pcb xss data used concat_p cs cbs ov ql h1"
    "loop_inv (cells h1) data (mss_local pcb) i ql h2 pos ql' ss yss"
  shows "\<exists>h'. write_memerr pcb concat_p ss h2 = Some (ERR_MEM, mark TF_NAGLEMEMERR pcb, h') \<and> cells h' = cells h \<and> heap_ok h'"
proof -
  note p = phase3_heap [OF assms(1)] and l = assms(2) [unfolded loop_inv_def]
  have dj: "set cs \<inter> set (concat yss) = {}" using p(1) l by (auto simp: sole_def)
  then have h2: "\<And>c. c \<in> set cs \<Longrightarrow> cells h2 c = cells h1 c" using l by blast
  let ?h3 = "h2\<lparr>cells := cells h2 |` (- set cs)\<rparr>"
  have "packet (cells h2) concat_p cs" "\<forall>c\<in>set cs. sole (cells h2) c"
    using p(1,7) packet_frame(1) [OF h2] h2 by (auto simp: sole_def)
  then have "(case concat_p of None \<Rightarrow> Some (0, h2) | Some c \<Rightarrow> pbuf_free (Some c) h2) = Some (length cs, ?h3)"
    using pbuf_free_chain [of 0 h2 concat_p cs "[]"] p(5,6) by (auto simp: freed_all restrict_map_def split: option.splits)
  moreover have "tcp_segs_free ss ?h3 = Some (?h3\<lparr>cells := cells ?h3 |` (- set (concat yss))\<rparr>)"
  proof (rule tcp_segs_free_ok)
    have "list_all2 (seg_ok (cells ?h3)) ss yss = list_all2 (seg_ok (cells h2)) ss yss"
      using dj by (intro segs_frame) (auto simp: restrict_map_def)
    then show "list_all2 (seg_ok (cells ?h3)) ss yss" using l by simp
  qed (use l in simp_all)
  moreover have "(cells h2 |` (- set cs)) |` (- set (concat yss)) = cells h"
  proof (rule restrict_restrict_cells)
    show "\<forall>c\<in>set cs \<union> set (concat yss). cells h c = None" using p(1,2) l dj by (metis UnE disjoint_iff)
    show "\<forall>c. c \<notin> set cs \<union> set (concat yss) \<longrightarrow> cells h2 c = cells h c" using p(2) l by (metis UnI1 UnI2)
  qed
  moreover have "heap_ok (h2\<lparr>cells := cells h\<rparr>)"
  proof (rule heap_ok_cells)
    show "\<forall>c. cells h c \<noteq> None \<longrightarrow> cells h2 c \<noteq> None" using p(1,2) l dj by (metis)
  qed (use l in simp)
  ultimately show ?thesis by (simp add: write_memerr_def)
qed


text \<open>The new queue: the last unsent segment has become \<open>s'\<close> on the buffers \<open>lx'\<close>, and \<open>ss\<close> is appended.\<close>

lemma commit_queue:
  assumes "list_all2 (seg_ok m) us ixs" "seg_ok m s' lx'" "list_all2 (seg_ok m) ss yss"
  shows "list_all2 (seg_ok m) (us @ [s'] @ ss) (ixs @ [lx'] @ yss)"
    "stream m (us @ [s'] @ ss) (ixs @ [lx'] @ yss) = stream m us ixs @ seg_data m s' lx' @ stream m ss yss"
  using assms list_all2_lengthD [OF assms(1)] by (auto intro!: list_all2_appendI simp: stream_append)

lemma last_room_append:
  assumes "if ss = [] then last_room m mx us xss ov else tail_room m (last yss) ov \<and> slen (last ss) + ov \<le> mx"
    "\<forall>s\<in>set ss. sflags s = 0" "length ss = length yss"
  shows "last_room m mx (us @ ss) (xss @ yss) ov"
proof (cases "ss = []")
  case True
  with assms show ?thesis by simp
next
  case False
  then have "yss \<noteq> []" "sflags (last ss) = 0" using assms(2,3) by auto
  with False assms(1) show ?thesis by (simp add: last_room_def LWIP_TCP_OPT_LENGTH_def)
qed

lemma push_last_append: "ss \<noteq> [] \<Longrightarrow> push_last fl (us @ ss) = us @ push_last fl ss"
  by (simp add: push_last_def butlast_append)

lemma last_room_push [simp]: "last_room m mx (push_last fl ss) xss ov = last_room m mx ss xss ov"
  using push_last_same(5) [of ss fl] by (cases "ss = []") (auto simp: last_room_def)

definition extended :: "pheap \<Rightarrow> tcp_pcb \<Rightarrow> nat list list \<Rightarrow> byte list \<Rightarrow> pheap \<Rightarrow> tcp_pcb \<Rightarrow> bool" where
  "extended h pcb xss data h' pcb' \<longleftrightarrow>
     (\<exists>xss'. conn_ok h' pcb' xss' \<and> stream (cells h') (unsent pcb') xss' = stream (cells h) (unsent pcb) xss @ data \<and>
        set (concat xss) \<subseteq> set (concat xss') \<and> (\<forall>c. c \<notin> set (concat xss') \<longrightarrow> cells h' c = cells h c) \<and>
        (\<forall>c\<in>set (concat xss'). c \<in> set (concat xss) \<or> cells h c = None)) \<and>
     snd_buf pcb' = snd_buf pcb - length data \<and> snd_lbb pcb' = snd_lbb pcb + of_nat (length data) \<and> heap_ok h'"

lemma commit_empty:
  assumes "phase3 h pcb xss data used concat_p cs cbs ov ql h1" "unsent pcb = []"
    "loop_inv (cells h1) data (mss_local pcb) (length used + length cbs) ql h2 (length data) ql' ss yss"
    "if ss = [] then ov' = ov else tail_room (cells h2) (last yss) ov' \<and> slen (last ss) + ov' \<le> mss_local pcb"
  shows "\<exists>pcb' h'. write_commit pcb (length data) fl touched used concat_p ql' ov' ss h2 = Some (ERR_OK, pcb', h') \<and>
    extended h pcb xss data h' pcb'"
proof -
  note p = phase3_heap [OF assms(1)] and l = assms(3) [unfolded loop_inv_def] and q = assms(1) [unfolded phase3_def]
  have e: "used = []" "ov = 0" "concat_p = None" "cs = []" "cbs = []" "cells h1 = cells h" "xss = []"
    using q assms(2) by (auto simp: conn_ok_def split: option.splits)
  let ?pcb = "pcb\<lparr>unsent_oversize := ov', unsent := push_last fl ss, snd_lbb := snd_lbb pcb + of_nat (length data),
     snd_buf := snd_buf pcb - length data, snd_queuelen := ql'\<rparr>"
  have "u16 (int (snd_buf pcb) - int (length data)) = snd_buf pcb - length data"
    using q by (intro u16_diff) (simp_all add: conn_ok_def)
  then have "write_commit pcb (length data) fl touched used concat_p ql' ov' ss h2 = Some (ERR_OK, ?pcb, h2)"
    using assms(2) by (cases "ss = []") (simp_all add: write_commit_def push_last_def)
  moreover have "last_room (cells h2) (mss_local pcb) ([] @ ss) ([] @ yss) ov'"
    using assms(4) e l by (intro last_room_append) (auto simp: last_room_def dest: list_all2_lengthD)
  moreover have "mss_local ?pcb = mss_local pcb" by (simp add: mss_local_def)
  moreover have "snd_buf pcb < 65536" "mss pcb \<le> TCP_MSS" using q by (simp_all add: conn_ok_def)
  moreover from this have "snd_buf pcb - length data < 65536" by simp
  ultimately have "conn_ok h2 ?pcb yss"
    using l by (simp add: conn_ok_def)
  moreover have "stream (cells h2) ss yss = data" using l e by simp
  moreover have "\<forall>c. c \<notin> set (concat yss) \<longrightarrow> cells h2 c = cells h c" using l e(6) by metis
  moreover have "\<forall>c\<in>set (concat yss). cells h c = None" using l e(6) by metis
  ultimately have "extended h pcb xss data h2 ?pcb"
    using l assms(2) e(7) unfolding extended_def by (intro conjI exI [of _ yss]) simp_all
  with \<open>write_commit _ _ _ _ _ _ _ _ _ _ = _\<close> show ?thesis by blast
qed

lemma commit_extend:
  assumes "phase3 h pcb xss data used concat_p cs cbs ov ql h1" "unsent pcb \<noteq> []"
    "loop_inv (cells h1) data (mss_local pcb) (length used + length cbs) ql h2 (length data) ql' ss yss"
    "if ss = [] then ov' = ov else tail_room (cells h2) (last yss) ov' \<and> slen (last ss) + ov' \<le> mss_local pcb"
  shows "\<exists>pcb' h'. write_commit pcb (length data) fl touched used concat_p ql' ov' ss h2 = Some (ERR_OK, pcb', h') \<and>
    extended h pcb xss data h' pcb'"
proof -
  note p = phase3_heap [OF assms(1)] and l = assms(3) [unfolded loop_inv_def] and q = assms(1) [unfolded phase3_def]
  define us s where us: "us = butlast (unsent pcb)" and s: "s = last (unsent pcb)"
  have un: "unsent pcb = us @ [s]" using assms(2) us s by simp
  obtain ixs lx where xss: "xss = ixs @ [lx]" and old: "list_all2 (seg_ok (cells h)) us ixs" "seg_ok (cells h) s lx"
    using q un by (auto simp: conn_ok_def list_all2_append1 list_all2_Cons1)
  have dis: "distinct (concat xss)" "set cs \<inter> set (concat yss) = {}" "set (concat xss) \<inter> set (concat yss) = {}"
    using q p(1-3) l segs_cells [of "cells h" "unsent pcb" xss]
    by (fastforce simp: conn_ok_def sole_def)+
  have same2: "cells h2 c = cells h c" if "c \<in> set (concat xss)" for c
    using that p(2,3) l dis by (metis disjoint_iff)
  have samec: "\<And>c. c \<in> set cs \<Longrightarrow> cells h2 c = cells h1 c" using l dis(2) by (metis disjoint_iff)
  have lxs: "seg_ok (cells h2) s lx" "seg_data (cells h2) s lx = seg_data (cells h) s lx"
    using old(2) seg_ok_frame [of lx "cells h2" "cells h" s] same2 xss by auto
  have lx0: "last lx \<in> set lx" using old(2) by (cases lx) (auto simp: seg_ok_def)
  have room: "tail_room (cells h2) lx k = tail_room (cells h) lx k" for k
    using same2 lx0 xss by (simp add: tail_room_def)
  have cat: "case concat_p of
       None \<Rightarrow> cbs = [] \<and> cs = [] \<and> tail_room (cells h2) lx (length used + ov)
     | Some c \<Rightarrow> cs = [c] \<and> packet (cells h2) (Some c) [c] \<and> sole (cells h2) c \<and> content (cells h2) [c] = cbs \<and> c \<notin> set lx \<and>
         tail_room (cells h2) [c] ov \<and> tail_room (cells h2) lx (length used)"
  proof (cases concat_p)
    case None
    then show ?thesis using q assms(2) xss room by simp
  next
    case (Some c)
    then have c: "cs = [c]" "tail_room (cells h1) [c] ov" using q by simp_all
    have "packet (cells h2) (Some c) [c]" "content (cells h2) [c] = cbs" "sole (cells h2) c"
      using p(1,7,8) c(1) Some samec packet_frame [of cs "cells h2" "cells h1", OF samec] by (simp_all add: sole_def)
    moreover have "c \<notin> set lx" using p(3) c(1) xss by auto
    moreover have "tail_room (cells h2) [c] ov" using c samec by (simp add: tail_room_def)
    moreover have "tail_room (cells h2) lx (length used)" using q assms(2) xss room Some by simp
    ultimately show ?thesis using Some c(1) by simp
  qed
  have "TCP_HLEN + LWIP_TCP_OPT_LENGTH (sflags s) + slen s + length used + length cbs < 65536"
    using q assms(2) s by (simp add: conn_ok_def mss_local_def TCP_MSS_def)
  from extend_last_ok [OF lxs(1) this cat] obtain h3 where h3:
    "extend_last s used concat_p h2 = Some (s\<lparr>slen := slen s + length used + length cbs\<rparr>, h3)"
    "seg_ok (cells h3) (s\<lparr>slen := slen s + length used + length cbs\<rparr>) (lx @ cs)"
    "seg_data (cells h3) s (lx @ cs) = seg_data (cells h2) s lx @ used @ cbs"
    "\<forall>d. d \<notin> set lx \<longrightarrow> cells h3 d = cells h2 d" "tail_room (cells h3) (lx @ cs) ov" "brk h3 = brk h2" by blast
  let ?s = "s\<lparr>slen := slen s + length used + length cbs\<rparr>"
  define old' where "old' = us @ [?s]"
  define queue1 where "queue1 = (if ss \<noteq> [] then old' @ push_last fl ss else if touched then push_last fl old' else old')"
  let ?pcb = "pcb\<lparr>unsent_oversize := ov', unsent := queue1, snd_lbb := snd_lbb pcb + of_nat (length data),
     snd_buf := snd_buf pcb - length data, snd_queuelen := ql'\<rparr>" and ?xss = "ixs @ [lx @ cs] @ yss"
  have "u16 (int (snd_buf pcb) - int (length data)) = snd_buf pcb - length data"
    using q by (intro u16_diff) (simp_all add: conn_ok_def)
  then have run: "write_commit pcb (length data) fl touched used concat_p ql' ov' ss h2 = Some (ERR_OK, ?pcb, h3)"
    using assms(2) h3(1) by (simp add: write_commit_def queue1_def old'_def us s)
  have same3: "cells h3 c = cells h2 c" if "c \<in> set (concat ixs) \<union> set (concat yss)" for c
  proof -
    have "c \<notin> set lx" using that dis(1,3) xss by auto
    then show ?thesis using h3(4) by blast
  qed
  have q3: "list_all2 (seg_ok (cells h3)) us ixs" "stream (cells h3) us ixs = stream (cells h) us ixs"
    "list_all2 (seg_ok (cells h3)) ss yss" "stream (cells h3) ss yss = stream (cells h2) ss yss"
    using old(1) l segs_frame [of ixs "cells h3" "cells h"] segs_frame [of yss "cells h3" "cells h2"] same3 same2 xss by simp_all
  note cq = commit_queue [OF q3(1) h3(2) q3(3)]
  note cp = commit_queue [OF q3(1) h3(2), of "push_last fl ss" yss, unfolded push_last_same, OF q3(3)]
  have yss0: "ss = [] \<longleftrightarrow> yss = []" "length ss = length yss" using list_all2_lengthD [OF q3(3)] by auto
  have l1: "list_all2 (seg_ok (cells h3)) queue1 ?xss"
    using cq(1) cp(1) by (cases "ss = []") (simp_all add: queue1_def old'_def)
  have "stream (cells h3) queue1 ?xss = stream (cells h3) (us @ [?s] @ ss) ?xss"
    using cq(2) cp(2) by (cases "ss = []") (simp_all add: queue1_def old'_def)
  moreover have "seg_data (cells h3) ?s (lx @ cs) = seg_data (cells h3) s (lx @ cs)" by (simp add: seg_data_def)
  moreover have "used @ cbs @ stream (cells h2) ss yss = data" using q l by auto
  moreover have "stream (cells h) (unsent pcb) xss = stream (cells h) us ixs @ seg_data (cells h) s lx"
    using un xss list_all2_lengthD [OF old(1)] by (simp add: stream_append)
  ultimately have l2: "stream (cells h3) queue1 ?xss = stream (cells h) (unsent pcb) xss @ data"
    using cq(2) q3(2,4) h3(3) lxs(2) by simp
  have "if ss = [] then last_room (cells h3) (mss_local pcb) old' (ixs @ [lx @ cs]) ov'
    else tail_room (cells h3) (last yss) ov' \<and> slen (last ss) + ov' \<le> mss_local pcb"
  proof (cases "ss = []")
    case True
    then show ?thesis using h3(5) q assms(2,4) s by (simp add: last_room_def old'_def)
  next
    case False
    then have "last yss \<in> set yss" using yss0(1) by simp
    moreover from this have "last yss \<noteq> []" using q3(3) by (auto simp: list_all2_conv_all_nth in_set_conv_nth seg_ok_def)
    ultimately have "last (last yss) \<in> set (concat yss)" using last_in_set by fastforce
    then show ?thesis using False assms(4) same3 by (simp add: tail_room_def)
  qed
  from last_room_append [OF this _ yss0(2)] have "last_room (cells h3) (mss_local pcb) (old' @ ss) ?xss ov'"
    using l by simp
  then have l3: "last_room (cells h3) (mss_local pcb) queue1 ?xss ov'"
    using last_room_push [of "cells h3" "mss_local pcb" fl "old' @ ss" ?xss ov'] push_last_append [of ss fl old']
    by (cases "ss = []") (simp_all add: queue1_def)
  have "distinct cs" using packet_distinct [OF p(7)] .
  then have "distinct (concat ?xss)" using dis p(3) xss l by auto
  moreover have "length (concat ?xss) \<le> ql'" "ql' \<le> TCP_SND_QUEUELEN" using q l xss by (auto simp: conn_ok_def)
  moreover have "snd_buf pcb < 65536" "mss pcb \<le> TCP_MSS" using q by (simp_all add: conn_ok_def)
  moreover from this have "snd_buf pcb - length data < 65536" by simp
  ultimately have "conn_ok h3 ?pcb ?xss" using l1 l3 by (simp add: conn_ok_def mss_local_def)
  moreover have "set (concat xss) \<subseteq> set (concat ?xss)" using xss by auto
  moreover have "\<forall>c. c \<notin> set (concat ?xss) \<longrightarrow> cells h3 c = cells h c"
  proof (intro allI impI)
    fix c assume "c \<notin> set (concat ?xss)"
    then have c: "c \<notin> set cs" "c \<notin> set lx" "c \<notin> set (concat yss)" by auto
    then have "cells h3 c = cells h2 c" "cells h2 c = cells h1 c" "cells h1 c = cells h c" using p(2) l h3(4) by blast+
    then show "cells h3 c = cells h c" by simp
  qed
  moreover have "\<forall>c\<in>set (concat ?xss). c \<in> set (concat xss) \<or> cells h c = None"
  proof
    fix c assume c: "c \<in> set (concat ?xss)"
    have "cells h c = None" if "c \<in> set (concat yss)" using that l p(2) dis(2) by (metis disjoint_iff)
    then have "c \<in> set (concat yss) \<longrightarrow> cells h c = None" by blast
    then show "c \<in> set (concat xss) \<or> cells h c = None" using c p(1) xss by auto
  qed
  moreover have "heap_ok h3"
    unfolding heap_ok_def
  proof (intro allI impI)
    fix a assume a: "brk h3 \<le> a"
    then have "cells h2 a = None" using l h3(6) by (simp add: heap_ok_def)
    moreover have "a \<notin> set lx" using segs_cells [of "cells h2" "[s]" "[lx]" a] lxs(1) calculation by auto
    ultimately show "cells h3 a = None" using h3(4) by simp
  qed
  ultimately have "extended h pcb xss data h3 ?pcb"
    using l2 unfolding extended_def by (intro conjI exI [of _ ?xss]) simp_all
  with run show ?thesis by blast
qed


lemma mss_local_le: "conn_ok h pcb xss \<Longrightarrow> mss_local pcb \<le> TCP_MSS"
  unfolding conn_ok_def mss_local_def by linarith

lemma write_rest_ok:
  assumes "phase3 h pcb xss data used concat_p cs cbs ov ql h1"
  shows "\<exists>err pcb' h'. write_rest pcb data fl (mss_local pcb) (length used + length cbs) ql ov touched used concat_p h1 =
      Some (err, pcb', h') \<and>
    (err = ERR_OK \<and> extended h pcb xss data h' pcb' \<or>
     err = ERR_MEM \<and> pcb' = mark TF_NAGLEMEMERR pcb \<and> cells h' = cells h \<and> heap_ok h')"
proof -
  let ?pos = "length used + length cbs"
  note p = phase3_heap [OF assms] and q = assms [unfolded phase3_def]
  have m1: "mss_local pcb \<le> TCP_MSS" using q mss_local_le by blast
  have m2: "?pos < length data \<longrightarrow> ov = 0" using q by auto
  have e: "([] :: tcp_seg list) \<noteq> [] \<longrightarrow> tail_room (cells h1) (last []) ov \<and> slen (last []) + ov \<le> mss_local pcb" by simp
  from write_loop_ok [OF p(4) m1 m2 e, of pcb fl] obtain ok pos' ql' ov' ss h2 yss where w:
    "write_loop pcb data fl (mss_local pcb) ?pos ql ov [] h1 = Some (ok, ql', ov', ss, h2)"
    "loop_inv (cells h1) data (mss_local pcb) ?pos ql h2 pos' ql' ss yss" "ok \<longrightarrow> pos' = length data"
    "if ss = [] then ([] :: tcp_seg list) = [] \<and> ov' = ov \<and> pos' = ?pos
     else tail_room (cells h2) (last yss) ov' \<and> slen (last ss) + ov' \<le> mss_local pcb"
    by blast
  show ?thesis
  proof (cases ok)
    case False
    with memerr_ok [OF assms w(2)] w(1) show ?thesis by (auto simp: write_rest_def)
  next
    case True
    with w have l: "loop_inv (cells h1) data (mss_local pcb) ?pos ql h2 (length data) ql' ss yss" by simp
    have t: "if ss = [] then ov' = ov else tail_room (cells h2) (last yss) ov' \<and> slen (last ss) + ov' \<le> mss_local pcb"
      using w(4) by (simp split: if_splits)
    have "\<exists>pcb' h'. write_commit pcb (length data) fl touched used concat_p ql' ov' ss h2 = Some (ERR_OK, pcb', h') \<and>
      extended h pcb xss data h' pcb'"
      using commit_empty [OF assms _ l t] commit_extend [OF assms _ l t] by (cases "unsent pcb = []") simp_all
    with w(1) True show ?thesis by (auto simp: write_rest_def)
  qed
qed

lemma tcp_write_start:
  assumes "heap_ok h" "conn_ok h pcb xss" "length data \<le> snd_buf pcb" "data = [] \<or> snd_queuelen pcb < TCP_SND_QUEUELEN"
    "fst (tcp_write_checks pcb (length data)) = ERR_OK"
  shows "(\<exists>touched used concat_p cs cbs ov ql h1.
      tcp_write pcb (Some data) fl h =
        write_rest pcb data fl (mss_local pcb) (length used + length cbs) ql ov touched used concat_p h1 \<and>
      phase3 h pcb xss data used concat_p cs cbs ov ql h1) \<or>
    (\<exists>h'. tcp_write pcb (Some data) fl h = Some (ERR_MEM, mark TF_NAGLEMEMERR pcb, h') \<and> cells h' = cells h \<and> heap_ok h')"
proof -
  note c = assms(2) [unfolded conn_ok_def]
  obtain pc where pc: "tcp_write_checks pcb (length data) = (ERR_OK, pc)" using assms(5) by (metis prod.collapse)
  show ?thesis
  proof (cases "unsent pcb = []")
    case True
    then have "tcp_write pcb (Some data) fl h = write_rest pcb data fl (mss_local pcb) 0 (snd_queuelen pcb) 0 False [] None h"
      using pc by (simp add: tcp_write_def mss_local_def Let_def)
    moreover have "phase3 h pcb xss data [] None [] [] 0 (snd_queuelen pcb) h"
      using assms True c by (simp add: phase3_def)
    ultimately show ?thesis by fastforce
  next
    case False
    let ?s = "last (unsent pcb)"
    define taken where "taken = min (unsent_oversize pcb) (length data)"
    define space where "space = mss_local pcb - (slen ?s + LWIP_TCP_OPT_LENGTH (sflags ?s)) - taken"
    define seglen where "seglen = min space (length data - taken)"
    have lr: "tail_room (cells h) (last xss) (unsent_oversize pcb)"
      "slen ?s + LWIP_TCP_OPT_LENGTH (sflags ?s) + unsent_oversize pcb \<le> mss_local pcb"
      using c False by (simp_all add: last_room_def)
    have mx: "mss_local pcb \<le> TCP_MSS" "mss_local pcb < 65536" using mss_local_le [OF assms(2)] by (simp_all add: TCP_MSS_def)
    have sp0: "u16 (int (mss_local pcb) - int (slen ?s + LWIP_TCP_OPT_LENGTH (sflags ?s))) =
        mss_local pcb - (slen ?s + LWIP_TCP_OPT_LENGTH (sflags ?s))"
      using lr(2) mx by (intro u16_diff) simp_all
    have sp: "u16 (int (mss_local pcb - (slen ?s + LWIP_TCP_OPT_LENGTH (sflags ?s))) - int taken) = space"
      unfolding space_def using lr(2) mx by (intro u16_diff) (simp_all add: taken_def)
    have tk: "(if 0 < unsent_oversize pcb then min (unsent_oversize pcb) (length data) else 0) = taken"
      by (simp add: taken_def)
    have tw: "tcp_write pcb (Some data) fl h =
      (if taken < length data \<and> space > 0 \<and> slen ?s > 0 then do {
           (r, h1) \<leftarrow> write_concat pcb (take seglen (drop taken data)) fl space (unsent_oversize pcb - taken) h;
           (case r of
              None \<Rightarrow> write_memerr pcb None [] h1
            | Some (c, ov) \<Rightarrow> do {
                n \<leftarrow> pbuf_clen (Some c) h1;
                write_rest pcb data fl (mss_local pcb) (taken + seglen)
                  (u16 (int (snd_queuelen pcb) + int n)) ov True (take taken data) (Some c) h1
              })
         }
       else write_rest pcb data fl (mss_local pcb) taken (snd_queuelen pcb) (unsent_oversize pcb - taken)
              (unsent_oversize pcb > 0) (take taken data) None h)"
      using pc False unfolding tcp_write_def Let_def option.case prod.case
      by (simp only: mss_local_def [symmetric] sp0 tk sp seglen_def [symmetric]) simp
    have room: "tail_room (cells h) (last xss) k" if "k \<le> unsent_oversize pcb" for k
      using lr(1) that by (auto simp: tail_room_def)
    show ?thesis
    proof (cases "taken < length data \<and> space > 0 \<and> slen ?s > 0")
      case no: False
      have "phase3 h pcb xss data (take taken data) None [] [] (unsent_oversize pcb - taken) (snd_queuelen pcb) h"
        unfolding phase3_def
        using assms no False c lr(2) room [of "unsent_oversize pcb"]
        by (auto simp: taken_def min_def intro!: exI [of _ "drop taken data"])
      moreover have "length (take taken data) = taken" by (simp add: taken_def)
      ultimately show ?thesis using tw no by fastforce
    next
      case yes: True
      have ov0: "unsent_oversize pcb - taken = 0" using yes unfolding taken_def by linarith
      let ?xs = "take seglen (drop taken data)"
      have lx: "length ?xs = seglen" "seglen \<le> space" "space \<le> TCP_MSS" using mx by (simp_all add: seglen_def space_def)
      then have "length ?xs \<le> space" by simp
      from assms(1) this lx(3) show ?thesis
      proof (cases rule: write_concat_cases [where pcb = pcb and fl = fl])
        case (denied h1)
        then show ?thesis using tw yes ov0 by (simp add: write_memerr_def)
      next
        case (granted p ov h1)
        have pk: "packet (cells h1) (Some p) [p]" using granted(3) by (simp add: fresh_packet_def)
        have n: "pbuf_clen (Some p) h1 = Some 1" using pbuf_clen_chain [OF pk] by simp
        have ql: "u16 (int (snd_queuelen pcb) + int 1) = snd_queuelen pcb + 1"
          using c by (simp add: u16_def TCP_SND_QUEUELEN_def)
        have "tcp_write pcb (Some data) fl h =
          write_rest pcb data fl (mss_local pcb) (taken + seglen) (snd_queuelen pcb + 1) ov True (take taken data) (Some p) h1"
          using tw yes ov0 granted(1) n ql by simp
        moreover have "length (take taken data) + length ?xs = taken + seglen" using lx(1) by (simp add: taken_def)
        moreover have lt: "length (take taken data) = taken" "taken \<le> unsent_oversize pcb" by (simp_all add: taken_def)
        moreover have "phase3 h pcb xss data (take taken data) (Some p) [p] ?xs ov (snd_queuelen pcb + 1) h1"
        proof -
          have "data = take taken data @ ?xs @ drop (taken + seglen) data"
            by (metis add.commute append_take_drop_id drop_drop)
          moreover have "drop (taken + seglen) data \<noteq> [] \<longrightarrow> ov = 0"
            using granted(5) lx(1) by (auto simp: seglen_def min_def)
          moreover have "slen ?s + LWIP_TCP_OPT_LENGTH (sflags ?s) + taken + length ?xs + ov \<le> mss_local pcb"
            using granted(5) lr(2) yes by (simp add: space_def taken_def)
          ultimately show ?thesis
            unfolding phase3_def
            using assms(2-4) granted(2-4) yes False room [of taken] lt by fastforce
        qed
        ultimately show ?thesis by metis
      qed
    qed
  qed
qed


lemma tcp_write_checks_cases:
  "tcp_write_checks pcb n = (err, pcb1) \<Longrightarrow> (err = ERR_OK \<and> pcb1 = pcb \<and> (n = 0 \<or> n \<le> snd_buf pcb \<and> snd_queuelen pcb < TCP_SND_QUEUELEN)) \<or>
     ((err = ERR_CONN \<and> pcb1 = pcb \<or> err = ERR_MEM \<and> pcb1 = mark TF_NAGLEMEMERR pcb))"
  by (auto simp: tcp_write_checks_def split: if_splits)

text \<open>With an empty queue and memory for a buffer and a segment, one segment is accepted.\<close>

lemma write_seg_granted:
  assumes "heap_ok h" "data \<noteq> []" "length data \<le> mx" "mx \<le> TCP_MSS" "take 2 (grants h) = [True, True]" "fl AND TCP_WRITE_FLAG_COPY \<noteq> 0"
  shows "\<exists>seg ql ov h1. write_seg pcb data fl mx 0 0 0 True h = Some (Some (seg, length data, ql, ov), h1)"
proof -
  obtain gs where g: "grants h = True # True # gs" using assms(5) by (cases "grants h"; cases "tl (grants h)") auto
  define alloc where "alloc = (if length data < mx \<and>
            (fl AND TCP_WRITE_FLAG_MORE \<noteq> 0 \<or> (flags pcb AND TF_NODELAY = 0 \<and> (\<not> True \<or> unsent pcb \<noteq> [] \<or> unacked pcb \<noteq> [])))
         then min mx (mem_align (length data + TCP_MSS)) else length data)"
  note d = tcp_pbuf_prealloc_def [of PBUF_TRANSPORT "length data" mx pcb fl True, folded alloc_def, unfolded Let_def]
  have al: "length data \<le> alloc" "alloc \<le> 1460"
    using assms(3,4) mem_align_ge [of "length data + TCP_MSS"] by (auto simp: alloc_def TCP_MSS_def)
  then have "ram_fits PBUF_TRANSPORT alloc" by (intro ram_fits_less) simp
  then have s: "(mem_align 70 + mem_align alloc) mod 65536 = 72 + mem_align alloc" "mem_align (72 + mem_align alloc) mod 65536 \<le> MEM_SIZE"
    "length data \<le> mem_align alloc" using al mem_align_le [of alloc] mem_align_ge [of alloc] mem_align_le [of "72 + mem_align alloc"]
    by (simp_all add: MEM_SIZE_def mem_align_def [of 70])
  show ?thesis
    using assms(3,4,6) g s
    by (auto simp: write_seg_def write_packet_def d pbuf_alloc_def ram_malloc_def SIZEOF_STRUCT_PBUF_def malloc_def Let_def write_copy_def
        memcpy_at_def fresh_bytes_def pbuf_clen_def
        pbuf_clen_loop.simps poke_def put_def tcp_create_segment_def pbuf_header_def TCP_SND_QUEUELEN_def
        TCP_SNDQUEUELEN_OVERFLOW_def mem_align_def layer_offset_def)
qed

lemma tcp_write_accepts:
  assumes "heap_ok h" "conn_ok h pcb xss" "state pcb = ESTABLISHED" "unsent pcb = []" "snd_queuelen pcb = 0" "length data \<le> mss_local pcb"
    "length data \<le> snd_buf pcb" "fl AND TCP_WRITE_FLAG_COPY \<noteq> 0" "take 2 (grants h) = [True, True]"
    "tcp_write pcb (Some data) fl h = Some (err, pcb', h')"
  shows "err = ERR_OK"
proof -
  have "tcp_write_checks pcb (length data) = (ERR_OK, pcb)"
    using assms(3,5,7) by (simp add: tcp_write_checks_def TCP_SND_QUEUELEN_def)
  then have w: "write_rest pcb data fl (mss_local pcb) 0 0 0 False [] None h = Some (err, pcb', h')"
    using assms(4,5,10) by (simp add: tcp_write_def Let_def mss_local_def)
  have "\<exists>ql ov ss h1. write_loop pcb data fl (mss_local pcb) 0 0 0 [] h = Some (True, ql, ov, ss, h1)"
  proof (cases "data = []")
    case True
    then show ?thesis by (subst write_loop.simps) simp
  next
    case False
    from write_seg_granted [OF assms(1) this assms(6) mss_local_le [OF assms(2)] assms(9,8), of pcb]
    obtain seg ql ov h1 where "write_seg pcb data fl (mss_local pcb) 0 0 0 True h = Some (Some (seg, length data, ql, ov), h1)" by blast
    then show ?thesis using False by (subst write_loop.simps) (simp add: write_loop.simps)
  qed
  then show ?thesis using w assms(4) by (auto simp: write_rest_def write_commit_def)
qed

lemma tcp_write_outcome:
  assumes "heap_ok h" "conn_ok h pcb xss"
  shows "\<exists>err pcb' h'. tcp_write pcb (Some data) apiflags h = Some (err, pcb', h') \<and>
    (err = ERR_OK \<and> extended h pcb xss data h' pcb' \<or>
     err \<noteq> ERR_OK \<and> (pcb' = pcb \<or> pcb' = mark TF_NAGLEMEMERR pcb) \<and> cells h' = cells h \<and> heap_ok h')"
proof -
  obtain err pcb1 where chk: "tcp_write_checks pcb (length data) = (err, pcb1)" by fastforce
  show ?thesis
  proof (cases "err = ERR_OK")
    case True
    with tcp_write_checks_cases [OF chk] have "length data \<le> snd_buf pcb" "data = [] \<or> snd_queuelen pcb < TCP_SND_QUEUELEN" by auto
    from tcp_write_start [OF assms this, of apiflags] chk True show ?thesis
      using write_rest_ok [of h pcb xss data] by fastforce
  next
    case False
    with tcp_write_checks_cases [OF chk] chk assms(1) show ?thesis by (auto simp: tcp_write_def Let_def)
  qed
qed

section \<open>What a sender may rely on\<close>

text \<open>
  The contract of \<open>tcp_write\<close> with the copy flag, as the applications use it: \<open>queued h pcb X bs\<close>
  says that the connection has the bytes \<open>bs\<close> queued in the buffers \<open>X\<close>. A write appends its
  data or changes nothing, never touches a buffer that is not in \<open>X\<close>, and takes only new buffers.
\<close>

locale send_api =
  fixes wr :: "tcp_pcb \<Rightarrow> byte list option \<Rightarrow> 8 word \<Rightarrow> pheap \<Rightarrow> (err_t \<times> tcp_pcb \<times> pheap) option"
    and queued :: "pheap \<Rightarrow> tcp_pcb \<Rightarrow> nat set \<Rightarrow> byte list \<Rightarrow> bool"
  assumes write_outcome: "\<lbrakk>heap_ok h; queued h pcb X bs\<rbrakk> \<Longrightarrow>
      \<exists>err pcb' h'. wr pcb (Some data) TCP_WRITE_FLAG_COPY h = Some (err, pcb', h') \<and> heap_ok h' \<and>
        (if err = ERR_OK then
           \<exists>X'. queued h' pcb' X' (bs @ data) \<and> X \<subseteq> X' \<and> (\<forall>c. c \<notin> X' \<longrightarrow> cells h' c = cells h c) \<and>
             (\<forall>c\<in>X'. c \<in> X \<or> cells h c = None)
         else queued h' pcb' X bs \<and> cells h' = cells h)"
    and queued_frame: "\<lbrakk>queued h pcb X bs; \<forall>c\<in>X. cells h' c = cells h c\<rbrakk> \<Longrightarrow> queued h' pcb X bs"
    and queued_cells: "\<lbrakk>queued h pcb X bs; c \<in> X\<rbrakk> \<Longrightarrow> cells h c \<noteq> None"

definition unsent_bytes :: "pheap \<Rightarrow> tcp_pcb \<Rightarrow> nat set \<Rightarrow> byte list \<Rightarrow> bool" where
  "unsent_bytes h pcb X bs \<longleftrightarrow> (\<exists>xss. conn_ok h pcb xss \<and> X = set (concat xss) \<and> bs = stream (cells h) (unsent pcb) xss)"

lemma last_room_frame:
  assumes "list_all2 (seg_ok m) ss xss" "\<forall>c\<in>set (concat xss). m' c = m c"
  shows "last_room m' mx ss xss ov = last_room m mx ss xss ov"
proof (cases "ss = []")
  case False
  then have "last xss \<in> set xss" using assms(1) by (cases xss) auto
  moreover from this have "last xss \<noteq> []" using assms(1) by (auto simp: list_all2_conv_all_nth in_set_conv_nth seg_ok_def)
  ultimately have "last (last xss) \<in> set (concat xss)" using last_in_set by fastforce
  with assms(2) have "m' (last (last xss)) = m (last (last xss))" by blast
  then show ?thesis by (simp add: last_room_def tail_room_def)
qed (simp add: last_room_def)

lemma conn_ok_frame:
  assumes "conn_ok h pcb xss" "\<forall>c\<in>set (concat xss). cells h' c = cells h c"
  shows "conn_ok h' pcb xss" "stream (cells h') (unsent pcb) xss = stream (cells h) (unsent pcb) xss"
proof -
  have s: "\<And>c. c \<in> set (concat xss) \<Longrightarrow> cells h' c = cells h c" using assms(2) by blast
  show "stream (cells h') (unsent pcb) xss = stream (cells h) (unsent pcb) xss" by (rule segs_frame(2) [OF s])
  show "conn_ok h' pcb xss"
    using assms(1) segs_frame(1) [OF s, where ss = "unsent pcb"] last_room_frame [OF _ assms(2), of "unsent pcb"]
    by (simp add: conn_ok_def)
qed

lemma mark_same: "conn_ok h (mark f pcb) xss = conn_ok h pcb xss" "unsent (mark f pcb) = unsent pcb"
  by (simp_all add: conn_ok_def mark_def mss_local_def)

interpretation tcp: send_api tcp_write unsent_bytes
proof
  fix h pcb X bs data
  assume h: "heap_ok h" and q: "unsent_bytes h pcb X bs"
  then obtain xss where x: "conn_ok h pcb xss" "X = set (concat xss)" "bs = stream (cells h) (unsent pcb) xss"
    by (auto simp: unsent_bytes_def)
  from tcp_write_outcome [OF h x(1), of data TCP_WRITE_FLAG_COPY] obtain err pcb' h' where r:
    "tcp_write pcb (Some data) TCP_WRITE_FLAG_COPY h = Some (err, pcb', h')"
    "err = ERR_OK \<and> extended h pcb xss data h' pcb' \<or>
     err \<noteq> ERR_OK \<and> (pcb' = pcb \<or> pcb' = mark TF_NAGLEMEMERR pcb) \<and> cells h' = cells h \<and> heap_ok h'" by blast
  have "err = ERR_OK \<longrightarrow> heap_ok h' \<and> (\<exists>X'. unsent_bytes h' pcb' X' (bs @ data) \<and>
      X \<subseteq> X' \<and> (\<forall>c. c \<notin> X' \<longrightarrow> cells h' c = cells h c) \<and> (\<forall>c\<in>X'. c \<in> X \<or> cells h c = None))"
    using r(2) x(2,3) unfolding extended_def unsent_bytes_def by (metis (no_types))
  moreover have "err \<noteq> ERR_OK \<longrightarrow> heap_ok h' \<and> unsent_bytes h' pcb' X bs \<and> cells h' = cells h"
  proof
    assume "err \<noteq> ERR_OK"
    with r(2) have "pcb' = pcb \<or> pcb' = mark TF_NAGLEMEMERR pcb" "cells h' = cells h" "heap_ok h'" by auto
    then show "heap_ok h' \<and> unsent_bytes h' pcb' X bs \<and> cells h' = cells h"
      using x conn_ok_frame [OF x(1), of h'] mark_same by (auto simp: unsent_bytes_def)
  qed
  ultimately show "\<exists>err pcb' h'. tcp_write pcb (Some data) TCP_WRITE_FLAG_COPY h = Some (err, pcb', h') \<and> heap_ok h' \<and>
        (if err = ERR_OK then
           \<exists>X'. unsent_bytes h' pcb' X' (bs @ data) \<and> X \<subseteq> X' \<and> (\<forall>c. c \<notin> X' \<longrightarrow> cells h' c = cells h c) \<and>
             (\<forall>c\<in>X'. c \<in> X \<or> cells h c = None)
         else unsent_bytes h' pcb' X bs \<and> cells h' = cells h)" using r(1) by (cases "err = ERR_OK") simp_all
next
  fix h pcb X bs and h' :: pheap
  assume "unsent_bytes h pcb X bs" "\<forall>c\<in>X. cells h' c = cells h c"
  then show "unsent_bytes h' pcb X bs" using conn_ok_frame unfolding unsent_bytes_def by metis
next
  fix h pcb X bs c
  assume "unsent_bytes h pcb X bs" "c \<in> X"
  then show "cells h c \<noteq> None" using segs_cells unfolding unsent_bytes_def conn_ok_def by fastforce
qed

section \<open>Properties\<close>

definition sample_pcb :: tcp_pcb where
  "sample_pcb = \<lparr>callback_arg = None, accept = None, state = ESTABLISHED, prio = 1, local_port = 7, remote_port = 1000, flags = 0,
     pollinterval = 0, rcv_nxt = 0, rcv_wnd = 2920, rcv_ann_wnd = 2920, rcv_ann_right_edge = 2920, mss = 1460, lastack = 0,
     cwnd = 1460, snd_nxt = 0, snd_lbb = 0, snd_wnd = 2920, snd_wnd_max = 2920, snd_buf = 2920, snd_queuelen = 0,
     unsent_oversize = 0, unsent = [], unacked = [], sent = None, recv = None, poll = None, errf = None\<rparr>"

text \<open>
  C7. \<open>tcp_write\<close> is all or nothing. On a connection whose unsent segments are well formed, every
  call returns, for every pattern of granted and denied memory requests. When it returns
  \<open>ERR_OK\<close>, the unsent segments hold the bytes they held before followed by the data, they are
  well formed again (no segment shares a buffer with another, the last one stays within the
  segment size, the recorded room exists), the send buffer has shrunk and the next
  sequence number has advanced by the length of the data, and no buffer outside the queue
  has changed. When it returns an error, no buffer has been changed, added or lost, and of
  the connection at most the flag \<open>TF_NAGLEMEMERR\<close> has changed. With an empty queue and enough memory,
  up to one segment of data is accepted.
\<close>

theorem tcp_write_all_or_nothing:
  assumes "heap_ok h" "conn_ok h pcb xss"
  shows "\<exists>err pcb' h'. tcp_write pcb (Some data) apiflags h = Some (err, pcb', h') \<and> heap_ok h' \<and>
    (if err = ERR_OK then
       snd_buf pcb' = snd_buf pcb - length data \<and> snd_lbb pcb' = snd_lbb pcb + of_nat (length data) \<and>
       (\<exists>xss'. conn_ok h' pcb' xss' \<and> stream (cells h') (unsent pcb') xss' = stream (cells h) (unsent pcb) xss @ data \<and>
          set (concat xss) \<subseteq> set (concat xss') \<and> (\<forall>c. c \<notin> set (concat xss') \<longrightarrow> cells h' c = cells h c) \<and>
          (\<forall>c\<in>set (concat xss'). c \<in> set (concat xss) \<or> cells h c = None))
     else cells h' = cells h \<and> (pcb' = pcb \<or> pcb' = mark TF_NAGLEMEMERR pcb)) \<and>
    (state pcb = ESTABLISHED \<and> unsent pcb = [] \<and> snd_queuelen pcb = 0 \<and> length data \<le> mss_local pcb \<and> length data \<le> snd_buf pcb \<and>
     apiflags AND TCP_WRITE_FLAG_COPY \<noteq> 0 \<and> take 2 (grants h) = [True, True] \<longrightarrow> err = ERR_OK)"
proof -
  from tcp_write_outcome [OF assms] obtain err pcb' h' where r: "tcp_write pcb (Some data) apiflags h = Some (err, pcb', h')"
    "err = ERR_OK \<and> extended h pcb xss data h' pcb' \<or>
     err \<noteq> ERR_OK \<and> (pcb' = pcb \<or> pcb' = mark TF_NAGLEMEMERR pcb) \<and> cells h' = cells h \<and> heap_ok h'" by blast
  have "state pcb = ESTABLISHED \<and> unsent pcb = [] \<and> snd_queuelen pcb = 0 \<and> length data \<le> mss_local pcb \<and> length data \<le> snd_buf pcb \<and>
     apiflags AND TCP_WRITE_FLAG_COPY \<noteq> 0 \<and> take 2 (grants h) = [True, True] \<longrightarrow> err = ERR_OK"
    using tcp_write_accepts [OF assms _ _ _ _ _ _ _ r(1)] by blast
  with r show ?thesis unfolding extended_def by (intro exI conjI; (rule r(1))?) auto
qed

theorem tcp_write_all_or_nothing_witness:
  "\<exists>pcb' h'. tcp_write sample_pcb (Some [1, 2, 3]) 1 sample_heap = Some (ERR_OK, pcb', h') \<and> snd_buf pcb' = 2917 \<and> snd_lbb pcb' = 3 \<and>
     (\<exists>xss. stream (cells h') (unsent pcb') xss = [1, 2, 3])"
proof -
  have "heap_ok sample_heap" "conn_ok sample_heap sample_pcb []"
    by (simp_all add: heap_ok_def sample_heap_def conn_ok_def sample_pcb_def last_room_def TCP_MSS_def TCP_SND_QUEUELEN_def)
  from tcp_write_all_or_nothing [OF this, of "[1, 2, 3]" 1] show ?thesis
    by (auto simp: sample_pcb_def sample_heap_def mss_local_def split: if_splits)
qed

end
