(* ===== verification/Echo.thy ===== *)
theory Echo
  imports Tcp_Out
begin

text \<open>
  What the echo applications on the raw API of lwIP share: the world of one connection (heap,
  control block, the structures that the callbacks get as their argument, and a log of the
  calls into the stack whose effect stays inside the stack), the setters of the control block
  in \<open>core/tcp.c\<close>, and the loop that hands a chain of buffers to \<open>tcp_write\<close>. The lemmas on
  the loop are proved for every \<open>send_api\<close>.
\<close>

section \<open>The world of a connection\<close>

datatype tcp_call = Call_recved nat | Call_close | Call_abort | Call_connect string | Call_print string

record 'es world =
  heap :: pheap
  pcb :: tcp_pcb
  pcb_addr :: nat
  ess :: "nat \<Rightarrow> 'es option"
  calls :: "tcp_call list"

definition on_pcb :: "(tcp_pcb \<Rightarrow> tcp_pcb) \<Rightarrow> ('es, 'a) world_scheme \<Rightarrow> ('es, 'a) world_scheme" where
  "on_pcb f w = w\<lparr>pcb := f (pcb w)\<rparr>"

definition record_call :: "tcp_call \<Rightarrow> ('es, 'a) world_scheme \<Rightarrow> ('es, 'a) world_scheme" where
  "record_call c w = w\<lparr>calls := calls w @ [c]\<rparr>"

definition tcp_arg :: "nat option \<Rightarrow> tcp_pcb \<Rightarrow> tcp_pcb" where
  "tcp_arg a p = p\<lparr>callback_arg := a\<rparr>"

definition tcp_recv :: "string option \<Rightarrow> tcp_pcb \<Rightarrow> tcp_pcb" where
  "tcp_recv f p = p\<lparr>recv := f\<rparr>"

definition tcp_sent :: "string option \<Rightarrow> tcp_pcb \<Rightarrow> tcp_pcb" where
  "tcp_sent f p = p\<lparr>sent := f\<rparr>"

definition tcp_err :: "string option \<Rightarrow> tcp_pcb \<Rightarrow> tcp_pcb" where
  "tcp_err f p = p\<lparr>errf := f\<rparr>"

definition tcp_accept :: "string option \<Rightarrow> tcp_pcb \<Rightarrow> tcp_pcb" where
  "tcp_accept f p = p\<lparr>accept := f\<rparr>"

definition tcp_poll :: "string option \<Rightarrow> nat \<Rightarrow> tcp_pcb \<Rightarrow> tcp_pcb" where
  "tcp_poll f i p = p\<lparr>poll := f, pollinterval := i\<rparr>"

definition tcp_setprio :: "nat \<Rightarrow> tcp_pcb \<Rightarrow> tcp_pcb" where
  "tcp_setprio n p = p\<lparr>prio := n\<rparr>"

definition mem_free :: "nat \<Rightarrow> ('es, 'a) world_scheme \<Rightarrow> ('es, 'a) world_scheme" where
  "mem_free a w = w\<lparr>ess := (ess w)(a := None)\<rparr>"

definition set_es :: "nat \<Rightarrow> 'es \<Rightarrow> ('es, 'a) world_scheme \<Rightarrow> ('es, 'a) world_scheme" where
  "set_es a e w = w\<lparr>ess := (ess w)(a \<mapsto> e)\<rparr>"

text \<open>\<open>mem_malloc\<close> of a structure.\<close>

definition mem_malloc :: "('es, 'a) world_scheme \<Rightarrow> nat option \<times> ('es, 'a) world_scheme" where
  "mem_malloc w = (let (a, h) = malloc (heap w) in (a, w\<lparr>heap := h\<rparr>))"

lemma set_es_simps [simp]:
  "heap (set_es es e w) = heap w" "pcb (set_es es e w) = pcb w" "calls (set_es es e w) = calls w"
  "ess (set_es es e w) = (ess w)(es \<mapsto> e)"
  by (simp_all add: set_es_def)

lemma on_pcb_simps [simp]:
  "heap (on_pcb f w) = heap w" "pcb (on_pcb f w) = f (pcb w)" "calls (on_pcb f w) = calls w" "ess (on_pcb f w) = ess w"
  by (simp_all add: on_pcb_def)

lemma record_call_simps [simp]:
  "heap (record_call c w) = heap w" "pcb (record_call c w) = pcb w" "calls (record_call c w) = calls w @ [c]"
  "ess (record_call c w) = ess w"
  by (simp_all add: record_call_def)

lemma pbuf_cat_loop_brk: "pbuf_cat_loop h a t = Some h' \<Longrightarrow> brk h' = brk h"
  using pbuf_cat_loop.raw_induct [of "\<lambda>h a t h'. brk h' = brk h" h a t h'] by (fastforce simp: Let_def split: option.splits)

lemma pbuf_chain_kind:
  assumes "pbuf_chain (Some a) (Some t) h = Some h'"
  shows "map_option kind (cells h' c) = map_option kind (cells h c) \<and> brk h' = brk h"
proof -
  obtain h1 b where h1: "pbuf_cat_loop h a t = Some h1" "cells h1 t = Some b" "h' = put t (b\<lparr>ref := u16 (int (ref b) + 1)\<rparr>) h1"
    using assms by (auto simp: pbuf_chain_def pbuf_cat_def pbuf_ref_def elim!: bind_SomeE split: option.splits)
  have "kind (b\<lparr>ref := u16 (int (ref b) + 1)\<rparr>) = kind b" by (simp add: kind_def)
  then have "map_option kind (cells h' c) = map_option kind (cells h1 c)" using h1(2,3) by simp
  then show ?thesis using pbuf_cat_loop_kind [OF h1(1), of c] pbuf_cat_loop_brk [OF h1(1)] h1(3) by simp
qed

section \<open>The send loop\<close>

text \<open>
  After a successful write: the next buffer of the chain gets a reference of its own and the
  buffer that was written is freed. The result is the next buffer and the length written.
\<close>

definition send_step :: "nat \<Rightarrow> pheap \<Rightarrow> (nat option \<times> nat \<times> pheap) option" where
  "send_step ptr h = do {
     b \<leftarrow> cells h ptr;
     h1 \<leftarrow> pbuf_ref (nxt b) h;
     (n, h2) \<leftarrow> pbuf_free (Some ptr) h1;
     Some (nxt b, len b, h2)
   }"

text \<open>The remaining chain, the connection, the heap and the lengths written, oldest first.\<close>

partial_function (option) send_loop ::
    "(tcp_pcb \<Rightarrow> byte list option \<Rightarrow> 8 word \<Rightarrow> pheap \<Rightarrow> (err_t \<times> tcp_pcb \<times> pheap) option) \<Rightarrow>
     tcp_pcb \<Rightarrow> nat option \<Rightarrow> pheap \<Rightarrow> nat list \<Rightarrow> (nat option \<times> tcp_pcb \<times> pheap \<times> nat list) option" where
  "send_loop wr pc p h dn =
     (case p of
        None \<Rightarrow> Some (None, pc, h, dn)
      | Some ptr \<Rightarrow>
          (case cells h ptr of
             None \<Rightarrow> None
           | Some b \<Rightarrow>
               if len b \<le> tcp_sndbuf pc then
                 (case wr pc (Some (bytes b)) TCP_WRITE_FLAG_COPY h of
                    None \<Rightarrow> None
                  | Some r \<Rightarrow>
                      if fst r = ERR_OK then
                        (case send_step ptr (snd (snd r)) of
                           None \<Rightarrow> None
                         | Some s \<Rightarrow> send_loop wr (fst (snd r)) (fst s) (snd (snd s)) (dn @ [fst (snd s)]))
                      else Some (Some ptr, fst (snd r), snd (snd r), dn))
               else Some (Some ptr, pc, h, dn)))"

section \<open>References held by a chain\<close>

text \<open>
  The buffers of a chain that an application sends: the reference counts stay small, since the
  application adds at most one reference to the head and \<open>pbuf_chain\<close> one to the head of a tail.
\<close>

definition counted :: "nat \<Rightarrow> (nat \<Rightarrow> pbuf option) \<Rightarrow> nat \<Rightarrow> bool" where
  "counted k m c \<longleftrightarrow> (\<exists>b. m c = Some b \<and> 1 \<le> ref b \<and> ref b \<le> k \<and> \<not> custom b)"

fun held :: "(nat \<Rightarrow> pbuf option) \<Rightarrow> nat list \<Rightarrow> bool" where
  "held m [] \<longleftrightarrow> True"
| "held m (a # as) \<longleftrightarrow> counted 3 m a \<and> (\<forall>c\<in>set as. counted 2 m c)"

definition bump_ref :: "nat option \<Rightarrow> (nat \<Rightarrow> pbuf option) \<Rightarrow> nat \<Rightarrow> pbuf option" where
  "bump_ref p m = (case p of None \<Rightarrow> m | Some c \<Rightarrow> m(c := map_option (\<lambda>b. b\<lparr>ref := ref b + 1\<rparr>) (m c)))"

lemma counted_mono: "counted k m c \<Longrightarrow> k \<le> j \<Longrightarrow> counted j m c"
  by (auto simp: counted_def)

lemma held_frame [frame]: "(\<And>c. c \<in> set xs \<Longrightarrow> m' c = m c) \<Longrightarrow> held m' xs = held m xs"
  by (cases xs) (auto simp: counted_def)

lemma sole_counted: "sole m c \<Longrightarrow> 1 \<le> k \<Longrightarrow> counted k m c"
  by (auto simp: counted_def sole_def)

lemma sole_held: "\<forall>c\<in>set xs. sole m c \<Longrightarrow> held m xs"
  by (cases xs) (auto simp: counted_def sole_def)

lemma u16_succ: "n < 65535 \<Longrightarrow> u16 (int n + 1) = Suc n"
  by (simp add: u16_def nat_add_distrib)

lemma send_step_ok:
  assumes "packet (cells h) (Some a) (a # as)" "held (cells h) (a # as)" "cells h a = Some b"
  shows "\<exists>h'. send_step a h = Some (nxt b, len b, h') \<and> brk h' = brk h \<and>
    cells h' = (if ref b = 1 then (cells h)(a := None) else (bump_ref (nxt b) (cells h))(a \<mapsto> b\<lparr>ref := ref b - 1\<rparr>))"
proof -
  have d: "a \<notin> set as" using packet_distinct [OF assms(1)] by simp
  have b: "1 \<le> ref b" "ref b \<le> 3" "\<not> custom b" "packet (cells h) (nxt b) as"
    using assms by (auto simp: counted_def packet_Cons)
  let ?h = "h\<lparr>cells := bump_ref (nxt b) (cells h)\<rparr>"
  have nxt: "as = [] \<and> nxt b = None \<or>
      (\<exists>c cs cb. as = c # cs \<and> nxt b = Some c \<and> cells h c = Some cb \<and> 1 \<le> ref cb \<and> ref cb \<le> 2 \<and> \<not> custom cb)"
    using b(4) assms(2) by (cases as) (auto simp: packet_Cons counted_def)
  have r: "pbuf_ref (nxt b) h = Some ?h"
    using nxt by (auto simp: pbuf_ref_def bump_ref_def put_def u16_succ)
  have a: "cells ?h a = Some b" using nxt d assms(3) by (auto simp: bump_ref_def)
  have p: "packet (cells ?h) (Some a) (a # as)"
    using nxt assms(1) packet_ref(1) [OF assms(1)] by (auto simp: bump_ref_def)
  have n2: "as \<noteq> [] \<longrightarrow> shared (cells ?h) (hd as)" using nxt by (auto simp: bump_ref_def shared_def)
  have undone: "freed [a] as (cells ?h) = (cells h)(a := None)"
    using nxt d by (auto simp: freed_def bump_ref_def fun_eq_iff)
  show ?thesis
  proof (cases "ref b = 1")
    case True
    have "pbuf_free (Some a) ?h = Some (length [a], ?h\<lparr>cells := freed [a] as (cells ?h)\<rparr>)"
      using p n2 a b(3) True by (intro pbuf_free_chain [where k = 0]) (simp_all add: sole_def)
    then show ?thesis using r undone True assms(3) by (simp add: send_step_def)
  next
    case False
    have "pbuf_free (Some a) ?h = Some (length [], ?h\<lparr>cells := freed [] (a # as) (cells ?h)\<rparr>)"
      using p a b(1,2) False pbuf_free_chain [of 0 ?h "Some a" "[]" "a # as"] by (simp add: shared_def)
    moreover have "freed [] (a # as) (cells ?h) = (cells ?h)(a \<mapsto> b\<lparr>ref := ref b - 1\<rparr>)"
      using a by (auto simp: freed_def fun_eq_iff)
    ultimately show ?thesis using r False assms(3) by (simp add: send_step_def)
  qed
qed

text \<open>Buffers that differ in nothing but their reference counts.\<close>

definition body :: "pbuf \<Rightarrow> pbuf" where
  "body b = b\<lparr>ref := 0\<rparr>"

definition same_bodies :: "nat list \<Rightarrow> (nat \<Rightarrow> pbuf option) \<Rightarrow> (nat \<Rightarrow> pbuf option) \<Rightarrow> bool" where
  "same_bodies xs m' m \<longleftrightarrow> (\<forall>c\<in>set xs. map_option body (m' c) = map_option body (m c))"

definition lens :: "(nat \<Rightarrow> pbuf option) \<Rightarrow> nat list \<Rightarrow> nat list" where
  "lens m xs = map (\<lambda>c. case m c of None \<Rightarrow> 0 | Some b \<Rightarrow> len b) xs"

lemma lens_sum: "sum_list (lens m xs) = sumlen m xs"
  by (induction xs) (auto simp: lens_def)

lemma body_eqD:
  assumes "body b' = body b"
  shows "len b' = len b" "bytes b' = bytes b" "nxt b' = nxt b" "tot_len b' = tot_len b" "pay b' = pay b" "mem b' = mem b" "custom b' = custom b"
  using assms by (cases b; cases b'; simp add: body_def bytes_def)+

lemma body_ref [simp]: "body (b\<lparr>ref := r\<rparr>) = body b"
  by (simp add: body_def)

lemma same_bodies_refl [simp]: "same_bodies xs m m"
  by (simp add: same_bodies_def)

lemma same_body_cell:
  assumes "map_option body (m' a) = map_option body (m a)"
  obtains "m a = None" "m' a = None"
  | b b' where "m a = Some b" "m' a = Some b'" "len b' = len b" "bytes b' = bytes b" "nxt b' = nxt b" "tot_len b' = tot_len b"
      "pay b' = pay b" "mem b' = mem b" "custom b' = custom b"
proof (cases "m a")
  case None
  then show ?thesis using assms that(1) by simp
next
  case (Some b)
  then obtain b' where b': "m' a = Some b'" "body b' = body b" using assms by auto
  from that(2) [OF Some b'(1)] body_eqD [OF b'(2)] show ?thesis by blast
qed

lemma same_bodies_content:
  assumes "same_bodies xs m' m"
  shows "content m' xs = content m xs" "sumlen m' xs = sumlen m xs" "lens m' xs = lens m xs"
proof -
  have "content m' xs = content m xs \<and> sumlen m' xs = sumlen m xs \<and> lens m' xs = lens m xs"
    using assms
  proof (induction xs)
    case (Cons a xs)
    then have a: "map_option body (m' a) = map_option body (m a)" and xs: "same_bodies xs m' m" by (simp_all add: same_bodies_def)
    show ?case using a Cons.IH [OF xs] by (cases rule: same_body_cell) (simp_all add: lens_def)
  qed (simp add: lens_def)
  then show "content m' xs = content m xs" "sumlen m' xs = sumlen m xs" "lens m' xs = lens m xs" by simp_all
qed

lemma same_bodies_chain:
  assumes "same_bodies xs m' m"
  shows "pchain k m' p xs = pchain k m p xs"
  using assms
proof (induction xs arbitrary: p)
  case (Cons a xs)
  then have a: "map_option body (m' a) = map_option body (m a)" and xs: "same_bodies xs m' m" by (simp_all add: same_bodies_def)
  show ?case using a Cons.IH [OF xs] same_bodies_content(2) [OF xs] by (cases rule: same_body_cell) (auto simp: packet_Cons)
qed simp

lemma same_bodies_trans [trans]: "\<lbrakk>same_bodies xs m2 m1; same_bodies xs m1 m\<rbrakk> \<Longrightarrow> same_bodies xs m2 m"
  by (simp add: same_bodies_def)

lemma same_bodies_append: "same_bodies (xs @ ys) m' m \<longleftrightarrow> same_bodies xs m' m \<and> same_bodies ys m' m"
  by (auto simp: same_bodies_def)

lemma bump_ref_same: "same_bodies xs (bump_ref p m) m"
  by (auto simp: same_bodies_def bump_ref_def option.map_comp comp_def split: option.splits)

lemma bump_ref_chain:
  assumes "packet m p as" "\<forall>c\<in>set as. counted 2 m c"
  shows "held (bump_ref p m) as" "\<And>c. c \<notin> set as \<Longrightarrow> bump_ref p m c = m c" "as \<noteq> [] \<longrightarrow> shared (bump_ref p m) (hd as)"
proof -
  show "held (bump_ref p m) as"
    using assms packet_distinct [OF assms(1)] by (cases as) (auto simp: bump_ref_def packet_Cons counted_def)
  show "\<And>c. c \<notin> set as \<Longrightarrow> bump_ref p m c = m c"
    using assms(1) by (cases as) (auto simp: bump_ref_def packet_Cons)
  show "as \<noteq> [] \<longrightarrow> shared (bump_ref p m) (hd as)"
    using assms by (cases as) (auto simp: packet_Cons bump_ref_def shared_def counted_def)
qed

text \<open>The rest of the chain after a step.\<close>

lemma send_step_rest:
  assumes "packet (cells h) (Some a) (a # as)" "held (cells h) (a # as)" "cells h a = Some b"
  shows "\<exists>h'. send_step a h = Some (nxt b, len b, h') \<and> brk h' = brk h \<and> same_bodies as (cells h') (cells h) \<and> held (cells h') as \<and>
    (\<forall>c. c \<notin> set (a # as) \<longrightarrow> cells h' c = cells h c) \<and> (cells h' a = None \<longleftrightarrow> ref b = 1) \<and>
    (ref b = 1 \<longrightarrow> (\<forall>c\<in>set as. cells h' c = cells h c)) \<and>
    (ref b \<noteq> 1 \<and> as \<noteq> [] \<longrightarrow> shared (cells h') (hd as)) \<and> (\<forall>c\<in>set as. shared (cells h) c \<longrightarrow> shared (cells h') c)"
proof -
  obtain h' where h': "send_step a h = Some (nxt b, len b, h')" "brk h' = brk h"
    "cells h' = (if ref b = 1 then (cells h)(a := None) else (bump_ref (nxt b) (cells h))(a \<mapsto> b\<lparr>ref := ref b - 1\<rparr>))"
    using send_step_ok [OF assms] by blast
  have d: "a \<notin> set as" using packet_distinct [OF assms(1)] by simp
  have p: "packet (cells h) (nxt b) as" and c2: "\<forall>c\<in>set as. counted 2 (cells h) c"
    using assms by (auto simp: packet_Cons)
  note br = bump_ref_chain [OF p c2] and sb = bump_ref_same [of as "nxt b" "cells h"]
  have hd: "held (cells h) as" using c2 by (cases as) (auto intro: counted_mono)
  show ?thesis
  proof (cases "ref b = 1")
    case True
    then have eq: "\<forall>c\<in>set as. cells h' c = cells h c" using h'(3) d by auto
    then have "held (cells h') as" using held_frame [of as "cells h'" "cells h"] hd by blast
    moreover have "\<forall>c\<in>set as. shared (cells h) c \<longrightarrow> shared (cells h') c" using eq by (simp add: shared_def)
    ultimately show ?thesis using h' True eq by (auto simp: same_bodies_def)
  next
    case False
    then have c: "\<forall>c\<in>set as. cells h' c = bump_ref (nxt b) (cells h) c" using h'(3) d by auto
    then have "held (cells h') as" using held_frame [of as "cells h'" "bump_ref (nxt b) (cells h)"] br(1) by blast
    moreover have "same_bodies as (cells h') (cells h)" using c sb by (simp add: same_bodies_def)
    moreover have "as \<noteq> [] \<longrightarrow> shared (cells h') (hd as)" using c br(3) by (simp add: shared_def)
    moreover have "\<forall>c\<in>set as. shared (cells h) c \<longrightarrow> shared (cells h') c"
    proof (intro ballI impI)
      fix d assume d: "d \<in> set as" "shared (cells h) d"
      then have "counted 2 (cells h) d" using c2 by blast
      then have "shared (bump_ref (nxt b) (cells h)) d" using d(2) by (auto simp: bump_ref_def shared_def counted_def split: option.splits)
      then show "shared (cells h') d" using c d(1) by (simp add: shared_def)
    qed
    ultimately show ?thesis using h' br(2) False by auto
  qed
qed

section \<open>The loop\<close>

text \<open>Why the loop has stopped at the buffer \<open>a\<close>: it does not fit the send buffer, or the last write failed.\<close>

definition stopped ::
    "(tcp_pcb \<Rightarrow> byte list option \<Rightarrow> 8 word \<Rightarrow> pheap \<Rightarrow> (err_t \<times> tcp_pcb \<times> pheap) option) \<Rightarrow> tcp_pcb \<Rightarrow> pheap \<Rightarrow> nat \<Rightarrow> bool" where
  "stopped wr pc h a \<longleftrightarrow> (\<exists>b. cells h a = Some b \<and>
     (tcp_sndbuf pc < len b \<or> (\<exists>e pc0 h0. wr pc0 (Some (bytes b)) TCP_WRITE_FLAG_COPY h0 = Some (e, pc, h) \<and> e \<noteq> ERR_OK)))"

text \<open>
  What the loop has done when it has written the buffers \<open>ys\<close> of the chain \<open>ys @ zs\<close>: the
  connection has queued their bytes in the buffers \<open>X'\<close>, and every other buffer is as it was.
\<close>

definition chain_sent ::
    "(pheap \<Rightarrow> tcp_pcb \<Rightarrow> nat set \<Rightarrow> byte list \<Rightarrow> bool) \<Rightarrow> pheap \<Rightarrow> nat set \<Rightarrow> byte list \<Rightarrow> nat list \<Rightarrow> nat list \<Rightarrow>
     nat option \<Rightarrow> tcp_pcb \<Rightarrow> pheap \<Rightarrow> nat set \<Rightarrow> bool" where
  "chain_sent queued h X bs ys zs p' pc' h' X' \<longleftrightarrow>
     heap_ok h' \<and> queued h' pc' X' (bs @ content (cells h) ys) \<and> packet (cells h') p' zs \<and>
     same_bodies zs (cells h') (cells h) \<and> held (cells h') zs \<and> set zs \<inter> X' = {} \<and>
     X \<subseteq> X' \<and> (\<forall>c. c \<notin> X' \<union> set (ys @ zs) \<longrightarrow> cells h' c = cells h c) \<and>
     (\<forall>c\<in>X'. c \<in> X \<or> c \<in> set ys \<or> cells h c = None)"

text \<open>
  What one turn of the loop has done that has written the first buffer \<open>a\<close> (the record \<open>b\<close>) of the
  chain \<open>a # as\<close> and freed it.
\<close>

definition one_sent ::
    "(pheap \<Rightarrow> tcp_pcb \<Rightarrow> nat set \<Rightarrow> byte list \<Rightarrow> bool) \<Rightarrow> pheap \<Rightarrow> nat set \<Rightarrow> byte list \<Rightarrow> nat \<Rightarrow> pbuf \<Rightarrow> nat list \<Rightarrow>
     tcp_pcb \<Rightarrow> pheap \<Rightarrow> nat set \<Rightarrow> bool" where
  "one_sent queued h X bs a b as pc' h' X' \<longleftrightarrow>
     cells h a = Some b \<and> a \<notin> set as \<and> heap_ok h' \<and> queued h' pc' X' (bs @ bytes b) \<and> X \<subseteq> X' \<and> set (a # as) \<inter> X' = {} \<and>
     same_bodies as (cells h') (cells h) \<and> held (cells h') as \<and> (\<forall>c. c \<notin> X' \<union> set (a # as) \<longrightarrow> cells h' c = cells h c) \<and>
     (\<forall>c\<in>X'. c \<in> X \<or> cells h c = None) \<and> (\<forall>c. cells h' c = None \<longrightarrow> c = a \<or> cells h c = None) \<and>
     (cells h' a = None \<longleftrightarrow> ref b = 1) \<and> (ref b = 1 \<longrightarrow> (\<forall>c\<in>set as. cells h' c = cells h c)) \<and>
     (ref b \<noteq> 1 \<and> as \<noteq> [] \<longrightarrow> shared (cells h') (hd as)) \<and> (\<forall>c\<in>set as. shared (cells h) c \<longrightarrow> shared (cells h') c)"

lemma chain_sent_Cons:
  assumes turn: "one_sent queued h X bs a b (ys @ zs) pc1 h2 X1" and c: "chain_sent queued h2 X1 (bs @ bytes b) ys zs p' pc' h' X'"
  shows "chain_sent queued h X bs (a # ys) zs p' pc' h' X'" "lens (cells h2) ys = lens (cells h) ys"
proof -
  note os = turn [unfolded one_sent_def] and cs = c [unfolded chain_sent_def]
  have sy: "same_bodies ys (cells h2) (cells h)" "same_bodies zs (cells h2) (cells h)" using os by (simp_all add: same_bodies_append)
  have ln: "lens (cells h2) ys = lens (cells h) ys" "content (cells h2) ys = content (cells h) ys"
    using same_bodies_content [OF sy(1)] by simp_all
  then show "lens (cells h2) ys = lens (cells h) ys" by simp
  have sub: "\<forall>c\<in>X'. c \<in> X1 \<or> c \<in> set ys \<or> cells h2 c = None" using cs by (elim conjE)
  have prior: "\<forall>c\<in>X1. c \<in> X \<or> cells h c = None" using os by (elim conjE)
  have gone: "\<forall>c. cells h2 c = None \<longrightarrow> c = a \<or> cells h c = None" using os by (elim conjE)
  show "chain_sent queued h X bs (a # ys) zs p' pc' h' X'"
    unfolding chain_sent_def
  proof (intro conjI)
    show "queued h' pc' X' (bs @ content (cells h) (a # ys))" using cs ln(2) os by simp
    show "same_bodies zs (cells h') (cells h)" using cs sy(2) same_bodies_trans by blast
    show "X \<subseteq> X'" using os cs by blast
    show "\<forall>c. c \<notin> X' \<union> set ((a # ys) @ zs) \<longrightarrow> cells h' c = cells h c" using cs os by auto
    show "\<forall>c\<in>X'. c \<in> X \<or> c \<in> set (a # ys) \<or> cells h c = None"
    proof
      fix c assume "c \<in> X'"
      with sub have "c \<in> X1 \<or> c \<in> set ys \<or> cells h2 c = None" by (rule bspec)
      then show "c \<in> X \<or> c \<in> set (a # ys) \<or> cells h c = None" using prior spec [OF gone, of c] by auto
    qed
  qed (use cs in simp_all)
qed

lemma chain_sent_first:
  assumes "one_sent queued h X bs a b (ys @ zs) pc1 h2 X1" "chain_sent queued h2 X1 (bs @ bytes b) ys zs p' pc' h' X'"
  shows "a \<notin> X' \<longrightarrow> cells h' a = cells h2 a" "a \<in> X' \<longrightarrow> cells h2 a = None"
proof -
  have a: "a \<notin> set ys" "a \<notin> set zs" "a \<notin> X1" using assms(1) by (auto simp: one_sent_def)
  note cs = assms(2) [unfolded chain_sent_def]
  have "\<forall>c. c \<notin> X' \<union> set (ys @ zs) \<longrightarrow> cells h' c = cells h2 c" using cs by (elim conjE)
  moreover have "\<forall>c\<in>X'. c \<in> X1 \<or> c \<in> set ys \<or> cells h2 c = None" using cs by (elim conjE)
  ultimately show "a \<notin> X' \<longrightarrow> cells h' a = cells h2 a" "a \<in> X' \<longrightarrow> cells h2 a = None" using a by auto
qed

text \<open>Buffers of the application alone are freed or taken over; a buffer somebody else refers to stays, with all behind it.\<close>

lemma sole_sent_Cons:
  assumes "one_sent queued h X bs a b (ys @ zs) pc1 h2 X1" "chain_sent queued h2 X1 (bs @ bytes b) ys zs p' pc' h' X'"
    "(\<forall>c\<in>set (ys @ zs). sole (cells h2) c) \<longrightarrow> (\<forall>c\<in>set ys. c \<in> X' \<or> cells h' c = None) \<and> (\<forall>c\<in>set zs. sole (cells h') c)"
    "\<forall>c\<in>set (a # ys @ zs). sole (cells h) c"
  shows "(\<forall>c\<in>set (a # ys). c \<in> X' \<or> cells h' c = None) \<and> (\<forall>c\<in>set zs. sole (cells h') c)"
proof -
  have r: "ref b = 1" using assms(1,4) by (simp add: one_sent_def sole_def)
  then have "\<forall>c\<in>set (ys @ zs). sole (cells h2) c" "cells h2 a = None" using assms(1,4) by (simp_all add: one_sent_def sole_def)
  then show ?thesis using assms(3) chain_sent_first [OF assms(1,2)] by auto
qed

lemma shared_sent_Cons:
  assumes "one_sent queued h X bs a b (ys @ zs) pc1 h2 X1" "chain_sent queued h2 X1 (bs @ bytes b) ys zs p' pc' h' X'"
    "\<forall>us vs. ys @ zs = us @ vs \<and> vs \<noteq> [] \<and> shared (cells h2) (hd vs) \<longrightarrow> (\<forall>c\<in>set vs \<inter> set ys. c \<notin> X' \<and> cells h' c \<noteq> None)"
    "a # ys @ zs = us @ vs" "vs \<noteq> []" "shared (cells h) (hd vs)"
  shows "\<forall>c\<in>set vs \<inter> set (a # ys). c \<notin> X' \<and> cells h' c \<noteq> None"
proof (cases us)
  case Nil
  then have vs: "vs = a # ys @ zs" using assms(4) by simp
  then have r: "ref b \<noteq> 1" using assms(1,6) by (simp add: one_sent_def shared_def)
  then have na: "cells h2 a \<noteq> None" and n: "ys @ zs \<noteq> [] \<longrightarrow> shared (cells h2) (hd (ys @ zs))"
    using assms(1) unfolding one_sent_def by simp_all
  have "\<forall>c\<in>set ys. c \<notin> X' \<and> cells h' c \<noteq> None"
    using spec [OF spec [OF assms(3)], of "[]" "ys @ zs"] n by (cases "ys @ zs = []") auto
  then show ?thesis using chain_sent_first [OF assms(1,2)] na by auto
next
  case (Cons u us')
  then have as: "ys @ zs = us' @ vs" using assms(4) by simp
  then have "hd vs \<in> set (ys @ zs)" using assms(5) by simp
  then have "shared (cells h2) (hd vs)" using assms(1,6) by (simp add: one_sent_def)
  then have "\<forall>c\<in>set vs \<inter> set ys. c \<notin> X' \<and> cells h' c \<noteq> None" using assms(3,5) as by blast
  moreover have "a \<notin> set vs" using assms(1) unfolding one_sent_def as by simp
  ultimately show ?thesis by auto
qed

context send_api
begin

lemma send_turn:
  assumes "heap_ok h" "queued h pc X bs" "packet (cells h) p (a # as)" "set (a # as) \<inter> X = {}" "held (cells h) (a # as)"
    "cells h a = Some b" "len b \<le> tcp_sndbuf pc" "wr pc (Some (bytes b)) TCP_WRITE_FLAG_COPY h = Some (ERR_OK, pc1, h1)"
  shows "\<exists>h2 X1. send_loop wr pc p h dn = send_loop wr pc1 (nxt b) h2 (dn @ [len b]) \<and> one_sent queued h X bs a b as pc1 h2 X1"
proof -
  have b: "p = Some a" "packet (cells h) (nxt b) as" using assms(3,6) by (auto simp: packet_Cons)
  have a: "a \<notin> set as" using packet_distinct [OF assms(3)] by simp
  from write_outcome [OF assms(1,2), of "bytes b"] assms(8) obtain X1 where
    X1: "heap_ok h1" "queued h1 pc1 X1 (bs @ bytes b)" "X \<subseteq> X1" "\<forall>c. c \<notin> X1 \<longrightarrow> cells h1 c = cells h c" "\<forall>c\<in>X1. c \<in> X \<or> cells h c = None" by auto
  have out: "set (a # as) \<inter> X1 = {}" using X1(5) assms(3,4) packet_cells [OF assms(3)] by fastforce
  then have same: "\<And>c. c \<in> set (a # as) \<Longrightarrow> cells h1 c = cells h c" using X1(4) by blast
  have h1: "packet (cells h1) (Some a) (a # as)" "held (cells h1) (a # as)" "cells h1 a = Some b"
    using assms(3,5,6) b packet_frame [of "a # as" "cells h1" "cells h", OF same]
      held_frame [of "a # as" "cells h1" "cells h", OF same] same by auto
  from send_step_rest [OF h1] obtain h2 where h2: "send_step a h1 = Some (nxt b, len b, h2)" "brk h2 = brk h1"
    "same_bodies as (cells h2) (cells h1)" "held (cells h2) as"
    "\<forall>c. c \<notin> set (a # as) \<longrightarrow> cells h2 c = cells h1 c" "cells h2 a = None \<longleftrightarrow> ref b = 1"
    "ref b = 1 \<longrightarrow> (\<forall>c\<in>set as. cells h2 c = cells h1 c)" "ref b \<noteq> 1 \<and> as \<noteq> [] \<longrightarrow> shared (cells h2) (hd as)" "\<forall>c\<in>set as. shared (cells h1) c \<longrightarrow> shared (cells h2) c"
    by (elim exE conjE) (rule that)
  have step: "send_loop wr pc p h dn = send_loop wr pc1 (nxt b) h2 (dn @ [len b])" using b assms(6-8) h2(1) by (subst send_loop.simps) simp
  have q2: "queued h2 pc1 X1 (bs @ bytes b)" using out h2(5) by (intro queued_frame [OF X1(2)]) blast
  have ok2: "heap_ok h2" using X1(1) h2(2,5) packet_cells [OF h1(1)] unfolding heap_ok_def by (metis option.distinct(1))
  have sb: "same_bodies as (cells h2) (cells h)" using h2(3) same by (simp add: same_bodies_def)
  have p2: "packet (cells h2) (nxt b) as" using same_bodies_chain [OF sb] b(2) by simp
  have gone: "c = a \<or> cells h c = None" if "cells h2 c = None" for c
  proof -
    have "c \<notin> set as" using that packet_cells [OF p2] by fastforce
    then have "c = a \<or> cells h1 c = None" using that h2(5) by auto
    moreover have "cells h1 c = None \<Longrightarrow> cells h c = None" using queued_cells [OF X1(2)] X1(4) by metis
    ultimately show ?thesis by auto
  qed
  have "one_sent queued h X bs a b as pc1 h2 X1"
    unfolding one_sent_def
  proof (intro conjI)
    show "\<forall>c. c \<notin> X1 \<union> set (a # as) \<longrightarrow> cells h2 c = cells h c" using X1(4) h2(5) by auto
    show "\<forall>c. cells h2 c = None \<longrightarrow> c = a \<or> cells h c = None" using gone by blast
    show "ref b = 1 \<longrightarrow> (\<forall>c\<in>set as. cells h2 c = cells h c)" using h2(7) same by simp
    show "\<forall>c\<in>set as. shared (cells h) c \<longrightarrow> shared (cells h2) c" using h2(9) same by (simp add: shared_def)
  qed (fact assms a ok2 q2 X1 out sb h2)+
  then show ?thesis using step by blast
qed

lemma send_loop_sends:
  assumes "heap_ok h" "queued h pc X bs" "packet (cells h) p xs" "set xs \<inter> X = {}" "held (cells h) xs"
  shows "\<exists>p' pc' h' X' ys zs. send_loop wr pc p h dn = Some (p', pc', h', dn @ lens (cells h) ys) \<and> xs = ys @ zs \<and>
    chain_sent queued h X bs ys zs p' pc' h' X' \<and> (zs \<noteq> [] \<longrightarrow> stopped wr pc' h' (hd zs)) \<and>
    ((\<forall>c\<in>set xs. sole (cells h) c) \<longrightarrow> (\<forall>c\<in>set ys. c \<in> X' \<or> cells h' c = None) \<and> (\<forall>c\<in>set zs. sole (cells h') c)) \<and>
    (\<forall>us vs. xs = us @ vs \<and> vs \<noteq> [] \<and> shared (cells h) (hd vs) \<longrightarrow> (\<forall>c\<in>set vs \<inter> set ys. c \<notin> X' \<and> cells h' c \<noteq> None))"
  using assms
proof (induction xs arbitrary: h pc X bs p dn)
  case Nil
  then have "send_loop wr pc p h dn = Some (None, pc, h, dn)" by (subst send_loop.simps) simp
  with Nil show ?case
    by (intro exI [of _ None] exI [of _ pc] exI [of _ h] exI [of _ X] exI [of _ "[]"]) (auto simp: chain_sent_def lens_def)
next
  case (Cons a as)
  obtain b where b: "p = Some a" "cells h a = Some b" "packet (cells h) (nxt b) as" using Cons.prems(3) by (auto simp: packet_Cons)
  from write_outcome [OF Cons.prems(1,2), of "bytes b"] obtain e pc1 h1 where w:
    "wr pc (Some (bytes b)) TCP_WRITE_FLAG_COPY h = Some (e, pc1, h1)" "heap_ok h1" "e \<noteq> ERR_OK \<Longrightarrow> queued h1 pc1 X bs \<and> cells h1 = cells h" by auto
  show ?case
  proof (cases "len b \<le> tcp_sndbuf pc \<and> e = ERR_OK")
    case False
    let ?pc = "if len b \<le> tcp_sndbuf pc then pc1 else pc" and ?h = "if len b \<le> tcp_sndbuf pc then h1 else h"
    have "send_loop wr pc p h dn = Some (p, ?pc, ?h, dn)" using b False w by (subst send_loop.simps) auto
    moreover have "stopped wr ?pc ?h a" using False w b by (auto simp: stopped_def)
    moreover have "chain_sent queued h X bs [] (a # as) p ?pc ?h X" "cells ?h = cells h" using False w Cons.prems by (auto simp: chain_sent_def)
    ultimately show ?thesis
      by (intro exI [of _ p] exI [of _ ?pc] exI [of _ ?h] exI [of _ X] exI [of _ "[]"] exI [of _ "a # as"]) (simp add: lens_def)
  next
    case True
    with w(1) send_turn [OF Cons.prems b(2), of pc1 h1 dn] obtain h2 X1 where
      t: "send_loop wr pc p h dn = send_loop wr pc1 (nxt b) h2 (dn @ [len b])" "one_sent queued h X bs a b as pc1 h2 X1" by auto
    have s: "heap_ok h2" "queued h2 pc1 X1 (bs @ bytes b)" "set as \<inter> X1 = {}" "held (cells h2) as" "same_bodies as (cells h2) (cells h)"
      using t(2) by (auto simp: one_sent_def)
    have p2: "packet (cells h2) (nxt b) as" using same_bodies_chain [OF s(5)] b(3) by simp
    from Cons.IH [OF s(1,2) p2 s(3,4), of "dn @ [len b]"] obtain p' pc' h' X' ys zs where ih:
      "send_loop wr pc1 (nxt b) h2 (dn @ [len b]) = Some (p', pc', h', (dn @ [len b]) @ lens (cells h2) ys)" "as = ys @ zs"
      "chain_sent queued h2 X1 (bs @ bytes b) ys zs p' pc' h' X'" "zs \<noteq> [] \<longrightarrow> stopped wr pc' h' (hd zs)"
      "(\<forall>c\<in>set as. sole (cells h2) c) \<longrightarrow> (\<forall>c\<in>set ys. c \<in> X' \<or> cells h' c = None) \<and> (\<forall>c\<in>set zs. sole (cells h') c)"
      "\<forall>us vs. as = us @ vs \<and> vs \<noteq> [] \<and> shared (cells h2) (hd vs) \<longrightarrow> (\<forall>c\<in>set vs \<inter> set ys. c \<notin> X' \<and> cells h' c \<noteq> None)"
      by (elim exE conjE) (rule that)
    note t2 = t(2) [unfolded ih(2)]
    note r = chain_sent_Cons [OF t2 ih(3)] sole_sent_Cons [OF t2 ih(3) ih(5) [unfolded ih(2)]] shared_sent_Cons [OF t2 ih(3) ih(6) [unfolded ih(2)]]
    have "send_loop wr pc p h dn = Some (p', pc', h', dn @ lens (cells h) (a # ys))" using t(1) ih(1) r(2) b(2) by (simp add: lens_def)
    then show ?thesis using r(1,3,4) ih(2,4)
      by (intro exI [of _ p'] exI [of _ pc'] exI [of _ h'] exI [of _ X'] exI [of _ "a # ys"] exI [of _ zs]) auto
  qed
qed

end

section \<open>Callbacks of a connection\<close>

text \<open>\<open>tcp_write\<close> leaves the callbacks alone.\<close>

definition callbacks :: "tcp_pcb \<Rightarrow> nat option \<times> string option \<times> string option \<times> string option \<times> string option \<times> nat" where
  "callbacks p = (callback_arg p, recv p, sent p, poll p, errf p, pollinterval p)"

lemma callbacks_mark [simp]: "callbacks (mark f p) = callbacks p"
  by (simp add: callbacks_def mark_def)

lemma write_commit_callbacks:
  "write_commit pc n fl touched used concat_p ql ov queue h = Some (e, pc', h') \<Longrightarrow> callbacks pc' = callbacks pc"
  unfolding write_commit_def by (erule bind_SomeE) (auto simp: callbacks_def)

lemma write_memerr_callbacks: "write_memerr pc concat_p queue h = Some (e, pc', h') \<Longrightarrow> callbacks pc' = callbacks pc"
  unfolding write_memerr_def by (auto elim!: bind_SomeE split: prod.splits)

lemma write_rest_callbacks:
  "write_rest pc data fl mx i ql ov touched used concat_p h = Some (e, pc', h') \<Longrightarrow> callbacks pc' = callbacks pc"
  unfolding write_rest_def
  by (erule bind_SomeE) (auto split: if_splits prod.splits dest: write_commit_callbacks write_memerr_callbacks)

lemma write_checks_callbacks: "tcp_write_checks pc n = (e, pc') \<Longrightarrow> callbacks pc' = callbacks pc"
  by (auto simp: tcp_write_checks_def split: if_splits)

lemma tcp_write_callbacks:
  assumes "tcp_write pc arg fl h = Some (e, pc', h')"
  shows "callbacks pc' = callbacks pc"
proof (cases arg)
  case None
  then show ?thesis using assms by (simp add: tcp_write_def)
next
  case (Some data)
  obtain er pc1 where c: "tcp_write_checks pc (length data) = (er, pc1)" by fastforce
  show ?thesis
  proof (cases "er = ERR_OK \<and> unsent pc \<noteq> []")
    case False
    then show ?thesis
      using assms Some c write_checks_callbacks [OF c]
      by (auto simp: tcp_write_def Let_def split: if_splits dest: write_rest_callbacks)
  next
    case True
    then show ?thesis
      using assms Some c unfolding tcp_write_def Let_def
      by (auto split: if_splits option.splits prod.splits elim!: bind_SomeE dest: write_rest_callbacks write_memerr_callbacks)
  qed
qed

lemma send_loop_callbacks:
  assumes "send_loop tcp_write pc p h dn = Some (p', pc', h', dn')"
  shows "callbacks pc' = callbacks pc"
proof -
  have "callbacks (fst (snd r)) = callbacks pc" if "send_loop tcp_write pc p h dn = Some r" for r
  proof -
    have "wr = tcp_write \<longrightarrow> callbacks (fst (snd r)) = callbacks pc" if "send_loop wr pc p h dn = Some r" for wr
      using that
    proof (rule send_loop.raw_induct [of "\<lambda>wr pc p h dn r. wr = tcp_write \<longrightarrow> callbacks (fst (snd r)) = callbacks pc", rotated], goal_cases)
      case (1 f wr pc p h dn r)
      show ?case
      proof
        assume wr: "wr = tcp_write"
        show "callbacks (fst (snd r)) = callbacks pc"
        proof (cases p)
          case None
          then show ?thesis using 1(2) by auto
        next
          case (Some ptr)
          then obtain b where b: "cells h ptr = Some b" using 1(2) by (auto split: option.splits)
          show ?thesis
          proof (cases "len b \<le> tcp_sndbuf pc")
            case False
            then show ?thesis using 1(2) Some b by auto
          next
            case True
            then obtain e pc1 h1 where w: "tcp_write pc (Some (bytes b)) TCP_WRITE_FLAG_COPY h = Some (e, pc1, h1)"
              using 1(2) Some b wr by (auto split: option.splits)
            show ?thesis
            proof (cases "e = ERR_OK")
              case False
              then show ?thesis using 1(2) Some b wr w True tcp_write_callbacks [OF w] by auto
            next
              case ok: True
              then obtain t where "f tcp_write pc1 (fst t) (snd (snd t)) (dn @ [fst (snd t)]) = Some r"
                using 1(2) Some b wr w True by (auto split: option.splits)
              from 1(1) [OF this] show ?thesis using tcp_write_callbacks [OF w] by simp
            qed
          qed
        qed
      qed
    qed
    with that show ?thesis by simp
  qed
  from this [OF assms] show ?thesis by simp
qed

section \<open>A chain waiting to be sent\<close>

definition waiting :: "('es, 'a) world_scheme \<Rightarrow> nat option \<Rightarrow> nat set \<Rightarrow> byte list \<Rightarrow> nat list \<Rightarrow> bool" where
  "waiting w p X bs xs \<longleftrightarrow> heap_ok (heap w) \<and> unsent_bytes (heap w) (pcb w) X bs \<and>
     packet (cells (heap w)) p xs \<and> held (cells (heap w)) xs \<and> set xs \<inter> X = {}"

abbreviation pending :: "('es, 'a) world_scheme \<Rightarrow> nat list \<Rightarrow> byte list" where
  "pending w xs \<equiv> content (cells (heap w)) xs"

text \<open>
  The send loop hands a prefix of the chain to the connection; it stops only where \<open>tcp_write\<close> or
  the send buffer stops it. Buffers with one reference each are released, and those behind a
  buffer with a reference too many are not.
\<close>

lemma waiting_sends:
  assumes "waiting w p X bs xs"
  obtains p' pc h X' ys zs where
    "send_loop tcp_write (pcb w) p (heap w) [] = Some (p', pc, h, lens (cells (heap w)) ys)" "xs = ys @ zs"
    "waiting (w\<lparr>heap := h, pcb := pc\<rparr>) p' X' (bs @ pending w ys) zs" "content (cells h) zs = pending w zs" "callbacks pc = callbacks (pcb w)"
    "zs \<noteq> [] \<longrightarrow> stopped tcp_write pc h (hd zs)"
    "(\<forall>c\<in>set xs. sole (cells (heap w)) c) \<longrightarrow> (\<forall>c\<in>set ys. c \<in> X' \<or> cells h c = None) \<and> (\<forall>c\<in>set zs. sole (cells h) c)"
    "\<forall>us vs. xs = us @ vs \<and> vs \<noteq> [] \<and> shared (cells (heap w)) (hd vs) \<longrightarrow> (\<forall>c\<in>set vs \<inter> set ys. c \<notin> X' \<and> cells h c \<noteq> None)"
    "\<forall>c. c \<notin> X' \<union> set xs \<longrightarrow> cells h c = cells (heap w) c" "\<forall>c\<in>X'. c \<in> X \<or> c \<in> set ys \<or> cells (heap w) c = None"
proof -
  note s = assms [unfolded waiting_def]
  from s have "heap_ok (heap w)" "unsent_bytes (heap w) (pcb w) X bs" "packet (cells (heap w)) p xs" "set xs \<inter> X = {}"
    "held (cells (heap w)) xs" by simp_all
  from tcp.send_loop_sends [OF this, of "[]", unfolded append_Nil] obtain p' pc' h' X' ys zs where r:
    "send_loop tcp_write (pcb w) p (heap w) [] = Some (p', pc', h', lens (cells (heap w)) ys)" "xs = ys @ zs"
    "chain_sent unsent_bytes (heap w) X bs ys zs p' pc' h' X'" "zs \<noteq> [] \<longrightarrow> stopped tcp_write pc' h' (hd zs)"
    "(\<forall>c\<in>set xs. sole (cells (heap w)) c) \<longrightarrow> (\<forall>c\<in>set ys. c \<in> X' \<or> cells h' c = None) \<and> (\<forall>c\<in>set zs. sole (cells h') c)"
    "\<forall>us vs. xs = us @ vs \<and> vs \<noteq> [] \<and> shared (cells (heap w)) (hd vs) \<longrightarrow> (\<forall>c\<in>set vs \<inter> set ys. c \<notin> X' \<and> cells h' c \<noteq> None)"
    by (elim exE conjE) (rule that)
  have "waiting (w\<lparr>heap := h', pcb := pc'\<rparr>) p' X' (bs @ pending w ys) zs" using r(3) by (simp add: waiting_def chain_sent_def)
  moreover have "content (cells h') zs = content (cells (heap w)) zs"
    using r(3) same_bodies_content(1) unfolding chain_sent_def by blast
  moreover have "\<forall>c. c \<notin> X' \<union> set xs \<longrightarrow> cells h' c = cells (heap w) c" "\<forall>c\<in>X'. c \<in> X \<or> c \<in> set ys \<or> cells (heap w) c = None"
    using r(2,3) unfolding chain_sent_def by simp_all
  ultimately show ?thesis using r send_loop_callbacks [OF r(1)] by (intro that [of p' pc' h' ys zs X']) simp_all
qed

text \<open>A packet of which nobody else knows can be freed beside the chain.\<close>

lemma waiting_free:
  assumes "waiting w p X bs xs" "packet (cells (heap w)) (Some q) ys" "\<forall>c\<in>set ys. sole (cells (heap w)) c" "length ys < 256"
    "set ys \<inter> X = {}" "set xs \<inter> set ys = {}"
  shows "\<exists>n h. pbuf_free (Some q) (heap w) = Some (n, h) \<and> waiting (w\<lparr>heap := h\<rparr>) p X bs xs \<and> content (cells h) xs = pending w xs \<and>
    cells h = cells (heap w) |` (- set ys)"
proof -
  note s = assms(1) [unfolded waiting_def]
  let ?h = "(heap w)\<lparr>cells := cells (heap w) |` (- set ys)\<rparr>"
  have free: "pbuf_free (Some q) (heap w) = Some (length ys, ?h)"
    using pbuf_free_chain [of 0 "heap w" "Some q" ys "[]"] assms(2-4) by (simp add: freed_all)
  have eq: "cells ?h c = cells (heap w) c" if "c \<in> set xs \<union> X" for c using that assms(5,6) by (auto simp: restrict_map_def)
  have "unsent_bytes ?h (pcb w) X bs" by (rule tcp.queued_frame) (use s eq in auto)
  moreover have "heap_ok ?h" using s by (auto simp: heap_ok_def restrict_map_def)
  moreover have "same_bodies xs (cells ?h) (cells (heap w))" using eq by (simp add: same_bodies_def)
  moreover have "held (cells ?h) xs" using held_frame [of xs "cells ?h" "cells (heap w)"] eq s by blast
  ultimately show ?thesis using free s same_bodies_content(1) same_bodies_chain
    by (intro exI [of _ "length ys"] exI [of _ ?h]) (simp add: waiting_def)
qed

text \<open>The definitions that evaluate a run of the applications on concrete buffers.\<close>

lemmas stack_defs = one_heap_def sample_pbuf_def send_loop.simps pbuf_chain_def pbuf_cat_def pbuf_cat_loop.simps pbuf_ref_def put_def
  u16_def set_es_def on_pcb_def tcp_sent_def tcp_write_def tcp_write_checks_def sample_pcb_def TCP_SND_QUEUELEN_def
  TCP_SNDQUEUELEN_OVERFLOW_def bytes_def tcp_sndbuf_def
  write_rest_def write_loop.simps write_seg_def write_packet_def tcp_pbuf_prealloc_def pbuf_alloc_def ram_malloc_def SIZEOF_STRUCT_PBUF_def MEM_SIZE_def malloc_def
  write_copy_def memcpy_at_def poke_def pbuf_clen_def pbuf_clen_loop.simps tcp_create_segment_def pbuf_header_def mem_align_def layer_offset_def
  write_commit_def push_last_def set_hflag_def send_step_def pbuf_free_def pbuf_free_loop.simps drop_cell_def LWIP_TCP_OPT_LENGTH_def
  write_concat_def extend_last_def bump_loop.simps fresh_bytes_def TCP_MSS_def write_memerr_def mark_def

end
