(* ===== verification/Echo_Server.thy ===== *)
theory Echo_Server
  imports Echo
begin

text \<open>
  The TCP echo server, \<open>tcp_echoserver.c\<close>. A callback gets the address of its structure (or
  \<open>NULL\<close>) and the world of its connection. The use of a structure that has been freed and an
  access through \<open>NULL\<close> are the value \<open>None\<close>.
\<close>

section \<open>Connections\<close>

datatype tcp_echoserver_states = ES_NONE | ES_ACCEPTED | ES_RECEIVED | ES_CLOSING

record tcp_echoserver_struct =
  es_state :: tcp_echoserver_states
  es_pcb :: nat
  es_p :: "nat option"

type_synonym server = "tcp_echoserver_struct world"

section \<open>The echo server\<close>

definition tcp_echoserver_accept :: "server \<Rightarrow> err_t \<times> server" where
  "tcp_echoserver_accept w =
     (let w1 = on_pcb (tcp_setprio 1) w in
      case mem_malloc w1 of
        (None, w2) \<Rightarrow> (ERR_MEM, w2)
      | (Some es, w2) \<Rightarrow>
          (let w3 = set_es es \<lparr>es_state = ES_ACCEPTED, es_pcb = pcb_addr w2, es_p = None\<rparr> w2;
               w4 = on_pcb (tcp_arg (Some es)) w3;
               w5 = on_pcb (tcp_recv (Some ''tcp_echoserver_recv'')) w4;
               w6 = on_pcb (tcp_err (Some ''tcp_echoserver_error'')) w5;
               w7 = on_pcb (tcp_poll (Some ''tcp_echoserver_poll'') 1) w6
           in (ERR_OK, w7)))"

definition tcp_echoserver_send :: "nat \<Rightarrow> (tcp_echoserver_struct, 'a) world_scheme \<Rightarrow> (tcp_echoserver_struct, 'a) world_scheme option" where
  "tcp_echoserver_send es w = do {
     e \<leftarrow> ess w es;
     (p, pc, h, plens) \<leftarrow> send_loop tcp_write (pcb w) (es_p e) (heap w) [];
     Some (set_es es (e\<lparr>es_p := p\<rparr>) (w\<lparr>heap := h, pcb := pc, calls := calls w @ map Call_recved plens\<rparr>))
   }"

definition tcp_echoserver_connection_close ::
    "nat option \<Rightarrow> (tcp_echoserver_struct, 'a) world_scheme \<Rightarrow> (tcp_echoserver_struct, 'a) world_scheme" where
  "tcp_echoserver_connection_close es w =
     (let w1 = on_pcb (tcp_poll None 0 \<circ> tcp_err None \<circ> tcp_recv None \<circ> tcp_sent None \<circ> tcp_arg None) w;
          w2 = (case es of None \<Rightarrow> w1 | Some a \<Rightarrow> mem_free a w1)
      in record_call Call_close w2)"

text \<open>
  The branch for a packet that arrives when the connection is neither accepted nor receiving,
  and the branch for a packet with an error.
\<close>

definition recv_discard :: "nat \<Rightarrow> nat \<Rightarrow> (tcp_echoserver_struct, 'a) world_scheme \<Rightarrow> (tcp_echoserver_struct, 'a) world_scheme option" where
  "recv_discard es p w = do {
     e \<leftarrow> ess w es;
     (n, h) \<leftarrow> pbuf_free (Some p) (heap w);
     Some (set_es es (e\<lparr>es_p := None\<rparr>) (w\<lparr>heap := h\<rparr>))
   }"

definition tcp_echoserver_recv :: "nat option \<Rightarrow> nat option \<Rightarrow> err_t \<Rightarrow> server \<Rightarrow> (err_t \<times> server) option" where
  "tcp_echoserver_recv arg p err w = do {
     es \<leftarrow> arg;
     e \<leftarrow> ess w es;
     (case p of
        None \<Rightarrow>
          (let w1 = set_es es (e\<lparr>es_state := ES_CLOSING\<rparr>) w in
           if es_p e = None then Some (ERR_OK, tcp_echoserver_connection_close (Some es) w1)
           else do {
             w2 \<leftarrow> tcp_echoserver_send es (on_pcb (tcp_sent (Some ''tcp_echoserver_sent'')) w1);
             Some (ERR_OK, w2)
           })
      | Some q \<Rightarrow>
          if err \<noteq> ERR_OK then do { w1 \<leftarrow> recv_discard es q w; Some (err, w1) }
          else if es_state e = ES_ACCEPTED then do {
            let w1 = set_es es (e\<lparr>es_state := ES_RECEIVED, es_p := p\<rparr>) w;
            w2 \<leftarrow> tcp_echoserver_send es (on_pcb (tcp_sent (Some ''tcp_echoserver_sent'')) w1);
            Some (ERR_OK, w2)
          }
          else if es_state e = ES_RECEIVED then
            (if es_p e = None then do {
               w1 \<leftarrow> tcp_echoserver_send es (set_es es (e\<lparr>es_p := p\<rparr>) w);
               Some (ERR_OK, w1)
             }
             else do {
               h \<leftarrow> pbuf_chain (es_p e) p (heap w);
               Some (ERR_OK, w\<lparr>heap := h\<rparr>)
             })
          else do {
            b \<leftarrow> cells (heap w) q;
            w1 \<leftarrow> recv_discard es q (record_call (Call_recved (tot_len b)) w);
            Some (ERR_OK, w1)
          })
   }"

definition tcp_echoserver_error :: "nat option \<Rightarrow> (tcp_echoserver_struct, 'a) world_scheme \<Rightarrow> (tcp_echoserver_struct, 'a) world_scheme" where
  "tcp_echoserver_error arg w = (case arg of None \<Rightarrow> w | Some es \<Rightarrow> mem_free es w)"

definition tcp_echoserver_poll :: "nat option \<Rightarrow> server \<Rightarrow> (err_t \<times> server) option" where
  "tcp_echoserver_poll arg w =
     (case arg of
        None \<Rightarrow> Some (ERR_ABRT, record_call Call_abort w)
      | Some es \<Rightarrow> do {
          e \<leftarrow> ess w es;
          if es_p e \<noteq> None then do { w1 \<leftarrow> tcp_echoserver_send es w; Some (ERR_OK, w1) }
          else if es_state e = ES_CLOSING then Some (ERR_OK, tcp_echoserver_connection_close (Some es) w)
          else Some (ERR_OK, w)
        })"

definition tcp_echoserver_sent :: "nat option \<Rightarrow> server \<Rightarrow> (err_t \<times> server) option" where
  "tcp_echoserver_sent arg w = do {
     es \<leftarrow> arg;
     e \<leftarrow> ess w es;
     if es_p e \<noteq> None then do { w1 \<leftarrow> tcp_echoserver_send es w; Some (ERR_OK, w1) }
     else if es_state e = ES_CLOSING then Some (ERR_OK, tcp_echoserver_connection_close (Some es) w)
     else Some (ERR_OK, w)
   }"

section \<open>A connection being served\<close>

text \<open>
  \<open>serving w es e X bs xs\<close>: the structure at \<open>es\<close> exists, the connection has the bytes \<open>bs\<close> queued
  in the buffers \<open>X\<close>, and the chain that waits to be sent consists of the buffers \<open>xs\<close>.
\<close>

definition serving ::
    "(tcp_echoserver_struct, 'a) world_scheme \<Rightarrow> nat \<Rightarrow> tcp_echoserver_struct \<Rightarrow> nat set \<Rightarrow> byte list \<Rightarrow> nat list \<Rightarrow> bool" where
  "serving w es e X bs xs \<longleftrightarrow> waiting w (es_p e) X bs xs \<and> ess w es = Some e"

lemma serving_unfold:
  "serving w es e X bs xs \<longleftrightarrow> heap_ok (heap w) \<and> unsent_bytes (heap w) (pcb w) X bs \<and> ess w es = Some e \<and>
     packet (cells (heap w)) (es_p e) xs \<and> held (cells (heap w)) xs \<and> set xs \<inter> X = {}"
  by (auto simp: serving_def waiting_def)

lemma unsent_bytes_pcb:
  assumes "unsent_bytes h p X bs" "unsent p' = unsent p" "snd_queuelen p' = snd_queuelen p" "snd_buf p' = snd_buf p"
    "mss p' = mss p" "snd_wnd_max p' = snd_wnd_max p" "unsent_oversize p' = unsent_oversize p"
  shows "unsent_bytes h p' X bs"
  using assms by (simp add: unsent_bytes_def conn_ok_def mss_local_def)

lemma tcp_echoserver_send_ok:
  assumes "serving w es e X bs xs"
  shows "\<exists>w' p' X' ys zs. tcp_echoserver_send es w = Some w' \<and> xs = ys @ zs \<and>
    serving w' es (e\<lparr>es_p := p'\<rparr>) X' (bs @ pending w ys) zs \<and> pending w' zs = pending w zs \<and>
    calls w' = calls w @ map Call_recved (lens (cells (heap w)) ys) \<and> callbacks (pcb w') = callbacks (pcb w) \<and>
    (zs \<noteq> [] \<longrightarrow> stopped tcp_write (pcb w') (heap w') (hd zs)) \<and>
    ((\<forall>c\<in>set xs. sole (cells (heap w)) c) \<longrightarrow>
       (\<forall>c\<in>set ys. c \<in> X' \<or> cells (heap w') c = None) \<and> (\<forall>c\<in>set zs. sole (cells (heap w')) c)) \<and>
    (\<forall>us vs. xs = us @ vs \<and> vs \<noteq> [] \<and> shared (cells (heap w)) (hd vs) \<longrightarrow>
       (\<forall>c\<in>set vs \<inter> set ys. c \<notin> X' \<and> cells (heap w') c \<noteq> None))"
proof -
  have s: "waiting w (es_p e) X bs xs" "ess w es = Some e" using assms by (simp_all add: serving_def)
  from s(1) obtain p' pc h X' ys zs where r: "send_loop tcp_write (pcb w) (es_p e) (heap w) [] = Some (p', pc, h, lens (cells (heap w)) ys)"
    "xs = ys @ zs" "waiting (w\<lparr>heap := h, pcb := pc\<rparr>) p' X' (bs @ pending w ys) zs" "content (cells h) zs = pending w zs"
    "callbacks pc = callbacks (pcb w)" "zs \<noteq> [] \<longrightarrow> stopped tcp_write pc h (hd zs)"
    "(\<forall>c\<in>set xs. sole (cells (heap w)) c) \<longrightarrow> (\<forall>c\<in>set ys. c \<in> X' \<or> cells h c = None) \<and> (\<forall>c\<in>set zs. sole (cells h) c)"
    "\<forall>us vs. xs = us @ vs \<and> vs \<noteq> [] \<and> shared (cells (heap w)) (hd vs) \<longrightarrow> (\<forall>c\<in>set vs \<inter> set ys. c \<notin> X' \<and> cells h c \<noteq> None)"
    by (rule waiting_sends) blast
  let ?w = "set_es es (e\<lparr>es_p := p'\<rparr>) (w\<lparr>heap := h, pcb := pc, calls := calls w @ map Call_recved (lens (cells (heap w)) ys)\<rparr>)"
  have "tcp_echoserver_send es w = Some ?w" using s r(1) by (simp add: tcp_echoserver_send_def)
  moreover have "serving ?w es (e\<lparr>es_p := p'\<rparr>) X' (bs @ pending w ys) zs" using r(3) by (simp add: serving_def waiting_def)
  ultimately show ?thesis using r
    by (intro exI [of _ ?w] exI [of _ p'] exI [of _ X'] exI [of _ ys] exI [of _ zs]) simp
qed

lemma serving_chain:
  assumes "serving w es e X bs xs" "es_p e \<noteq> None" "packet (cells (heap w)) (Some q) ys" "\<forall>c\<in>set ys. sole (cells (heap w)) c"
    "set ys \<inter> X = {}" "set xs \<inter> set ys = {}" "sumlen (cells (heap w)) xs + sumlen (cells (heap w)) ys < 65536"
  shows "\<exists>h. pbuf_chain (es_p e) (Some q) (heap w) = Some h \<and> serving (w\<lparr>heap := h\<rparr>) es e X bs (xs @ ys) \<and>
    content (cells h) (xs @ ys) = pending w xs @ pending w ys \<and> shared (cells h) q \<and>
    (\<forall>c\<in>set xs. sole (cells (heap w)) c \<longrightarrow> sole (cells h) c)"
proof -
  note s = assms(1) [unfolded serving_unfold]
  let ?m = "cells (heap w)"
  obtain a as where a: "es_p e = Some a" "xs = a # as" using s assms(2) by (cases xs) (auto simp: packet_Cons)
  from assms(3) obtain ys' where ys: "ys = q # ys'" by (cases rule: packet_cases) auto
  then obtain tb where "?m q = Some tb" "ref tb = 1" using assms(4) by (auto simp: sole_def)
  note t = this ys
  have px: "packet ?m (Some a) xs" using s a by simp
  have "ref tb < 65535" using t by simp
  from pbuf_chain_chain [OF px assms(3,6,7) t(1) this] obtain h where h:
    "pbuf_chain (Some a) (Some q) (heap w) = Some h" "packet (cells h) (Some a) (xs @ ys)"
    "content (cells h) (xs @ ys) = content ?m xs @ content ?m ys" "\<forall>c. c \<notin> set xs \<and> c \<noteq> q \<longrightarrow> cells h c = ?m c"
    "\<forall>c. map_option ref (cells h c) = map_option ref (if c = q then Some (tb\<lparr>ref := ref tb + 1\<rparr>) else ?m c)" by blast
  note k = pbuf_chain_kind [OF h(1)]
  have cell: "(cells h c = None \<and> ?m c = None) \<or>
      (\<exists>b b'. ?m c = Some b \<and> cells h c = Some b' \<and> ref b' = ref b \<and> custom b' = custom b)" if cq: "c \<noteq> q" for c
  proof (cases "?m c")
    case None
    then show ?thesis using k [of c] by simp
  next
    case (Some b)
    then obtain b' where "cells h c = Some b'" "ref b' = ref b" using spec [OF h(5), of c] cq by auto
    then show ?thesis using k [of c] Some by (simp add: kind_def)
  qed
  then have cnt: "counted n (cells h) c = counted n ?m c" "sole (cells h) c = sole ?m c" if "c \<noteq> q" for n c
    using cell [OF that] by (auto simp: counted_def sole_def)
  obtain tb' where q: "cells h q = Some tb'" "ref tb' = 2" using spec [OF h(5), of q] t(2) by auto
  then have q2: "counted 2 (cells h) q" "shared (cells h) q"
    using k [of q] t(1) assms(4) t(3) by (auto simp: counted_def shared_def sole_def kind_def)
  have qn: "q \<notin> set xs" "q \<notin> set ys'" using assms(6) t(3) packet_distinct [OF assms(3)] by auto
  have hx: "counted 3 ?m a" "\<forall>c\<in>set as. counted 2 ?m c" using s a(2) by simp_all
  have "\<forall>c\<in>set as. counted 2 (cells h) c" using hx(2) cnt(1) qn(1) a(2) by (metis list.set_intros(2))
  then have "held (cells h) xs" using hx(1) cnt(1) qn(1) a(2) by simp
  moreover have "\<forall>c\<in>set ys'. counted 2 (cells h) c"
  proof
    fix c assume "c \<in> set ys'"
    then have "c \<noteq> q" "sole ?m c" using qn(2) assms(4) t(3) by auto
    then show "counted 2 (cells h) c" using cnt(1) sole_counted [of ?m c 2] by simp
  qed
  ultimately have "held (cells h) (xs @ ys)" using a(2) t(3) q2(1) by auto
  moreover have "unsent_bytes h (pcb w) X bs"
  proof (rule tcp.queued_frame)
    show "\<forall>c\<in>X. cells h c = ?m c" using h(4) s assms(5) t(3) by auto
  qed (use s in simp)
  moreover have "heap_ok h"
    using s k cell unfolding heap_ok_def by (metis option.map_disc_iff)
  moreover have "\<forall>c\<in>set xs. sole ?m c \<longrightarrow> sole (cells h) c" using cnt(2) qn(1) by metis
  ultimately show ?thesis
    using h(1-3) a(1) s assms(5) q2(2) by (intro exI [of _ h]) (simp add: serving_unfold Int_Un_distrib2)
qed


text \<open>A packet that arrives: its buffers are new to the application and to the send queue.\<close>

definition fresh_arrival :: "(tcp_echoserver_struct, 'a) world_scheme \<Rightarrow> nat set \<Rightarrow> nat list \<Rightarrow> nat \<Rightarrow> nat list \<Rightarrow> bool" where
  "fresh_arrival w X xs q ys \<longleftrightarrow> packet (cells (heap w)) (Some q) ys \<and> (\<forall>c\<in>set ys. sole (cells (heap w)) c) \<and> length ys < 256 \<and>
     set ys \<inter> X = {} \<and> set xs \<inter> set ys = {} \<and> sumlen (cells (heap w)) xs + sumlen (cells (heap w)) ys < 65536"

lemma serving_set_es:
  "serving w es e X bs xs \<Longrightarrow> packet (cells (heap w)) (es_p e') ys \<Longrightarrow> held (cells (heap w)) ys \<Longrightarrow> set ys \<inter> X = {} \<Longrightarrow>
   serving (set_es es e' w) es e' X bs ys"
  by (simp add: serving_unfold)

lemma setters_keep [simp]:
  "unsent_bytes h (tcp_sent f p) X bs = unsent_bytes h p X bs" "unsent_bytes h (tcp_recv f p) X bs = unsent_bytes h p X bs"
  "unsent_bytes h (tcp_err f p) X bs = unsent_bytes h p X bs" "unsent_bytes h (tcp_arg a p) X bs = unsent_bytes h p X bs"
  "unsent_bytes h (tcp_poll f i p) X bs = unsent_bytes h p X bs" "unsent_bytes h (tcp_setprio n p) X bs = unsent_bytes h p X bs"
  by (simp_all add: unsent_bytes_def conn_ok_def mss_local_def tcp_sent_def tcp_recv_def tcp_err_def tcp_arg_def tcp_poll_def tcp_setprio_def)

lemma serving_on_pcb [simp]: "serving (on_pcb (tcp_sent f) w) es e X bs xs = serving w es e X bs xs"
  by (simp add: serving_unfold)

text \<open>Discarding a packet.\<close>

lemma recv_discard_ok:
  assumes "serving w es e X bs xs" "fresh_arrival w X xs q ys"
  shows "\<exists>w'. recv_discard es q w = Some w' \<and> serving w' es (e\<lparr>es_p := None\<rparr>) X bs [] \<and> pcb w' = pcb w \<and>
    (\<forall>c\<in>set ys. cells (heap w') c = None) \<and> (\<forall>c. c \<notin> set ys \<longrightarrow> cells (heap w') c = cells (heap w) c)"
proof -
  have "waiting w None X bs []" using assms(1) by (simp add: serving_def waiting_def)
  then obtain n h where h: "pbuf_free (Some q) (heap w) = Some (n, h)" "waiting (w\<lparr>heap := h\<rparr>) None X bs []" "cells h = cells (heap w) |` (- set ys)"
    using waiting_free [of w None X bs "[]" q ys] assms(2) unfolding fresh_arrival_def by auto
  let ?w = "set_es es (e\<lparr>es_p := None\<rparr>) (w\<lparr>heap := h\<rparr>)"
  have "recv_discard es q w = Some ?w" using h(1) assms(1) by (simp add: recv_discard_def serving_def)
  then show ?thesis using h(2,3) by (intro exI [of _ ?w]) (simp add: serving_def waiting_def restrict_map_def)
qed

text \<open>The two callbacks that only continue sending are the same function.\<close>

lemma tcp_echoserver_sent_poll: "tcp_echoserver_sent (Some es) w = tcp_echoserver_poll (Some es) w"
  by (simp add: tcp_echoserver_sent_def tcp_echoserver_poll_def)

lemma poll_sends:
  assumes "serving w es e X bs xs" "xs \<noteq> []"
  shows "\<exists>w' p' X' ys zs. tcp_echoserver_poll (Some es) w = Some (ERR_OK, w') \<and> tcp_echoserver_send es w = Some w' \<and> xs = ys @ zs \<and>
    serving w' es (e\<lparr>es_p := p'\<rparr>) X' (bs @ pending w ys) zs \<and> pending w' zs = pending w zs \<and> callbacks (pcb w') = callbacks (pcb w) \<and>
    (zs \<noteq> [] \<longrightarrow> stopped tcp_write (pcb w') (heap w') (hd zs))"
proof -
  obtain a as where "xs = a # as" using assms(2) by (cases xs) auto
  then have e: "es_p e = Some a" "ess w es = Some e" using assms(1) by (auto simp: serving_unfold packet_Cons)
  have "tcp_echoserver_poll (Some es) w = Some (ERR_OK, w')" if "tcp_echoserver_send es w = Some w'" for w'
    using that e by (simp add: tcp_echoserver_poll_def)
  moreover from tcp_echoserver_send_ok [OF assms(1)] obtain w' p' X' ys zs where "tcp_echoserver_send es w = Some w'" "xs = ys @ zs"
    "serving w' es (e\<lparr>es_p := p'\<rparr>) X' (bs @ pending w ys) zs" "pending w' zs = pending w zs"
    "callbacks (pcb w') = callbacks (pcb w)" "zs \<noteq> [] \<longrightarrow> stopped tcp_write (pcb w') (heap w') (hd zs)"
    by (elim exE conjE) (rule that)
  ultimately show ?thesis by metis
qed

lemma waiting_chain_empty: "serving w es e X bs xs \<Longrightarrow> xs = [] \<longleftrightarrow> es_p e = None"
  by (cases xs) (auto simp: serving_unfold packet_Cons)

lemma recv_appends:
  assumes "serving w es e X bs xs" "fresh_arrival w X xs q ys" "es_state e = ES_RECEIVED" "xs \<noteq> []"
  shows "\<exists>w'. tcp_echoserver_recv (Some es) (Some q) ERR_OK w = Some (ERR_OK, w') \<and> serving w' es e X bs (xs @ ys) \<and>
    pending w' (xs @ ys) = pending w xs @ pending w ys \<and> pcb w' = pcb w"
proof -
  note s = assms(1) [unfolded serving_unfold] and f = assms(2) [unfolded fresh_arrival_def]
  obtain a where a: "es_p e = Some a" using waiting_chain_empty [OF assms(1)] assms(4) by auto
  then obtain h where h: "pbuf_chain (es_p e) (Some q) (heap w) = Some h" "serving (w\<lparr>heap := h\<rparr>) es e X bs (xs @ ys)"
    "content (cells h) (xs @ ys) = pending w xs @ pending w ys"
    using serving_chain [OF assms(1), of q ys] f by blast
  then have "tcp_echoserver_recv (Some es) (Some q) ERR_OK w = Some (ERR_OK, w\<lparr>heap := h\<rparr>)"
    using a s assms(3) by (simp add: tcp_echoserver_recv_def)
  then show ?thesis using h by (intro exI [of _ "w\<lparr>heap := h\<rparr>"]) simp
qed

lemma recv_sends:
  assumes "serving w es e X bs xs" "fresh_arrival w X xs q ys" "es_state e = ES_ACCEPTED \<and> xs = [] \<or> es_state e = ES_RECEIVED"
  shows "\<exists>w' e' X' bs' zs. tcp_echoserver_recv (Some es) (Some q) ERR_OK w = Some (ERR_OK, w') \<and> serving w' es e' X' bs' zs \<and>
    es_state e' = ES_RECEIVED \<and> bs' @ pending w' zs = bs @ pending w xs @ pending w ys \<and>
    (xs = [] \<and> zs \<noteq> [] \<longrightarrow> stopped tcp_write (pcb w') (heap w') (hd zs)) \<and>
    callback_arg (pcb w') = callback_arg (pcb w)"
proof -
  note s = assms(1) [unfolded serving_unfold] and f = assms(2) [unfolded fresh_arrival_def]
  note xs = waiting_chain_empty [OF assms(1)]
  have hy: "held (cells (heap w)) ys" using f sole_held by blast
  show ?thesis
  proof (cases "xs = []")
    case False
    then have st: "es_state e = ES_RECEIVED" using assms(3) by blast
    from recv_appends [OF assms(1,2) st False] st False show ?thesis by metis
  next
    case True
    define e1 where "e1 = e\<lparr>es_state := ES_RECEIVED, es_p := Some q\<rparr>"
    define w1 where "w1 = (if es_state e = ES_ACCEPTED then on_pcb (tcp_sent (Some ''tcp_echoserver_sent'')) (set_es es e1 w) else set_es es e1 w)"
    have "serving (set_es es e1 w) es e1 X bs ys"
      by (rule serving_set_es [OF assms(1)]) (use f hy in \<open>simp_all add: e1_def\<close>)
    then have w1: "serving w1 es e1 X bs ys" by (simp add: w1_def)
    have run: "tcp_echoserver_recv (Some es) (Some q) ERR_OK w = map_option (\<lambda>w2. (ERR_OK, w2)) (tcp_echoserver_send es w1)"
    proof (cases "es_state e = ES_ACCEPTED")
      case acc: True
      show ?thesis using s acc
        by (cases "tcp_echoserver_send es w1") (simp_all add: tcp_echoserver_recv_def w1_def e1_def)
    next
      case False
      then have st: "es_state e = ES_RECEIVED" "es_p e = None" using assms(3) True xs by auto
      then have "e\<lparr>es_p := Some q\<rparr> = e1" by (simp add: e1_def)
      then show ?thesis using s st
        by (cases "tcp_echoserver_send es w1") (simp_all add: tcp_echoserver_recv_def w1_def)
    qed
    have hp: "heap w1 = heap w" "callback_arg (pcb w1) = callback_arg (pcb w)" by (simp_all add: w1_def tcp_sent_def)
    from tcp_echoserver_send_ok [OF w1] obtain w' p' X' us zs where w': "tcp_echoserver_send es w1 = Some w'" "ys = us @ zs"
      "serving w' es (e1\<lparr>es_p := p'\<rparr>) X' (bs @ pending w1 us) zs" "pending w' zs = pending w1 zs"
      "callbacks (pcb w') = callbacks (pcb w1)" "zs \<noteq> [] \<longrightarrow> stopped tcp_write (pcb w') (heap w') (hd zs)"
      by (elim exE conjE) (rule that)
    have "es_state (e1\<lparr>es_p := p'\<rparr>) = ES_RECEIVED" by (simp add: e1_def)
    moreover have "(bs @ pending w1 us) @ pending w' zs = bs @ pending w xs @ pending w ys" using w'(2,4) hp(1) True by simp
    ultimately show ?thesis using run w' hp(2) True
      by (intro exI [of _ w'] exI [of _ "e1\<lparr>es_p := p'\<rparr>"] exI [of _ X'] exI [of _ "bs @ pending w1 us"] exI [of _ zs])
        (simp add: callbacks_def)
  qed
qed


lemma recv_drops:
  assumes "serving w es e X bs xs" "fresh_arrival w X xs q ys" "err \<noteq> ERR_OK \<or> es_state e \<noteq> ES_ACCEPTED \<and> es_state e \<noteq> ES_RECEIVED"
  shows "\<exists>w'. tcp_echoserver_recv (Some es) (Some q) err w = Some (err, w') \<and> serving w' es (e\<lparr>es_p := None\<rparr>) X bs [] \<and> pcb w' = pcb w \<and>
    (\<forall>c\<in>set ys. cells (heap w') c = None) \<and> (\<forall>c. c \<notin> set ys \<longrightarrow> cells (heap w') c = cells (heap w) c)"
proof -
  obtain b where b: "cells (heap w) q = Some b" using assms(2) packet_tot_len unfolding fresh_arrival_def by blast
  define w1 where "w1 = (if err \<noteq> ERR_OK then w else record_call (Call_recved (tot_len b)) w)"
  have "serving w1 es e X bs xs" "fresh_arrival w1 X xs q ys" using assms(1,2) by (simp_all add: w1_def serving_unfold fresh_arrival_def)
  from recv_discard_ok [OF this] obtain w' where w': "recv_discard es q w1 = Some w'" "serving w' es (e\<lparr>es_p := None\<rparr>) X bs []" "pcb w' = pcb w1"
    "\<forall>c\<in>set ys. cells (heap w') c = None" "\<forall>c. c \<notin> set ys \<longrightarrow> cells (heap w') c = cells (heap w1) c" by blast
  have "tcp_echoserver_recv (Some es) (Some q) err w = Some (err, w')"
    using assms(1,3) b w'(1) by (auto simp: serving_unfold tcp_echoserver_recv_def w1_def)
  moreover have "heap w1 = heap w" "pcb w1 = pcb w" by (simp_all add: w1_def)
  ultimately show ?thesis using w' by metis
qed

text \<open>
  What a callback leaves behind. Either the connection goes on: the bytes queued followed by those waiting
  are \<open>dat\<close>, and some wait only where the send loop had to stop. Or it is closed: the structure is freed, the callbacks are
  taken back, what was queued stays queued.
\<close>

definition sending :: "server \<Rightarrow> nat \<Rightarrow> tcp_echoserver_states \<Rightarrow> byte list \<Rightarrow> bool" where
  "sending w es st dat \<longleftrightarrow> (\<exists>e X bs zs. serving w es e X bs zs \<and> es_state e = st \<and> bs @ pending w zs = dat \<and>
     (zs \<noteq> [] \<longrightarrow> stopped tcp_write (pcb w) (heap w) (hd zs)))"

definition closed_down :: "server \<Rightarrow> nat \<Rightarrow> nat set \<Rightarrow> byte list \<Rightarrow> bool" where
  "closed_down w es X bs \<longleftrightarrow> ess w es = None \<and> callbacks (pcb w) = (None, None, None, None, None, 0) \<and>
     unsent_bytes (heap w) (pcb w) X bs \<and> calls w \<noteq> [] \<and> last (calls w) = Call_close"

lemma close_closes:
  assumes "serving w es e X bs xs"
  shows "closed_down (tcp_echoserver_connection_close (Some es) w) es X bs"
  using assms by (simp add: closed_down_def serving_unfold tcp_echoserver_connection_close_def Let_def mem_free_def callbacks_def
      tcp_poll_def tcp_err_def tcp_recv_def tcp_sent_def tcp_arg_def unsent_bytes_def conn_ok_def mss_local_def record_call_def)

lemma recv_nothing:
  assumes "serving w es e X bs xs"
  shows "\<exists>w'. tcp_echoserver_recv (Some es) None err w = Some (ERR_OK, w') \<and>
    (if xs = [] then closed_down w' es X bs else sending w' es ES_CLOSING (bs @ pending w xs))"
proof -
  let ?e = "e\<lparr>es_state := ES_CLOSING\<rparr>"
  have e: "ess w es = Some e" using assms by (simp add: serving_unfold)
  have s1: "serving (set_es es ?e w) es ?e X bs xs" using assms by (simp add: serving_unfold)
  show ?thesis
  proof (cases "xs = []")
    case True
    then show ?thesis using e close_closes [OF s1] waiting_chain_empty [OF assms] by (simp add: tcp_echoserver_recv_def)
  next
    case False
    let ?w = "on_pcb (tcp_sent (Some ''tcp_echoserver_sent'')) (set_es es ?e w)"
    have "serving ?w es ?e X bs xs" using s1 by simp
    from tcp_echoserver_send_ok [OF this] obtain w' p' X' ys zs where w': "tcp_echoserver_send es ?w = Some w'" "xs = ys @ zs"
      "serving w' es (?e\<lparr>es_p := p'\<rparr>) X' (bs @ pending ?w ys) zs" "pending w' zs = pending ?w zs"
      "zs \<noteq> [] \<longrightarrow> stopped tcp_write (pcb w') (heap w') (hd zs)" by (elim exE conjE) (rule that)
    have "(bs @ pending ?w ys) @ pending w' zs = bs @ pending w xs" using w'(2,4) by simp
    then have "sending w' es ES_CLOSING (bs @ pending w xs)" unfolding sending_def using w'(3,5) by fastforce
    moreover have "tcp_echoserver_recv (Some es) None err w = Some (ERR_OK, w')"
      using e False w'(1) waiting_chain_empty [OF assms] by (auto simp: tcp_echoserver_recv_def)
    ultimately show ?thesis using False by simp
  qed
qed

lemma poll_goes_on:
  assumes "serving w es e X bs xs"
  shows "\<exists>w'. tcp_echoserver_poll (Some es) w = Some (ERR_OK, w') \<and>
    (if xs = [] \<and> es_state e = ES_CLOSING then closed_down w' es X bs else sending w' es (es_state e) (bs @ pending w xs))"
proof (cases "xs = []")
  case True
  then have "ess w es = Some e" "es_p e = None" using assms by (auto simp: serving_unfold)
  moreover have "sending w es (es_state e) (bs @ pending w xs)" unfolding sending_def using assms True by blast
  ultimately show ?thesis using close_closes [OF assms] True by (auto simp: tcp_echoserver_poll_def)
next
  case False
  from poll_sends [OF assms False] obtain w' p' X' us zs where w': "tcp_echoserver_poll (Some es) w = Some (ERR_OK, w')"
    "xs = us @ zs" "serving w' es (e\<lparr>es_p := p'\<rparr>) X' (bs @ pending w us) zs" "pending w' zs = pending w zs"
    "zs \<noteq> [] \<longrightarrow> stopped tcp_write (pcb w') (heap w') (hd zs)" by (elim exE conjE) (rule that)
  have "(bs @ pending w us) @ pending w' zs = bs @ pending w xs" using w'(2,4) by simp
  then have "sending w' es (es_state e) (bs @ pending w xs)" unfolding sending_def using w'(3,5) by fastforce
  then show ?thesis using w'(1) False by auto
qed

section \<open>Runs of a connection\<close>

text \<open>
  The steps of a connection. The stack calls the function that is registered for an event with
  the registered argument. Between two callbacks the stack works on its own: it may send and
  release queued segments and allocate buffers, but it leaves the structures of the application
  and the chain that waits to be sent alone. After an error the control block is gone.
\<close>

definition server_inv :: "server \<Rightarrow> bool" where
  "server_inv w \<longleftrightarrow> heap_ok (heap w) \<and> (\<exists>X bs. unsent_bytes (heap w) (pcb w) X bs) \<and>
     (case callback_arg (pcb w) of
        None \<Rightarrow> recv (pcb w) = None \<and> sent (pcb w) = None \<and> poll (pcb w) = None \<and> errf (pcb w) = None
      | Some es \<Rightarrow> \<exists>e X bs xs. serving w es e X bs xs \<and> es_state e \<noteq> ES_NONE \<and> (es_state e = ES_ACCEPTED \<longrightarrow> xs = []))"

definition arrived :: "server \<Rightarrow> nat option \<Rightarrow> bool" where
  "arrived w p \<longleftrightarrow> (case p of None \<Rightarrow> True | Some q \<Rightarrow>
     \<exists>ys. \<forall>es e X bs xs. callback_arg (pcb w) = Some es \<and> serving w es e X bs xs \<longrightarrow> fresh_arrival w X xs q ys)"

inductive server_step :: "server \<Rightarrow> server \<Rightarrow> bool" where
  accept: "callback_arg (pcb w) = None \<Longrightarrow> server_step w (snd (tcp_echoserver_accept w))"
| recv: "\<lbrakk>recv (pcb w) = Some ''tcp_echoserver_recv''; arrived w p; tcp_echoserver_recv (callback_arg (pcb w)) p err w = Some (r, w')\<rbrakk> \<Longrightarrow>
    server_step w w'"
| sent: "\<lbrakk>sent (pcb w) = Some ''tcp_echoserver_sent''; tcp_echoserver_sent (callback_arg (pcb w)) w = Some (r, w')\<rbrakk> \<Longrightarrow> server_step w w'"
| poll: "\<lbrakk>poll (pcb w) = Some ''tcp_echoserver_poll''; tcp_echoserver_poll (callback_arg (pcb w)) w = Some (r, w')\<rbrakk> \<Longrightarrow> server_step w w'"
| error: "\<lbrakk>errf (pcb w) = Some ''tcp_echoserver_error''; callbacks p = (None, None, None, None, None, 0); unsent_bytes (heap w) p X bs\<rbrakk> \<Longrightarrow>
    server_step w ((tcp_echoserver_error (callback_arg (pcb w)) w)\<lparr>pcb := p\<rparr>)"
| stack: "\<lbrakk>callbacks p = callbacks (pcb w); heap_ok h; unsent_bytes h p X' bs';
    \<forall>es e X bs xs. callback_arg (pcb w) = Some es \<and> serving w es e X bs xs \<longrightarrow> set xs \<inter> X' = {} \<and> (\<forall>c\<in>set xs. cells h c = cells (heap w) c)\<rbrakk> \<Longrightarrow>
    server_step w (w\<lparr>heap := h, pcb := p\<rparr>)"

lemma close_inv:
  assumes "serving w es e X bs xs"
  shows "server_inv (tcp_echoserver_connection_close (Some es) w)"
  using assms by (auto simp: server_inv_def serving_unfold tcp_echoserver_connection_close_def Let_def mem_free_def
      tcp_poll_def tcp_err_def tcp_recv_def tcp_sent_def tcp_arg_def unsent_bytes_def conn_ok_def mss_local_def)

lemma serving_inv:
  "\<lbrakk>serving w es e X bs xs; callback_arg (pcb w) = Some es; es_state e \<noteq> ES_NONE; es_state e = ES_ACCEPTED \<longrightarrow> xs = []\<rbrakk> \<Longrightarrow> server_inv w"
  by (auto simp: server_inv_def serving_unfold)

lemma inv_serving:
  assumes "server_inv w" "callback_arg (pcb w) = Some es"
  obtains e X bs xs where "serving w es e X bs xs" "es_state e \<noteq> ES_NONE" "es_state e = ES_ACCEPTED \<longrightarrow> xs = []"
  using assms by (auto simp: server_inv_def)

lemma inv_registered:
  assumes "server_inv w" "recv (pcb w) \<noteq> None \<or> sent (pcb w) \<noteq> None \<or> poll (pcb w) \<noteq> None \<or> errf (pcb w) \<noteq> None"
  obtains es where "callback_arg (pcb w) = Some es"
  using assms by (auto simp: server_inv_def split: option.splits)

lemma accept_inv:
  assumes "server_inv w" "callback_arg (pcb w) = None"
  shows "server_inv (snd (tcp_echoserver_accept w))"
proof -
  obtain X bs where q: "heap_ok (heap w)" "unsent_bytes (heap w) (pcb w) X bs" "recv (pcb w) = None" "sent (pcb w) = None"
    "poll (pcb w) = None" "errf (pcb w) = None" using assms by (auto simp: server_inv_def)
  have frame: "unsent_bytes h (pcb w) X bs" if "cells h = cells (heap w)" for h
    using tcp.queued_frame [OF q(2), of h] that by simp
  from q(1) show ?thesis
  proof (cases rule: malloc_cases)
    case (denied h1)
    then show ?thesis using assms(2) q(3-6) frame [of h1]
      by (auto simp: tcp_echoserver_accept_def mem_malloc_def server_inv_def tcp_setprio_def Let_def unsent_bytes_def conn_ok_def mss_local_def)
  next
    case (granted h1)
    let ?e = "\<lparr>es_state = ES_ACCEPTED, es_pcb = pcb_addr w, es_p = None\<rparr>" and ?w = "snd (tcp_echoserver_accept w)"
    have w: "heap ?w = h1" "ess ?w (brk (heap w)) = Some ?e" "callback_arg (pcb ?w) = Some (brk (heap w))"
      "unsent_bytes h1 (pcb ?w) X bs = unsent_bytes h1 (pcb w) X bs"
      using granted by (simp_all add: tcp_echoserver_accept_def mem_malloc_def Let_def on_pcb_def set_es_def)
        (simp_all add: tcp_poll_def tcp_err_def tcp_recv_def tcp_arg_def tcp_setprio_def unsent_bytes_def conn_ok_def mss_local_def)
    then have sv: "serving ?w (brk (heap w)) ?e X bs []" using granted frame [of h1] by (simp add: serving_unfold)
    have "es_state ?e = ES_ACCEPTED" by simp
    then show ?thesis using serving_inv [OF sv w(3)] by simp
  qed
qed

lemma poll_inv:
  assumes "serving w es e X bs xs" "callback_arg (pcb w) = Some es" "es_state e \<noteq> ES_NONE" "es_state e = ES_ACCEPTED \<longrightarrow> xs = []"
  shows "\<exists>w'. tcp_echoserver_poll (Some es) w = Some (ERR_OK, w') \<and> server_inv w'"
proof (cases "xs = []")
  case True
  then have "ess w es = Some e" "es_p e = None" using assms(1) by (auto simp: serving_unfold)
  then show ?thesis using close_inv [OF assms(1)] serving_inv [OF assms] by (simp add: tcp_echoserver_poll_def)
next
  case False
  from poll_sends [OF assms(1) False] obtain w' p' X' ys zs where w': "tcp_echoserver_poll (Some es) w = Some (ERR_OK, w')"
    "serving w' es (e\<lparr>es_p := p'\<rparr>) X' (bs @ pending w ys) zs" "callbacks (pcb w') = callbacks (pcb w)"
    by (elim exE conjE) (rule that)
  then have "server_inv w'" using assms(2-4) False by (intro serving_inv [OF w'(2)]) (simp_all add: callbacks_def)
  with w'(1) show ?thesis by blast
qed


lemma recv_inv:
  assumes "serving w es e X bs xs" "callback_arg (pcb w) = Some es" "es_state e \<noteq> ES_NONE" "es_state e = ES_ACCEPTED \<longrightarrow> xs = []"
    "case p of None \<Rightarrow> True | Some q \<Rightarrow> \<exists>ys. fresh_arrival w X xs q ys"
  shows "\<exists>r w'. tcp_echoserver_recv (Some es) p err w = Some (r, w') \<and> server_inv w'"
proof (cases p)
  case None
  let ?e = "e\<lparr>es_state := ES_CLOSING\<rparr>"
  have e: "ess w es = Some e" and xs: "xs = [] \<longleftrightarrow> es_p e = None" using assms(1) by (cases xs; auto simp: serving_unfold packet_Cons)+
  have s1: "serving (set_es es ?e w) es ?e X bs xs" using assms(1) by (simp add: serving_unfold)
  show ?thesis
  proof (cases "es_p e = None")
    case True
    then show ?thesis using None e close_inv [OF s1] by (simp add: tcp_echoserver_recv_def)
  next
    case False
    let ?w = "on_pcb (tcp_sent (Some ''tcp_echoserver_sent'')) (set_es es ?e w)"
    have "serving ?w es ?e X bs xs" using s1 by simp
    from tcp_echoserver_send_ok [OF this] obtain w' p' X' ys zs where w': "tcp_echoserver_send es ?w = Some w'"
      "serving w' es (?e\<lparr>es_p := p'\<rparr>) X' (bs @ pending ?w ys) zs" "callbacks (pcb w') = callbacks (pcb ?w)"
      by (elim exE conjE) (rule that)
    have "callback_arg (pcb w') = Some es" using w'(3) assms(2) by (simp add: callbacks_def tcp_sent_def)
    then have "server_inv w'" by (intro serving_inv [OF w'(2)]) simp_all
    then show ?thesis using None e False w'(1) by (auto simp: tcp_echoserver_recv_def)
  qed
next
  case (Some q)
  then obtain ys where f: "fresh_arrival w X xs q ys" using assms(5) by auto
  have e: "ess w es = Some e" using assms(1) by (simp add: serving_unfold)
  show ?thesis
  proof (cases "err = ERR_OK \<and> (es_state e = ES_ACCEPTED \<or> es_state e = ES_RECEIVED)")
    case True
    then have "es_state e = ES_ACCEPTED \<and> xs = [] \<or> es_state e = ES_RECEIVED" using assms(4) by blast
    from recv_sends [OF assms(1) f this] obtain w' e' X' bs' zs where w': "tcp_echoserver_recv (Some es) (Some q) ERR_OK w = Some (ERR_OK, w')"
      "serving w' es e' X' bs' zs" "es_state e' = ES_RECEIVED" "callback_arg (pcb w') = callback_arg (pcb w)"
      by (elim exE conjE) (rule that)
    then have "server_inv w'" using assms(2) by (intro serving_inv [OF w'(2)]) simp_all
    then show ?thesis using Some True w'(1) by blast
  next
    case False
    obtain b where b: "cells (heap w) q = Some b" using f packet_tot_len unfolding fresh_arrival_def by blast
    define w1 where "w1 = (if err \<noteq> ERR_OK then w else record_call (Call_recved (tot_len b)) w)"
    have "serving w1 es e X bs xs" "fresh_arrival w1 X xs q ys" using assms(1) f by (simp_all add: w1_def serving_unfold fresh_arrival_def)
    from recv_discard_ok [OF this] obtain w' where w': "recv_discard es q w1 = Some w'" "serving w' es (e\<lparr>es_p := None\<rparr>) X bs []"
      "pcb w' = pcb w1" by blast
    then have "server_inv w'" using assms(2,3) by (intro serving_inv [OF w'(2)]) (simp_all add: w1_def)
    moreover have "tcp_echoserver_recv (Some es) p err w = Some (if err \<noteq> ERR_OK then err else ERR_OK, w')"
      using Some e False b w'(1) by (auto simp: tcp_echoserver_recv_def w1_def)
    ultimately show ?thesis by blast
  qed
qed

lemma server_step_inv: "\<lbrakk>server_step w w'; server_inv w\<rbrakk> \<Longrightarrow> server_inv w'"
proof (induction rule: server_step.induct)
  case (accept w)
  then show ?case by (intro accept_inv)
next
  case (recv w p err r w')
  from inv_registered [OF recv(4)] recv(1) obtain es where es: "callback_arg (pcb w) = Some es" by blast
  from inv_serving [OF recv(4) es] obtain e X bs xs where s: "serving w es e X bs xs" "es_state e \<noteq> ES_NONE" "es_state e = ES_ACCEPTED \<longrightarrow> xs = []" .
  have "case p of None \<Rightarrow> True | Some q \<Rightarrow> \<exists>ys. fresh_arrival w X xs q ys"
  proof (cases p)
    case (Some q)
    then obtain ys where "fresh_arrival w X xs q ys" using recv(2) es s(1) by (fastforce simp: arrived_def)
    then show ?thesis using Some by auto
  qed simp
  from recv_inv [OF s(1) es s(2,3) this, of err] recv(3) es show ?case by auto
next
  case (sent w r w')
  from inv_registered [OF sent(3)] sent(1) obtain es where es: "callback_arg (pcb w) = Some es" by blast
  from inv_serving [OF sent(3) es] obtain e X bs xs where s: "serving w es e X bs xs" "es_state e \<noteq> ES_NONE" "es_state e = ES_ACCEPTED \<longrightarrow> xs = []" .
  from poll_inv [OF s(1) es s(2,3)] sent(2) es show ?case by (auto simp: tcp_echoserver_sent_poll)
next
  case (poll w r w')
  from inv_registered [OF poll(3)] poll(1) obtain es where es: "callback_arg (pcb w) = Some es" by blast
  from inv_serving [OF poll(3) es] obtain e X bs xs where s: "serving w es e X bs xs" "es_state e \<noteq> ES_NONE" "es_state e = ES_ACCEPTED \<longrightarrow> xs = []" .
  from poll_inv [OF s(1) es s(2,3)] poll(2) es show ?case by auto
next
  case (error w p X bs)
  then show ?case by (auto simp: server_inv_def tcp_echoserver_error_def mem_free_def callbacks_def split: option.splits)
next
  case (stack p w h X' bs')
  show ?case
  proof (cases "callback_arg (pcb w)")
    case None
    then show ?thesis using stack by (auto simp: server_inv_def callbacks_def)
  next
    case (Some es)
    from inv_serving [OF stack(5) Some] obtain e X bs xs where s: "serving w es e X bs xs" "es_state e \<noteq> ES_NONE" "es_state e = ES_ACCEPTED \<longrightarrow> xs = []" .
    then have c: "set xs \<inter> X' = {}" "\<And>c. c \<in> set xs \<Longrightarrow> cells h c = cells (heap w) c" using stack(4) Some by blast+
    have "serving (w\<lparr>heap := h, pcb := p\<rparr>) es e X' bs' xs"
      using s(1) c stack(2,3) packet_frame(1) [of xs "cells h" "cells (heap w)", OF c(2)] held_frame [of xs "cells h" "cells (heap w)", OF c(2)]
      by (simp add: serving_unfold)
    then show ?thesis using s(2,3) Some stack(1) by (intro serving_inv) (simp_all add: callbacks_def)
  qed
qed


section \<open>Properties\<close>

definition sample_es :: tcp_echoserver_struct where
  "sample_es = \<lparr>es_state = ES_RECEIVED, es_pcb = 0, es_p = Some 0\<rparr>"

definition sample_world :: server where
  "sample_world = \<lparr>heap = one_heap\<lparr>grants := [True, True, True, True]\<rparr>, pcb = sample_pcb\<lparr>callback_arg := Some 9, poll := Some ''tcp_echoserver_poll''\<rparr>, pcb_addr = 0,
     ess = [9 \<mapsto> sample_es], calls = []\<rparr>"

lemma sample_serving: "serving sample_world 9 sample_es {} [] [0]"
  by (simp add: serving_unfold sample_world_def sample_es_def one_heap_def sample_pbuf_def heap_ok_def unsent_bytes_def conn_ok_def
      sample_pcb_def last_room_def TCP_MSS_def packet_Cons counted_def)

lemma sample_arrival: "fresh_arrival sample_world {} [0] 1 [1]"
  by (simp add: fresh_arrival_def sample_world_def one_heap_def sample_pbuf_def packet_Cons sole_def)

text \<open>
  C10. The echo, by callback and branch. A connection has bytes queued and bytes that wait.
  A packet received without error on an open connection is appended: if nothing waits, as much of it as possible is queued, otherwise
  it joins the chain that waits, and either way the bytes queued followed by the bytes waiting are those of before followed by the bytes of the packet.
  \<open>sent\<close> and \<open>poll\<close> move bytes from the chain to the queue and keep their sequence, so does the end of the stream (no packet) when
  bytes wait, which then makes the connection a closing one; when nothing waits, the end of the stream, and \<open>sent\<close> and \<open>poll\<close> on a closing
  connection, close it. The send loop stops only at a buffer that does not fit the send buffer or after a write that failed.
  A packet with an error, or one for a closing connection, is freed, and with it the bytes that wait are lost: the
  structure forgets the chain, whose buffers stay allocated. So they do when the connection fails and the structure is freed.
\<close>

theorem tcp_echoserver_echoes:
  assumes "serving w es e X bs xs" "es_state e = ES_ACCEPTED \<longrightarrow> xs = []"
  shows "(fresh_arrival w X xs q ys \<longrightarrow>
      (if err = ERR_OK \<and> (es_state e = ES_ACCEPTED \<or> es_state e = ES_RECEIVED) then
         \<exists>w'. tcp_echoserver_recv (Some es) (Some q) err w = Some (ERR_OK, w') \<and>
           (if xs = [] then sending w' es ES_RECEIVED (bs @ pending w ys)
            else serving w' es e X bs (xs @ ys) \<and> pending w' (xs @ ys) = pending w xs @ pending w ys)
       else
         \<exists>w'. tcp_echoserver_recv (Some es) (Some q) err w = Some (err, w') \<and> serving w' es (e\<lparr>es_p := None\<rparr>) X bs [] \<and>
           (\<forall>c\<in>set ys. cells (heap w') c = None) \<and> (\<forall>c\<in>set xs. cells (heap w') c = cells (heap w) c \<and> cells (heap w') c \<noteq> None))) \<and>
    (\<exists>w'. tcp_echoserver_recv (Some es) None err w = Some (ERR_OK, w') \<and>
      (if xs = [] then closed_down w' es X bs else sending w' es ES_CLOSING (bs @ pending w xs))) \<and>
    (\<exists>w'. tcp_echoserver_poll (Some es) w = Some (ERR_OK, w') \<and> tcp_echoserver_sent (Some es) w = Some (ERR_OK, w') \<and>
      (if xs = [] \<and> es_state e = ES_CLOSING then closed_down w' es X bs else sending w' es (es_state e) (bs @ pending w xs))) \<and>
    ess (tcp_echoserver_error (Some es) w) es = None \<and> heap (tcp_echoserver_error (Some es) w) = heap w"
proof (intro conjI impI, goal_cases)
  case 1
  note f = 1
  show ?case
  proof (cases "err = ERR_OK \<and> (es_state e = ES_ACCEPTED \<or> es_state e = ES_RECEIVED)")
    case True
    show ?thesis
    proof (cases "xs = []")
      case e: True
      then have "es_state e = ES_ACCEPTED \<and> xs = [] \<or> es_state e = ES_RECEIVED" using True by blast
      from recv_sends [OF assms(1) f this] obtain w' e' X' bs' zs where w': "tcp_echoserver_recv (Some es) (Some q) ERR_OK w = Some (ERR_OK, w')"
        "serving w' es e' X' bs' zs" "es_state e' = ES_RECEIVED" "bs' @ pending w' zs = bs @ pending w xs @ pending w ys"
        "xs = [] \<and> zs \<noteq> [] \<longrightarrow> stopped tcp_write (pcb w') (heap w') (hd zs)" by (elim exE conjE) (rule that)
      then have "sending w' es ES_RECEIVED (bs @ pending w ys)" unfolding sending_def using e by auto
      then show ?thesis using w'(1) True e by auto
    next
      case False
      then have "es_state e = ES_RECEIVED" using True assms(2) by blast
      from recv_appends [OF assms(1) f this False] show ?thesis using True False by auto
    qed
  next
    case False
    have d: "set xs \<inter> set ys = {}" using f by (simp add: fresh_arrival_def)
    have "cells (heap w) c \<noteq> None" if "c \<in> set xs" for c
      using assms(1) that packet_cells [of 0 "cells (heap w)" "es_p e" xs] by (auto simp: serving_unfold)
    moreover have "err \<noteq> ERR_OK \<or> es_state e \<noteq> ES_ACCEPTED \<and> es_state e \<noteq> ES_RECEIVED" using False by blast
    from recv_drops [OF assms(1) f this] obtain w' where "tcp_echoserver_recv (Some es) (Some q) err w = Some (err, w')"
      "serving w' es (e\<lparr>es_p := None\<rparr>) X bs []" "\<forall>c\<in>set ys. cells (heap w') c = None" "\<forall>c. c \<notin> set ys \<longrightarrow> cells (heap w') c = cells (heap w) c" by blast
    ultimately show ?thesis using d unfolding if_not_P [OF False] by (intro exI [of _ w']) (simp add: disjoint_iff)
  qed
next
  case 3
  then show ?case using poll_goes_on [OF assms(1)] unfolding tcp_echoserver_sent_poll by simp
qed (use recv_nothing [OF assms(1)] in \<open>simp_all add: tcp_echoserver_error_def mem_free_def\<close>)

theorem tcp_echoserver_echoes_witness:
  "(\<exists>w'. tcp_echoserver_recv (Some 9) (Some 1) ERR_OK sample_world = Some (ERR_OK, w') \<and> serving w' 9 sample_es {} [] [0, 1] \<and>
     pending w' [0, 1] = pending sample_world [0] @ pending sample_world [1]) \<and>
   (\<exists>w'. tcp_echoserver_recv (Some 9) None ERR_OK sample_world = Some (ERR_OK, w') \<and> sending w' 9 ES_CLOSING (pending sample_world [0]))"
proof -
  have "es_state sample_es = ES_ACCEPTED \<longrightarrow> [0::nat] = []" "es_state sample_es = ES_RECEIVED" by (simp_all add: sample_es_def)
  with tcp_echoserver_echoes [OF sample_serving this(1), of 1 "[1]" ERR_OK] sample_arrival show ?thesis by auto
qed

text \<open>
  C11. The callbacks are memory safe in every interleaving. From a state that satisfies the
  invariant, however the stack interleaves accepts, packets, acknowledgements, polls, errors and
  its own work, the invariant holds, and every callback that is registered returns: it never uses
  a freed structure, a freed buffer or \<open>NULL\<close>.
\<close>

theorem tcp_echoserver_safe:
  assumes "server_inv w0" "server_step\<^sup>*\<^sup>* w0 w"
  shows "server_inv w \<and>
    (recv (pcb w) \<noteq> None \<and> arrived w p \<longrightarrow> tcp_echoserver_recv (callback_arg (pcb w)) p err w \<noteq> None) \<and>
    (sent (pcb w) \<noteq> None \<longrightarrow> tcp_echoserver_sent (callback_arg (pcb w)) w \<noteq> None) \<and>
    (poll (pcb w) \<noteq> None \<longrightarrow> tcp_echoserver_poll (callback_arg (pcb w)) w \<noteq> None)"
proof -
  have inv: "server_inv w" using assms(2,1) by (induction rule: rtranclp_induct) (auto intro: server_step_inv)
  show ?thesis
  proof (cases "callback_arg (pcb w)")
    case None
    then show ?thesis using inv by (simp add: server_inv_def)
  next
    case (Some es)
    from inv_serving [OF inv this] obtain e X bs xs where s: "serving w es e X bs xs" "es_state e \<noteq> ES_NONE" "es_state e = ES_ACCEPTED \<longrightarrow> xs = []" .
    have "tcp_echoserver_recv (Some es) p err w \<noteq> None" if "arrived w p"
    proof -
      have "case p of None \<Rightarrow> True | Some q \<Rightarrow> \<exists>ys. fresh_arrival w X xs q ys"
        using that Some s(1) by (cases p) (fastforce simp: arrived_def)+
      from recv_inv [OF s(1) Some s(2,3) this, of err] show ?thesis by auto
    qed
    moreover have "tcp_echoserver_poll (Some es) w \<noteq> None" using poll_inv [OF s(1) Some s(2,3)] by auto
    ultimately show ?thesis using inv Some by (simp add: tcp_echoserver_sent_poll)
  qed
qed

theorem tcp_echoserver_safe_witness:
  "server_inv sample_world \<and> tcp_echoserver_poll (Some 9) sample_world \<noteq> None"
proof -
  have "server_inv sample_world"
    by (rule serving_inv [OF sample_serving]) (simp_all add: sample_world_def sample_es_def)
  moreover have "tcp_echoserver_poll (callback_arg (pcb sample_world)) sample_world \<noteq> None \<or> poll (pcb sample_world) = None"
    using tcp_echoserver_safe [OF calculation, of sample_world None ERR_OK] by blast
  moreover have "callback_arg (pcb sample_world) = Some 9" "poll (pcb sample_world) \<noteq> None" by (simp_all add: sample_world_def)
  ultimately show ?thesis by simp
qed

text \<open>The run of the two samples, evaluated.\<close>

lemma sample_echo_run:
  "map_option (\<lambda>(r, w). (map_option es_p (ess w 9), calls w))
     (Option.bind (tcp_echoserver_recv (Some 9) (Some 1) ERR_OK sample_world) (\<lambda>(r, w). tcp_echoserver_poll (Some 9) w)) =
   Some (Some None, [Call_recved 4, Call_recved 4])"
  by (simp add: stack_defs tcp_echoserver_recv_def tcp_echoserver_poll_def tcp_echoserver_send_def sample_world_def sample_es_def flip: fun_upd_def cong: if_weak_cong option.case_cong_weak)

text \<open>
  C33. Buffers that arrive while others wait are never released. \<open>tcp_echoserver_recv\<close> appends them
  with \<open>pbuf_chain\<close>, which takes a reference of its own, although the callback already owns the
  packet; the send loop gives back one reference per buffer. Once the whole chain has been
  handed to the connection, none of the buffers of the second packet has been freed, and none
  of them belongs to the send queue or to the structure: they can never be freed.
\<close>

theorem tcp_echoserver_leaks:
  assumes "serving w es e X bs xs" "xs \<noteq> []" "es_state e = ES_RECEIVED" "fresh_arrival w X xs q ys"
  shows "\<exists>w1 w2 e2 X2 bs2 zs. tcp_echoserver_recv (Some es) (Some q) ERR_OK w = Some (ERR_OK, w1) \<and>
    tcp_echoserver_poll (Some es) w1 = Some (ERR_OK, w2) \<and> serving w2 es e2 X2 bs2 zs \<and>
    (es_p e2 = None \<longrightarrow> (\<forall>c\<in>set ys. cells (heap w2) c \<noteq> None \<and> c \<notin> X2))"
proof -
  note f = assms(4) [unfolded fresh_arrival_def]
  obtain a where e: "ess w es = Some e" "es_p e = Some a"
    using assms(1,2) by (cases xs) (auto simp: serving_unfold packet_Cons)
  obtain h where h: "pbuf_chain (es_p e) (Some q) (heap w) = Some h" "serving (w\<lparr>heap := h\<rparr>) es e X bs (xs @ ys)" "shared (cells h) q"
    using serving_chain [OF assms(1), of q ys] f e(2) by blast
  have r: "tcp_echoserver_recv (Some es) (Some q) ERR_OK w = Some (ERR_OK, w\<lparr>heap := h\<rparr>)"
    using h(1) e assms(3) by (simp add: tcp_echoserver_recv_def)
  from tcp_echoserver_send_ok [OF h(2)] obtain w' p' X' us zs where w': "tcp_echoserver_send es (w\<lparr>heap := h\<rparr>) = Some w'" "xs @ ys = us @ zs"
    "serving w' es (e\<lparr>es_p := p'\<rparr>) X' (bs @ pending (w\<lparr>heap := h\<rparr>) us) zs"
    "\<forall>us' vs. xs @ ys = us' @ vs \<and> vs \<noteq> [] \<and> shared (cells (heap (w\<lparr>heap := h\<rparr>))) (hd vs) \<longrightarrow>
       (\<forall>c\<in>set vs \<inter> set us. c \<notin> X' \<and> cells (heap w') c \<noteq> None)"
    by (elim exE conjE) (rule that)
  have pl: "tcp_echoserver_poll (Some es) (w\<lparr>heap := h\<rparr>) = Some (ERR_OK, w')"
    using w'(1) e by (simp add: tcp_echoserver_poll_def)
  obtain ys' where "ys = q # ys'" using f by (cases ys) (auto simp: packet_Cons)
  then have "\<forall>c\<in>set ys \<inter> set us. c \<notin> X' \<and> cells (heap w') c \<noteq> None"
    using spec [OF spec [OF w'(4)], of xs ys] h(3) by simp
  moreover have "zs = []" if "p' = None" using w'(3) that by (cases zs) (auto simp: serving_unfold packet_Cons)
  then have "p' = None \<longrightarrow> set ys \<subseteq> set us" using w'(2) by (metis append_Nil2 set_append sup_ge2)
  ultimately have "p' = None \<longrightarrow> (\<forall>c\<in>set ys. cells (heap w') c \<noteq> None \<and> c \<notin> X')" by blast
  then show ?thesis using r pl w'(3) by (intro exI conjI) (assumption | simp)+
qed

theorem tcp_echoserver_leaks_witness:
  "\<exists>w1 w2. tcp_echoserver_recv (Some 9) (Some 1) ERR_OK sample_world = Some (ERR_OK, w1) \<and>
     tcp_echoserver_poll (Some 9) w1 = Some (ERR_OK, w2) \<and> map_option es_p (ess w2 9) = Some None \<and> cells (heap w2) 1 \<noteq> None"
proof -
  from tcp_echoserver_leaks [OF sample_serving _ _ sample_arrival] obtain w1 w2 e2 X2 bs2 zs where
    r: "tcp_echoserver_recv (Some 9) (Some 1) ERR_OK sample_world = Some (ERR_OK, w1)"
    "tcp_echoserver_poll (Some 9) w1 = Some (ERR_OK, w2)" "serving w2 9 e2 X2 bs2 zs"
    "es_p e2 = None \<longrightarrow> (\<forall>c\<in>set [1]. cells (heap w2) c \<noteq> None \<and> c \<notin> X2)"
    by (auto simp: sample_es_def)
  moreover have "map_option es_p (ess w2 9) = Some None" using sample_echo_run r(1,2) by simp
  ultimately show ?thesis by (auto simp: serving_unfold)
qed

end
