(* ===== verification/Uart.thy ===== *)
theory Uart
  imports Json "HOL-Library.Word" "HOL-Library.Sublist"
begin

text \<open>
  The serial driver \<open>UART_Perlib.c\<close> (the copies under \<open>Project\<close> are identical). The
  indices, the buffers and the interrupt enable bit of USART2 are fields of a record;
  the values written to the data register are collected in \<open>line_out\<close>. \<open>NDTR\<close> is the
  counter of the receiving DMA stream, which counts down from the buffer size and is
  reloaded when it has reached zero (circular mode). Not modelled: the set-up of clocks,
  pins and interrupt priorities, and the printing of floating-point numbers.
\<close>

section \<open>Rings\<close>

definition RING_SIZE :: nat where
  "RING_SIZE = 256"

definition ring_next :: "nat \<Rightarrow> nat" where
  "ring_next i = (i + 1) mod RING_SIZE"

text \<open>The elements from index \<open>g\<close> up to, not including, index \<open>p\<close>, around the ring.\<close>

definition ring_count :: "nat \<Rightarrow> nat \<Rightarrow> nat" where
  "ring_count g p = (p + RING_SIZE - g) mod RING_SIZE"

definition ring_items :: "'a list \<Rightarrow> nat \<Rightarrow> nat \<Rightarrow> 'a list" where
  "ring_items buf g p = map (\<lambda>k. buf ! ((g + k) mod RING_SIZE)) [0..<ring_count g p]"

lemma ring_next_less [simp]: "ring_next i < RING_SIZE"
  by (simp add: ring_next_def RING_SIZE_def)

lemma ring_count_less [simp]: "ring_count g p < RING_SIZE"
  by (simp add: ring_count_def RING_SIZE_def)

lemma ring_count_zero: "\<lbrakk>g < RING_SIZE; p < RING_SIZE\<rbrakk> \<Longrightarrow> ring_count g p = 0 \<longleftrightarrow> g = p"
  by (cases "g \<le> p") (auto simp: ring_count_def mod_if)

lemma ring_count_put:
  assumes "g < RING_SIZE" "p < RING_SIZE" "ring_count g p < RING_SIZE - 1"
  shows "ring_count g (ring_next p) = Suc (ring_count g p)"
  using assms by (auto simp: ring_count_def ring_next_def mod_if RING_SIZE_def split: if_splits)

lemma ring_count_overrun:
  assumes "g < RING_SIZE" "p < RING_SIZE" "ring_count g p = RING_SIZE - 1"
  shows "ring_count g (ring_next p) = 0"
  using assms by (auto simp: ring_count_def ring_next_def mod_if RING_SIZE_def split: if_splits)

lemma ring_count_get:
  assumes "g < RING_SIZE" "p < RING_SIZE" "g \<noteq> p"
  shows "ring_count g p = Suc (ring_count (ring_next g) p)"
  using assms by (auto simp: ring_count_def ring_next_def mod_if RING_SIZE_def split: if_splits)

lemma ring_items_empty [simp]: "\<lbrakk>g < RING_SIZE; p < RING_SIZE\<rbrakk> \<Longrightarrow> ring_items buf g p = [] \<longleftrightarrow> g = p"
  by (simp add: ring_items_def ring_count_zero)

lemma ring_items_length [simp]: "length (ring_items buf g p) = ring_count g p"
  by (simp add: ring_items_def)

lemma ring_count_if: "\<lbrakk>g < RING_SIZE; p < RING_SIZE\<rbrakk> \<Longrightarrow>
    ring_count g p = (if g \<le> p then p - g else p + RING_SIZE - g)"
  by (auto simp: ring_count_def mod_if)

lemma ring_wrap: "i < 2 * RING_SIZE \<Longrightarrow> i mod RING_SIZE = (if i < RING_SIZE then i else i - RING_SIZE)"
  by (auto simp: mod_if)

lemma ring_position:
  assumes "g < RING_SIZE" "p < RING_SIZE"
  shows "k < ring_count g p \<Longrightarrow> (g + k) mod RING_SIZE \<noteq> p" and "(g + ring_count g p) mod RING_SIZE = p"
  using assms by (auto simp: ring_count_if ring_wrap split: if_splits)

lemma ring_items_put:
  assumes "g < RING_SIZE" "p < RING_SIZE" "ring_count g p < RING_SIZE - 1" "length buf = RING_SIZE"
  shows "ring_items (buf[p := x]) g (ring_next p) = ring_items buf g p @ [x]"
proof -
  have "buf[p := x] ! ((g + k) mod RING_SIZE) = buf ! ((g + k) mod RING_SIZE)" if "k < ring_count g p" for k
    using ring_position(1) [OF assms(1,2) that] by simp
  moreover have "(g + ring_count g p) mod RING_SIZE = p"
    using assms(1,2) by (rule ring_position(2))
  ultimately show ?thesis
    using assms by (simp add: ring_items_def ring_count_put)
qed

lemma ring_items_get:
  assumes "g < RING_SIZE" "p < RING_SIZE" "g \<noteq> p"
  shows "ring_items buf g p = buf ! g # ring_items buf (ring_next g) p"
proof -
  have "(g + Suc k) mod RING_SIZE = (ring_next g + k) mod RING_SIZE" for k
    by (simp add: ring_next_def mod_add_left_eq)
  with assms show ?thesis
    by (simp add: ring_items_def ring_count_get upt_conv_Cons map_Suc_upt [symmetric] comp_def del: upt_Suc)
qed

lemma ring_items_write_outside:
  assumes "g < RING_SIZE" "p < RING_SIZE"
  shows "ring_items (buf[p := x]) g p = ring_items buf g p"
proof -
  have "buf[p := x] ! ((g + k) mod RING_SIZE) = buf ! ((g + k) mod RING_SIZE)" if "k < ring_count g p" for k
    using ring_position(1) [OF assms that] by simp
  then show ?thesis by (simp add: ring_items_def)
qed

section \<open>A first-in first-out interface\<close>

text \<open>
  What a producer and a consumer of characters rely on: a new item goes to the end when
  there is room, and the consumer gets the items from the front.
\<close>

locale fifo =
  fixes put :: "'b \<Rightarrow> 's \<Rightarrow> 's"
    and get :: "'s \<Rightarrow> ('b \<times> 's) option"
    and items :: "'s \<Rightarrow> 'b list"
    and inv :: "'s \<Rightarrow> bool"
    and room :: "'s \<Rightarrow> nat"
  assumes put_items: "\<lbrakk>inv s; 0 < room s\<rbrakk> \<Longrightarrow> items (put x s) = items s @ [x]"
    and put_inv: "\<lbrakk>inv s; 0 < room s\<rbrakk> \<Longrightarrow> inv (put x s) \<and> Suc (room (put x s)) = room s"
    and get_none: "inv s \<Longrightarrow> get s = None \<longleftrightarrow> items s = []"
    and get_some: "\<lbrakk>inv s; get s = Some (x, s')\<rbrakk> \<Longrightarrow> items s = x # items s' \<and> inv s' \<and> room s' = Suc (room s)"
begin

primrec drain :: "nat \<Rightarrow> 's \<Rightarrow> 'b list \<times> 's" where
  "drain 0 s = ([], s)"
| "drain (Suc n) s =
     (case get s of None \<Rightarrow> ([], s) | Some (x, s') \<Rightarrow> (case drain n s' of (xs, s'') \<Rightarrow> (x # xs, s'')))"

lemma puts_items:
  "\<lbrakk>inv s; length xs \<le> room s\<rbrakk> \<Longrightarrow>
     inv (fold put xs s) \<and> items (fold put xs s) = items s @ xs \<and> room (fold put xs s) + length xs = room s"
proof (induction xs arbitrary: s)
  case (Cons x xs)
  then have "0 < room s" by simp
  with Cons.prems Cons.IH [of "put x s"] put_items [of s x] put_inv [of s x] show ?case by auto
qed simp

lemma drain_items:
  "\<lbrakk>inv s; length (items s) \<le> n\<rbrakk> \<Longrightarrow> fst (drain n s) = items s \<and> items (snd (drain n s)) = [] \<and> inv (snd (drain n s))"
proof (induction n arbitrary: s)
  case (Suc n)
  show ?case
  proof (cases "get s")
    case None
    with Suc.prems get_none [of s] show ?thesis by simp
  next
    case (Some r)
    obtain x s' where r: "r = (x, s')" by (cases r)
    with Some get_some [OF Suc.prems(1)] have g: "items s = x # items s'" "inv s'" by auto
    with Suc.prems(2) have "length (items s') \<le> n" by simp
    with Suc.IH [OF g(2)] Some r g(1) show ?thesis by (cases "drain n s'") simp
  qed
qed simp

lemma puts_drain:
  assumes "inv s" "items s = []" "length xs \<le> room s" "length xs \<le> n"
  shows "fst (drain n (fold put xs s)) = xs"
  using puts_items [OF assms(1,3)] drain_items [of "fold put xs s" n] assms(2,4) by simp

end

section \<open>USART2\<close>

record usart2 =
  USART2_RxBuffer :: "16 word list"
  USART2_RxGetIndex :: nat
  USART2_TxBuffer :: "16 word list"
  USART2_TxPutIndex :: nat
  USART2_TxGetIndex :: nat
  TXE_interrupt :: bool
  NDTR :: nat
  line_out :: "16 word list"

text \<open>The software state that \<open>USART2_Configuration\<close> sets up; \<open>USART2_RxGetIndex\<close> is not touched.\<close>

definition USART2_Configuration :: "usart2 \<Rightarrow> usart2" where
  "USART2_Configuration s = s\<lparr>USART2_TxBuffer := replicate RING_SIZE 0, USART2_RxBuffer := replicate RING_SIZE 0,
     USART2_TxPutIndex := 0, USART2_TxGetIndex := 0, NDTR := RING_SIZE\<rparr>"

subsection \<open>Sending\<close>

text \<open>\<open>USART2_PutChar\<close> in the three steps between which the interrupt may come.\<close>

definition tx_write :: "8 word \<Rightarrow> usart2 \<Rightarrow> usart2" where
  "tx_write c s = s\<lparr>USART2_TxBuffer := (USART2_TxBuffer s)[USART2_TxPutIndex s := ucast c]\<rparr>"

definition tx_advance :: "usart2 \<Rightarrow> usart2" where
  "tx_advance s = s\<lparr>USART2_TxPutIndex := (USART2_TxPutIndex s + 1) mod RING_SIZE\<rparr>"

definition tx_enable :: "usart2 \<Rightarrow> usart2" where
  "tx_enable s = s\<lparr>TXE_interrupt := True\<rparr>"

definition USART2_PutChar :: "8 word \<Rightarrow> usart2 \<Rightarrow> usart2" where
  "USART2_PutChar c s = tx_enable (tx_advance (tx_write c s))"

text \<open>A string that is not terminated by a NUL is read beyond its end: \<open>None\<close>.\<close>

fun USART2_PutString :: "8 word list \<Rightarrow> usart2 \<Rightarrow> usart2 option" where
  "USART2_PutString [] s = None"
| "USART2_PutString (c # str) s = (if c \<noteq> 0 then USART2_PutString str (USART2_PutChar c s) else Some s)"

text \<open>\<open>txe\<close> is the flag of the status register: the data register is empty.\<close>

definition USART2_IRQHandler :: "bool \<Rightarrow> usart2 \<Rightarrow> usart2" where
  "USART2_IRQHandler txe s =
     (if txe \<and> TXE_interrupt s then
        (if USART2_TxGetIndex s \<noteq> USART2_TxPutIndex s then
           s\<lparr>line_out := line_out s @ [USART2_TxBuffer s ! USART2_TxGetIndex s],
             USART2_TxGetIndex := (USART2_TxGetIndex s + 1) mod RING_SIZE\<rparr>
         else s\<lparr>TXE_interrupt := False\<rparr>)
      else s)"

subsection \<open>Printing numbers\<close>

text \<open>The loops of \<open>USART2_PutInt\<close> and \<open>USART3_PutInt\<close>; \<open>None\<close> is an overflow of \<open>int\<close>.\<close>

function pow_loop :: "int \<Rightarrow> int \<Rightarrow> int option" where
  "pow_loop n r =
     (if 1 \<le> r \<and> 0 \<le> n \<and> n div r \<noteq> 0 then (if in_s32 (r * 10) then pow_loop n (r * 10) else None)
      else Some r)"
  by pat_completeness auto
termination
proof (relation "measure (\<lambda>(n, r). nat (n + 1 - r))", goal_cases)
  case (2 n r)
  then have "\<not> n < r" using div_pos_pos_trivial [of n r] by auto
  with 2 show ?case by simp
qed simp

function digit_loop :: "int \<Rightarrow> int \<Rightarrow> 8 word list option" where
  "digit_loop n r =
     (if r > 1 then
        (let r' = r div 10 in
         if r' = 0 then None
         else map_option (\<lambda>cs. word_of_int ((n mod (r' * 10)) div r' + 48) # cs) (digit_loop n r'))
      else Some [])"
  by pat_completeness auto
termination
  by (relation "measure (\<lambda>(n, r). nat r)") auto

declare pow_loop.simps [simp del] digit_loop.simps [simp del]

definition int_chars :: "int \<Rightarrow> 8 word list option" where
  "int_chars n =
     (if n = 0 then Some [48]
      else if n < 0 then
        (if in_s32 (- n) then
           do { r \<leftarrow> pow_loop (- n) 1; ds \<leftarrow> digit_loop (- n) r; Some (45 # ds) }
         else None)
      else do { r \<leftarrow> pow_loop n 1; digit_loop n r })"

definition USART2_PutInt :: "int \<Rightarrow> usart2 \<Rightarrow> usart2 option" where
  "USART2_PutInt n s = map_option (\<lambda>cs. fold USART2_PutChar cs s) (int_chars n)"

definition USART2_PutUINT8 :: "8 word \<Rightarrow> usart2 \<Rightarrow> usart2 option" where
  "USART2_PutUINT8 n = USART2_PutInt (uint n)"

definition USART2_PutINT8 :: "8 word \<Rightarrow> usart2 \<Rightarrow> usart2 option" where
  "USART2_PutINT8 n = USART2_PutInt (sint n)"

definition USART2_PutUINT16 :: "16 word \<Rightarrow> usart2 \<Rightarrow> usart2 option" where
  "USART2_PutUINT16 n = USART2_PutInt (uint n)"

definition USART2_PutINT16 :: "16 word \<Rightarrow> usart2 \<Rightarrow> usart2 option" where
  "USART2_PutINT16 n = USART2_PutInt (sint n)"

definition USART2_PutUINT32 :: "32 word \<Rightarrow> usart2 \<Rightarrow> usart2 option" where
  "USART2_PutUINT32 n = USART2_PutInt (sint n)"

definition USART2_PutINT32 :: "32 word \<Rightarrow> usart2 \<Rightarrow> usart2 option" where
  "USART2_PutINT32 n = USART2_PutInt (sint n)"

subsection \<open>Receiving\<close>

text \<open>One halfword stored by the DMA stream in circular mode.\<close>

definition dma_receive :: "16 word \<Rightarrow> usart2 \<Rightarrow> usart2" where
  "dma_receive w s = s\<lparr>USART2_RxBuffer := (USART2_RxBuffer s)[RING_SIZE - NDTR s := w],
     NDTR := (if NDTR s = 1 then RING_SIZE else NDTR s - 1)\<rparr>"

definition USART2_GetRxBufferCount :: "usart2 \<Rightarrow> nat" where
  "USART2_GetRxBufferCount s = (NDTR s + RING_SIZE - USART2_RxGetIndex s) mod RING_SIZE"

definition USART2_SniffRxBuffer :: "nat \<Rightarrow> usart2 \<Rightarrow> 16 word" where
  "USART2_SniffRxBuffer index s =
     (if USART2_RxGetIndex s \<noteq> NDTR s then USART2_RxBuffer s ! ((USART2_RxGetIndex s + index) mod RING_SIZE) else 0)"

definition USART2_ClearRxBuffer :: "usart2 \<Rightarrow> usart2" where
  "USART2_ClearRxBuffer s = s\<lparr>USART2_RxGetIndex := NDTR s\<rparr>"

definition USART2_GetChar :: "usart2 \<Rightarrow> (8 word \<times> usart2) option" where
  "USART2_GetChar s =
     (let putIndex = RING_SIZE - NDTR s in
      if USART2_RxGetIndex s \<noteq> putIndex then
        Some (ucast (USART2_RxBuffer s ! USART2_RxGetIndex s),
              s\<lparr>USART2_RxGetIndex := (USART2_RxGetIndex s + 1) mod RING_SIZE\<rparr>)
      else None)"

text \<open>The loop of \<open>USART2_ReadExisting\<close>; not returning is \<open>None\<close>.\<close>

partial_function (option) rx_read_loop ::
    "16 word list \<Rightarrow> nat \<Rightarrow> nat \<Rightarrow> 8 word list \<Rightarrow> (8 word list \<times> nat) option" where
  "rx_read_loop buf putIndex g str =
     (if g \<noteq> putIndex then rx_read_loop buf putIndex ((g + 1) mod RING_SIZE) (str @ [ucast (buf ! g)])
      else Some (str, g))"

definition USART2_ReadExisting :: "usart2 \<Rightarrow> (8 word list \<times> usart2) option" where
  "USART2_ReadExisting s =
     map_option (\<lambda>(str, g). (str @ [0], s\<lparr>USART2_RxGetIndex := g\<rparr>))
       (rx_read_loop (USART2_RxBuffer s) (NDTR s) (USART2_RxGetIndex s) [])"

section \<open>USART3\<close>

text \<open>
  \<open>txe_polls\<close> are the values the status flag will show to the polls of
  \<open>USART3_PutChar\<close>; when they run out the loop never ends (\<open>None\<close>).
\<close>

record usart3 =
  txe_polls :: "bool list"
  out3 :: "8 word list"
  Buffer_Array :: "16 word list"
  Rx_GetIndex :: nat
  IsReceive :: bool
  exit_calib :: bool
  Buffer_Size :: nat
  led15 :: bool

fun poll_txe :: "bool list \<Rightarrow> bool list option" where
  "poll_txe [] = None"
| "poll_txe (b # bs) = (if b then Some bs else poll_txe bs)"

definition USART3_PutChar :: "8 word \<Rightarrow> usart3 \<Rightarrow> usart3 option" where
  "USART3_PutChar c s = map_option (\<lambda>bs. s\<lparr>txe_polls := bs, out3 := out3 s @ [c]\<rparr>) (poll_txe (txe_polls s))"

fun USART3_PutString :: "8 word list \<Rightarrow> usart3 \<Rightarrow> usart3 option" where
  "USART3_PutString [] s = None"
| "USART3_PutString (c # str) s = (if c \<noteq> 0 then Option.bind (USART3_PutChar c s) (USART3_PutString str) else Some s)"

definition USART3_PutInt :: "int \<Rightarrow> usart3 \<Rightarrow> usart3 option" where
  "USART3_PutInt n s = do { cs \<leftarrow> int_chars n; USART3_PutString (cs @ [0]) s }"

definition USART3_PutUINT8 :: "8 word \<Rightarrow> usart3 \<Rightarrow> usart3 option" where
  "USART3_PutUINT8 n = USART3_PutInt (uint n)"

definition USART3_PutINT8 :: "8 word \<Rightarrow> usart3 \<Rightarrow> usart3 option" where
  "USART3_PutINT8 n = USART3_PutInt (sint n)"

definition USART3_PutUINT16 :: "16 word \<Rightarrow> usart3 \<Rightarrow> usart3 option" where
  "USART3_PutUINT16 n = USART3_PutInt (uint n)"

definition USART3_PutINT16 :: "16 word \<Rightarrow> usart3 \<Rightarrow> usart3 option" where
  "USART3_PutINT16 n = USART3_PutInt (sint n)"

definition USART3_PutUINT32 :: "32 word \<Rightarrow> usart3 \<Rightarrow> usart3 option" where
  "USART3_PutUINT32 n = USART3_PutInt (sint n)"

definition USART3_PutINT32 :: "32 word \<Rightarrow> usart3 \<Rightarrow> usart3 option" where
  "USART3_PutINT32 n = USART3_PutInt (sint n)"

definition Clear_screen :: "usart3 \<Rightarrow> usart3 option" where
  "Clear_screen s = do {
     s \<leftarrow> USART3_PutChar 0x1B s;
     s \<leftarrow> USART3_PutString [0x5B, 0x32, 0x4A, 0] s;
     s \<leftarrow> USART3_PutChar 0x1B s;
     USART3_PutString [0x5B, 0x48, 0] s }"

text \<open>\<open>d\<close> is the value of the data register. A write behind the ten elements of the array is \<open>None\<close>.\<close>

definition USART_ReceiveString :: "16 word \<Rightarrow> usart3 \<Rightarrow> usart3 option" where
  "USART_ReceiveString d s =
     (if Rx_GetIndex s < length (Buffer_Array s) then
        let s1 = s\<lparr>Buffer_Array := (Buffer_Array s)[Rx_GetIndex s := d], Rx_GetIndex := Rx_GetIndex s + 1\<rparr>;
            s2 = (if d = 0x63 then s1\<lparr>IsReceive := True, Buffer_Size := Rx_GetIndex s1, Rx_GetIndex := 0\<rparr> else s1);
            s3 = (if d = 0x71 then s2\<lparr>exit_calib := True, Buffer_Size := Rx_GetIndex s2, Rx_GetIndex := 0\<rparr> else s2)
        in Some s3
      else None)"

text \<open>
  The ring functions of USART3 are those of USART2 over variables of their own
  (\<open>USART3_RxBuffer\<close>, \<open>USART3_RxGetIndex\<close>, \<open>DMA1_Stream1->NDTR\<close>), kept in a record of the
  same type.
\<close>

definition USART3_GetRxBufferCount :: "usart2 \<Rightarrow> nat" where
  "USART3_GetRxBufferCount s = (NDTR s + RING_SIZE - USART2_RxGetIndex s) mod RING_SIZE"

definition USART3_SniffRxBuffer :: "nat \<Rightarrow> usart2 \<Rightarrow> 16 word" where
  "USART3_SniffRxBuffer index s =
     (if USART2_RxGetIndex s \<noteq> NDTR s then USART2_RxBuffer s ! ((USART2_RxGetIndex s + index) mod RING_SIZE) else 0)"

definition USART3_ClearRxBuffer :: "usart2 \<Rightarrow> usart2" where
  "USART3_ClearRxBuffer s = s\<lparr>USART2_RxGetIndex := NDTR s\<rparr>"

definition USART3_GetChar :: "usart2 \<Rightarrow> (8 word \<times> usart2) option" where
  "USART3_GetChar s =
     (let putIndex = RING_SIZE - NDTR s in
      if USART2_RxGetIndex s \<noteq> putIndex then
        Some (ucast (USART2_RxBuffer s ! USART2_RxGetIndex s),
              s\<lparr>USART2_RxGetIndex := (USART2_RxGetIndex s + 1) mod RING_SIZE\<rparr>)
      else None)"

definition USART3_ReadExisting :: "usart2 \<Rightarrow> (8 word list \<times> usart2) option" where
  "USART3_ReadExisting s =
     map_option (\<lambda>(str, g). (str @ [0], s\<lparr>USART2_RxGetIndex := g\<rparr>))
       (rx_read_loop (USART2_RxBuffer s) (NDTR s) (USART2_RxGetIndex s) [])"

definition USART3_IRQHandler :: "bool \<Rightarrow> 16 word \<Rightarrow> usart3 \<Rightarrow> usart3 option" where
  "USART3_IRQHandler rxne d s =
     (if rxne then map_option (\<lambda>s'. s'\<lparr>led15 := \<not> led15 s'\<rparr>) (USART_ReceiveString d s) else Some s)"

section \<open>Numbers are printed in decimal\<close>

fun digs :: "nat \<Rightarrow> nat \<Rightarrow> nat list" where
  "digs 0 n = []"
| "digs (Suc j) n = (n div 10 ^ j) mod 10 # digs j n"

lemma digs_snoc: "digs (Suc j) n = digs j (n div 10) @ [n mod 10]"
  by (induction j) (simp_all add: div_mult2_eq)

definition byte_of :: "char \<Rightarrow> 8 word" where
  "byte_of c = word_of_nat (of_char c)"

definition digit_byte :: "nat \<Rightarrow> 8 word" where
  "digit_byte d = word_of_nat (d + 48)"

lemma byte_of_digit: "d < 10 \<Longrightarrow> byte_of (char_of (48 + d)) = digit_byte d"
  by (simp add: byte_of_def digit_byte_def add.commute)

lemma nat_dec_digs: "\<lbrakk>n < 10 ^ Suc j; j = 0 \<or> 10 ^ j \<le> n\<rbrakk> \<Longrightarrow> map byte_of (nat_dec n) = map digit_byte (digs (Suc j) n)"
proof (induction j arbitrary: n)
  case 0
  then show ?case by (subst nat_dec.simps) (simp add: byte_of_digit)
next
  case (Suc j)
  have "10 ^ Suc j \<le> n" using Suc.prems by simp
  then have ge: "\<not> n < 10" using one_le_power [of "10 :: nat" j] by (auto simp: not_less intro: order_trans [rotated])
  have "n div 10 < 10 ^ Suc j" using Suc.prems(1) by (simp add: less_mult_imp_div_less mult.commute)
  moreover have "j = 0 \<or> 10 ^ j \<le> n div 10"
    using Suc.prems(2) by (auto simp: less_eq_div_iff_mult_less_eq mult.commute)
  ultimately have "map byte_of (nat_dec (n div 10)) = map digit_byte (digs (Suc j) (n div 10))"
    by (rule Suc.IH)
  then show ?case
    using ge by (subst nat_dec.simps) (simp add: digs_snoc [of "Suc j" n] byte_of_digit del: digs.simps)
qed

lemma digit_loop_digs: "digit_loop (int n) (10 ^ j) = Some (map digit_byte (digs j n))"
proof (induction j)
  case (Suc j)
  have "(10 :: int) ^ Suc j div 10 = 10 ^ j" by simp
  moreover have "(int n mod (10 ^ j * 10)) div 10 ^ j = int ((n div 10 ^ j) mod 10)"
  proof -
    have "n mod (10 ^ j * 10) div 10 ^ j = n div 10 ^ j mod 10" by (simp add: mod_mult2_eq)
    from arg_cong [OF this, of int] show ?thesis by (simp add: zdiv_int zmod_int)
  qed
  moreover have "(1 :: int) < 10 ^ Suc j" by (rule one_less_power) simp_all
  ultimately show ?case using Suc
    by (subst digit_loop.simps) (simp add: digit_byte_def Let_def del: power_Suc)
qed (simp add: digit_loop.simps)

lemma pow_loop_digits:
  assumes "10 ^ k \<le> n" "n < 10 ^ (k + m)" "k + m \<le> 9"
  shows "\<exists>j. pow_loop (int n) (10 ^ k) = Some (10 ^ Suc j) \<and> 10 ^ j \<le> n \<and> n < 10 ^ Suc j"
  using assms
proof (induction m arbitrary: k)
  case (Suc m)
  have "n div 10 ^ k \<noteq> 0" using Suc.prems(1) by (simp add: div_eq_0_iff not_less)
  then have "int n div 10 ^ k \<noteq> 0" using zdiv_int [of n "10 ^ k"] by (metis of_nat_eq_0_iff of_nat_numeral of_nat_power)
  moreover have "in_s32 (10 ^ k * 10)"
  proof -
    have "(10 :: int) ^ Suc k \<le> 10 ^ 9" using Suc.prems(3) by (intro power_increasing) auto
    then show ?thesis by (simp add: in_s32_def mult.commute order.trans [of _ 0])
  qed
  ultimately have st: "pow_loop (int n) (10 ^ k) = pow_loop (int n) (10 ^ Suc k)"
    by (subst pow_loop.simps) (simp add: mult.commute)
  show ?case
  proof (cases "n < 10 ^ Suc k")
    case True
    then have "int n < 10 ^ Suc k" by (metis of_nat_less_iff of_nat_numeral of_nat_power)
    then have "int n div 10 ^ Suc k = 0" by (intro div_pos_pos_trivial) simp_all
    then have "pow_loop (int n) (10 ^ Suc k) = Some (10 ^ Suc k)" by (subst pow_loop.simps) simp
    with st True Suc.prems(1) show ?thesis by (intro exI [of _ k]) (simp del: power_Suc)
  next
    case False
    with Suc.IH [of "Suc k"] Suc.prems st show ?thesis by simp
  qed
qed simp


lemma pow_loop_overflow: "10 ^ 9 \<le> n \<Longrightarrow> pow_loop n 1 = None"
proof -
  assume n: "(10 :: int) ^ 9 \<le> n"
  have st: "pow_loop n (10 ^ k) = (if k < 9 then pow_loop n (10 ^ Suc k) else None)" if "k \<le> 9" for k
  proof -
    have "(10 :: int) ^ k \<le> n" using n that power_increasing [of k 9 "10 :: int"] by linarith
    then have "n div 10 ^ k \<noteq> 0" by (simp add: pos_imp_zdiv_pos_iff [THEN iffD2, THEN less_imp_neq, symmetric])
    moreover have "in_s32 (10 ^ k * 10) \<longleftrightarrow> k < 9"
    proof (cases "k < 9")
      case True
      then have "(10 :: int) ^ Suc k \<le> 10 ^ 9" by (intro power_increasing) auto
      then show ?thesis using True by (simp add: in_s32_def mult.commute order.trans [of _ 0])
    next
      case False
      with that have "k = 9" by simp
      then show ?thesis by (simp add: in_s32_def)
    qed
    ultimately show ?thesis using \<open>10 ^ k \<le> n\<close> n
      by (subst pow_loop.simps) (simp add: mult.commute)
  qed
  show ?thesis using st [of 0] st [of 1] st [of 2] st [of 3] st [of 4] st [of 5] st [of 6] st [of 7] st [of 8] st [of 9]
    by simp
qed

lemma int_chars_nat:
  assumes "0 < n" "n < 10 ^ 9"
  shows "\<exists>r. pow_loop (int n) 1 = Some r \<and> digit_loop (int n) r = Some (map byte_of (nat_dec n))"
proof -
  obtain j where j: "pow_loop (int n) 1 = Some (10 ^ Suc j)" "10 ^ j \<le> n" "n < 10 ^ Suc j"
    using pow_loop_digits [of 0 n 9] assms by auto
  with digit_loop_digs [of n "Suc j"] nat_dec_digs [of n j] show ?thesis by simp
qed

lemma int_chars_decimal:
  assumes "\<bar>n\<bar> < 10 ^ 9"
  shows "int_chars n = Some (map byte_of (fmt_d n))"
proof -
  consider (zero) "n = 0" | (pos) k where "n = int k" "0 < k" | (neg) k where "n = - int k" "0 < k"
    using int_cases3 [of n thesis] by blast
  then show ?thesis
  proof cases
    case zero
    then show ?thesis by (simp add: int_chars_def fmt_d_def nat_dec.simps byte_of_def)
  next
    case pos
    with assms int_chars_nat [of k] show ?thesis by (auto simp: int_chars_def fmt_d_def)
  next
    case neg
    with assms int_chars_nat [of k] show ?thesis
      by (auto simp: int_chars_def fmt_d_def in_s32_def byte_of_def)
  qed
qed

lemma int_chars_overflow: "10 ^ 9 \<le> \<bar>n\<bar> \<Longrightarrow> int_chars n = None"
  by (auto simp: int_chars_def pow_loop_overflow)


section \<open>The rings are queues\<close>

definition tx_items :: "usart2 \<Rightarrow> 8 word list" where
  "tx_items s = map ucast (ring_items (USART2_TxBuffer s) (USART2_TxGetIndex s) (USART2_TxPutIndex s))"

definition tx_ok :: "usart2 \<Rightarrow> bool" where
  "tx_ok s \<longleftrightarrow> length (USART2_TxBuffer s) = RING_SIZE \<and> USART2_TxGetIndex s < RING_SIZE \<and>
     USART2_TxPutIndex s < RING_SIZE"

definition tx_inv :: "usart2 \<Rightarrow> bool" where
  "tx_inv s \<longleftrightarrow> tx_ok s \<and> (tx_items s \<noteq> [] \<longrightarrow> TXE_interrupt s)"

definition tx_room :: "usart2 \<Rightarrow> nat" where
  "tx_room s = RING_SIZE - 1 - ring_count (USART2_TxGetIndex s) (USART2_TxPutIndex s)"

text \<open>The consumer of the sending ring: one interrupt, and the byte it put on the line.\<close>

definition tx_take :: "usart2 \<Rightarrow> (8 word \<times> usart2) option" where
  "tx_take s =
     (if TXE_interrupt s \<and> USART2_TxGetIndex s \<noteq> USART2_TxPutIndex s
      then Some (ucast (last (line_out (USART2_IRQHandler True s))), USART2_IRQHandler True s) else None)"

lemma ucast_8_16 [simp]: "ucast (ucast (c :: 8 word) :: 16 word) = c"
  by (rule bit_word_eqI) (simp add: bit_ucast_iff)

lemma tx_items_PutChar:
  assumes "tx_ok s" "0 < tx_room s"
  shows "tx_items (USART2_PutChar c s) = tx_items s @ [c]"
  using assms ring_items_put [of "USART2_TxGetIndex s" "USART2_TxPutIndex s" "USART2_TxBuffer s" "ucast c"]
  by (simp add: tx_items_def USART2_PutChar_def tx_enable_def tx_advance_def tx_write_def tx_ok_def tx_room_def
      ring_next_def)

lemma tx_take_items:
  assumes "tx_ok s" "USART2_TxGetIndex s \<noteq> USART2_TxPutIndex s" "TXE_interrupt s"
  shows "tx_items s = ucast (USART2_TxBuffer s ! USART2_TxGetIndex s) # tx_items (USART2_IRQHandler True s)"
  using assms ring_items_get [of "USART2_TxGetIndex s" "USART2_TxPutIndex s" "USART2_TxBuffer s"]
  by (simp add: tx_items_def USART2_IRQHandler_def tx_ok_def ring_next_def)

lemma tx_items_Nil: "tx_ok s \<Longrightarrow> tx_items s = [] \<longleftrightarrow> USART2_TxGetIndex s = USART2_TxPutIndex s"
  by (simp add: tx_items_def tx_ok_def)

interpretation tx: fifo USART2_PutChar tx_take tx_items tx_inv tx_room
proof (unfold_locales, goal_cases)
  case (1 s x)
  then show ?case by (simp add: tx_inv_def tx_items_PutChar)
next
  case (2 s x)
  then show ?case
    using ring_count_put [of "USART2_TxGetIndex s" "USART2_TxPutIndex s"]
    by (auto simp: tx_inv_def tx_ok_def tx_room_def USART2_PutChar_def tx_enable_def tx_advance_def tx_write_def
        ring_next_def)
next
  case (3 s)
  then show ?case using tx_items_Nil [of s] by (auto simp: tx_inv_def tx_take_def)
next
  case (4 s x s')
  then have g: "USART2_TxGetIndex s \<noteq> USART2_TxPutIndex s" "TXE_interrupt s" "tx_ok s"
    and s': "s' = USART2_IRQHandler True s" "x = ucast (USART2_TxBuffer s ! USART2_TxGetIndex s)"
    by (auto simp: tx_inv_def tx_take_def USART2_IRQHandler_def split: if_splits)
  have "ring_count (USART2_TxGetIndex s) (USART2_TxPutIndex s) =
      Suc (ring_count (USART2_TxGetIndex s') (USART2_TxPutIndex s'))"
    using g ring_count_get [of "USART2_TxGetIndex s" "USART2_TxPutIndex s"]
    by (simp add: s' USART2_IRQHandler_def tx_ok_def ring_next_def)
  moreover have "ring_count (USART2_TxGetIndex s) (USART2_TxPutIndex s) < RING_SIZE" by simp
  ultimately have "tx_room s' = Suc (tx_room s)" unfolding tx_room_def by simp
  moreover have "tx_inv s'" using g
    by (auto simp: tx_inv_def tx_ok_def s' USART2_IRQHandler_def)
  ultimately show ?case using tx_take_items [OF g(3,1,2)] s' by simp
qed

definition rx_put :: "usart2 \<Rightarrow> nat" where
  "rx_put s = RING_SIZE - NDTR s"

definition rx_items :: "usart2 \<Rightarrow> 8 word list" where
  "rx_items s = map ucast (ring_items (USART2_RxBuffer s) (USART2_RxGetIndex s) (rx_put s))"

definition rx_inv :: "usart2 \<Rightarrow> bool" where
  "rx_inv s \<longleftrightarrow> length (USART2_RxBuffer s) = RING_SIZE \<and> USART2_RxGetIndex s < RING_SIZE \<and>
     1 \<le> NDTR s \<and> NDTR s \<le> RING_SIZE"

definition rx_room :: "usart2 \<Rightarrow> nat" where
  "rx_room s = RING_SIZE - 1 - ring_count (USART2_RxGetIndex s) (rx_put s)"

lemma rx_put_less: "rx_inv s \<Longrightarrow> rx_put s < RING_SIZE"
  by (auto simp: rx_inv_def rx_put_def RING_SIZE_def)

lemma rx_put_dma: "rx_inv s \<Longrightarrow> rx_put (dma_receive w s) = ring_next (rx_put s)"
  by (auto simp: rx_inv_def rx_put_def dma_receive_def ring_next_def ring_wrap RING_SIZE_def)

interpretation rx: fifo "\<lambda>c. dma_receive (ucast c)" USART2_GetChar rx_items rx_inv rx_room
proof (unfold_locales, goal_cases)
  case (1 s x)
  then show ?case
    using ring_items_put [of "USART2_RxGetIndex s" "rx_put s" "USART2_RxBuffer s" "ucast x"] rx_put_less [of s]
      rx_put_dma [of s "ucast x"]
    by (simp add: rx_items_def rx_room_def) (simp add: dma_receive_def rx_inv_def rx_put_def)
next
  case (2 s x)
  then show ?case
    using ring_count_put [of "USART2_RxGetIndex s" "rx_put s"] rx_put_less [of s] rx_put_dma [of s "ucast x"]
    by (auto simp: rx_room_def) (auto simp: dma_receive_def rx_inv_def RING_SIZE_def)
next
  case (3 s)
  then show ?case using rx_put_less [of s]
    by (auto simp: rx_items_def USART2_GetChar_def Let_def rx_inv_def rx_put_def)
next
  case (4 s x s')
  then have g: "USART2_RxGetIndex s \<noteq> rx_put s" "USART2_RxGetIndex s < RING_SIZE"
    and s': "s' = s\<lparr>USART2_RxGetIndex := ring_next (USART2_RxGetIndex s)\<rparr>"
      "x = ucast (USART2_RxBuffer s ! USART2_RxGetIndex s)"
    by (auto simp: USART2_GetChar_def Let_def rx_put_def ring_next_def rx_inv_def split: if_splits)
  have p: "rx_put s' = rx_put s" by (simp add: s' rx_put_def)
  have "ring_count (USART2_RxGetIndex s) (rx_put s) < RING_SIZE" by simp
  then have "rx_room s' = Suc (rx_room s)"
    using ring_count_get [OF g(2) rx_put_less [OF 4(1)] g(1)] unfolding rx_room_def p by (simp add: s')
  moreover have "rx_inv s'" using 4(1) by (simp add: rx_inv_def s')
  ultimately show ?case
    using ring_items_get [OF g(2) rx_put_less [OF 4(1)] g(1), of "USART2_RxBuffer s"] p
    by (simp add: rx_items_def s')
qed


section \<open>Sending and the interrupt, interleaved\<close>

text \<open>
  The main program runs \<open>USART2_PutChar\<close> in its three steps; the interrupt may come
  between any two of them. The code does not look whether the ring has room: \<open>history\<close> is what has been put and
  \<open>overruns\<close> counts the characters put while 255 characters were waiting.
\<close>

datatype tx_pc = Idle | Written "8 word" | Advanced

record tx_sys =
  drv :: usart2
  tx_pc :: tx_pc
  history :: "8 word list"
  overruns :: nat

inductive tx_step :: "tx_sys \<Rightarrow> tx_sys \<Rightarrow> bool" where
  step_write: "tx_pc x = Idle \<Longrightarrow>
    tx_step x (x\<lparr>drv := tx_write c (drv x), tx_pc := Written c\<rparr>)"
| step_advance: "tx_pc x = Written c \<Longrightarrow>
    tx_step x (x\<lparr>drv := tx_advance (drv x), tx_pc := Advanced, history := history x @ [c],
      overruns := overruns x + (if tx_room (drv x) = 0 then 1 else 0)\<rparr>)"
| step_enable: "tx_pc x = Advanced \<Longrightarrow> tx_step x (x\<lparr>drv := tx_enable (drv x), tx_pc := Idle\<rparr>)"
| step_irq: "tx_step x (x\<lparr>drv := USART2_IRQHandler txe (drv x)\<rparr>)"

inductive_cases tx_stepE: "tx_step x y"

definition tx_start :: "tx_sys" where
  "tx_start = \<lparr>drv = USART2_Configuration \<lparr>USART2_RxBuffer = [], USART2_RxGetIndex = 0, USART2_TxBuffer = [],
     USART2_TxPutIndex = 0, USART2_TxGetIndex = 0, TXE_interrupt = False, NDTR = 0, line_out = []\<rparr>,
     tx_pc = Idle, history = [], overruns = 0\<rparr>"

text \<open>What is on the line and what waits behind it.\<close>

definition tx_stream :: "usart2 \<Rightarrow> 8 word list" where
  "tx_stream s = map ucast (line_out s) @ tx_items s"

definition tx_sys_inv :: "tx_sys \<Rightarrow> bool" where
  "tx_sys_inv x \<longleftrightarrow> tx_ok (drv x) \<and>
     subseq (tx_stream (drv x)) (history x) \<and>
     length (history x) = length (tx_stream (drv x)) + RING_SIZE * overruns x \<and>
     (case tx_pc x of
        Idle \<Rightarrow> tx_items (drv x) \<noteq> [] \<longrightarrow> TXE_interrupt (drv x)
      | Written c \<Rightarrow> (tx_items (drv x) \<noteq> [] \<longrightarrow> TXE_interrupt (drv x)) \<and>
          USART2_TxBuffer (drv x) ! USART2_TxPutIndex (drv x) = ucast c
      | Advanced \<Rightarrow> True)"

lemma tx_write_frame [frame]:
  assumes "tx_ok s"
  shows "tx_ok (tx_write c s)" "tx_items (tx_write c s) = tx_items s" "line_out (tx_write c s) = line_out s"
    "tx_room (tx_write c s) = tx_room s" "TXE_interrupt (tx_write c s) = TXE_interrupt s"
    "USART2_TxBuffer (tx_write c s) ! USART2_TxPutIndex (tx_write c s) = ucast c"
  using assms ring_items_write_outside [of "USART2_TxGetIndex s" "USART2_TxPutIndex s" "USART2_TxBuffer s"]
  by (simp_all add: tx_write_def tx_ok_def tx_items_def tx_room_def)

lemma tx_advance_items:
  assumes "tx_ok s" "0 < tx_room s" "USART2_TxBuffer s ! USART2_TxPutIndex s = ucast (c :: 8 word)"
  shows "tx_ok (tx_advance s)" "tx_items (tx_advance s) = tx_items s @ [c]" "line_out (tx_advance s) = line_out s"
proof -
  have "(USART2_TxBuffer s)[USART2_TxPutIndex s := ucast c] = USART2_TxBuffer s"
    unfolding assms(3) [symmetric] by (rule list_update_id)
  then have "tx_advance s = tx_advance (tx_write c s)" by (simp add: tx_write_def)
  then show "tx_items (tx_advance s) = tx_items s @ [c]"
    using tx_items_PutChar [OF assms(1,2), of c] by (simp add: USART2_PutChar_def tx_enable_def tx_items_def)
qed (use assms(1) in \<open>auto simp: tx_ok_def tx_advance_def RING_SIZE_def\<close>)

lemma tx_advance_overrun:
  assumes "tx_ok s" "tx_room s = 0"
  shows "tx_ok (tx_advance s)" "tx_items (tx_advance s) = []" "line_out (tx_advance s) = line_out s"
    "length (tx_items s) = RING_SIZE - 1"
proof -
  have "ring_count (USART2_TxGetIndex s) (USART2_TxPutIndex s) = RING_SIZE - 1"
    using assms(2) ring_count_less [of "USART2_TxGetIndex s" "USART2_TxPutIndex s"] unfolding tx_room_def by linarith
  then show "tx_items (tx_advance s) = []" "length (tx_items s) = RING_SIZE - 1"
    using assms(1) ring_count_overrun [of "USART2_TxGetIndex s" "USART2_TxPutIndex s"]
    by (simp_all add: tx_items_def tx_advance_def tx_ok_def ring_items_def ring_next_def)
qed (use assms(1) in \<open>auto simp: tx_ok_def tx_advance_def RING_SIZE_def\<close>)

lemma tx_advance_stream:
  assumes "tx_ok s" "USART2_TxBuffer s ! USART2_TxPutIndex s = ucast (c :: 8 word)"
    "subseq (tx_stream s) h" "length h = length (tx_stream s) + RING_SIZE * n"
  shows "subseq (tx_stream (tx_advance s)) (h @ [c]) \<and>
    length (h @ [c]) = length (tx_stream (tx_advance s)) + RING_SIZE * (n + (if tx_room s = 0 then 1 else 0))"
proof (cases "tx_room s = 0")
  case True
  note o = tx_advance_overrun [OF assms(1) True]
  have "subseq (map ucast (line_out s)) h" using assms(3) unfolding tx_stream_def
    by (rule subseq_order.trans [OF prefix_imp_subseq, rotated]) (rule prefixI, rule refl)
  then have "subseq (map ucast (line_out s) @ []) (h @ [c])" by (rule list_emb_append_mono) simp
  then show ?thesis using o assms(4) True by (simp add: tx_stream_def RING_SIZE_def)
next
  case False
  then have "tx_stream (tx_advance s) = tx_stream s @ [c]" using tx_advance_items [OF assms(1) _ assms(2)] by (simp add: tx_stream_def)
  then show ?thesis using assms(3,4) False by (simp add: list_emb_append_mono)
qed

lemma irq_frame [frame]:
  assumes "tx_ok s"
  shows "tx_ok (USART2_IRQHandler b s)"
    "map ucast (line_out (USART2_IRQHandler b s)) @ tx_items (USART2_IRQHandler b s) = map ucast (line_out s) @ tx_items s"
    "tx_items (USART2_IRQHandler b s) \<noteq> [] \<Longrightarrow> TXE_interrupt s \<Longrightarrow> TXE_interrupt (USART2_IRQHandler b s)"
    "tx_items s = [] \<Longrightarrow> tx_items (USART2_IRQHandler b s) = []"
    "tx_stream (USART2_IRQHandler b s) = tx_stream s"
    "USART2_TxPutIndex (USART2_IRQHandler b s) = USART2_TxPutIndex s"
    "USART2_TxBuffer (USART2_IRQHandler b s) = USART2_TxBuffer s"
proof -
  show "tx_ok (USART2_IRQHandler b s)" using assms by (auto simp: USART2_IRQHandler_def tx_ok_def RING_SIZE_def)
  show stream: "map ucast (line_out (USART2_IRQHandler b s)) @ tx_items (USART2_IRQHandler b s) = map ucast (line_out s) @ tx_items s"
  proof (cases "b \<and> TXE_interrupt s \<and> USART2_TxGetIndex s \<noteq> USART2_TxPutIndex s")
    case True
    then have "line_out (USART2_IRQHandler b s) = line_out s @ [USART2_TxBuffer s ! USART2_TxGetIndex s]"
      by (simp add: USART2_IRQHandler_def)
    with True tx_take_items [OF assms] show ?thesis by simp
  qed (auto simp: USART2_IRQHandler_def tx_items_def)
  show "tx_items s = [] \<Longrightarrow> tx_items (USART2_IRQHandler b s) = []"
    using assms by (auto simp: USART2_IRQHandler_def tx_items_Nil) (auto simp: tx_items_def tx_ok_def)
  show "tx_items (USART2_IRQHandler b s) \<noteq> [] \<Longrightarrow> TXE_interrupt s \<Longrightarrow> TXE_interrupt (USART2_IRQHandler b s)"
    using assms by (auto simp: USART2_IRQHandler_def) (auto simp: tx_items_def tx_ok_def)
  show "tx_stream (USART2_IRQHandler b s) = tx_stream s" using stream by (simp add: tx_stream_def)
qed (simp_all add: USART2_IRQHandler_def)

lemma tx_step_inv [inv_pres]: "\<lbrakk>tx_step x y; tx_sys_inv x\<rbrakk> \<Longrightarrow> tx_sys_inv y"
proof (induction rule: tx_step.induct)
  case (step_write x c)
  then show ?case by (simp add: tx_sys_inv_def tx_stream_def tx_write_frame)
next
  case (step_advance x c)
  then show ?case
    using tx_advance_stream [of "drv x" c "history x" "overruns x"] tx_advance_items(1) [of "drv x" c] tx_advance_overrun(1) [of "drv x"]
    by (simp add: tx_sys_inv_def) blast
next
  case (step_enable x)
  then show ?case by (simp add: tx_sys_inv_def tx_stream_def tx_enable_def tx_ok_def tx_items_def)
next
  case (step_irq x txe)
  then show ?case using irq_frame [of "drv x" txe]
    by (auto simp: tx_sys_inv_def split: tx_pc.splits)
qed

lemma tx_start_inv: "tx_sys_inv tx_start"
  by (simp add: tx_sys_inv_def tx_stream_def tx_start_def USART2_Configuration_def tx_ok_def tx_items_def ring_items_def
      ring_count_def RING_SIZE_def)

lemma tx_reachable_inv: "tx_step\<^sup>*\<^sup>* tx_start x \<Longrightarrow> tx_sys_inv x"
  by (induction rule: rtranclp_induct) (auto intro: tx_start_inv tx_step_inv)

lemma subseq_same_length: "\<lbrakk>subseq xs ys; length ys = length xs\<rbrakk> \<Longrightarrow> ys = xs"
  by (metis subseq_same_length)

text \<open>A call of \<open>USART2_PutChar\<close> without an interrupt in between is three steps.\<close>

lemma tx_step_put:
  assumes "tx_step\<^sup>*\<^sup>* x0 x" "tx_pc x = Idle"
  shows "tx_step\<^sup>*\<^sup>* x0 (x\<lparr>drv := USART2_PutChar c (drv x), history := history x @ [c],
    overruns := overruns x + (if tx_room (tx_write c (drv x)) = 0 then 1 else 0)\<rparr>)"
proof -
  let ?a = "x\<lparr>drv := tx_write c (drv x), tx_pc := Written c\<rparr>"
  let ?b = "?a\<lparr>drv := tx_advance (drv ?a), tx_pc := Advanced, history := history ?a @ [c],
    overruns := overruns ?a + (if tx_room (drv ?a) = 0 then 1 else 0)\<rparr>"
  let ?c = "?b\<lparr>drv := tx_enable (drv ?b), tx_pc := Idle\<rparr>"
  have "tx_step x ?a" using assms(2) by (rule step_write)
  moreover have "tx_step ?a ?b" by (rule step_advance) simp
  moreover have "tx_step ?b ?c" by (rule step_enable) simp
  ultimately have "tx_step\<^sup>*\<^sup>* x0 ?c" using assms(1) by (meson rtranclp.rtrancl_into_rtrancl)
  moreover have "?c = x\<lparr>drv := USART2_PutChar c (drv x), history := history x @ [c],
    overruns := overruns x + (if tx_room (tx_write c (drv x)) = 0 then 1 else 0)\<rparr>"
    using assms(2) by (cases x) (simp add: USART2_PutChar_def)
  ultimately show ?thesis by simp
qed


lemma irq_take: "\<lbrakk>tx_inv s; tx_items s \<noteq> []\<rbrakk> \<Longrightarrow>
    tx_inv (USART2_IRQHandler True s) \<and> Suc (length (tx_items (USART2_IRQHandler True s))) = length (tx_items s)"
proof -
  assume "tx_inv s" "tx_items s \<noteq> []"
  moreover from this have "tx_take s = Some (ucast (last (line_out (USART2_IRQHandler True s))), USART2_IRQHandler True s)"
    using tx_items_Nil [of s] by (auto simp: tx_take_def tx_inv_def)
  ultimately show ?thesis using tx.get_some by fastforce
qed

lemma irq_drain:
  assumes "tx_inv s"
  shows "tx_inv ((USART2_IRQHandler True ^^ length (tx_items s)) s) \<and>
    tx_items ((USART2_IRQHandler True ^^ length (tx_items s)) s) = [] \<and>
    map ucast (line_out ((USART2_IRQHandler True ^^ length (tx_items s)) s)) = map ucast (line_out s) @ tx_items s"
  using assms
proof (induction "length (tx_items s)" arbitrary: s)
  case (Suc n)
  let ?s = "USART2_IRQHandler True s"
  have "tx_items s \<noteq> []" using Suc.hyps(2) by auto
  then have i: "tx_inv ?s" "n = length (tx_items ?s)" using irq_take [of s] Suc.hyps(2) Suc.prems by auto
  have "(USART2_IRQHandler True ^^ length (tx_items s)) s = (USART2_IRQHandler True ^^ n) ?s"
    using Suc.hyps(2) by (metis funpow_swap1 funpow.simps(2) comp_apply)
  with Suc.hyps(1) [OF i(2,1)] irq_frame(2) [of s True] Suc.prems i(2) show ?case
    by (simp add: tx_inv_def)
qed auto

lemma PutString_fold: "0 \<notin> set cs \<Longrightarrow> USART2_PutString (cs @ [0]) s = Some (fold USART2_PutChar cs s)"
  by (induction cs arbitrary: s) auto

lemma fold_PutChar_line_out: "line_out (fold USART2_PutChar cs s) = line_out s"
  by (induction cs arbitrary: s) (simp_all add: USART2_PutChar_def tx_enable_def tx_advance_def tx_write_def)

lemma rx_read_loop_stops:
  assumes "rx_read_loop buf p g str = Some r"
  shows "g < RING_SIZE \<longrightarrow> p < RING_SIZE"
  by (rule rx_read_loop.raw_induct [OF _ assms, of "\<lambda>buf p g str r. g < RING_SIZE \<longrightarrow> p < RING_SIZE"])
    (auto split: if_splits simp: RING_SIZE_def)

text \<open>Up to \<open>n\<close> calls of \<open>USART2_GetChar\<close>, until one reports that nothing is there.\<close>

primrec get_chars :: "nat \<Rightarrow> usart2 \<Rightarrow> 8 word list \<times> usart2" where
  "get_chars 0 s = ([], s)"
| "get_chars (Suc n) s =
     (case USART2_GetChar s of None \<Rightarrow> ([], s) | Some (c, s') \<Rightarrow> (case get_chars n s' of (cs, s'') \<Rightarrow> (c # cs, s'')))"

lemma get_chars_drain: "get_chars n s = rx.drain n s"
  by (induction n arbitrary: s) (auto split: option.splits)

text \<open>A sequence of received values, one interrupt each.\<close>

primrec rx_fold :: "16 word list \<Rightarrow> usart3 \<Rightarrow> usart3 option" where
  "rx_fold [] s = Some s"
| "rx_fold (d # ds) s = Option.bind (USART_ReceiveString d s) (rx_fold ds)"

lemma rx_fold_store:
  assumes "Rx_GetIndex s = k" "k + length ds \<le> length (Buffer_Array s)" "0x63 \<notin> set ds" "0x71 \<notin> set ds"
  shows "rx_fold ds s = Some (s\<lparr>Buffer_Array := take k (Buffer_Array s) @ ds @ drop (k + length ds) (Buffer_Array s),
    Rx_GetIndex := k + length ds\<rparr>)"
  using assms
proof (induction ds arbitrary: s k)
  case (Cons d ds)
  let ?s = "s\<lparr>Buffer_Array := (Buffer_Array s)[k := d], Rx_GetIndex := Suc k\<rparr>"
  have "USART_ReceiveString d s = Some ?s"
    using Cons.prems by (auto simp: USART_ReceiveString_def Let_def)
  moreover have "rx_fold ds ?s = Some (?s\<lparr>Buffer_Array := take (Suc k) (Buffer_Array ?s) @ ds @
      drop (Suc k + length ds) (Buffer_Array ?s), Rx_GetIndex := Suc k + length ds\<rparr>)"
    using Cons.prems by (intro Cons.IH) auto
  ultimately show ?case using Cons.prems by (simp add: take_Suc_conv_app_nth)
qed simp

definition usart3_start :: usart3 where
  "usart3_start = \<lparr>txe_polls = [], out3 = [], Buffer_Array = replicate 10 0, Rx_GetIndex = 0, IsReceive = False,
     exit_calib = False, Buffer_Size = 0, led15 = False\<rparr>"

section \<open>Properties\<close>

text \<open>
  C20. Sending, however \<open>USART2_PutChar\<close> and the interrupt interleave: in every reachable state the bytes on
  the line followed by those waiting in the ring are a subsequence of the bytes put, in their order, and exactly 256 bytes are missing for
  each byte that was put while 255 were waiting (the code has no check for that). As long as this never
  happened nothing is lost: the bytes put are the bytes on the line followed by the bytes in the ring. Whenever the main program is outside
  \<open>USART2_PutChar\<close> and bytes are waiting, the interrupt that will send them is enabled.
\<close>

theorem USART2_tx_interleaved:
  assumes "tx_step\<^sup>*\<^sup>* tx_start x"
  shows "subseq (map ucast (line_out (drv x)) @ tx_items (drv x)) (history x) \<and>
    length (history x) = length (line_out (drv x)) + length (tx_items (drv x)) + 256 * overruns x \<and>
    (overruns x = 0 \<longrightarrow> history x = map ucast (line_out (drv x)) @ tx_items (drv x)) \<and>
    (tx_pc x = Idle \<and> tx_items (drv x) \<noteq> [] \<longrightarrow> TXE_interrupt (drv x))"
  using tx_reachable_inv [OF assms]
  by (auto simp: tx_sys_inv_def tx_stream_def RING_SIZE_def intro: subseq_same_length)

theorem USART2_tx_interleaved_witness:
  "\<exists>x. tx_step\<^sup>*\<^sup>* tx_start x \<and> history x = [65, 66] \<and> overruns x = 0 \<and> map ucast (line_out (drv x)) = [65 :: 8 word] \<and>
     tx_items (drv x) = [66] \<and> TXE_interrupt (drv x)"
proof -
  let ?s = "USART2_IRQHandler True (USART2_PutChar 66 (USART2_PutChar 65 (drv tx_start)))"
  let ?x = "tx_start\<lparr>drv := ?s, history := [65, 66]\<rparr>"
  have r: "tx_room (tx_write c (drv tx_start)) = 255" "tx_room (tx_write c (USART2_PutChar d (drv tx_start))) = 254" for c d
    by (simp_all add: tx_start_def USART2_Configuration_def tx_room_def ring_count_def RING_SIZE_def USART2_PutChar_def
        tx_enable_def tx_advance_def tx_write_def)
  from tx_step_put [of tx_start tx_start 65] have "tx_step\<^sup>*\<^sup>* tx_start (tx_start\<lparr>drv := USART2_PutChar 65 (drv tx_start), history := [65]\<rparr>)"
    by (simp add: r) (simp add: tx_start_def)
  from tx_step_put [OF this, of 66] have "tx_step\<^sup>*\<^sup>* tx_start (tx_start\<lparr>drv := USART2_PutChar 66 (USART2_PutChar 65 (drv tx_start)), history := [65, 66]\<rparr>)"
    by (simp add: r) (simp add: tx_start_def)
  then have x: "tx_step\<^sup>*\<^sup>* tx_start ?x" using step_irq [of "tx_start\<lparr>drv := USART2_PutChar 66 (USART2_PutChar 65 (drv tx_start)), history := [65, 66]\<rparr>" True]
    by (simp add: tx_start_def rtranclp.rtrancl_into_rtrancl)
  have l: "line_out ?s = [65]" "TXE_interrupt ?s"
    by (simp_all add: tx_start_def USART2_Configuration_def USART2_PutChar_def tx_enable_def tx_advance_def tx_write_def
        USART2_IRQHandler_def RING_SIZE_def)
  have f: "drv ?x = ?s" "history ?x = [65, 66]" "overruns ?x = 0" by (simp_all add: tx_start_def)
  from USART2_tx_interleaved [OF x] have "tx_items ?s = [66]" unfolding f by (simp add: l)
  then show ?thesis using x l f by (intro exI [of _ ?x]) simp
qed

text \<open>
  C29. A string that fits into the free part of the ring is sent completely: after
  \<open>USART2_PutString\<close> as many interrupts as there are bytes in the ring put the old and
  the new bytes on the line, in order, and the next interrupt switches itself off.
\<close>

theorem USART2_PutString_sent:
  assumes "tx_inv s" "0 \<notin> set cs" "length cs \<le> tx_room s"
  shows "\<exists>s'. USART2_PutString (cs @ [0]) s = Some s' \<and>
    (let s'' = (USART2_IRQHandler True ^^ (length (tx_items s) + length cs)) s' in
     map ucast (line_out s'') = map ucast (line_out s) @ tx_items s @ cs \<and>
     \<not> TXE_interrupt (USART2_IRQHandler True s''))"
proof -
  let ?s = "fold USART2_PutChar cs s"
  have p: "tx_inv ?s" "tx_items ?s = tx_items s @ cs" using tx.puts_items [OF assms(1,3)] by auto
  define s'' where "s'' = (USART2_IRQHandler True ^^ length (tx_items ?s)) ?s"
  have d: "tx_inv s''" "tx_items s'' = []" "map ucast (line_out s'') = map ucast (line_out s) @ tx_items s @ cs"
    using irq_drain [OF p(1)] p(2) by (auto simp: s''_def fold_PutChar_line_out)
  have "\<not> TXE_interrupt (USART2_IRQHandler True s'')"
    using d(1,2) tx_items_Nil [of s''] by (auto simp: USART2_IRQHandler_def tx_inv_def)
  moreover have "length (tx_items ?s) = length (tx_items s) + length cs" using p(2) by simp
  ultimately show ?thesis using PutString_fold [OF assms(2)] d(3) by (simp add: s''_def Let_def)
qed

theorem USART2_PutString_sent_witness:
  "\<exists>s'. USART2_PutString [72, 105, 0] (drv tx_start) = Some s' \<and>
     map ucast (line_out ((USART2_IRQHandler True ^^ Suc (Suc 0)) s')) = [72 :: 8 word, 105]"
proof -
  have nz: "0 \<notin> set [72 :: 8 word, 105]" by simp
  have "tx_inv (drv tx_start)" "tx_room (drv tx_start) = 255" "tx_items (drv tx_start) = []" "line_out (drv tx_start) = []"
    using tx_start_inv
    by (simp_all add: tx_start_def tx_sys_inv_def tx_inv_def USART2_Configuration_def tx_room_def ring_count_def
        tx_items_def ring_items_def RING_SIZE_def)
  with USART2_PutString_sent [OF _ nz, of "drv tx_start"] show ?thesis
    by (auto simp: Let_def simp del: USART2_PutString.simps)
qed

text \<open>
  The ring has no check for overflow: \<open>USART2_PutChar\<close> on a ring with 255 waiting
  bytes makes it look empty, and none of the 256 bytes is sent.
\<close>

theorem USART2_PutChar_overrun:
  assumes "tx_ok s" "length (tx_items s) = RING_SIZE - 1"
  shows "tx_items (USART2_PutChar c s) = [] \<and>
    line_out (USART2_IRQHandler True (USART2_PutChar c s)) = line_out s"
proof -
  have c: "ring_count (USART2_TxGetIndex s) (USART2_TxPutIndex s) = RING_SIZE - 1"
    using assms(2) by (simp add: tx_items_def)
  then have "ring_next (USART2_TxPutIndex s) = USART2_TxGetIndex s"
    using assms(1) by (auto simp: tx_ok_def ring_count_if ring_next_def ring_wrap split: if_splits)
  with assms(1) show ?thesis
    by (simp add: USART2_PutChar_def tx_enable_def tx_advance_def tx_write_def USART2_IRQHandler_def tx_items_def
        ring_next_def tx_ok_def ring_items_def ring_count_def)
qed

theorem USART2_PutChar_overrun_witness:
  "tx_items (USART2_PutChar 1 ((drv tx_start)\<lparr>USART2_TxPutIndex := 255\<rparr>)) = []"
proof -
  have "tx_ok ((drv tx_start)\<lparr>USART2_TxPutIndex := 255\<rparr>)"
    "length (tx_items ((drv tx_start)\<lparr>USART2_TxPutIndex := 255\<rparr>)) = RING_SIZE - 1"
    by (simp_all add: tx_ok_def tx_start_def USART2_Configuration_def tx_items_def ring_count_def RING_SIZE_def)
  from USART2_PutChar_overrun [OF this] show ?thesis by simp
qed

text \<open>
  \<open>USART2_PutInt\<close> prints the decimal text of every number of less than ten digits;
  for a larger one the power of ten it computes overflows \<open>int\<close>.
\<close>

theorem USART2_PutInt_decimal:
  "USART2_PutInt n s =
     (if \<bar>n\<bar> < 10 ^ 9 then Some (fold USART2_PutChar (map byte_of (fmt_d n)) s) else None)"
  by (simp add: USART2_PutInt_def int_chars_decimal int_chars_overflow)

text \<open>
  Receiving loses nothing as long as the DMA stream does not overrun the reader:
  up to 255 unread bytes are returned by as many calls of \<open>USART2_GetChar\<close> in the
  order in which they came, and the next call reports that there is none.
\<close>

theorem USART2_GetChar_fifo:
  assumes "rx_inv s" "rx_items s = []" "length cs \<le> RING_SIZE - 1"
  shows "fst (get_chars (Suc (length cs)) (fold (\<lambda>c. dma_receive (ucast c)) cs s)) = cs \<and>
    USART2_GetChar (snd (get_chars (Suc (length cs)) (fold (\<lambda>c. dma_receive (ucast c)) cs s))) = None"
proof -
  have "rx_room s = RING_SIZE - 1"
    using assms(1,2) rx_put_less [of s] by (simp add: rx_room_def rx_items_def rx_inv_def ring_count_def)
  then have p: "rx_inv (fold (\<lambda>c. dma_receive (ucast c)) cs s)" "rx_items (fold (\<lambda>c. dma_receive (ucast c)) cs s) = cs"
    using rx.puts_items [OF assms(1), of cs] assms(2,3) by auto
  with rx.drain_items [OF p(1), of "Suc (length cs)"] rx.get_none show ?thesis by (simp add: get_chars_drain del: get_chars.simps)
qed

theorem USART2_GetChar_fifo_witness:
  "fst (get_chars (Suc (Suc (Suc 0))) (fold (\<lambda>c. dma_receive (ucast c)) [79, 75 :: 8 word] (drv tx_start))) = [79, 75]"
proof -
  have "rx_inv (drv tx_start)" "rx_items (drv tx_start) = []"
    by (simp_all add: tx_start_def USART2_Configuration_def rx_inv_def rx_items_def ring_items_def ring_count_def
        rx_put_def RING_SIZE_def)
  from USART2_GetChar_fifo [OF this, of "[79, 75]"] show ?thesis by (simp add: RING_SIZE_def del: get_chars.simps)
qed

text \<open>
  The other reading functions take the DMA counter, which counts down, for the put
  index: read from the start of the ring, \<open>USART2_GetRxBufferCount\<close> returns not the
  number of unread bytes but its complement, and \<open>USART2_ReadExisting\<close> never returns
  when nothing has been received.
\<close>

theorem USART2_rx_count_wrong:
  assumes "rx_inv s" "USART2_RxGetIndex s = 0"
  shows "USART2_GetRxBufferCount s = (RING_SIZE - length (rx_items s)) mod RING_SIZE \<and>
    (rx_items s = [] \<longrightarrow> USART2_ReadExisting s = None)"
proof -
  have c: "length (rx_items s) = RING_SIZE - NDTR s" "NDTR s \<le> RING_SIZE" "0 < NDTR s"
    using assms rx_put_less [OF assms(1)] by (auto simp: rx_items_def ring_count_if rx_put_def rx_inv_def RING_SIZE_def)
  have "USART2_ReadExisting s = None" if "rx_items s = []"
  proof -
    have "NDTR s = RING_SIZE" using c that by simp
    then show ?thesis
      using rx_read_loop_stops [of "USART2_RxBuffer s" "NDTR s" 0] assms(2)
      by (cases "rx_read_loop (USART2_RxBuffer s) (NDTR s) 0 []") (auto simp: USART2_ReadExisting_def RING_SIZE_def)
  qed
  with c assms(2) show ?thesis by (simp add: USART2_GetRxBufferCount_def)
qed

theorem USART2_rx_count_wrong_witness:
  "USART2_GetRxBufferCount (dma_receive 65 (drv tx_start)) = 255"
proof -
  let ?s = "dma_receive 65 (drv tx_start)"
  have "rx_inv ?s" "USART2_RxGetIndex ?s = 0" "length (rx_items ?s) = 1"
    by (simp_all add: tx_start_def USART2_Configuration_def rx_inv_def rx_items_def dma_receive_def
        ring_count_def rx_put_def RING_SIZE_def)
  from USART2_rx_count_wrong [OF this(1,2)] this(3) show ?thesis by (simp add: RING_SIZE_def)
qed

text \<open>
  \<open>USART_ReceiveString\<close> stores a command of up to ten bytes that ends in its only
  \<open>c\<close>, sets \<open>IsReceive\<close> and its length; but ten bytes without a \<open>c\<close> or a \<open>q\<close> leave
  the index at the end of the array, and the eleventh is written behind it.
\<close>

theorem USART_ReceiveString_bounds:
  assumes "length (Buffer_Array s) = 10" "Rx_GetIndex s = 0" "0x63 \<notin> set ds" "0x71 \<notin> set ds"
  shows "(length ds < 10 \<longrightarrow> (\<exists>s1 s2. rx_fold ds s = Some s1 \<and> USART_ReceiveString 0x63 s1 = Some s2 \<and>
      take (Suc (length ds)) (Buffer_Array s2) = ds @ [0x63] \<and> IsReceive s2 \<and>
      Buffer_Size s2 = Suc (length ds) \<and> Rx_GetIndex s2 = 0)) \<and>
    (length ds = 10 \<longrightarrow> (\<exists>s1. rx_fold ds s = Some s1 \<and> USART_ReceiveString d s1 = None))"
proof -
  have "rx_fold ds s = Some (s\<lparr>Buffer_Array := ds @ drop (length ds) (Buffer_Array s), Rx_GetIndex := length ds\<rparr>)"
    if "length ds \<le> 10" using rx_fold_store [of s 0 ds] that assms by simp
  then show ?thesis using assms
    by (auto simp: USART_ReceiveString_def Let_def take_Suc_conv_app_nth)
qed

theorem USART_ReceiveString_bounds_witness:
  "\<exists>s1. rx_fold (replicate 10 0) usart3_start = Some s1 \<and> USART_ReceiveString 0 s1 = None"
  using USART_ReceiveString_bounds [of usart3_start "replicate 10 0" 0] by (simp add: usart3_start_def)

end
