(* ===== verification/Device.thy ===== *)
theory Device
  imports Echo Uart
begin

text \<open>
  The server of the device, \<open>tcp_server.c\<close> of the project \<open>tcp_echo_client\<close>. The world of a
  connection is extended by the global variables of the device: the serial number received and
  the clock (\<open>json_env\<close>), the flags, the message built by \<open>json_Packet_Gen\<close>, the serial port, and
  the contents that a structure fresh from \<open>mem_malloc\<close> happens to have. An access through \<open>NULL\<close>,
  a read behind the end of a buffer, a write behind the end of an array and a serial port that
  never becomes ready are the value \<open>None\<close>.
\<close>

section \<open>The globals of the device\<close>

record 'es device = "'es world" +
  env :: json_env
  post_packet :: string
  flag_err_recv_serial :: int
  flag_recv_serial :: int
  flag_server_accept :: int
  usart :: usart3
  junk :: 'es

text \<open>
  A C string at an address: what can be read there up to the first NUL, if there is one. What can
  be read at the payload of a buffer is the rest of its memory, not just its \<open>len\<close> bytes.
\<close>

definition char_of_byte :: "byte \<Rightarrow> char" where
  "char_of_byte b = char_of (unat b)"

definition c_string :: "string \<Rightarrow> string option" where
  "c_string s = (if CHR 0x00 \<in> set s then Some (takeWhile (\<lambda>c. c \<noteq> CHR 0x00) s) else None)"

definition at_payload :: "pbuf \<Rightarrow> string" where
  "at_payload b = map char_of_byte (drop (pay b) (mem b))"

definition put_text :: "string \<Rightarrow> ('es, 'a) device_scheme \<Rightarrow> ('es, 'a) device_scheme option" where
  "put_text s w = map_option (\<lambda>u. w\<lparr>usart := u\<rparr>) (USART3_PutString (map byte_of s @ [0]) (usart w))"

text \<open>The call of \<open>json_Packet_Gen\<close>: the new contents of \<open>post_packet\<close>.\<close>

definition gen_packet :: "('es, 'a) device_scheme \<Rightarrow> ('es, 'a) device_scheme option" where
  "gen_packet w = map_option (\<lambda>s. w\<lparr>post_packet := s\<rparr>) (json_Packet_Gen (env w))"

definition serial_check :: "string \<Rightarrow> string option" where
  "serial_check m = do { s \<leftarrow> c_string m; sprintf_into 100 (''Serial no: '' @ s @ '' '' @ crlf) }"

definition set_serial :: "int \<Rightarrow> ('es, 'a) device_scheme \<Rightarrow> ('es, 'a) device_scheme" where
  "set_serial n w = w\<lparr>env := (env w)\<lparr>recv_serial := n\<rparr>\<rparr>"

section \<open>The server\<close>

datatype tcp_server_states = ES_NONE | ES_ACCEPTED | ES_RECEIVED | ES_CLOSING

record tcp_server_struct =
  sv_state :: tcp_server_states
  sv_pcb :: nat
  sv_p :: "nat option"
  sv_p_tx :: "nat option"

type_synonym server = "tcp_server_struct device"

text \<open>
  \<open>tcp_server_init\<close>. The results of \<open>tcp_new\<close>, \<open>tcp_bind\<close> and \<open>tcp_listen\<close> are arguments; the result is
  the new \<open>tcp_server_pcb\<close>, what is printed, and the new \<open>flag_server_accept\<close>.
\<close>

definition tcp_server_init :: "tcp_pcb option \<Rightarrow> err_t \<Rightarrow> tcp_pcb option \<Rightarrow> (tcp_pcb option \<times> string \<times> int) option" where
  "tcp_server_init new_pcb bound listening =
     (case new_pcb of
        None \<Rightarrow> Some (None, ''Can not create new pcb'' @ [CHR 0x0A], 0)
      | Some p \<Rightarrow>
          if bound = ERR_OK then
            (case listening of
               None \<Rightarrow> None
             | Some l \<Rightarrow> Some (Some (tcp_accept (Some ''tcp_server_accept'') l), [], 1))
          else Some (Some p, ''Can not bind pcb'' @ [CHR 0x0A], 0))"

definition tcp_server_recvData :: "tcp_pcb option \<Rightarrow> (tcp_pcb \<times> int) option" where
  "tcp_server_recvData tcp_server_pcb = map_option (\<lambda>p. (tcp_accept (Some ''tcp_server_accept'') p, 1)) tcp_server_pcb"

definition tcp_server_accept :: "server \<Rightarrow> err_t \<times> server" where
  "tcp_server_accept w =
     (let w1 = on_pcb (tcp_setprio 1) w in
      case mem_malloc w1 of
        (None, w2) \<Rightarrow> (ERR_MEM, w2)
      | (Some es, w2) \<Rightarrow>
          (let w3 = set_es es ((junk w2)\<lparr>sv_state := ES_ACCEPTED, sv_pcb := pcb_addr w2, sv_p := None\<rparr>) w2;
               w4 = on_pcb (tcp_arg (Some es)) w3;
               w5 = on_pcb (tcp_recv (Some ''tcp_server_recv'')) w4;
               w6 = on_pcb (tcp_err (Some ''tcp_server_error'')) w5;
               w7 = on_pcb (tcp_poll (Some ''tcp_server_poll'') 1) w6
           in (ERR_OK, w7)))"

definition tcp_server_send :: "nat \<Rightarrow> server \<Rightarrow> server option" where
  "tcp_server_send es w = do {
     e \<leftarrow> ess w es;
     (p, pc, h, plens) \<leftarrow> send_loop tcp_write (pcb w) (sv_p e) (heap w) [];
     Some (set_es es (e\<lparr>sv_p := p\<rparr>) (w\<lparr>heap := h, pcb := pc, calls := calls w @ map Call_recved plens\<rparr>))
   }"

definition tcp_server_connection_close :: "nat option \<Rightarrow> server \<Rightarrow> server" where
  "tcp_server_connection_close es w =
     (let w1 = on_pcb (tcp_poll None 0 \<circ> tcp_err None \<circ> tcp_recv None \<circ> tcp_sent None \<circ> tcp_arg None) w;
          w2 = (case es of None \<Rightarrow> w1 | Some a \<Rightarrow> mem_free a w1)
      in record_call Call_close w2)"

text \<open>A packet in the state \<open>ES_RECEIVED\<close> with nothing waiting: it should hold a serial number.\<close>

definition recv_serial_no :: "nat \<Rightarrow> nat \<Rightarrow> server \<Rightarrow> server option" where
  "recv_serial_no es q w = do {
     e \<leftarrow> ess w es;
     let w1 = set_es es (e\<lparr>sv_p := Some q\<rparr>) w;
     b \<leftarrow> cells (heap w) q;
     t \<leftarrow> serial_check (at_payload b);
     n \<leftarrow> str2int (at_payload b);
     w2 \<leftarrow> put_text (''SYSTEM >> GET Serial'' @ crlf) (set_serial n w1);
     if n \<le> 0 then Some (w2\<lparr>flag_err_recv_serial := 1\<rparr>)
     else gen_packet (w2\<lparr>flag_err_recv_serial := 0, flag_recv_serial := 1\<rparr>)
   }"

definition tcp_server_discard :: "nat \<Rightarrow> nat \<Rightarrow> server \<Rightarrow> server option" where
  "tcp_server_discard es q w = do {
     e \<leftarrow> ess w es;
     (n, h) \<leftarrow> pbuf_free (Some q) (heap w);
     Some (set_es es (e\<lparr>sv_p := None\<rparr>) (w\<lparr>heap := h\<rparr>))
   }"

definition tcp_server_recv :: "nat option \<Rightarrow> nat option \<Rightarrow> err_t \<Rightarrow> server \<Rightarrow> (err_t \<times> server) option" where
  "tcp_server_recv arg p err w = do {
     es \<leftarrow> arg;
     e \<leftarrow> ess w es;
     (case p of
        None \<Rightarrow>
          if sv_p e = None then Some (ERR_OK, tcp_server_connection_close (Some es) w)
          else do {
            w1 \<leftarrow> tcp_server_send es (on_pcb (tcp_sent (Some ''tcp_server_sent'')) w);
            Some (ERR_OK, w1)
          }
      | Some q \<Rightarrow>
          if err \<noteq> ERR_OK then do { w1 \<leftarrow> tcp_server_discard es q w; Some (err, w1) }
          else if sv_state e = ES_ACCEPTED then do {
            let w1 = set_es es (e\<lparr>sv_state := ES_RECEIVED, sv_p := p\<rparr>) w;
            w2 \<leftarrow> tcp_server_send es (on_pcb (tcp_sent (Some ''tcp_server_sent'')) w1);
            Some (ERR_OK, w2)
          }
          else if sv_state e = ES_RECEIVED then
            (if sv_p e = None then do { w1 \<leftarrow> recv_serial_no es q w; Some (ERR_OK, w1) }
             else do {
               h \<leftarrow> pbuf_chain (sv_p e) p (heap w);
               Some (ERR_OK, w\<lparr>heap := h\<rparr>)
             })
          else do {
            b \<leftarrow> cells (heap w) q;
            w1 \<leftarrow> tcp_server_discard es q (record_call (Call_recved (tot_len b)) w);
            Some (ERR_OK, w1)
          })
   }"

definition tcp_server_error :: "nat option \<Rightarrow> server \<Rightarrow> server" where
  "tcp_server_error arg w = (case arg of None \<Rightarrow> w | Some es \<Rightarrow> mem_free es w)"

definition tcp_server_poll :: "nat option \<Rightarrow> server \<Rightarrow> (err_t \<times> server) option" where
  "tcp_server_poll arg w =
     (case arg of
        None \<Rightarrow> Some (ERR_ABRT, record_call Call_abort w)
      | Some es \<Rightarrow> do {
          e \<leftarrow> ess w es;
          if sv_p e \<noteq> None then do { w1 \<leftarrow> tcp_server_send es w; Some (ERR_OK, w1) }
          else if sv_state e = ES_CLOSING then Some (ERR_OK, tcp_server_connection_close (Some es) w)
          else Some (ERR_OK, w)
        })"

definition tcp_server_sent :: "nat option \<Rightarrow> server \<Rightarrow> (err_t \<times> server) option" where
  "tcp_server_sent arg w = do {
     es \<leftarrow> arg;
     e \<leftarrow> ess w es;
     if sv_p e \<noteq> None then do { w1 \<leftarrow> tcp_server_send es w; Some (ERR_OK, w1) }
     else if sv_state e = ES_CLOSING then Some (ERR_OK, tcp_server_connection_close (Some es) w)
     else Some (ERR_OK, w)
   }"

section \<open>The serial port and the serial number\<close>

definition ready :: "nat \<Rightarrow> usart3 \<Rightarrow> bool" where
  "ready n u \<longleftrightarrow> n \<le> count_list (txe_polls u) True"

lemma poll_txe_ready:
  assumes "0 < count_list bs True"
  obtains cs where "poll_txe bs = Some cs" "Suc (count_list cs True) = count_list bs True"
  using assms by (induction bs rule: poll_txe.induct) (auto split: if_splits)

lemma USART3_PutString_ready:
  assumes "0 \<notin> set s" "ready (length s) u"
  shows "\<exists>bs. USART3_PutString (s @ [0]) u = Some (u\<lparr>txe_polls := bs, out3 := out3 u @ s\<rparr>) \<and> count_list bs True + length s = count_list (txe_polls u) True"
  using assms
proof (induction s arbitrary: u)
  case Nil
  then show ?case by (auto intro: exI [of _ "txe_polls u"])
next
  case (Cons c s)
  then have "0 < count_list (txe_polls u) True" by (simp add: ready_def)
  then obtain cs where cs: "poll_txe (txe_polls u) = Some cs" "Suc (count_list cs True) = count_list (txe_polls u) True"
    by (rule poll_txe_ready)
  let ?u = "u\<lparr>txe_polls := cs, out3 := out3 u @ [c]\<rparr>"
  have "ready (length s) ?u" using Cons.prems(2) cs(2) by (simp add: ready_def)
  from Cons.IH [OF _ this] Cons.prems(1) obtain bs where bs: "USART3_PutString (s @ [0]) ?u = Some (?u\<lparr>txe_polls := bs, out3 := out3 ?u @ s\<rparr>)"
    "count_list bs True + length s = count_list cs True" by auto
  then show ?case using Cons.prems(1) cs by (intro exI [of _ bs]) (simp add: USART3_PutChar_def)
qed

lemma unat_byte_of: "unat (byte_of c) = of_char c"
  using of_char_mod_256 [of c, where 'a = nat] by (simp add: byte_of_def unat_of_nat)

lemma byte_of_zero [simp]: "byte_of c = 0 \<longleftrightarrow> c = CHR 0x00"
proof
  assume "byte_of c = 0"
  then have "(of_char c :: nat) = of_char (CHR 0x00)" using unat_byte_of [of c] by simp
  then show "c = CHR 0x00" by (simp only: of_char_eq_iff)
qed (simp add: byte_of_def)

lemma put_text_ready:
  assumes "CHR 0x00 \<notin> set s" "ready (length s) (usart w)"
  shows "\<exists>u. put_text s w = Some (w\<lparr>usart := u\<rparr>) \<and> out3 u = out3 (usart w) @ map byte_of s"
proof -
  have "0 \<notin> set (map byte_of s)" using assms(1) by (auto simp: eq_commute [of 0])
  from USART3_PutString_ready [OF this, of "usart w"] assms(2) show ?thesis by (auto simp: put_text_def)
qed

lemma nat_dec_no_nul: "CHR 0x00 \<notin> set (nat_dec n)"
  using nat_dec_digits [of n] by (auto simp: list_all_iff is_digit_def)

lemma c_string_nul: "CHR 0x00 \<notin> set s \<Longrightarrow> c_string (s @ CHR 0x00 # r) = Some s"
  by (simp add: c_string_def takeWhile_append takeWhile_eq_all_conv)

lemma serial_check_dec:
  assumes "int n < 2 ^ 31"
  shows "serial_check (nat_dec n @ CHR 0x00 # r) = Some (''Serial no: '' @ nat_dec n @ '' '' @ crlf)"
    "str2int (nat_dec n @ CHR 0x00 # r) = Some (int n)"
proof -
  have "length (nat_dec n) \<le> 10" using assms by (intro nat_dec_length) auto
  then show "serial_check (nat_dec n @ CHR 0x00 # r) = Some (''Serial no: '' @ nat_dec n @ '' '' @ crlf)"
    using c_string_nul [OF nat_dec_no_nul] by (simp add: serial_check_def sprintf_into_def crlf_def)
  show "str2int (nat_dec n @ CHR 0x00 # r) = Some (int n)"
    using str2int_signed [of "[]" n "CHR 0x00" r] assms by (simp add: is_digit_def)
qed

section \<open>Events of a connection\<close>

datatype server_event = Ev_sent | Ev_poll

fun server_run :: "nat \<Rightarrow> server_event list \<Rightarrow> server \<Rightarrow> server option" where
  "server_run es [] w = Some w"
| "server_run es (Ev_sent # evs) w = Option.bind (tcp_server_sent (Some es) w) (\<lambda>(r, w). server_run es evs w)"
| "server_run es (Ev_poll # evs) w = Option.bind (tcp_server_poll (Some es) w) (\<lambda>(r, w). server_run es evs w)"

definition closes :: "tcp_call list \<Rightarrow> tcp_call list" where
  "closes cs = filter (\<lambda>c. c = Call_close \<or> c = Call_abort) cs"

lemma tcp_server_send_keeps:
  assumes "tcp_server_send es w = Some w'" "ess w es = Some e"
  shows "\<exists>p. ess w' es = Some (e\<lparr>sv_p := p\<rparr>) \<and> closes (calls w') = closes (calls w) \<and> callbacks (pcb w') = callbacks (pcb w)"
  using assms by (auto simp: tcp_server_send_def closes_def filter_map comp_def elim!: bind_SomeE dest: send_loop_callbacks split: prod.splits)

lemma server_event_keeps:
  assumes "tcp_server_sent (Some es) w = Some (r, w') \<or> tcp_server_poll (Some es) w = Some (r, w')" "ess w es = Some e" "sv_state e \<noteq> ES_CLOSING"
  shows "\<exists>p. ess w' es = Some (e\<lparr>sv_p := p\<rparr>) \<and> closes (calls w') = closes (calls w) \<and> callbacks (pcb w') = callbacks (pcb w)"
proof (cases "sv_p e = None")
  case True
  then have "e\<lparr>sv_p := None\<rparr> = e" by simp
  then show ?thesis using assms True by (auto simp: tcp_server_sent_def tcp_server_poll_def intro: exI [of _ None])
next
  case False
  then have "tcp_server_send es w = Some w'" using assms by (auto simp: tcp_server_sent_def tcp_server_poll_def elim!: bind_SomeE)
  from tcp_server_send_keeps [OF this assms(2)] show ?thesis .
qed

lemma server_run_keeps:
  assumes "server_run es evs w = Some w'" "ess w es = Some e" "sv_state e \<noteq> ES_CLOSING"
  shows "\<exists>p. ess w' es = Some (e\<lparr>sv_p := p\<rparr>) \<and> closes (calls w') = closes (calls w) \<and> callbacks (pcb w') = callbacks (pcb w)"
  using assms
proof (induction evs arbitrary: w e)
  case Nil
  then show ?case by (auto intro: exI [of _ "sv_p e"])
next
  case (Cons ev evs)
  obtain r w1 where w1: "tcp_server_sent (Some es) w = Some (r, w1) \<or> tcp_server_poll (Some es) w = Some (r, w1)" "server_run es evs w1 = Some w'"
    using Cons.prems(1) by (cases ev) (auto elim!: bind_SomeE)
  from server_event_keeps [OF w1(1) Cons.prems(2,3)] obtain p where p: "ess w1 es = Some (e\<lparr>sv_p := p\<rparr>)" "closes (calls w1) = closes (calls w)"
    "callbacks (pcb w1) = callbacks (pcb w)" by blast
  from Cons.IH [OF w1(2) p(1)] Cons.prems(3) show ?case using p by auto
qed

text \<open>A run that ends has the results of its parts.\<close>

lemma run_exists:
  assumes "map_option (\<lambda>x. ()) (Option.bind f g) = Some ()"
  obtains a b where "f = Some a" "g a = Some b"
  using assms by (cases f) auto

section \<open>Properties\<close>

definition sample_server_es :: tcp_server_struct where
  "sample_server_es = \<lparr>sv_state = ES_RECEIVED, sv_pcb = 0, sv_p = None, sv_p_tx = None\<rparr>"

definition sample_usart :: usart3 where
  "sample_usart = \<lparr>txe_polls = replicate 60 True, out3 = [], Buffer_Array = [], Rx_GetIndex = 0, IsReceive = False, exit_calib = False,
     Buffer_Size = 0, led15 = False\<rparr>"

definition serial_pbuf :: pbuf where
  "serial_pbuf = \<lparr>nxt = None, mem = [0x37, 0], pay = 0, tot_len = 1, len = 1, ptype = PBUF_RAM, ref = 1, custom = False\<rparr>"

definition sample_server :: server where
  "sample_server = \<lparr>heap = \<lparr>cells = [0 \<mapsto> serial_pbuf], brk = 1, grants = [], garbage = \<lambda>_. 0\<rparr>,
     pcb = sample_pcb\<lparr>callback_arg := Some 9, poll := Some ''tcp_server_poll''\<rparr>, pcb_addr = 0,
     ess = [9 \<mapsto> sample_server_es], calls = [], env = sample_env, post_packet = [], flag_err_recv_serial = 0, flag_recv_serial = 0,
     flag_server_accept = 0, usart = sample_usart, junk = sample_server_es\<rparr>"

text \<open>
  C31. A serial number is taken over. When the payload is the decimal text of a number up to a NUL and
  nothing waits to be sent, \<open>tcp_server_recv\<close> stores the number, tells the user, and keeps the
  packet to be echoed. A number above zero clears the error flag, raises the receive flag and
  renews the message of the device with it; zero raises the error flag and leaves the message
  and the receive flag alone.
\<close>

theorem tcp_server_recv_takes_serial:
  assumes "ess w es = Some e" "sv_state e = ES_RECEIVED" "sv_p e = None" "cells (heap w) q = Some b"
    "at_payload b = nat_dec n @ CHR 0x00 # rest" "int n < 2 ^ 31" "ready 22 (usart w)"
    "env_ok (env w)" "length (item_1_text (env w)) \<le> 24" "length (item_2_text (env w)) \<le> 24"
  shows "\<exists>w' msg. tcp_server_recv (Some es) (Some q) ERR_OK w = Some (ERR_OK, w') \<and>
    env w' = (env w)\<lparr>recv_serial := int n\<rparr> \<and> heap w' = heap w \<and> pcb w' = pcb w \<and> ess w' es = Some (e\<lparr>sv_p := Some q\<rparr>) \<and>
    out3 (usart w') = out3 (usart w) @ map byte_of (''SYSTEM >> GET Serial'' @ crlf) \<and>
    json_Packet_Gen (env w') = Some msg \<and>
    (flag_err_recv_serial w', flag_recv_serial w', post_packet w') =
      (if n = 0 then (1, flag_recv_serial w, post_packet w) else (0, 1, msg))"
proof -
  let ?env = "(env w)\<lparr>recv_serial := int n\<rparr>"
  let ?w = "set_serial (int n) (set_es es (e\<lparr>sv_p := Some q\<rparr>) w)"
  have "env_ok ?env" using assms(6,8) by (simp add: env_ok_def in_s32_def)
  then obtain msg where msg: "json_Packet_Gen ?env = Some msg" using json_Packet_Gen_fit [of ?env] assms(9,10) by auto
  have "CHR 0x00 \<notin> set (''SYSTEM >> GET Serial'' @ crlf)" "ready (length (''SYSTEM >> GET Serial'' @ crlf)) (usart ?w)"
    using assms(7) by (simp_all add: crlf_def ready_def set_serial_def set_es_def)
  from put_text_ready [OF this] obtain u where u: "put_text (''SYSTEM >> GET Serial'' @ crlf) ?w = Some (?w\<lparr>usart := u\<rparr>)"
    "out3 u = out3 (usart ?w) @ map byte_of (''SYSTEM >> GET Serial'' @ crlf)" by blast
  have "recv_serial_no es q w = (if n = 0 then Some (?w\<lparr>usart := u, flag_err_recv_serial := 1\<rparr>)
      else Some (?w\<lparr>usart := u, flag_err_recv_serial := 0, flag_recv_serial := 1, post_packet := msg\<rparr>))"
    using assms(1,4,5) serial_check_dec [OF assms(6), of rest] u(1) msg
    by (simp add: recv_serial_no_def gen_packet_def set_serial_def set_es_def)
  then show ?thesis using assms(1-3) u(2) msg
    by (auto simp: tcp_server_recv_def set_serial_def set_es_def)
qed

theorem tcp_server_recv_takes_serial_witness:
  "\<exists>w'. tcp_server_recv (Some 9) (Some 0) ERR_OK sample_server = Some (ERR_OK, w') \<and> recv_serial (env w') = 7 \<and> flag_recv_serial w' = 1"
proof -
  have "nat_dec 7 = ''7''" by code_simp
  moreover have rd: "ready 22 sample_usart" by code_simp
  moreover have "at_payload serial_pbuf = ''7'' @ CHR 0x00 # []" by code_simp
  ultimately have "at_payload serial_pbuf = nat_dec 7 @ CHR 0x00 # []" by simp
  from tcp_server_recv_takes_serial [of sample_server 9 sample_server_es 0 serial_pbuf 7 "[]", OF _ _ _ _ this] rd show ?thesis
    by (force simp: sample_server_def sample_server_es_def sample_env_def env_ok_def in_s32_def)
qed

text \<open>
  C38. The payload is trusted. \<open>tcp_server_recv\<close> formats the payload as a C string into an array of 100
  bytes, although a TCP payload carries no NUL: when the memory behind it has no NUL the call
  reads past the buffer, and when the text up to the NUL has 86 characters or more the call
  writes past the array.
\<close>

theorem tcp_server_recv_overflows:
  assumes "ess w es = Some e" "sv_state e = ES_RECEIVED" "sv_p e = None" "cells (heap w) q = Some b"
    "CHR 0x00 \<notin> set (at_payload b) \<or> (\<exists>s r. at_payload b = s @ CHR 0x00 # r \<and> CHR 0x00 \<notin> set s \<and> 86 \<le> length s)"
  shows "tcp_server_recv (Some es) (Some q) ERR_OK w = None"
proof -
  have "serial_check (at_payload b) = None"
    using assms(5) by (auto simp: serial_check_def c_string_nul sprintf_into_def crlf_def) (simp add: c_string_def)
  then show ?thesis using assms(1-4) by (simp add: tcp_server_recv_def recv_serial_no_def)
qed

theorem tcp_server_recv_overflows_witness:
  "tcp_server_recv (Some 9) (Some 0) ERR_OK (sample_server\<lparr>heap := (heap sample_server)\<lparr>cells := [0 \<mapsto> serial_pbuf\<lparr>mem := [0x37]\<rparr>]\<rparr>\<rparr>) = None"
proof -
  have "CHR 0x00 \<notin> set (at_payload (serial_pbuf\<lparr>mem := [0x37]\<rparr>))" by code_simp
  then show ?thesis
    by (intro tcp_server_recv_overflows [of _ _ sample_server_es _ "serial_pbuf\<lparr>mem := [0x37]\<rparr>"])
      (simp_all add: sample_server_def sample_server_es_def)
qed

text \<open>
  C39. A connection that its peer closes while data waits is never closed. \<open>tcp_server_recv\<close> does not
  enter \<open>ES_CLOSING\<close> as the echo server does, so that whatever acknowledgements and polls follow,
  \<open>tcp_close\<close> is never called, the structure is never freed and the callbacks stay registered.
\<close>

theorem tcp_server_never_closes:
  assumes "ess w es = Some e" "sv_state e \<noteq> ES_CLOSING" "sv_p e \<noteq> None"
    "tcp_server_recv (Some es) None err w = Some (r, w1)" "server_run es evs w1 = Some w2"
  shows "\<exists>p. ess w2 es = Some (e\<lparr>sv_p := p\<rparr>) \<and> closes (calls w2) = closes (calls w) \<and>
    callback_arg (pcb w2) = callback_arg (pcb w) \<and> poll (pcb w2) = poll (pcb w)"
proof -
  let ?w = "on_pcb (tcp_sent (Some ''tcp_server_sent'')) w"
  have "tcp_server_send es ?w = Some w1" using assms(1,3,4) by (auto simp: tcp_server_recv_def elim!: bind_SomeE)
  from tcp_server_send_keeps [OF this, of e] assms(1) obtain p where p: "ess w1 es = Some (e\<lparr>sv_p := p\<rparr>)" "closes (calls w1) = closes (calls w)"
    "callbacks (pcb w1) = callbacks (pcb ?w)" by auto
  from server_run_keeps [OF assms(5) p(1)] assms(2) show ?thesis using p by (auto simp: callbacks_def tcp_sent_def)
qed

theorem tcp_server_never_closes_witness:
  "\<exists>w1 w2. tcp_server_recv (Some 9) None ERR_OK (set_es 9 (sample_server_es\<lparr>sv_p := Some 0\<rparr>) sample_server) = Some (ERR_OK, w1) \<and>
     server_run 9 [Ev_poll, Ev_sent] w1 = Some w2 \<and> closes (calls w2) = [] \<and> ess w2 9 \<noteq> None"
proof -
  let ?w = "set_es 9 (sample_server_es\<lparr>sv_p := Some 0\<rparr>) sample_server"
  have run: "map_option (\<lambda>x. ()) (Option.bind (tcp_server_recv (Some 9) None ERR_OK ?w) (\<lambda>a.
      if fst a = ERR_OK then server_run 9 [Ev_poll, Ev_sent] (snd a) else None)) = Some ()"
    by (simp add: stack_defs tcp_server_recv_def tcp_server_poll_def tcp_server_sent_def tcp_server_send_def sample_server_def sample_server_es_def
        serial_pbuf_def flip: fun_upd_def cong: if_weak_cong option.case_cong_weak)
  from run obtain a w2 where a: "tcp_server_recv (Some 9) None ERR_OK ?w = Some a"
    "(if fst a = ERR_OK then server_run 9 [Ev_poll, Ev_sent] (snd a) else None) = Some w2" by (rule run_exists)
  then have w1: "tcp_server_recv (Some 9) None ERR_OK ?w = Some (ERR_OK, snd a)" and w2: "server_run 9 [Ev_poll, Ev_sent] (snd a) = Some w2"
    by (metis option.distinct(1) prod.collapse)+
  have "ess ?w 9 = Some (sample_server_es\<lparr>sv_p := Some 0\<rparr>)" "sv_state (sample_server_es\<lparr>sv_p := Some 0\<rparr>) \<noteq> ES_CLOSING"
    "sv_p (sample_server_es\<lparr>sv_p := Some 0\<rparr>) \<noteq> None" and no: "closes (calls ?w) = []"
    by (simp_all add: sample_server_es_def sample_server_def closes_def)
  from tcp_server_never_closes [OF this(1-3) w1 w2] have "ess w2 9 \<noteq> None" "closes (calls w2) = []" unfolding no by auto
  with w1 w2 show ?thesis by blast
qed

end
