(* ===== verification/Echo_Client.thy ===== *)
theory Echo_Client
  imports Device
begin

text \<open>
  The client of the device, \<open>tcp_echoclient.c\<close> of the project \<open>tcp_echo_client\<close>: it posts a request
  to the server and answers a serial number with the message of the device. The result of
  \<open>tcp_new\<close> is an argument; \<open>tcp_connect\<close> is logged with the callback it registers.
\<close>

section \<open>State\<close>

datatype echoclient_states = ES_NOT_CONNECTED | ES_CONNECTED | ES_RECEIVED | ES_CLOSING

record echoclient =
  ec_state :: echoclient_states
  ec_pcb :: nat
  p_tx :: "nat option"

record client = "echoclient device" +
  Tcp_flag :: bool
  message_count :: "32 word"
  status_connection :: int
  echoclient_pcb :: "nat option"

definition request_text :: string where
  "request_text = ''POST /check HTTP/1.1'' @ crlf @ ''Host: 192.168.1.27'' @ crlf @ crlf"

section \<open>Sending and closing\<close>

definition tcp_echoclient_send :: "nat \<Rightarrow> client \<Rightarrow> client option" where
  "tcp_echoclient_send es w = do {
     e \<leftarrow> ess w es;
     (p, pc, h, plens) \<leftarrow> send_loop tcp_write (pcb w) (p_tx e) (heap w) [];
     Some (set_es es (e\<lparr>p_tx := p\<rparr>) (w\<lparr>heap := h, pcb := pc\<rparr>))
   }"

definition tcp_echoclient_connection_close :: "nat option \<Rightarrow> client \<Rightarrow> client" where
  "tcp_echoclient_connection_close es w =
     (let w1 = on_pcb (tcp_poll None 0 \<circ> tcp_sent None \<circ> tcp_recv None) w;
          w2 = (case es of None \<Rightarrow> w1 | Some a \<Rightarrow> mem_free a w1)
      in record_call Call_close w2)"

section \<open>Connecting\<close>

definition connect_to :: "string \<Rightarrow> nat option \<Rightarrow> client \<Rightarrow> client" where
  "connect_to callback new_pcb w =
     (if Tcp_flag w then w
      else
        (let w1 = w\<lparr>echoclient_pcb := new_pcb\<rparr> in
         case new_pcb of
           None \<Rightarrow> w1
         | Some a \<Rightarrow> record_call (Call_connect callback) (w1\<lparr>Tcp_flag := True\<rparr>)))"

definition tcp_echoclient_connect :: "nat option \<Rightarrow> client \<Rightarrow> client" where
  "tcp_echoclient_connect = connect_to ''tcp_echoclient_connected''"

definition tcp_echoclient_connect_sustained :: "nat option \<Rightarrow> client \<Rightarrow> client" where
  "tcp_echoclient_connect_sustained = connect_to ''tcp_echoclient_connected_sustained''"

text \<open>
  What the connected callbacks do with a text: allocate a buffer for it, copy it, and register the
  structure and the callbacks. The flag of the result tells whether the buffer was granted.
\<close>

definition stage_text :: "nat \<Rightarrow> string \<Rightarrow> client \<Rightarrow> (bool \<times> client) option" where
  "stage_text es s w = do {
     e \<leftarrow> ess w es;
     (a, h) \<leftarrow> pbuf_alloc PBUF_TRANSPORT (length s) PBUF_POOL (heap w);
     let w1 = set_es es (e\<lparr>p_tx := a\<rparr>) (w\<lparr>heap := h\<rparr>);
     (case a of
        None \<Rightarrow> Some (False, w1)
      | Some p \<Rightarrow> do {
          (err, h1) \<leftarrow> pbuf_take a (map byte_of s) h;
          let w2 = on_pcb (tcp_arg (Some es)) (w1\<lparr>heap := h1\<rparr>);
          let w3 = on_pcb (tcp_recv (Some ''tcp_echoclient_recv'')) w2;
          let w4 = on_pcb (tcp_sent (Some ''tcp_echoclient_sent'')) w3;
          let w5 = on_pcb (tcp_poll (Some ''tcp_echoclient_poll'') 1) w4;
          Some (True, w5)
        })
   }"

definition tcp_echoclient_connected :: "err_t \<Rightarrow> client \<Rightarrow> (err_t \<times> client) option" where
  "tcp_echoclient_connected err w =
     (if err = ERR_OK then
        (case mem_malloc w of
           (None, w1) \<Rightarrow> Some (ERR_MEM, tcp_echoclient_connection_close None w1)
         | (Some es, w1) \<Rightarrow> do {
             let w2 = set_es es ((junk w1)\<lparr>ec_state := ES_CONNECTED, ec_pcb := pcb_addr w1\<rparr>) w1;
             (staged, w3) \<leftarrow> stage_text es (if flag_err_recv_serial w2 \<noteq> 0 then request_text else post_packet w2) w2;
             Some (if staged then ERR_OK else err, w3)
           })
      else Some (err, tcp_echoclient_connection_close None w))"

definition tcp_echoclient_connected_sustained :: "err_t \<Rightarrow> client \<Rightarrow> (err_t \<times> client) option" where
  "tcp_echoclient_connected_sustained err w =
     (if err = ERR_OK then
        (case mem_malloc w of
           (None, w1) \<Rightarrow> do {
             w2 \<leftarrow> put_text (''ERROR >> Connection close e1'' @ crlf) w1;
             Some (ERR_MEM, (tcp_echoclient_connection_close None w2)\<lparr>status_connection := 0\<rparr>)
           }
         | (Some es, w1) \<Rightarrow>
             if status_connection w1 = 0 then do {
               let w2 = set_es es ((junk w1)\<lparr>ec_state := ES_CONNECTED, ec_pcb := pcb_addr w1\<rparr>) w1;
               (staged, w3) \<leftarrow> stage_text es request_text w2;
               if staged then do {
                 w4 \<leftarrow> tcp_echoclient_send es w3;
                 Some (ERR_OK, w4\<lparr>status_connection := 1\<rparr>)
               } else Some (err, w3)
             }
             else do {
               let w2 = set_es es (junk w1) w1;
               (staged, w3) \<leftarrow> stage_text es request_text w2;
               if staged then do {
                 w4 \<leftarrow> tcp_echoclient_send es w3;
                 Some (ERR_OK, w4)
               } else Some (err, w3)
             })
      else do {
        w1 \<leftarrow> put_text (''ERROR >> Connection close e2'' @ crlf) w;
        Some (err, (tcp_echoclient_connection_close None w1)\<lparr>status_connection := 0\<rparr>)
      })"

section \<open>The callbacks of a connection\<close>

definition free_packet :: "nat \<Rightarrow> client \<Rightarrow> client option" where
  "free_packet q w = do { (n, h) \<leftarrow> pbuf_free (Some q) (heap w); Some (w\<lparr>heap := h\<rparr>) }"

text \<open>The answer to a serial number: a buffer of the length of the message is sent.\<close>

definition answer_serial :: "nat \<Rightarrow> client \<Rightarrow> client option" where
  "answer_serial es w = do {
     w1 \<leftarrow> gen_packet (w\<lparr>flag_err_recv_serial := 0\<rparr>);
     e \<leftarrow> ess w1 es;
     (a, h) \<leftarrow> pbuf_alloc PBUF_TRANSPORT (length (post_packet w1)) PBUF_POOL (heap w1);
     let w2 = set_es es (e\<lparr>p_tx := a\<rparr>) (w1\<lparr>heap := h\<rparr>);
     if a = None then Some w2 else tcp_echoclient_send es w2
   }"

definition tcp_echoclient_recv :: "nat option \<Rightarrow> nat option \<Rightarrow> err_t \<Rightarrow> client \<Rightarrow> (err_t \<times> client) option" where
  "tcp_echoclient_recv arg p err w0 = do {
     es \<leftarrow> arg;
     let w = w0\<lparr>Tcp_flag := False\<rparr>;
     (case p of
        None \<Rightarrow> do {
          e \<leftarrow> ess w es;
          let w1 = set_es es (e\<lparr>ec_state := ES_CLOSING\<rparr>) w;
          if p_tx e = None then Some (ERR_OK, tcp_echoclient_connection_close (Some es) w1)
          else do { w2 \<leftarrow> tcp_echoclient_send es w1; Some (ERR_OK, w2) }
        }
      | Some q \<Rightarrow>
          if err \<noteq> ERR_OK then do { w1 \<leftarrow> free_packet q w; Some (err, w1) }
          else do {
            e \<leftarrow> ess w es;
            if ec_state e = ES_CONNECTED then do {
              let w1 = w\<lparr>message_count := message_count w + 1\<rparr>;
              b \<leftarrow> cells (heap w1) q;
              let w2 = record_call (Call_recved (tot_len b)) w1;
              t \<leftarrow> serial_check (at_payload b);
              n \<leftarrow> str2int (at_payload b);
              let w3 = set_serial n w2;
              w4 \<leftarrow> (if n \<le> 0 then Some (w3\<lparr>flag_err_recv_serial := 1\<rparr>) else answer_serial es w3);
              w5 \<leftarrow> put_text t w4;
              w6 \<leftarrow> free_packet q w5;
              Some (ERR_OK, w6)
            }
            else do {
              b \<leftarrow> cells (heap w) q;
              w1 \<leftarrow> free_packet q (record_call (Call_recved (tot_len b)) w);
              Some (ERR_OK, w1)
            }
          })
   }"

definition tcp_echoclient_poll :: "nat option \<Rightarrow> client \<Rightarrow> (err_t \<times> client) option" where
  "tcp_echoclient_poll arg w =
     (case arg of
        None \<Rightarrow> Some (ERR_ABRT, record_call Call_abort w)
      | Some es \<Rightarrow> do {
          e \<leftarrow> ess w es;
          if p_tx e \<noteq> None then do { w1 \<leftarrow> tcp_echoclient_send es w; Some (ERR_OK, w1) }
          else if ec_state e = ES_CLOSING then Some (ERR_OK, tcp_echoclient_connection_close (Some es) w)
          else Some (ERR_OK, w)
        })"

definition tcp_echoclient_sent :: "nat option \<Rightarrow> client \<Rightarrow> (err_t \<times> client) option" where
  "tcp_echoclient_sent arg w = do {
     es \<leftarrow> arg;
     e \<leftarrow> ess w es;
     if p_tx e \<noteq> None then do { w1 \<leftarrow> tcp_echoclient_send es w; Some (ERR_OK, w1) }
     else Some (ERR_OK, w)
   }"

section \<open>The request is posted\<close>

definition posting :: "client \<Rightarrow> nat \<Rightarrow> echoclient \<Rightarrow> nat set \<Rightarrow> byte list \<Rightarrow> nat list \<Rightarrow> bool" where
  "posting w es e X bs xs \<longleftrightarrow> waiting w (p_tx e) X bs xs \<and> ess w es = Some e"

lemma tcp_echoclient_send_ok:
  assumes "posting w es e X bs xs"
  shows "\<exists>w' p' X' ys zs. tcp_echoclient_send es w = Some w' \<and> xs = ys @ zs \<and> posting w' es (e\<lparr>p_tx := p'\<rparr>) X' (bs @ pending w ys) zs \<and>
    pending w' zs = pending w zs \<and> callbacks (pcb w') = callbacks (pcb w) \<and> (zs \<noteq> [] \<longrightarrow> stopped tcp_write (pcb w') (heap w') (hd zs)) \<and>
    calls w' = calls w \<and> usart w' = usart w \<and> post_packet w' = post_packet w \<and>
    (\<forall>c. c \<notin> X' \<union> set xs \<longrightarrow> cells (heap w') c = cells (heap w) c) \<and> (\<forall>c\<in>X'. c \<in> X \<or> c \<in> set ys \<or> cells (heap w) c = None)"
proof -
  have s: "waiting w (p_tx e) X bs xs" "ess w es = Some e" using assms by (simp_all add: posting_def)
  from s(1) obtain p' pc h X' ys zs where r: "send_loop tcp_write (pcb w) (p_tx e) (heap w) [] = Some (p', pc, h, lens (cells (heap w)) ys)"
    "xs = ys @ zs" "waiting (w\<lparr>heap := h, pcb := pc\<rparr>) p' X' (bs @ pending w ys) zs" "content (cells h) zs = pending w zs"
    "callbacks pc = callbacks (pcb w)" "zs \<noteq> [] \<longrightarrow> stopped tcp_write pc h (hd zs)"
    "\<forall>c. c \<notin> X' \<union> set xs \<longrightarrow> cells h c = cells (heap w) c" "\<forall>c\<in>X'. c \<in> X \<or> c \<in> set ys \<or> cells (heap w) c = None"
    by (rule waiting_sends) blast
  let ?w = "set_es es (e\<lparr>p_tx := p'\<rparr>) (w\<lparr>heap := h, pcb := pc\<rparr>)"
  have "tcp_echoclient_send es w = Some ?w" using s r(1) by (simp add: tcp_echoclient_send_def)
  moreover have "posting ?w es (e\<lparr>p_tx := p'\<rparr>) X' (bs @ pending w ys) zs" using r(3) by (simp add: posting_def waiting_def)
  moreover have "usart ?w = usart w" "post_packet ?w = post_packet w" by (simp_all add: set_es_def)
  ultimately show ?thesis using r
    by (intro exI [of _ ?w] exI [of _ p'] exI [of _ X'] exI [of _ ys] exI [of _ zs]) simp
qed

lemma pbuf_alloc_pool:
  assumes "heap_ok h" "n < 65536"
  obtains (denied) h1 where "pbuf_alloc l n PBUF_POOL h = Some (None, h1)" "cells h1 = cells h" "heap_ok h1"
  | (granted) p h1 xs where "pbuf_alloc l n PBUF_POOL h = Some (Some p, h1)" "heap_ok h1" "packet (cells h1) (Some p) xs" "sumlen (cells h1) xs = n"
      "\<forall>c\<in>set xs. sole (cells h1) c \<and> cells h c = None" "\<forall>c. c \<notin> set xs \<longrightarrow> cells h1 c = cells h c"
proof -
  obtain r h1 where a: "pbuf_alloc l n PBUF_POOL h = Some (r, h1)" "heap_ok h1"
    "case r of None \<Rightarrow> cells h1 = cells h | Some p \<Rightarrow> \<exists>xs. packet (cells h1) (Some p) xs \<and> sumlen (cells h1) xs = n \<and>
      (\<forall>c\<in>set xs. sole (cells h1) c \<and> cells h c = None) \<and> (\<forall>c. c \<notin> set xs \<longrightarrow> cells h1 c = cells h c)"
    using pbuf_alloc_outcome [OF assms, of PBUF_POOL l] by blast
  show ?thesis
  proof (cases r)
    case None
    then show ?thesis using a that(1) by simp
  next
    case (Some p)
    then obtain xs where "packet (cells h1) (Some p) xs" "sumlen (cells h1) xs = n"
      "\<forall>c\<in>set xs. sole (cells h1) c \<and> cells h c = None" "\<forall>c. c \<notin> set xs \<longrightarrow> cells h1 c = cells h c" using a(3) by auto
    then show ?thesis using a(1,2) Some that(2) by blast
  qed
qed

lemma pbuf_take_fresh:
  assumes "packet (cells h) (Some a) xs" "sumlen (cells h) xs = length dat" "heap_ok h" "\<forall>c\<in>set xs. sole (cells h) c"
  shows "\<exists>h'. pbuf_take (Some a) dat h = Some (ERR_OK, h') \<and> packet (cells h') (Some a) xs \<and> content (cells h') xs = dat \<and>
    (\<forall>c. c \<notin> set xs \<longrightarrow> cells h' c = cells h c) \<and> heap_ok h' \<and> (\<forall>c\<in>set xs. sole (cells h') c)"
proof -
  obtain h' where h': "take_loop h (Some a) dat = Some h'" "packet (cells h') (Some a) xs" "content (cells h') xs = dat @ drop (length dat) (content (cells h) xs)"
    "\<forall>c. c \<notin> set xs \<longrightarrow> cells h' c = cells h c" "\<forall>c. map_option ref (cells h' c) = map_option ref (cells h c)"
    using take_loop_chain [OF assms(1), of dat] assms(2) by auto
  note f = take_loop_frame [OF h'(1)]
  obtain b where "cells h a = Some b" "tot_len b = sumlen (cells h) xs" using packet_tot_len [OF assms(1)] by blast
  then have "pbuf_take (Some a) dat h = Some (ERR_OK, h')" using h'(1) assms(2) by (simp add: pbuf_take_def)
  moreover have "content (cells h') xs = dat" using h'(3) content_length [OF assms(1)] assms(2) by simp
  moreover have "heap_ok h'"
    unfolding heap_ok_def
  proof (intro allI impI)
    fix c assume "brk h' \<le> c"
    then have "cells h c = None" using assms(3) f by (simp add: heap_ok_def)
    then show "cells h' c = None" using h'(5) by (metis map_option_is_None)
  qed
  moreover have "sole (cells h') c" if c: "c \<in> set xs" for c
  proof -
    obtain b where "cells h c = Some b" "ref b = 1" "\<not> custom b" using assms(4) c by (auto simp: sole_def)
    then have "map_option ref (cells h' c) = Some 1" "map_option custom (cells h' c) = Some False" using h'(5) f by auto
    then show ?thesis by (auto simp: sole_def)
  qed
  ultimately show ?thesis using h'(2,4) by blast
qed

lemma waiting_frame:
  assumes "waiting w None X bs []" "heap_ok h" "\<forall>c. cells (heap w) c \<noteq> None \<longrightarrow> cells h c = cells (heap w) c"
    "unsent p = unsent (pcb w)" "snd_queuelen p = snd_queuelen (pcb w)" "snd_buf p = snd_buf (pcb w)"
    "mss p = mss (pcb w)" "snd_wnd_max p = snd_wnd_max (pcb w)" "unsent_oversize p = unsent_oversize (pcb w)"
  shows "unsent_bytes h p X bs"
proof -
  have u: "unsent_bytes (heap w) (pcb w) X bs" using assms(1) by (simp add: waiting_def)
  have "unsent_bytes h (pcb w) X bs" using tcp.queued_frame [OF u, of h] tcp.queued_cells [OF u] assms(3) by blast
  then show ?thesis using assms(4-) by (simp add: unsent_bytes_def conn_ok_def mss_local_def)
qed

abbreviation client_callbacks :: "nat \<Rightarrow> tcp_pcb \<Rightarrow> bool" where
  "client_callbacks es p \<equiv> callback_arg p = Some es \<and> recv p = Some ''tcp_echoclient_recv'' \<and> sent p = Some ''tcp_echoclient_sent'' \<and>
     poll p = Some ''tcp_echoclient_poll'' \<and> pollinterval p = 1"

lemma stage_text_ok:
  assumes "waiting w None X bs []" "ess w es = Some e" "length s < 65536"
  shows "(\<exists>w'. stage_text es s w = Some (False, w') \<and> posting w' es (e\<lparr>p_tx := None\<rparr>) X bs [] \<and> pcb w' = pcb w) \<or>
    (\<exists>w' a xs. stage_text es s w = Some (True, w') \<and> posting w' es (e\<lparr>p_tx := Some a\<rparr>) X bs xs \<and> pending w' xs = map byte_of s \<and>
       client_callbacks es (pcb w'))"
proof -
  have ok: "heap_ok (heap w)" using assms(1) by (simp add: waiting_def)
  from ok assms(3) show ?thesis
  proof (cases rule: pbuf_alloc_pool [where l = PBUF_TRANSPORT])
    case (denied h1)
    let ?w = "set_es es (e\<lparr>p_tx := None\<rparr>) (w\<lparr>heap := h1\<rparr>)"
    have "stage_text es s w = Some (False, ?w)" using denied assms(2) by (simp add: stage_text_def)
    moreover have "posting ?w es (e\<lparr>p_tx := None\<rparr>) X bs []"
      using waiting_frame [OF assms(1), of h1 "pcb w"] denied by (simp add: posting_def waiting_def)
    ultimately show ?thesis by (intro disjI1 exI [of _ ?w]) simp
  next
    case (granted a h1 xs)
    then obtain h2 where h2: "pbuf_take (Some a) (map byte_of s) h1 = Some (ERR_OK, h2)" "packet (cells h2) (Some a) xs"
      "content (cells h2) xs = map byte_of s" "\<forall>c. c \<notin> set xs \<longrightarrow> cells h2 c = cells h1 c" "heap_ok h2" "\<forall>c\<in>set xs. sole (cells h2) c"
      using pbuf_take_fresh [of h1 a xs "map byte_of s"] by auto
    let ?p = "tcp_poll (Some ''tcp_echoclient_poll'') 1 (tcp_sent (Some ''tcp_echoclient_sent'') (tcp_recv (Some ''tcp_echoclient_recv'') (tcp_arg (Some es) (pcb w))))"
    let ?w = "on_pcb (tcp_poll (Some ''tcp_echoclient_poll'') 1) (on_pcb (tcp_sent (Some ''tcp_echoclient_sent'')) (on_pcb (tcp_recv (Some ''tcp_echoclient_recv''))
      (on_pcb (tcp_arg (Some es)) ((set_es es (e\<lparr>p_tx := Some a\<rparr>) (w\<lparr>heap := h1\<rparr>))\<lparr>heap := h2\<rparr>))))"
    have "stage_text es s w = Some (True, ?w)" using granted(1) h2(1) assms(2) by (simp add: stage_text_def)
    moreover have "\<forall>c. cells (heap w) c \<noteq> None \<longrightarrow> cells h2 c = cells (heap w) c" using granted(5,6) h2(4) by metis
    then have "unsent_bytes h2 ?p X bs"
      by (rule waiting_frame [OF assms(1) h2(5)]) (simp_all add: tcp_poll_def tcp_sent_def tcp_recv_def tcp_arg_def)
    moreover have "set xs \<inter> X = {}"
      using granted(5) tcp.queued_cells [of "heap w" "pcb w" X bs] assms(1) by (fastforce simp: waiting_def)
    ultimately show ?thesis using h2 sole_held [OF h2(6)]
      by (intro disjI2 exI [of _ ?w] exI [of _ a] exI [of _ xs])
        (simp add: posting_def waiting_def, simp add: tcp_poll_def tcp_sent_def tcp_recv_def tcp_arg_def)
  qed
qed

text \<open>
  Whether the next request for memory, and the one after it, is granted. A text of at most 444 bytes takes one buffer of the pool.
\<close>

definition granted :: "nat \<Rightarrow> pheap \<Rightarrow> bool" where
  "granted k h \<longleftrightarrow> k < length (grants h) \<and> grants h ! k"

lemma stage_text_granted:
  assumes "stage_text es s w = Some (g, w')" "length s \<le> 444"
  shows "g = granted 0 (heap w)"
proof (cases "granted 0 (heap w)")
  case True
  then obtain gs where gs: "grants (heap w) = True # gs" by (cases "grants (heap w)") (auto simp: granted_def)
  have "length s - min (length s) (PBUF_POOL_BUFSIZE - mem_align (layer_offset PBUF_TRANSPORT)) = 0"
    using assms(2) by (simp add: PBUF_POOL_BUFSIZE_def mem_align_def layer_offset_def)
  then show ?thesis using assms(1) gs True
    by (auto simp: stage_text_def pbuf_alloc_def malloc_def Let_def pool_tail.simps elim!: bind_SomeE split: option.splits)
next
  case False
  then have "fst (malloc (heap w)) = None" by (cases "grants (heap w)") (auto simp: granted_def malloc_def)
  then obtain h where "malloc (heap w) = (None, h)" by (cases "malloc (heap w)") simp
  then show ?thesis using assms(1) False by (auto simp: stage_text_def pbuf_alloc_def Let_def elim!: bind_SomeE)
qed

text \<open>
  What the callbacks leave behind. \<open>staged\<close>: the text waits in a new structure, the callbacks are registered,
  nothing is queued yet. \<open>posted\<close>: the same, but as much of the text as possible is queued, behind what was queued before.
  \<open>dropped\<close>: the connection is as it was, and the new structure is referred to by nothing. \<open>refused\<close>: there is no structure, the callbacks are
  taken back and the connection is closed.
\<close>

definition staged :: "nat set \<Rightarrow> byte list \<Rightarrow> string \<Rightarrow> client \<Rightarrow> client \<Rightarrow> bool" where
  "staged X bs s w w' \<longleftrightarrow>
     (\<exists>es e xs. posting w' es e X bs xs \<and> ess w es = None \<and> pending w' xs = map byte_of s \<and> client_callbacks es (pcb w'))"

definition posted :: "byte list \<Rightarrow> string \<Rightarrow> client \<Rightarrow> client \<Rightarrow> bool" where
  "posted bs s w w' \<longleftrightarrow>
     (\<exists>es e X' bs' zs. posting w' es e X' bs' zs \<and> ess w es = None \<and> bs' @ pending w' zs = bs @ map byte_of s \<and> client_callbacks es (pcb w') \<and>
       (zs \<noteq> [] \<longrightarrow> stopped tcp_write (pcb w') (heap w') (hd zs)))"

definition dropped :: "nat set \<Rightarrow> byte list \<Rightarrow> client \<Rightarrow> client \<Rightarrow> bool" where
  "dropped X bs w w' \<longleftrightarrow> unsent_bytes (heap w') (pcb w') X bs \<and> pcb w' = pcb w \<and>
     (\<exists>es e. ess w es = None \<and> ess w' es = Some e \<and> p_tx e = None)"

definition refused :: "nat set \<Rightarrow> byte list \<Rightarrow> client \<Rightarrow> client \<Rightarrow> bool" where
  "refused X bs w w' \<longleftrightarrow> unsent_bytes (heap w') (pcb w') X bs \<and> ess w' = ess w \<and> recv (pcb w') = None \<and> sent (pcb w') = None \<and>
     poll (pcb w') = None \<and> calls w' \<noteq> [] \<and> last (calls w') = Call_close"

text \<open>The structures live below the break of the heap.\<close>

definition structs_ok :: "('es, 'a) world_scheme \<Rightarrow> bool" where
  "structs_ok w \<longleftrightarrow> (\<forall>a \<ge> brk (heap w). ess w a = None)"

lemma mem_malloc_granted:
  assumes "waiting w None X bs []" "structs_ok w" "granted 0 (heap w)"
  shows "\<exists>h. mem_malloc w = (Some (brk (heap w)), w\<lparr>heap := h\<rparr>) \<and> waiting (w\<lparr>heap := h\<rparr>) None X bs [] \<and> ess w (brk (heap w)) = None \<and>
    granted 0 h = granted 1 (heap w)"
proof -
  obtain gs where gs: "grants (heap w) = True # gs" using assms(3) by (cases "grants (heap w)") (auto simp: granted_def)
  let ?h = "(heap w)\<lparr>brk := Suc (brk (heap w)), grants := gs\<rparr>"
  have "unsent_bytes ?h (pcb w) X bs"
    by (rule waiting_frame [OF assms(1)]) (use assms(1) in \<open>simp_all add: waiting_def heap_ok_def\<close>)
  then have "waiting (w\<lparr>heap := ?h\<rparr>) None X bs []" using assms(1) by (simp add: waiting_def heap_ok_def)
  moreover have "granted 0 ?h = granted 1 (heap w)" using gs by (simp add: granted_def)
  ultimately show ?thesis using assms(2) gs by (intro exI [of _ ?h]) (simp add: mem_malloc_def malloc_def structs_ok_def)
qed

lemma mem_malloc_refused:
  assumes "waiting w None X bs []" "\<not> granted 0 (heap w)"
  shows "\<exists>h. mem_malloc w = (None, w\<lparr>heap := h\<rparr>) \<and> waiting (w\<lparr>heap := h\<rparr>) None X bs []"
proof -
  have m: "malloc (heap w) = (None, (heap w)\<lparr>grants := tl (grants (heap w))\<rparr>)" (is "_ = (None, ?h)")
    using assms(2) by (cases "grants (heap w)") (auto simp: granted_def malloc_def)
  have "unsent_bytes ?h (pcb w) X bs"
    by (rule waiting_frame [OF assms(1)]) (use assms(1) in \<open>simp_all add: waiting_def heap_ok_def\<close>)
  then have "waiting (w\<lparr>heap := ?h\<rparr>) None X bs []" using assms(1) by (simp add: waiting_def heap_ok_def)
  then show ?thesis using m by (intro exI [of _ ?h]) (simp add: mem_malloc_def)
qed

lemma close_refuses:
  assumes "waiting w1 None X bs []" "ess w1 = ess w"
  shows "refused X bs w (tcp_echoclient_connection_close None w1)" "refused X bs w ((tcp_echoclient_connection_close None w1)\<lparr>status_connection := 0\<rparr>)"
  using assms by (simp_all add: refused_def waiting_def tcp_echoclient_connection_close_def record_call_def)
    (simp_all add: tcp_poll_def tcp_sent_def tcp_recv_def unsent_bytes_def conn_ok_def mss_local_def)

lemma waiting_set_es [simp]: "waiting (set_es es e w) p X bs xs = waiting w p X bs xs"
  by (simp add: waiting_def)

lemma request_text_length: "length request_text \<le> 444"
  by (simp add: request_text_def crlf_def)

lemma staged_after_malloc:
  assumes "waiting (w\<lparr>heap := h\<rparr>) None X bs []" "ess w es = None" "length s \<le> 444"
  shows "\<exists>w'. stage_text es s (set_es es e (w\<lparr>heap := h\<rparr>)) = Some (granted 0 h, w') \<and>
    (if granted 0 h then \<exists>a xs. posting w' es (e\<lparr>p_tx := Some a\<rparr>) X bs xs \<and> pending w' xs = map byte_of s \<and> client_callbacks es (pcb w')
     else dropped X bs w w')"
proof -
  let ?w = "set_es es e (w\<lparr>heap := h\<rparr>)"
  have "heap ?w = h" by (simp add: set_es_def)
  then have g: "g = granted 0 h" if "stage_text es s ?w = Some (g, w')" for g w' using stage_text_granted [OF that assms(3)] by simp
  have "waiting ?w None X bs []" "ess ?w es = Some e" "length s < 65536" using assms by simp_all
  from stage_text_ok [OF this] show ?thesis
  proof (elim disjE exE conjE, goal_cases)
    case (1 w')
    then show ?thesis using g [OF 1(1)] assms(2) by (intro exI [of _ w']) (auto simp: dropped_def posting_def waiting_def)
  next
    case (2 w' a xs)
    then show ?thesis using g [OF 2(1)] by (intro exI [of _ w']) auto
  qed
qed

text \<open>The part of the sustained callback that the two states of \<open>status_connection\<close> share.\<close>

lemma staged_and_sent:
  assumes "waiting (w\<lparr>heap := h\<rparr>) None X bs []" "ess w es = None"
    and f: "\<And>w. heap (f w) = heap w" "\<And>w. pcb (f w) = pcb w" "\<And>w. ess (f w) = ess w"
  shows "\<exists>w'. Option.bind (stage_text es request_text (set_es es e (w\<lparr>heap := h\<rparr>)))
      (\<lambda>(g, w3). if g then map_option (\<lambda>w4. (ERR_OK, f w4)) (tcp_echoclient_send es w3) else Some (ERR_OK, w3)) = Some (ERR_OK, w') \<and>
    (if granted 0 h then posted bs request_text w w' else dropped X bs w w')"
proof (cases "granted 0 h")
  case False
  then show ?thesis using staged_after_malloc [OF assms(1,2) request_text_length, of e] by auto
next
  case True
  then obtain w1 a xs where w1: "stage_text es request_text (set_es es e (w\<lparr>heap := h\<rparr>)) = Some (True, w1)"
    "posting w1 es (e\<lparr>p_tx := Some a\<rparr>) X bs xs" "pending w1 xs = map byte_of request_text" "client_callbacks es (pcb w1)"
    using staged_after_malloc [OF assms(1,2) request_text_length, of e] by auto
  from tcp_echoclient_send_ok [OF w1(2)] obtain w2 p' X' ys zs where w2: "tcp_echoclient_send es w1 = Some w2" "xs = ys @ zs"
    "posting w2 es ((e\<lparr>p_tx := Some a\<rparr>)\<lparr>p_tx := p'\<rparr>) X' (bs @ pending w1 ys) zs" "pending w2 zs = pending w1 zs"
    "callbacks (pcb w2) = callbacks (pcb w1)" "zs \<noteq> [] \<longrightarrow> stopped tcp_write (pcb w2) (heap w2) (hd zs)" by (elim exE conjE) (rule that)
  have "posting (f w2) es ((e\<lparr>p_tx := Some a\<rparr>)\<lparr>p_tx := p'\<rparr>) X' (bs @ pending w1 ys) zs"
    using w2(3) f by (simp add: posting_def waiting_def)
  moreover have "(bs @ pending w1 ys) @ pending (f w2) zs = bs @ map byte_of request_text" using w2(2,4) w1(3) f by simp
  moreover have "client_callbacks es (pcb (f w2))" using w2(5) w1(4) f by (simp add: callbacks_def)
  moreover have "zs \<noteq> [] \<longrightarrow> stopped tcp_write (pcb (f w2)) (heap (f w2)) (hd zs)" using w2(6) f by simp
  ultimately have "posted bs request_text w (f w2)" using assms(2) unfolding posted_def by blast
  then show ?thesis using w1(1) w2(1) True by simp
qed

section \<open>The answer to a serial number\<close>

lemma take_drop_upt: "k + n \<le> m \<Longrightarrow> take n (drop k [0..<m]) = [k..<k + n]"
  by (simp add: drop_upt take_upt)

text \<open>A request that fits into one buffer of the pool gets that buffer as it is.\<close>

lemma pbuf_alloc_pool_one:
  assumes "heap_ok h" "n \<le> 444" "grants h = True # gs"
  shows "\<exists>h1 b. pbuf_alloc PBUF_TRANSPORT n PBUF_POOL h = Some (Some (brk h), h1) \<and> heap_ok h1 \<and> cells h1 = (cells h)(brk h \<mapsto> b) \<and>
    packet (cells h1) (Some (brk h)) [brk h] \<and> sole (cells h1) (brk h) \<and> bytes b = map (garbage h) [56..<56 + n]"
proof -
  let ?h = "h\<lparr>brk := Suc (brk h), grants := gs\<rparr>"
  let ?b = "\<lparr>nxt = None, mem = fresh_bytes ?h PBUF_POOL_BUFSIZE, pay = 56, tot_len = n, len = n, ptype = PBUF_POOL, ref = 1, custom = False\<rparr>"
  have al: "pbuf_alloc PBUF_TRANSPORT n PBUF_POOL h = Some (Some (brk h), put (brk h) ?b ?h)"
    using assms(2,3) by (simp add: pbuf_alloc_def malloc_def mem_align_def layer_offset_def PBUF_POOL_BUFSIZE_def pool_tail.simps)
  have "take n (drop 56 [0..<PBUF_POOL_BUFSIZE]) = [56..<56 + n]" using assms(2) by (intro take_drop_upt) (simp add: PBUF_POOL_BUFSIZE_def)
  then have "bytes ?b = map (garbage h) [56..<56 + n]" by (simp add: bytes_def fresh_bytes_def drop_map take_map)
  moreover have "heap_ok (put (brk h) ?b ?h)" using assms(1) by (auto simp: heap_ok_def put_def)
  ultimately show ?thesis using al assms(2)
    by (intro exI [of _ "put (brk h) ?b ?h"] exI [of _ ?b]) (simp add: packet_Cons sole_def fresh_bytes_def PBUF_POOL_BUFSIZE_def)
qed

lemma sprintf_into_length: "sprintf_into k s = Some t \<Longrightarrow> length t < k"
  by (simp add: sprintf_into_def split: if_splits)

lemma json_Packet_Gen_length: "json_Packet_Gen v = Some msg \<Longrightarrow> length msg < 300"
  unfolding json_Packet_Gen_def by (elim bind_SomeE) (rule sprintf_into_length)

lemma answer_serial_ok:
  assumes "waiting w None X bs []" "ess w es = Some e" "grants (heap w) = True # gs" "json_Packet_Gen (env w) = Some msg" "length msg \<le> 444"
  shows "\<exists>w' e' X' bs' zs. answer_serial es w = Some w' \<and> posting w' es e' X' bs' zs \<and>
    bs' @ pending w' zs = bs @ map (garbage (heap w)) [56..<56 + length msg] \<and> post_packet w' = msg \<and> usart w' = usart w \<and>
    (\<forall>c. cells (heap w) c \<noteq> None \<and> c \<notin> X \<longrightarrow> cells (heap w') c = cells (heap w) c \<and> c \<notin> X' \<and> c \<notin> set zs)"
proof -
  let ?a = "brk (heap w)"
  note wt = assms(1) [unfolded waiting_def]
  from pbuf_alloc_pool_one [OF _ assms(5,3)] wt obtain h1 b where h1: "pbuf_alloc PBUF_TRANSPORT (length msg) PBUF_POOL (heap w) = Some (Some ?a, h1)"
    "heap_ok h1" "cells h1 = (cells (heap w))(?a \<mapsto> b)" "packet (cells h1) (Some ?a) [?a]" "sole (cells h1) ?a"
    "bytes b = map (garbage (heap w)) [56..<56 + length msg]" by blast
  have new: "cells (heap w) ?a = None" using wt by (simp add: heap_ok_def)
  let ?e = "e\<lparr>p_tx := Some ?a\<rparr>" and ?w = "set_es es (e\<lparr>p_tx := Some ?a\<rparr>) (w\<lparr>flag_err_recv_serial := 0, post_packet := msg, heap := h1\<rparr>)"
  have u: "unsent_bytes h1 (pcb w) X bs"
    by (rule waiting_frame [OF assms(1) h1(2)]) (use h1(3) new in auto)
  moreover have "?a \<notin> X" using tcp.queued_cells [of "heap w" "pcb w" X bs] wt new by blast
  ultimately have p: "posting ?w es ?e X bs [?a]" using h1 sole_held [of "[?a]" "cells h1"] by (simp add: posting_def waiting_def)
  have run: "answer_serial es w = tcp_echoclient_send es ?w" using assms(2,4) h1(1) by (simp add: answer_serial_def gen_packet_def)
  from tcp_echoclient_send_ok [OF p] obtain w' p' X' ys zs where w': "tcp_echoclient_send es ?w = Some w'" "[?a] = ys @ zs"
    "posting w' es (?e\<lparr>p_tx := p'\<rparr>) X' (bs @ pending ?w ys) zs" "pending w' zs = pending ?w zs" "usart w' = usart ?w" "post_packet w' = post_packet ?w"
    "\<forall>c. c \<notin> X' \<union> set [?a] \<longrightarrow> cells (heap w') c = cells (heap ?w) c" "\<forall>c\<in>X'. c \<in> X \<or> c \<in> set ys \<or> cells (heap ?w) c = None"
    by (elim exE conjE) (rule that)
  have zs: "set ys \<union> set zs = {?a}" using arg_cong [OF w'(2), of set] by simp
  have "(bs @ pending ?w ys) @ pending w' zs = bs @ pending ?w [?a]" using w'(2,4) by simp
  also have "pending ?w [?a] = map (garbage (heap w)) [56..<56 + length msg]" using h1(3,6) by simp
  finally have "(bs @ pending ?w ys) @ pending w' zs = bs @ map (garbage (heap w)) [56..<56 + length msg]" .
  moreover have "cells (heap w') c = cells (heap w) c \<and> c \<notin> X' \<and> c \<notin> set zs" if "cells (heap w) c \<noteq> None" "c \<notin> X" for c
  proof -
    have "c \<noteq> ?a" using that(1) new by auto
    then have "cells (heap ?w) c = cells (heap w) c" "c \<notin> set ys" "c \<notin> set zs" using h1(3) zs by auto
    then show ?thesis using w'(7,8) that \<open>c \<noteq> ?a\<close> by auto
  qed
  moreover have "usart ?w = usart w" "post_packet ?w = msg" by (simp_all add: set_es_def)
  ultimately show ?thesis using run w'(1,3,5,6) by metis
qed

section \<open>A client that is never answered\<close>

datatype client_event = Ev_connect "nat option" | Ev_connect_sustained "nat option" | Ev_connected err_t | Ev_connected_sustained err_t |
  Ev_poll "nat option" | Ev_sent "nat option"

fun client_step :: "client_event \<Rightarrow> client \<Rightarrow> client option" where
  "client_step (Ev_connect p) w = Some (tcp_echoclient_connect p w)"
| "client_step (Ev_connect_sustained p) w = Some (tcp_echoclient_connect_sustained p w)"
| "client_step (Ev_connected err) w = map_option snd (tcp_echoclient_connected err w)"
| "client_step (Ev_connected_sustained err) w = map_option snd (tcp_echoclient_connected_sustained err w)"
| "client_step (Ev_poll arg) w = map_option snd (tcp_echoclient_poll arg w)"
| "client_step (Ev_sent arg) w = map_option snd (tcp_echoclient_sent arg w)"

fun client_run :: "client_event list \<Rightarrow> client \<Rightarrow> client option" where
  "client_run [] w = Some w"
| "client_run (ev # evs) w = Option.bind (client_step ev w) (client_run evs)"

definition connects :: "tcp_call list \<Rightarrow> tcp_call list" where
  "connects cs = filter (\<lambda>c. case c of Call_connect f \<Rightarrow> True | _ \<Rightarrow> False) cs"

definition attempts :: "client \<Rightarrow> bool \<times> tcp_call list" where
  "attempts w = (Tcp_flag w, connects (calls w))"

lemma attempts_frame [simp]:
  "attempts (w\<lparr>heap := h\<rparr>) = attempts w" "attempts (w\<lparr>usart := u\<rparr>) = attempts w" "attempts (w\<lparr>pcb := p\<rparr>) = attempts w"
  "attempts (set_es es e w) = attempts w" "attempts (on_pcb f w) = attempts w" "attempts (mem_free a w) = attempts w"
  "attempts (record_call Call_close w) = attempts w" "attempts (record_call Call_abort w) = attempts w"
  "attempts (w\<lparr>status_connection := i\<rparr>) = attempts w"
  by (simp_all add: attempts_def set_es_def on_pcb_def mem_free_def record_call_def connects_def)

lemma attempts_malloc: "mem_malloc w = (a, w1) \<Longrightarrow> attempts w1 = attempts w"
  by (auto simp: mem_malloc_def Let_def split: prod.splits)

lemma attempts_close [simp]: "attempts (tcp_echoclient_connection_close es w) = attempts w"
  by (simp add: tcp_echoclient_connection_close_def Let_def split: option.splits)

lemma attempts_send: "tcp_echoclient_send es w = Some w' \<Longrightarrow> attempts w' = attempts w"
  by (auto simp: tcp_echoclient_send_def elim!: bind_SomeE split: prod.splits)

lemma attempts_put: "put_text s w = Some w' \<Longrightarrow> attempts w' = attempts w"
  by (auto simp: put_text_def)

lemma attempts_stage: "stage_text es s w = Some (g, w') \<Longrightarrow> attempts w' = attempts w"
  unfolding stage_text_def by (auto simp: Let_def elim!: bind_SomeE split: option.splits)

lemma client_step_blocked:
  assumes "client_step ev w = Some w'" "Tcp_flag w"
  shows "attempts w' = attempts w"
proof (cases ev)
  case (Ev_connected err)
  then show ?thesis using assms
    by (auto simp: tcp_echoclient_connected_def Let_def split: if_splits prod.splits option.splits elim!: bind_SomeE
        dest!: attempts_malloc attempts_stage)
next
  case (Ev_connected_sustained err)
  then show ?thesis using assms
    by (auto simp: tcp_echoclient_connected_sustained_def Let_def split: if_splits prod.splits option.splits elim!: bind_SomeE
        dest!: attempts_malloc attempts_stage attempts_send attempts_put)
qed (use assms in \<open>auto simp: tcp_echoclient_connect_def tcp_echoclient_connect_sustained_def connect_to_def tcp_echoclient_poll_def
    tcp_echoclient_sent_def split: if_splits option.splits elim!: bind_SomeE dest!: attempts_send\<close>)

section \<open>Properties\<close>

definition sample_ec :: echoclient where
  "sample_ec = \<lparr>ec_state = ES_CONNECTED, ec_pcb = 0, p_tx = None\<rparr>"

definition sample_client :: client where
  "sample_client = \<lparr>heap = \<lparr>cells = [0 \<mapsto> serial_pbuf], brk = 10, grants = [True, True, True, True], garbage = \<lambda>_. 0\<rparr>, pcb = sample_pcb,
     pcb_addr = 0, ess = [9 \<mapsto> sample_ec], calls = [], env = sample_env, post_packet = [], flag_err_recv_serial = 1, flag_recv_serial = 0,
     flag_server_accept = 0, usart = sample_usart, junk = sample_ec, Tcp_flag = False, message_count = 0, status_connection = 0,
     echoclient_pcb = None\<rparr>"

lemma sample_waiting: "waiting sample_client None {} [] []"
  by (simp add: waiting_def sample_client_def heap_ok_def unsent_bytes_def conn_ok_def sample_pcb_def last_room_def TCP_MSS_def)

text \<open>
  C13. A connection posts its message exactly when the memory for it is granted. Two requests decide: the structure and
  one buffer. Both granted: \<open>tcp_echoclient_connected\<close> leaves its message (the request when an error is pending, otherwise the message of the
  device, at most 299 characters in \<open>post_packet[300]\<close>) waiting in the structure for the first \<open>poll\<close>, and \<open>tcp_echoclient_connected_sustained\<close> queues as
  much of the request as the connection takes, behind what was queued before; both register their callbacks. Only the structure granted: nothing
  is sent, no callback is registered, \<open>ERR_OK\<close> is returned all the same, and the new structure is lost. No structure: the connection is closed and
  \<open>ERR_MEM\<close> returned (by the sustained callback once the serial line has taken its report).
\<close>

theorem tcp_echoclient_posts:
  assumes "waiting w None X bs []" "structs_ok w" "length (post_packet w) < 300"
  shows "(granted 0 (heap w) \<and> granted 1 (heap w) \<longrightarrow>
      (\<exists>w'. tcp_echoclient_connected ERR_OK w = Some (ERR_OK, w') \<and>
        staged X bs (if flag_err_recv_serial w \<noteq> 0 then request_text else post_packet w) w w') \<and>
      (\<exists>w'. tcp_echoclient_connected_sustained ERR_OK w = Some (ERR_OK, w') \<and> posted bs request_text w w')) \<and>
    (granted 0 (heap w) \<and> \<not> granted 1 (heap w) \<longrightarrow>
      (\<exists>w'. tcp_echoclient_connected ERR_OK w = Some (ERR_OK, w') \<and> dropped X bs w w') \<and>
      (\<exists>w'. tcp_echoclient_connected_sustained ERR_OK w = Some (ERR_OK, w') \<and> dropped X bs w w')) \<and>
    (\<not> granted 0 (heap w) \<longrightarrow>
      (\<exists>w'. tcp_echoclient_connected ERR_OK w = Some (ERR_MEM, w') \<and> refused X bs w w') \<and>
      (ready 30 (usart w) \<longrightarrow> (\<exists>w'. tcp_echoclient_connected_sustained ERR_OK w = Some (ERR_MEM, w') \<and> refused X bs w w')))"
proof -
  let ?es = "brk (heap w)" and ?s = "if flag_err_recv_serial w \<noteq> 0 then request_text else post_packet w"
  have connected: "\<exists>w'. tcp_echoclient_connected ERR_OK w = Some (ERR_OK, w') \<and> (if granted 1 (heap w) then staged X bs ?s w w' else dropped X bs w w')"
    and sustained: "\<exists>w'. tcp_echoclient_connected_sustained ERR_OK w = Some (ERR_OK, w') \<and>
      (if granted 1 (heap w) then posted bs request_text w w' else dropped X bs w w')" if g: "granted 0 (heap w)"
  proof -
    from mem_malloc_granted [OF assms(1,2) g] obtain h where h: "mem_malloc w = (Some ?es, w\<lparr>heap := h\<rparr>)"
      "waiting (w\<lparr>heap := h\<rparr>) None X bs []" "ess w ?es = None" "granted 0 h = granted 1 (heap w)" by blast
    let ?e = "(junk w)\<lparr>ec_state := ES_CONNECTED, ec_pcb := pcb_addr w\<rparr>"
    have "tcp_echoclient_connected ERR_OK w = map_option (\<lambda>r. (ERR_OK, snd r)) (stage_text ?es ?s (set_es ?es ?e (w\<lparr>heap := h\<rparr>)))"
      using h(1) by (cases "stage_text ?es ?s (set_es ?es ?e (w\<lparr>heap := h\<rparr>))") (auto simp: tcp_echoclient_connected_def Let_def set_es_def)
    moreover have "length ?s \<le> 444" using assms(3) request_text_length by simp
    from staged_after_malloc [OF h(2,3) this, of ?e] obtain w' where "stage_text ?es ?s (set_es ?es ?e (w\<lparr>heap := h\<rparr>)) = Some (granted 0 h, w')"
      "if granted 0 h then \<exists>a xs. posting w' ?es (?e\<lparr>p_tx := Some a\<rparr>) X bs xs \<and> pending w' xs = map byte_of ?s \<and> client_callbacks ?es (pcb w')
       else dropped X bs w w'" by blast
    moreover from this(2) have "if granted 0 h then staged X bs ?s w w' else dropped X bs w w'" using h(3) by (cases "granted 0 h") (simp_all only: staged_def if_True if_False, blast)
    ultimately show "\<exists>w'. tcp_echoclient_connected ERR_OK w = Some (ERR_OK, w') \<and> (if granted 1 (heap w) then staged X bs ?s w w' else dropped X bs w w')"
      using h(4) by (intro exI [of _ w']) simp
    note sent = staged_and_sent [OF h(2,3), unfolded h(4)]
    show "\<exists>w'. tcp_echoclient_connected_sustained ERR_OK w = Some (ERR_OK, w') \<and> (if granted 1 (heap w) then posted bs request_text w w' else dropped X bs w w')"
    proof (cases "status_connection w = 0")
      case True
      have "tcp_echoclient_connected_sustained ERR_OK w = Option.bind (stage_text ?es request_text (set_es ?es ?e (w\<lparr>heap := h\<rparr>)))
        (\<lambda>(g, w3). if g then map_option (\<lambda>w4. (ERR_OK, w4\<lparr>status_connection := 1\<rparr>)) (tcp_echoclient_send ?es w3) else Some (ERR_OK, w3))"
        using h(1) True by (auto simp: tcp_echoclient_connected_sustained_def Let_def map_conv_bind_option intro!: Option.bind_cong)
      then show ?thesis using sent [of "\<lambda>w. w\<lparr>status_connection := 1\<rparr>" ?e] by simp
    next
      case False
      have "tcp_echoclient_connected_sustained ERR_OK w = Option.bind (stage_text ?es request_text (set_es ?es (junk w) (w\<lparr>heap := h\<rparr>)))
        (\<lambda>(g, w3). if g then map_option (\<lambda>w4. (ERR_OK, w4)) (tcp_echoclient_send ?es w3) else Some (ERR_OK, w3))"
        using h(1) False by (auto simp: tcp_echoclient_connected_sustained_def Let_def map_conv_bind_option intro!: Option.bind_cong)
      then show ?thesis using sent [of "\<lambda>w. w" "junk w"] by simp
    qed
  qed
  have refused: "(\<exists>w'. tcp_echoclient_connected ERR_OK w = Some (ERR_MEM, w') \<and> refused X bs w w') \<and>
      (ready 30 (usart w) \<longrightarrow> (\<exists>w'. tcp_echoclient_connected_sustained ERR_OK w = Some (ERR_MEM, w') \<and> refused X bs w w'))" if g: "\<not> granted 0 (heap w)"
  proof -
    from mem_malloc_refused [OF assms(1) g] obtain h where h: "mem_malloc w = (None, w\<lparr>heap := h\<rparr>)" "waiting (w\<lparr>heap := h\<rparr>) None X bs []" by blast
    let ?t = "''ERROR >> Connection close e1'' @ crlf"
    have "CHR 0x00 \<notin> set ?t" "length ?t = 30" by (simp_all add: crlf_def)
    then have "\<exists>u. put_text ?t (w\<lparr>heap := h\<rparr>) = Some (w\<lparr>heap := h, usart := u\<rparr>)" if "ready 30 (usart w)"
      using put_text_ready [of ?t "w\<lparr>heap := h\<rparr>"] that by auto
    moreover have "waiting (w\<lparr>heap := h, usart := u\<rparr>) None X bs []" for u using h(2) by (simp add: waiting_def)
    ultimately show ?thesis using h close_refuses(1) [OF h(2), of w] close_refuses(2) [of "w\<lparr>heap := h, usart := u\<rparr>" X bs w for u]
      by (fastforce simp: tcp_echoclient_connected_def tcp_echoclient_connected_sustained_def)
  qed
  show ?thesis using connected sustained refused
    by (cases "granted 0 (heap w)"; cases "granted 1 (heap w)"; simp split del: if_split)
qed

theorem tcp_echoclient_posts_witness:
  "(\<exists>w'. tcp_echoclient_connected ERR_OK sample_client = Some (ERR_OK, w') \<and> staged {} [] request_text sample_client w') \<and>
   (\<exists>w'. tcp_echoclient_connected_sustained ERR_OK sample_client = Some (ERR_OK, w') \<and> posted [] request_text sample_client w')"
proof -
  have "granted 0 (heap sample_client)" "granted 1 (heap sample_client)" "structs_ok sample_client" "length (post_packet sample_client) < 300"
    "flag_err_recv_serial sample_client \<noteq> 0" by (simp_all add: sample_client_def granted_def structs_ok_def)
  with tcp_echoclient_posts [OF sample_waiting] show ?thesis by simp
qed

text \<open>
  C34. The answer to a serial number is not the message. When the server sends a serial number,
  \<open>tcp_echoclient_recv\<close> builds the message of the device with it, but it never copies the message
  into the buffer it sends: what the connection queues are as many bytes as the message has of
  whatever the buffer pool holds.
\<close>

theorem tcp_echoclient_answers_garbage:
  assumes "waiting w None X bs []" "ess w es = Some e" "ec_state e = ES_CONNECTED"
    "packet (cells (heap w)) (Some q) ys" "\<forall>c\<in>set ys. sole (cells (heap w)) c" "length ys < 256" "set ys \<inter> X = {}"
    "cells (heap w) q = Some b" "at_payload b = nat_dec n @ CHR 0x00 # rest" "0 < n" "int n < 2 ^ 31"
    "json_Packet_Gen ((env w)\<lparr>recv_serial := int n\<rparr>) = Some msg" "grants (heap w) = True # gs" "ready 24 (usart w)"
  shows "\<exists>w' e' X' bs' zs. tcp_echoclient_recv (Some es) (Some q) ERR_OK w = Some (ERR_OK, w') \<and> post_packet w' = msg \<and>
    posting w' es e' X' bs' zs \<and> bs' @ pending w' zs = bs @ map (garbage (heap w)) [56..<56 + length msg] \<and>
    (\<forall>c\<in>set ys. cells (heap w') c = None)"
proof -
  define w3 where "w3 = set_serial (int n) (record_call (Call_recved (tot_len b)) (w\<lparr>Tcp_flag := False, message_count := message_count w + 1\<rparr>))"
  have w3: "heap w3 = heap w" "pcb w3 = pcb w" "ess w3 = ess w" "env w3 = (env w)\<lparr>recv_serial := int n\<rparr>" "usart w3 = usart w"
    by (simp_all add: w3_def set_serial_def record_call_def)
  have "waiting w3 None X bs []" using assms(1) w3 by (simp add: waiting_def)
  moreover have "length msg \<le> 444"
    using json_Packet_Gen_length [OF assms(12)] by simp
  ultimately have "\<exists>w' e' X' bs' zs. answer_serial es w3 = Some w' \<and> posting w' es e' X' bs' zs \<and>
    bs' @ pending w' zs = bs @ map (garbage (heap w)) [56..<56 + length msg] \<and> post_packet w' = msg \<and> usart w' = usart w \<and>
    (\<forall>c. cells (heap w) c \<noteq> None \<and> c \<notin> X \<longrightarrow> cells (heap w') c = cells (heap w) c \<and> c \<notin> X' \<and> c \<notin> set zs)"
    using answer_serial_ok [of w3 X bs es e gs msg] assms(2,12,13) unfolding w3 by blast
  then obtain w4 e' X' bs' zs where w4: "answer_serial es w3 = Some w4" "posting w4 es e' X' bs' zs"
    "bs' @ pending w4 zs = bs @ map (garbage (heap w)) [56..<56 + length msg]" "post_packet w4 = msg" "usart w4 = usart w"
    "\<forall>c. cells (heap w) c \<noteq> None \<and> c \<notin> X \<longrightarrow> cells (heap w4) c = cells (heap w) c \<and> c \<notin> X' \<and> c \<notin> set zs"
    by (elim exE conjE) (rule that)
  let ?t = "''Serial no: '' @ nat_dec n @ '' '' @ crlf"
  have "length (nat_dec n) \<le> 10" using assms(11) by (intro nat_dec_length) auto
  then have "ready (length ?t) (usart w4)" using assms(14) w4(5) by (simp add: ready_def crlf_def)
  then obtain u where u: "put_text ?t w4 = Some (w4\<lparr>usart := u\<rparr>)"
    using put_text_ready [of ?t w4] nat_dec_no_nul [of n] by (auto simp: crlf_def)
  have ys: "cells (heap w4) c = cells (heap w) c \<and> c \<notin> X' \<and> c \<notin> set zs" if "c \<in> set ys" for c
    using w4(6) that assms(7) packet_cells [OF assms(4)] by blast
  have "packet (cells (heap w4)) (Some q) ys" "\<forall>c\<in>set ys. sole (cells (heap w4)) c"
    using packet_frame(1) [where xs = ys and m' = "cells (heap w4)" and m = "cells (heap w)" and k = 0 and p = "Some q"] ys assms(4,5)
    by (auto simp: sole_def)
  moreover have "waiting (w4\<lparr>usart := u\<rparr>) (p_tx e') X' bs' zs" using w4(2) by (simp add: posting_def waiting_def)
  moreover have "set ys \<inter> X' = {}" "set zs \<inter> set ys = {}" using ys by blast+
  ultimately obtain k h where h: "pbuf_free (Some q) (heap w4) = Some (k, h)" "waiting (w4\<lparr>usart := u, heap := h\<rparr>) (p_tx e') X' bs' zs"
    "content (cells h) zs = pending w4 zs" "cells h = cells (heap w4) |` (- set ys)"
    using waiting_free [of "w4\<lparr>usart := u\<rparr>" "p_tx e'" X' bs' zs q ys] assms(6) by auto
  have "tcp_echoclient_recv (Some es) (Some q) ERR_OK w = Some (ERR_OK, w4\<lparr>usart := u, heap := h\<rparr>)"
    using assms(2,3,8-10) serial_check_dec [OF assms(11), of rest] w4(1) [unfolded w3_def record_call_def] u h(1)
    by (simp add: tcp_echoclient_recv_def free_packet_def record_call_def)
  moreover have "posting (w4\<lparr>usart := u, heap := h\<rparr>) es e' X' bs' zs" using h(2) w4(2) by (simp add: posting_def)
  ultimately show ?thesis using w4(3,4) h(3,4)
    by (intro exI [of _ "w4\<lparr>usart := u, heap := h\<rparr>"] exI [of _ e'] exI [of _ X'] exI [of _ bs'] exI [of _ zs]) simp
qed

theorem tcp_echoclient_answers_garbage_witness:
  "\<exists>w' e' X' bs' zs. tcp_echoclient_recv (Some 9) (Some 0) ERR_OK sample_client = Some (ERR_OK, w') \<and>
     posting w' 9 e' X' bs' zs \<and> bs' @ pending w' zs = replicate (length (post_packet w')) 0"
proof -
  have env: "env sample_client = sample_env" by (simp add: sample_client_def)
  have "env_ok (sample_env\<lparr>recv_serial := int 7\<rparr>)" by (simp add: sample_env_def env_ok_def in_s32_def)
  then obtain msg where msg: "json_Packet_Gen ((env sample_client)\<lparr>recv_serial := int 7\<rparr>) = Some msg"
    using json_Packet_Gen_fit [of "sample_env\<lparr>recv_serial := int 7\<rparr>"] unfolding env by (auto simp: sample_env_def)
  have "nat_dec 7 = ''7''" by code_simp
  moreover have rd: "ready 24 sample_usart" by code_simp
  moreover have "at_payload serial_pbuf = ''7'' @ CHR 0x00 # []" by code_simp
  ultimately have pl: "at_payload serial_pbuf = nat_dec 7 @ CHR 0x00 # []" by simp
  have "ess sample_client 9 = Some sample_ec" "ec_state sample_ec = ES_CONNECTED" "packet (cells (heap sample_client)) (Some 0) [0]"
    "\<forall>c\<in>set [0]. sole (cells (heap sample_client)) c" "length [0::nat] < 256" "set [0::nat] \<inter> {} = {}" "cells (heap sample_client) 0 = Some serial_pbuf"
    by (simp_all add: sample_client_def sample_ec_def packet_Cons serial_pbuf_def sole_def)
  from tcp_echoclient_answers_garbage [OF sample_waiting this pl _ _ msg, of "[True, True, True]"] rd
  obtain w' e' X' bs' zs where "tcp_echoclient_recv (Some 9) (Some 0) ERR_OK sample_client = Some (ERR_OK, w')" "post_packet w' = msg"
    "posting w' 9 e' X' bs' zs" "bs' @ pending w' zs = [] @ map (garbage (heap sample_client)) [56..<56 + length msg]"
    by (auto simp: sample_client_def)
  moreover have "map (garbage (heap sample_client)) [56..<56 + length msg] = replicate (length msg) 0"
    by (simp add: sample_client_def map_replicate_const)
  ultimately show ?thesis by auto
qed

text \<open>
  A connection that fails blocks the client for good. \<open>tcp_echoclient_connect\<close> does nothing while
  \<open>Tcp_flag\<close> is set, and only the receipt of data clears the flag: once it is set, any sequence of
  connect requests, refused or accepted connections, polls and acknowledgements leaves it set and
  starts no connection.
\<close>

theorem tcp_echoclient_blocked:
  assumes "Tcp_flag w" "client_run evs w = Some w'"
  shows "Tcp_flag w' \<and> connects (calls w') = connects (calls w)"
proof -
  have "attempts w' = attempts w"
    using assms
  proof (induction evs arbitrary: w)
    case (Cons ev evs)
    from Cons.prems(2) obtain w1 where w1: "client_step ev w = Some w1" "client_run evs w1 = Some w'" by (auto elim: bind_SomeE)
    from client_step_blocked [OF w1(1) Cons.prems(1)] have a: "attempts w1 = attempts w" .
    then have "Tcp_flag w1" using Cons.prems(1) by (simp add: attempts_def)
    from Cons.IH [OF this w1(2)] a show ?case by simp
  qed simp
  with assms(1) show ?thesis by (simp add: attempts_def)
qed

theorem tcp_echoclient_blocked_witness:
  "\<exists>w'. client_run [Ev_connected ERR_ABRT, Ev_connect (Some 1)] (sample_client\<lparr>Tcp_flag := True\<rparr>) = Some w' \<and> connects (calls w') = []"
proof -
  let ?w = "sample_client\<lparr>Tcp_flag := True\<rparr>"
  obtain w' where w': "client_run [Ev_connected ERR_ABRT, Ev_connect (Some 1)] ?w = Some w'"
    by (simp add: tcp_echoclient_connected_def)
  moreover have "connects (calls ?w) = []" by (simp add: sample_client_def connects_def)
  ultimately show ?thesis using tcp_echoclient_blocked [OF _ w'] by simp
qed

end
