(* ===== verification/Board.thy ===== *)
theory Board
  imports Prelude
begin

text \<open>
  The time base, the push button and the periodic work of the device: \<open>main.c\<close> (\<open>Button_State\<close>, \<open>Delay\<close>,
  \<open>Time_Update\<close>), \<open>stm32f4xx_it.c\<close> (\<open>SysTick_Handler\<close>, \<open>TIM2_IRQHandler\<close>) and \<open>netconf.c\<close>
  (\<open>LwIP_Periodic_Handle\<close>, \<open>LwIP_DHCP_Process_Handle\<close>) of the project \<open>tcp_echo_client\<close>. The time is a
  32-bit counter that wraps around.
\<close>

section \<open>Time and button\<close>

record board =
  LocalTime :: "32 word"
  timingdelay :: "32 word"
  Button_TimerBack :: "32 word"
  Button_Flag :: "32 word"
  count_mS :: "32 word"
  countT :: "32 word"
  countTime :: "32 word"

definition Time_Update :: "board \<Rightarrow> board" where
  "Time_Update b = b\<lparr>LocalTime := LocalTime b + 10\<rparr>"

definition SysTick_Handler :: "board \<Rightarrow> board" where
  "SysTick_Handler b = Time_Update b"

definition TIM2_IRQHandler :: "bool \<Rightarrow> board \<Rightarrow> board" where
  "TIM2_IRQHandler pending b =
     (if pending then b\<lparr>count_mS := count_mS b + 1, countT := countT b + 1, countTime := countTime b + 1\<rparr> else b)"

text \<open>The argument is the level of the pin.\<close>

definition Button_State :: "8 word \<Rightarrow> board \<Rightarrow> 8 word \<times> board" where
  "Button_State level b =
     (if Button_Flag b = 0 then
        (0, if level \<noteq> 0 then b\<lparr>Button_Flag := 1, Button_TimerBack := LocalTime b\<rparr> else b)
      else if Button_Flag b = 1 then
        (if level \<noteq> 0 \<and> LocalTime b - Button_TimerBack b \<ge> 40 then (level, b\<lparr>Button_Flag := 2\<rparr>) else (0, b))
      else (0, if level = 0 then b\<lparr>Button_Flag := 0\<rparr> else b))"

text \<open>
  \<open>Delay\<close> polls the time, which only the tick interrupt changes: between two ticks nothing happens, so
  the loop is a recursion over the ticks that arrive; \<open>None\<close> when it still waits after \<open>n\<close> ticks.
\<close>

fun delay_loop :: "nat \<Rightarrow> board \<Rightarrow> board option" where
  "delay_loop n b =
     (if timingdelay b > LocalTime b then (case n of 0 \<Rightarrow> None | Suc m \<Rightarrow> delay_loop m (SysTick_Handler b)) else Some b)"

declare delay_loop.simps [simp del]

definition Delay :: "nat \<Rightarrow> 32 word \<Rightarrow> board \<Rightarrow> board option" where
  "Delay ticks nCount b = delay_loop ticks (b\<lparr>timingdelay := LocalTime b + nCount\<rparr>)"

section \<open>Periodic work of the stack\<close>

datatype DHCP_State_TypeDef = DHCP_START | DHCP_WAIT_ADDRESS | DHCP_ADDRESS_ASSIGNED | DHCP_TIMEOUT

datatype net_call = Call_tcp_tmr | Call_etharp_tmr | Call_dhcp_fine_tmr | Call_dhcp_coarse_tmr | Call_dhcp_start | Call_dhcp_stop |
  Call_netif_set_addr "32 word" "32 word" "32 word"

text \<open>\<open>if_addr\<close> is the address of the interface and \<open>tries\<close> the number of DHCP requests: both belong to the stack.\<close>

record netconf =
  TCPTimer :: "32 word"
  ARPTimer :: "32 word"
  DHCPfineTimer :: "32 word"
  DHCPcoarseTimer :: "32 word"
  IPaddress :: "32 word"
  DHCP_state :: DHCP_State_TypeDef
  if_addr :: "32 word"
  tries :: nat
  net_calls :: "net_call list"

definition net_call :: "net_call \<Rightarrow> netconf \<Rightarrow> netconf" where
  "net_call c s = s\<lparr>net_calls := net_calls s @ [c]\<rparr>"

definition IP4_ADDR :: "nat \<Rightarrow> nat \<Rightarrow> nat \<Rightarrow> nat \<Rightarrow> 32 word" where
  "IP4_ADDR a b c d = word_of_nat (d mod 256) * 2 ^ 24 + word_of_nat (c mod 256) * 2 ^ 16 + word_of_nat (b mod 256) * 2 ^ 8 + word_of_nat (a mod 256)"

definition LwIP_DHCP_Process_Handle :: "netconf \<Rightarrow> netconf" where
  "LwIP_DHCP_Process_Handle s =
     (case DHCP_state s of
        DHCP_START \<Rightarrow> (net_call Call_dhcp_start s)\<lparr>IPaddress := 0, DHCP_state := DHCP_WAIT_ADDRESS\<rparr>
      | DHCP_WAIT_ADDRESS \<Rightarrow>
          (let s1 = s\<lparr>IPaddress := if_addr s\<rparr> in
           if IPaddress s1 \<noteq> 0 then net_call Call_dhcp_stop (s1\<lparr>DHCP_state := DHCP_ADDRESS_ASSIGNED\<rparr>)
           else if tries s1 > 4 then
             (let s2 = net_call Call_dhcp_stop (s1\<lparr>DHCP_state := DHCP_TIMEOUT\<rparr>);
                  ip = IP4_ADDR 192 168 1 10; mask = IP4_ADDR 255 255 255 0; gw = IP4_ADDR 192 168 1 1
              in (net_call (Call_netif_set_addr ip mask gw) s2)\<lparr>if_addr := ip\<rparr>)
           else s1)
      | _ \<Rightarrow> s)"

definition tcp_periodic :: "32 word \<Rightarrow> netconf \<Rightarrow> netconf" where
  "tcp_periodic now s = (if now - TCPTimer s \<ge> 250 then net_call Call_tcp_tmr (s\<lparr>TCPTimer := now\<rparr>) else s)"

definition arp_periodic :: "32 word \<Rightarrow> netconf \<Rightarrow> netconf" where
  "arp_periodic now s = (if now - ARPTimer s \<ge> 5000 then net_call Call_etharp_tmr (s\<lparr>ARPTimer := now\<rparr>) else s)"

text \<open>The part that is compiled in when \<open>USE_DHCP\<close> is defined.\<close>

definition dhcp_periodic :: "32 word \<Rightarrow> netconf \<Rightarrow> netconf" where
  "dhcp_periodic now s =
     (let s1 = (if now - DHCPfineTimer s \<ge> 500 then
                  (let s' = net_call Call_dhcp_fine_tmr (s\<lparr>DHCPfineTimer := now\<rparr>) in
                   if DHCP_state s' \<noteq> DHCP_ADDRESS_ASSIGNED \<and> DHCP_state s' \<noteq> DHCP_TIMEOUT then LwIP_DHCP_Process_Handle s' else s')
                else s)
      in if now - DHCPcoarseTimer s1 \<ge> 60000 then net_call Call_dhcp_coarse_tmr (s1\<lparr>DHCPcoarseTimer := now\<rparr>) else s1)"

definition LwIP_Periodic_Handle :: "bool \<Rightarrow> 32 word \<Rightarrow> netconf \<Rightarrow> netconf" where
  "LwIP_Periodic_Handle use_dhcp now s =
     (let s1 = arp_periodic now (tcp_periodic now s) in if use_dhcp then dhcp_periodic now s1 else s1)"

section \<open>The delay\<close>

lemma delay_loop_waits:
  assumes "unat (LocalTime b) + d = unat (timingdelay b)" "unat (timingdelay b) + 10 \<le> 2 ^ 32"
  shows "delay_loop n b = (if (d + 9) div 10 \<le> n then Some (b\<lparr>LocalTime := LocalTime b + word_of_nat (10 * ((d + 9) div 10))\<rparr>) else None)"
  using assms
proof (induction n arbitrary: b d)
  case 0
  then show ?case by (subst delay_loop.simps) (auto simp: word_less_nat_alt)
next
  case (Suc n)
  show ?case
  proof (cases "d = 0")
    case True
    then show ?thesis using Suc.prems(1) by (subst delay_loop.simps) (simp add: word_less_nat_alt)
  next
    case False
    then have lt: "timingdelay b > LocalTime b" using Suc.prems(1) by (simp add: word_less_nat_alt)
    let ?b = "SysTick_Handler b"
    have t: "unat (LocalTime ?b) = unat (LocalTime b) + 10" "timingdelay ?b = timingdelay b" "(d + 9) div 10 = Suc ((d - 1) div 10)"
      using Suc.prems False by (auto simp: SysTick_Handler_def Time_Update_def unat_word_ariths)
    have step: "delay_loop (Suc n) b = delay_loop n ?b" using lt by (subst delay_loop.simps) simp
    show ?thesis
    proof (cases "d \<le> 10")
      case True
      then have "(d - 1) div 10 = 0" using False by simp
      moreover have "\<not> timingdelay ?b > LocalTime ?b" using Suc.prems(1) t True by (simp add: word_less_nat_alt)
      then have "delay_loop n ?b = Some ?b" by (subst delay_loop.simps) simp
      ultimately show ?thesis using step t(3) by (simp add: SysTick_Handler_def Time_Update_def)
    next
      case False
      have e: "(d - 10 + 9) div 10 = (d - 1) div 10" using False by simp
      have "10 * Suc k = 10 + 10 * k" for k :: nat by simp
      then have w: "(10 :: 32 word) + word_of_nat (10 * ((d - 1) div 10)) = word_of_nat (10 * Suc ((d - 1) div 10))" by simp
      have "delay_loop n ?b = (if (d - 1) div 10 \<le> n then Some (?b\<lparr>LocalTime := LocalTime ?b + word_of_nat (10 * ((d - 1) div 10))\<rparr>) else None)"
        using Suc.IH [of ?b "d - 10"] Suc.prems t False by (simp add: e)
      then show ?thesis using step w unfolding t(3) by (simp add: SysTick_Handler_def Time_Update_def add.assoc)
    qed
  qed
qed

text \<open>Near the end of the range the deadline can lie between the values that the time takes.\<close>

lemma delay_loop_never:
  assumes "timingdelay b = - 1" "even (LocalTime b)"
  shows "delay_loop n b = None"
  using assms
proof (induction n arbitrary: b)
  case 0
  then have "LocalTime b \<noteq> - 1" by auto
  then show ?case using 0 by (subst delay_loop.simps) (simp add: word_order.not_eq_extremum)
next
  case (Suc n)
  then have "LocalTime b \<noteq> - 1" by auto
  then have "timingdelay b > LocalTime b" using Suc.prems(1) by (simp add: word_order.not_eq_extremum)
  moreover have "delay_loop n (SysTick_Handler b) = None"
    by (rule Suc.IH) (use Suc.prems in \<open>simp_all add: SysTick_Handler_def Time_Update_def\<close>)
  ultimately show ?case by (subst delay_loop.simps) simp
qed

section \<open>The button\<close>

text \<open>The button polled at the given times with the given levels.\<close>

fun button_run :: "(32 word \<times> 8 word) list \<Rightarrow> board \<Rightarrow> 8 word list \<times> board" where
  "button_run [] b = ([], b)"
| "button_run ((now, level) # xs) b =
     (let (r, b1) = Button_State level (b\<lparr>LocalTime := now\<rparr>); (rs, b2) = button_run xs b1 in (r # rs, b2))"

lemma button_run_snoc:
  "button_run (xs @ [(now, level)]) b =
     (let (rs, b1) = button_run xs b; (r, b2) = Button_State level (b1\<lparr>LocalTime := now\<rparr>) in (rs @ [r], b2))"
  by (induction xs arbitrary: b) (auto simp: Let_def split: prod.splits)

text \<open>
  What a run of polls has reported: when the button is armed, it was seen pressed at the time recorded
  and nothing has been reported since; when it is held, the last report has been followed by
  pressed levels only; when it is idle, a release has been seen since the last report.
\<close>

definition armed :: "(32 word \<times> 8 word) list \<Rightarrow> 8 word list \<Rightarrow> 32 word \<Rightarrow> nat \<Rightarrow> bool" where
  "armed xs rs t j \<longleftrightarrow> j < length xs \<and> snd (xs ! j) \<noteq> 0 \<and> fst (xs ! j) = t \<and> (\<forall>m. j \<le> m \<and> m < length xs \<longrightarrow> rs ! m = 0)"

definition released :: "(32 word \<times> 8 word) list \<Rightarrow> 8 word list \<Rightarrow> nat \<Rightarrow> bool" where
  "released xs rs k \<longleftrightarrow> (\<forall>i < k. rs ! i \<noteq> 0 \<longrightarrow> (\<exists>m. i < m \<and> m < k \<and> snd (xs ! m) = 0))"

definition reports_ok :: "(32 word \<times> 8 word) list \<Rightarrow> 8 word list \<Rightarrow> bool" where
  "reports_ok xs rs \<longleftrightarrow> (\<forall>i < length xs. rs ! i \<noteq> 0 \<longrightarrow>
     rs ! i = snd (xs ! i) \<and> released xs rs i \<and>
     (\<exists>j < i. snd (xs ! j) \<noteq> 0 \<and> fst (xs ! i) - fst (xs ! j) \<ge> 40 \<and> (\<forall>m. j \<le> m \<and> m < i \<longrightarrow> rs ! m = 0)))"

definition button_inv :: "(32 word \<times> 8 word) list \<Rightarrow> 8 word list \<Rightarrow> board \<Rightarrow> bool" where
  "button_inv xs rs b \<longleftrightarrow> length rs = length xs \<and> reports_ok xs rs \<and> Button_Flag b \<in> {0, 1, 2} \<and>
     (Button_Flag b \<noteq> 2 \<longrightarrow> released xs rs (length xs)) \<and>
     (Button_Flag b = 1 \<longrightarrow> (\<exists>j. armed xs rs (Button_TimerBack b) j))"

lemma released_append: "\<lbrakk>length rs = length xs; k \<le> length xs\<rbrakk> \<Longrightarrow> released (xs @ [x]) (rs @ [r]) k = released xs rs k"
  by (simp add: released_def nth_append cong: conj_cong)

lemma released_snoc:
  assumes "length rs = length xs" "released xs rs (length xs) \<or> snd x = 0"
  shows "released (xs @ [x]) (rs @ [0]) (Suc (length xs))"
  unfolding released_def
proof (intro allI impI)
  fix i assume i: "i < Suc (length xs)" "(rs @ [0]) ! i \<noteq> 0"
  then have r: "i < length xs" "rs ! i \<noteq> 0" using assms(1) by (auto simp: nth_append split: if_splits)
  show "\<exists>m. i < m \<and> m < Suc (length xs) \<and> snd ((xs @ [x]) ! m) = 0"
  proof (cases "snd x = 0")
    case True
    then show ?thesis using r(1) by (intro exI [of _ "length xs"]) simp
  next
    case False
    then obtain m where "i < m" "m < length xs" "snd (xs ! m) = 0" using assms(2) r by (auto simp: released_def)
    then show ?thesis by (intro exI [of _ m]) (simp add: nth_append)
  qed
qed

lemma reports_ok_snoc:
  assumes "length rs = length xs"
  shows "reports_ok (xs @ [x]) (rs @ [r]) \<longleftrightarrow> reports_ok xs rs \<and>
    (r \<noteq> 0 \<longrightarrow> r = snd x \<and> released xs rs (length xs) \<and>
       (\<exists>j < length xs. snd (xs ! j) \<noteq> 0 \<and> fst x - fst (xs ! j) \<ge> 40 \<and> (\<forall>m. j \<le> m \<and> m < length xs \<longrightarrow> rs ! m = 0)))"
proof -
  have "(\<forall>i < Suc n. P i) \<longleftrightarrow> (\<forall>i < n. P i) \<and> P n" for P and n :: nat by (auto simp: less_Suc_eq)
  then show ?thesis unfolding reports_ok_def length_append_singleton
    using assms by (simp add: nth_append released_append cong: conj_cong)
qed

lemma button_inv_step:
  assumes "button_inv xs rs b" "Button_State level (b\<lparr>LocalTime := now\<rparr>) = (r, b')"
  shows "button_inv (xs @ [(now, level)]) (rs @ [r]) b'"
proof -
  have len: "length rs = length xs" using assms(1) by (simp add: button_inv_def)
  consider (idle) "Button_Flag b = 0" | (armed) "Button_Flag b = 1" | (held) "Button_Flag b = 2"
    using assms(1) by (auto simp: button_inv_def)
  then show ?thesis
  proof cases
    case idle
    have "armed (xs @ [(now, level)]) (rs @ [0]) now (length xs)" if "level \<noteq> 0"
      using that len by (auto simp: armed_def nth_append)
    then show ?thesis using assms idle len released_snoc [OF len, of "(now, level)"]
      by (auto simp: button_inv_def Button_State_def reports_ok_snoc split: if_splits)
  next
    case armed
    then obtain j where j: "armed xs rs (Button_TimerBack b) j" "released xs rs (length xs)" using assms(1) by (auto simp: button_inv_def)
    have keep: "armed (xs @ [(now, level)]) (rs @ [0]) (Button_TimerBack b) j"
      using j(1) len by (auto simp: armed_def nth_append less_Suc_eq)
    note rel = released_snoc [OF len, of "(now, level)"]
    show ?thesis
    proof (cases "level \<noteq> 0 \<and> now - Button_TimerBack b \<ge> 40")
      case True
      then have "r = level" "Button_Flag b' = 2" using assms(2) armed by (auto simp: Button_State_def)
      moreover have "\<exists>j < length xs. snd (xs ! j) \<noteq> 0 \<and> now - fst (xs ! j) \<ge> 40 \<and> (\<forall>m. j \<le> m \<and> m < length xs \<longrightarrow> rs ! m = 0)"
        using j(1) True unfolding armed_def by auto
      ultimately show ?thesis using assms(1) len j(2) by (simp add: button_inv_def reports_ok_snoc)
    next
      case False
      then have "r = 0" "Button_Flag b' = 1" "Button_TimerBack b' = Button_TimerBack b" using assms(2) armed by (auto simp: Button_State_def)
      then show ?thesis using assms(1) len rel j(2) keep by (auto simp: button_inv_def reports_ok_snoc)
    qed
  next
    case held
    then show ?thesis using assms len released_snoc [OF len, of "(now, level)"]
      by (auto simp: button_inv_def Button_State_def reports_ok_snoc split: if_splits)
  qed
qed

lemma button_run_inv: "Button_Flag b = 0 \<Longrightarrow> button_run xs b = (rs, b') \<Longrightarrow> button_inv xs rs b'"
proof (induction xs arbitrary: rs b' rule: rev_induct)
  case Nil
  then show ?case by (auto simp: button_inv_def reports_ok_def released_def)
next
  case (snoc x xs)
  obtain now level where x: "x = (now, level)" by fastforce
  obtain rs1 b1 where r1: "button_run xs b = (rs1, b1)" by fastforce
  obtain r b2 where r2: "Button_State level (b1\<lparr>LocalTime := now\<rparr>) = (r, b2)" by fastforce
  have "rs = rs1 @ [r]" "b' = b2" using snoc.prems(2) by (simp_all add: x button_run_snoc r1 r2)
  then show ?case using button_inv_step [OF snoc.IH [OF snoc.prems(1) r1] r2] x by simp
qed

section \<open>Properties\<close>

definition sample_board :: board where
  "sample_board = \<lparr>LocalTime = 100, timingdelay = 0, Button_TimerBack = 0, Button_Flag = 0, count_mS = 0, countT = 0, countTime = 0\<rparr>"

text \<open>
  C35. \<open>Delay\<close> ends, but not always. While the deadline stays ten below the range of the counter, it
  waits for exactly as many ticks as ten-millisecond periods cover \<open>nCount\<close> milliseconds (not
  \<open>nCount\<close> periods), and no fewer. When the deadline wraps around it does not wait at all, and when the
  deadline is the last value of the counter and the time is even, as it always is when it starts
  at zero, it never ends.
\<close>

theorem Delay_waits:
  "(unat (LocalTime b) + unat nCount + 10 \<le> 2 ^ 32 \<longrightarrow>
      Delay ticks nCount b =
        (if (unat nCount + 9) div 10 \<le> ticks
         then Some (b\<lparr>timingdelay := LocalTime b + nCount, LocalTime := LocalTime b + word_of_nat (10 * ((unat nCount + 9) div 10))\<rparr>)
         else None)) \<and>
   (2 ^ 32 \<le> unat (LocalTime b) + unat nCount \<longrightarrow> Delay 0 nCount b = Some (b\<lparr>timingdelay := LocalTime b + nCount\<rparr>)) \<and>
   (even (LocalTime b) \<and> LocalTime b + nCount = - 1 \<longrightarrow> Delay ticks nCount b = None)"
proof (intro conjI impI)
  assume "unat (LocalTime b) + unat nCount + 10 \<le> 2 ^ 32"
  moreover from this have "unat (LocalTime b + nCount) = unat (LocalTime b) + unat nCount" by (simp add: unat_word_ariths)
  ultimately show "Delay ticks nCount b =
      (if (unat nCount + 9) div 10 \<le> ticks
       then Some (b\<lparr>timingdelay := LocalTime b + nCount, LocalTime := LocalTime b + word_of_nat (10 * ((unat nCount + 9) div 10))\<rparr>)
       else None)"
    using delay_loop_waits [of "b\<lparr>timingdelay := LocalTime b + nCount\<rparr>" "unat nCount" ticks] by (simp add: Delay_def)
next
  assume a: "2 ^ 32 \<le> unat (LocalTime b) + unat nCount"
  have "unat (LocalTime b + nCount) = unat (LocalTime b) + unat nCount - 2 ^ 32"
    using a unsigned_less [of "LocalTime b", where 'a = nat] unsigned_less [of nCount, where 'a = nat] by (simp add: unat_word_ariths mod_if)
  then have "\<not> LocalTime b < LocalTime b + nCount" using unsigned_less [of nCount, where 'a = nat] by (simp add: word_less_nat_alt)
  then show "Delay 0 nCount b = Some (b\<lparr>timingdelay := LocalTime b + nCount\<rparr>)" by (simp add: Delay_def delay_loop.simps)
next
  assume "even (LocalTime b) \<and> LocalTime b + nCount = - 1"
  then show "Delay ticks nCount b = None" by (simp add: Delay_def delay_loop_never)
qed

theorem Delay_waits_witness: "Delay 3 25 sample_board = Some (sample_board\<lparr>timingdelay := 125, LocalTime := 130\<rparr>)"
  using Delay_waits [of sample_board 25 3] by (simp add: sample_board_def)

text \<open>
  C36. A press is reported once. However the button is polled from its idle state, each report shows the
  level that was read, comes at least 40 milliseconds (on the wrapping counter) after an earlier
  poll that saw the button pressed, with no report in between, and two reports are separated by
  a poll that saw it released.
\<close>

theorem Button_State_reports:
  assumes "Button_Flag b = 0" "button_run xs b = (rs, b')" "i < length xs" "rs ! i \<noteq> 0"
  shows "rs ! i = snd (xs ! i) \<and>
    (\<exists>j < i. snd (xs ! j) \<noteq> 0 \<and> fst (xs ! i) - fst (xs ! j) \<ge> 40 \<and> (\<forall>m. j \<le> m \<and> m < i \<longrightarrow> rs ! m = 0)) \<and>
    (\<forall>k < i. rs ! k \<noteq> 0 \<longrightarrow> (\<exists>m. k < m \<and> m < i \<and> snd (xs ! m) = 0))"
  using button_run_inv [OF assms(1,2)] assms(3,4) unfolding button_inv_def reports_ok_def released_def by blast

theorem Button_State_reports_witness:
  "button_run [(0, 1), (10, 0), (40, 1)] sample_board = ([0, 0, 1], sample_board\<lparr>LocalTime := 40, Button_Flag := 2\<rparr>) \<and>
   (\<exists>j < 2. snd ([(0, 1), (10, 0), (40, 1)] ! j :: 32 word \<times> 8 word) \<noteq> 0)"
proof
  show r: "button_run [(0, 1), (10, 0), (40, 1)] sample_board = ([0, 0, 1], sample_board\<lparr>LocalTime := 40, Button_Flag := 2\<rparr>)"
    by (simp add: Button_State_def sample_board_def)
  show "\<exists>j < 2. snd ([(0, 1), (10, 0), (40, 1)] ! j :: 32 word \<times> 8 word) \<noteq> 0"
    using Button_State_reports [OF _ r, of 2] by (auto simp: sample_board_def)
qed

end
