(* ===== verification/Kernel_List.thy ===== *)
theory Kernel_List
  imports Prelude "HOL-Library.Monad_Syntax"
begin

text \<open>
  The lists of the FreeRTOS kernel, \<open>list.c\<close> and \<open>list.h\<close>: doubly linked rings that contain an end
  marker with the greatest value. The store has one function per field. A pointer is the address
  of an item or of the end marker inside a list, which has no owner and no container. The result
  is \<open>None\<close> when a field that does not exist is read (the owner of the end marker, the list of an
  item whose container is \<open>NULL\<close>) and when a search does not end.
\<close>

section \<open>Lists and items\<close>

datatype ptr = Item nat | xListEnd nat

record lists =
  xItemValue :: "ptr \<Rightarrow> 32 word"
  pxNext :: "ptr \<Rightarrow> ptr"
  pxPrevious :: "ptr \<Rightarrow> ptr"
  pvOwner :: "nat \<Rightarrow> nat"
  pvContainer :: "nat \<Rightarrow> nat option"
  uxNumberOfItems :: "nat \<Rightarrow> 32 word"
  pxIndex :: "nat \<Rightarrow> ptr"

definition portMAX_DELAY :: "32 word" where
  "portMAX_DELAY = - 1"

definition set_next :: "ptr \<Rightarrow> ptr \<Rightarrow> lists \<Rightarrow> lists" where
  "set_next p q s = s\<lparr>pxNext := (pxNext s)(p := q)\<rparr>"

definition set_prev :: "ptr \<Rightarrow> ptr \<Rightarrow> lists \<Rightarrow> lists" where
  "set_prev p q s = s\<lparr>pxPrevious := (pxPrevious s)(p := q)\<rparr>"

definition set_index :: "nat \<Rightarrow> ptr \<Rightarrow> lists \<Rightarrow> lists" where
  "set_index l p s = s\<lparr>pxIndex := (pxIndex s)(l := p)\<rparr>"

definition set_container :: "nat \<Rightarrow> nat option \<Rightarrow> lists \<Rightarrow> lists" where
  "set_container i l s = s\<lparr>pvContainer := (pvContainer s)(i := l)\<rparr>"

definition set_number :: "nat \<Rightarrow> 32 word \<Rightarrow> lists \<Rightarrow> lists" where
  "set_number l n s = s\<lparr>uxNumberOfItems := (uxNumberOfItems s)(l := n)\<rparr>"

section \<open>Operations\<close>

definition vListInitialise :: "nat \<Rightarrow> lists \<Rightarrow> lists" where
  "vListInitialise l s =
     (let s1 = set_index l (xListEnd l) s;
          s2 = s1\<lparr>xItemValue := (xItemValue s1)(xListEnd l := portMAX_DELAY)\<rparr>;
          s3 = set_next (xListEnd l) (xListEnd l) s2;
          s4 = set_prev (xListEnd l) (xListEnd l) s3
      in set_number l 0 s4)"

definition vListInitialiseItem :: "nat \<Rightarrow> lists \<Rightarrow> lists" where
  "vListInitialiseItem i s = set_container i None s"

definition vListInsertEnd :: "nat \<Rightarrow> nat \<Rightarrow> lists \<Rightarrow> lists" where
  "vListInsertEnd l i s =
     (let n = Item i;
          ix = pxIndex s l;
          s1 = set_next n (pxNext s ix) s;
          s2 = set_prev n (pxIndex s1 l) s1;
          s3 = set_prev (pxNext s2 ix) n s2;
          s4 = set_next ix n s3;
          s5 = set_index l n s4;
          s6 = set_container i (Some l) s5
      in set_number l (uxNumberOfItems s6 l + 1) s6)"

partial_function (option) insert_loop :: "lists \<Rightarrow> 32 word \<Rightarrow> ptr \<Rightarrow> ptr option" where
  "insert_loop s v it = (if xItemValue s (pxNext s it) \<le> v then insert_loop s v (pxNext s it) else Some it)"

declare insert_loop.simps [code]

definition vListInsert :: "nat \<Rightarrow> nat \<Rightarrow> lists \<Rightarrow> lists option" where
  "vListInsert l i s = do {
     let n = Item i;
     let v = xItemValue s n;
     it \<leftarrow> (if v = portMAX_DELAY then Some (pxPrevious s (xListEnd l)) else insert_loop s v (xListEnd l));
     let s1 = set_next n (pxNext s it) s;
     let s2 = set_prev (pxNext s1 n) n s1;
     let s3 = set_prev n it s2;
     let s4 = set_next it n s3;
     let s5 = set_container i (Some l) s4;
     Some (set_number l (uxNumberOfItems s5 l + 1) s5)
   }"

definition vListRemove :: "nat \<Rightarrow> lists \<Rightarrow> lists option" where
  "vListRemove i s = do {
     let x = Item i;
     let s1 = set_prev (pxNext s x) (pxPrevious s x) s;
     let s2 = set_next (pxPrevious s1 x) (pxNext s1 x) s1;
     l \<leftarrow> pvContainer s2 i;
     let s3 = (if pxIndex s2 l = x then set_index l (pxPrevious s2 x) s2 else s2);
     let s4 = set_container i None s3;
     Some (set_number l (uxNumberOfItems s4 l - 1) s4)
   }"

definition owner_of :: "ptr \<Rightarrow> lists \<Rightarrow> nat option" where
  "owner_of p s = (case p of Item i \<Rightarrow> Some (pvOwner s i) | xListEnd l \<Rightarrow> None)"

definition listGET_OWNER_OF_NEXT_ENTRY :: "nat \<Rightarrow> lists \<Rightarrow> (nat \<times> lists) option" where
  "listGET_OWNER_OF_NEXT_ENTRY l s = do {
     let s1 = set_index l (pxNext s (pxIndex s l)) s;
     let s2 = (if pxIndex s1 l = xListEnd l then set_index l (pxNext s1 (pxIndex s1 l)) s1 else s1);
     t \<leftarrow> owner_of (pxIndex s2 l) s2;
     Some (t, s2)
   }"

text \<open>\<open>NULL\<close> for an empty list; the outer \<open>None\<close> when the first entry has no owner.\<close>

definition listGET_OWNER_OF_HEAD_ENTRY :: "nat \<Rightarrow> lists \<Rightarrow> nat option option" where
  "listGET_OWNER_OF_HEAD_ENTRY l s =
     (if uxNumberOfItems s l \<noteq> 0 then map_option Some (owner_of (pxNext s (xListEnd l)) s) else Some None)"

definition listIS_CONTAINED_WITHIN :: "nat \<Rightarrow> nat \<Rightarrow> lists \<Rightarrow> bool" where
  "listIS_CONTAINED_WITHIN l i s \<longleftrightarrow> pvContainer s i = Some l"

definition listLIST_IS_EMPTY :: "nat \<Rightarrow> lists \<Rightarrow> bool" where
  "listLIST_IS_EMPTY l s \<longleftrightarrow> uxNumberOfItems s l = 0"

section \<open>Rings\<close>

text \<open>\<open>seg s a xs b\<close>: from \<open>a\<close> the links lead over \<open>xs\<close> to \<open>b\<close>, and back.\<close>

fun seg :: "lists \<Rightarrow> ptr \<Rightarrow> ptr list \<Rightarrow> ptr \<Rightarrow> bool" where
  "seg s a [] b \<longleftrightarrow> pxNext s a = b \<and> pxPrevious s b = a"
| "seg s a (x # xs) b \<longleftrightarrow> pxNext s a = x \<and> pxPrevious s x = a \<and> seg s x xs b"

definition ring :: "lists \<Rightarrow> nat \<Rightarrow> nat list \<Rightarrow> bool" where
  "ring s l xs \<longleftrightarrow> seg s (xListEnd l) (map Item xs) (xListEnd l) \<and> distinct xs \<and> xItemValue s (xListEnd l) = portMAX_DELAY \<and>
     (\<forall>i\<in>set xs. pvContainer s i = Some l) \<and> uxNumberOfItems s l = word_of_nat (length xs) \<and> length xs < 2 ^ 32 \<and>
     pxIndex s l \<in> insert (xListEnd l) (Item ` set xs)"

lemma set_simps [simp]:
  "pxNext (set_next p q s) = (pxNext s)(p := q)" "pxPrevious (set_next p q s) = pxPrevious s" "xItemValue (set_next p q s) = xItemValue s"
  "pxIndex (set_next p q s) = pxIndex s" "pvContainer (set_next p q s) = pvContainer s" "uxNumberOfItems (set_next p q s) = uxNumberOfItems s"
  "pvOwner (set_next p q s) = pvOwner s"
  "pxNext (set_prev p q s) = pxNext s" "pxPrevious (set_prev p q s) = (pxPrevious s)(p := q)" "xItemValue (set_prev p q s) = xItemValue s"
  "pxIndex (set_prev p q s) = pxIndex s" "pvContainer (set_prev p q s) = pvContainer s" "uxNumberOfItems (set_prev p q s) = uxNumberOfItems s"
  "pvOwner (set_prev p q s) = pvOwner s"
  "pxNext (set_index l q s) = pxNext s" "pxPrevious (set_index l q s) = pxPrevious s" "xItemValue (set_index l q s) = xItemValue s"
  "pxIndex (set_index l q s) = (pxIndex s)(l := q)" "pvContainer (set_index l q s) = pvContainer s" "uxNumberOfItems (set_index l q s) = uxNumberOfItems s"
  "pvOwner (set_index l q s) = pvOwner s"
  "pxNext (set_container i c s) = pxNext s" "pxPrevious (set_container i c s) = pxPrevious s" "xItemValue (set_container i c s) = xItemValue s"
  "pxIndex (set_container i c s) = pxIndex s" "pvContainer (set_container i c s) = (pvContainer s)(i := c)" "uxNumberOfItems (set_container i c s) = uxNumberOfItems s"
  "pvOwner (set_container i c s) = pvOwner s"
  "pxNext (set_number l n s) = pxNext s" "pxPrevious (set_number l n s) = pxPrevious s" "xItemValue (set_number l n s) = xItemValue s"
  "pxIndex (set_number l n s) = pxIndex s" "pvContainer (set_number l n s) = pvContainer s" "uxNumberOfItems (set_number l n s) = (uxNumberOfItems s)(l := n)"
  "pvOwner (set_number l n s) = pvOwner s"
  by (simp_all add: set_next_def set_prev_def set_index_def set_container_def set_number_def)

lemma seg_append: "seg s a (xs @ x # ys) b \<longleftrightarrow> seg s a xs x \<and> seg s x ys b"
  by (induction xs arbitrary: a) auto

lemma seg_cong:
  "(\<And>p. p = a \<or> p \<in> set xs \<Longrightarrow> pxNext s' p = pxNext s p) \<Longrightarrow> (\<And>p. p = b \<or> p \<in> set xs \<Longrightarrow> pxPrevious s' p = pxPrevious s p) \<Longrightarrow>
   seg s' a xs b = seg s a xs b"
  by (induction xs arbitrary: a) auto

text \<open>Linking a new node \<open>n\<close> behind \<open>a\<close>, and unlinking the node behind \<open>a\<close>.\<close>

lemma seg_link:
  assumes "seg s a zs b" "n \<notin> insert a (insert b (set zs))" "a \<notin> set zs" "b \<notin> set zs" "distinct zs"
    "pxNext s' = (pxNext s)(n := pxNext s a, a := n)" "pxPrevious s' = (pxPrevious s)(pxNext s a := n, n := a)"
  shows "seg s' a (n # zs) b"
proof (cases zs)
  case Nil
  then show ?thesis using assms by auto
next
  case (Cons z zs')
  have "seg s' z zs' b = seg s z zs' b" by (rule seg_cong) (use assms Cons in auto)
  then show ?thesis using assms Cons by auto
qed

lemma seg_unlink:
  assumes "seg s a (x # zs) b" "a \<notin> set (x # zs)" "b \<notin> set (x # zs)" "distinct (x # zs)"
    "pxNext s' = (pxNext s)(a := pxNext s x)" "pxPrevious s' = (pxPrevious s)(pxNext s x := a)"
  shows "seg s' a zs b"
proof (cases zs)
  case Nil
  then show ?thesis using assms by auto
next
  case (Cons z zs')
  have "seg s' z zs' b = seg s z zs' b" by (rule seg_cong) (use assms Cons in auto)
  then show ?thesis using assms Cons by auto
qed

definition last_ptr :: "nat \<Rightarrow> nat list \<Rightarrow> ptr" where
  "last_ptr l ys = (if ys = [] then xListEnd l else Item (last ys))"

lemma last_ptr_simps [simp]: "last_ptr l [] = xListEnd l" "last_ptr l (ys @ [y]) = Item y"
  by (simp_all add: last_ptr_def)

lemma seg_next: "seg s (xListEnd l) (map Item (ys @ zs)) b \<Longrightarrow> pxNext s (last_ptr l ys) = hd (map Item zs @ [b])"
  by (cases ys rule: rev_cases; cases zs) (auto simp: seg_append)

lemma seg_prev: "seg s (xListEnd l) (map Item xs) b \<Longrightarrow> pxPrevious s b = last_ptr l xs"
  by (cases xs rule: rev_cases) (auto simp: seg_append)

lemma ring_link:
  assumes "seg s (xListEnd l) (map Item (ys @ zs)) (xListEnd l)" "distinct (ys @ zs)" "i \<notin> set (ys @ zs)"
    "pxNext s' = (pxNext s)(Item i := pxNext s (last_ptr l ys), last_ptr l ys := Item i)"
    "pxPrevious s' = (pxPrevious s)(pxNext s (last_ptr l ys) := Item i, Item i := last_ptr l ys)"
  shows "seg s' (xListEnd l) (map Item (ys @ i # zs)) (xListEnd l)"
proof (cases ys rule: rev_cases)
  case Nil
  then show ?thesis using assms seg_link [of s "xListEnd l" "map Item zs" "xListEnd l" "Item i" s']
    by (auto simp: distinct_map inj_on_def simp del: seg.simps)
next
  case (snoc ys' y)
  have s: "seg s (xListEnd l) (map Item ys') (Item y)" "seg s (Item y) (map Item zs) (xListEnd l)"
    using assms(1) snoc by (simp_all add: seg_append)
  have nx: "pxNext s (Item y) = hd (map Item zs @ [xListEnd l])" using s(2) by (cases zs) auto
  have d: "p \<noteq> pxNext s (Item y)" if "p = Item y \<or> p \<in> set (map Item ys')" for p using that assms(2) snoc nx by (cases zs) auto
  have "seg s' (xListEnd l) (map Item ys') (Item y) = seg s (xListEnd l) (map Item ys') (Item y)"
  proof (rule seg_cong)
    show "pxPrevious s' p = pxPrevious s p" if "p = Item y \<or> p \<in> set (map Item ys')" for p
      using d [OF that] that assms(2-) snoc by auto
  qed (use assms(2-) snoc in auto)
  moreover have "seg s' (Item y) (Item i # map Item zs) (xListEnd l)"
    using s(2) assms snoc by (intro seg_link [of s]) (auto simp: distinct_map inj_on_def)
  ultimately show ?thesis using s(1) snoc by (simp add: seg_append del: seg.simps)
qed

lemma ring_unlink:
  assumes "seg s (xListEnd l) (map Item (ys @ i # zs)) (xListEnd l)" "distinct (ys @ i # zs)"
    "pxNext s' = (pxNext s)(last_ptr l ys := pxNext s (Item i))" "pxPrevious s' = (pxPrevious s)(pxNext s (Item i) := last_ptr l ys)"
  shows "seg s' (xListEnd l) (map Item (ys @ zs)) (xListEnd l)"
proof (cases ys rule: rev_cases)
  case Nil
  then have "seg s (xListEnd l) (Item i # map Item zs) (xListEnd l)" "distinct (Item i # map Item zs)"
    using assms(1,2) by (auto simp: distinct_map inj_on_def simp del: seg.simps)
  from seg_unlink [OF this(1) _ _ this(2), of s'] show ?thesis using Nil assms(3,4) by auto
next
  case (snoc ys' y)
  have s: "seg s (xListEnd l) (map Item ys') (Item y)" "seg s (Item y) (Item i # map Item zs) (xListEnd l)"
    using assms(1) snoc by (simp_all add: seg_append)
  have nx: "pxNext s (Item i) = hd (map Item zs @ [xListEnd l])" using s(2) by (cases zs) auto
  have d: "p \<noteq> pxNext s (Item i)" if "p = Item y \<or> p \<in> set (map Item ys')" for p using that assms(2) snoc nx by (cases zs) auto
  have "seg s' (xListEnd l) (map Item ys') (Item y) = seg s (xListEnd l) (map Item ys') (Item y)"
  proof (rule seg_cong)
    show "pxPrevious s' p = pxPrevious s p" if "p = Item y \<or> p \<in> set (map Item ys')" for p
      using d [OF that] that assms(2-) snoc by auto
  qed (use assms(2-) snoc in auto)
  moreover have "seg s' (Item y) (map Item zs) (xListEnd l)"
  proof (rule seg_unlink [OF s(2)])
    show "Item y \<notin> set (Item i # map Item zs)" "xListEnd l \<notin> set (Item i # map Item zs)" "distinct (Item i # map Item zs)"
      using assms(2) snoc by (auto simp: distinct_map inj_on_def)
  qed (use assms(3,4) snoc in simp_all)
  ultimately show ?thesis using s(1) snoc by (simp add: seg_append del: seg.simps)
qed

section \<open>Sorted insertion\<close>

lemma insert_loop_stops:
  assumes "seg s (xListEnd l) (map Item (ys @ zs)) (xListEnd l)" "xItemValue s (xListEnd l) = portMAX_DELAY" "v \<noteq> portMAX_DELAY"
  shows "insert_loop s v (last_ptr l ys) = Some (last_ptr l (ys @ takeWhile (\<lambda>i. xItemValue s (Item i) \<le> v) zs))"
  using assms(1)
proof (induction zs arbitrary: ys)
  case Nil
  have "\<not> portMAX_DELAY \<le> v" using assms(3) by (simp add: portMAX_DELAY_def word_order.extremum_unique)
  then show ?case using seg_next [OF Nil] assms(2) by (subst insert_loop.simps) simp
next
  case (Cons z zs)
  have n: "pxNext s (last_ptr l ys) = Item z" using seg_next [OF Cons.prems] by simp
  have "seg s (xListEnd l) (map Item ((ys @ [z]) @ zs)) (xListEnd l)" using Cons.prems by simp
  from Cons.IH [OF this] show ?case using n by (subst insert_loop.simps) simp
qed

lemma ring_insert:
  assumes "ring s l (ys @ zs)" "i \<notin> set (ys @ zs)" "length (ys @ zs) + 1 < 2 ^ 32"
    "pxNext s' = (pxNext s)(Item i := pxNext s (last_ptr l ys), last_ptr l ys := Item i)"
    "pxPrevious s' = (pxPrevious s)(pxNext s (last_ptr l ys) := Item i, Item i := last_ptr l ys)"
    "xItemValue s' = xItemValue s" "pvContainer s' = (pvContainer s)(i \<mapsto> l)" "uxNumberOfItems s' = (uxNumberOfItems s)(l := uxNumberOfItems s l + 1)"
    "pxIndex s' l \<in> {pxIndex s l, Item i}"
  shows "ring s' l (ys @ i # zs)"
proof -
  have "seg s' (xListEnd l) (map Item (ys @ i # zs)) (xListEnd l)"
    using assms by (intro ring_link [of s]) (simp_all add: ring_def)
  then show ?thesis using assms by (auto simp: ring_def)
qed

lemma vListInsert_ok:
  assumes "ring s l xs" "i \<notin> set xs" "length xs + 1 < 2 ^ 32"
  defines "v \<equiv> xItemValue s (Item i)"
  shows "\<exists>s'. vListInsert l i s = Some s' \<and>
    ring s' l (takeWhile (\<lambda>j. xItemValue s (Item j) \<le> v) xs @ i # dropWhile (\<lambda>j. xItemValue s (Item j) \<le> v) xs) \<and>
    xItemValue s' = xItemValue s \<and> pxIndex s' = pxIndex s \<and> pvOwner s' = pvOwner s"
proof -
  let ?ys = "takeWhile (\<lambda>j. xItemValue s (Item j) \<le> v) xs" and ?zs = "dropWhile (\<lambda>j. xItemValue s (Item j) \<le> v) xs"
  have sg: "seg s (xListEnd l) (map Item xs) (xListEnd l)" "xItemValue s (xListEnd l) = portMAX_DELAY" using assms(1) by (simp_all add: ring_def)
  have it: "(if v = portMAX_DELAY then Some (pxPrevious s (xListEnd l)) else insert_loop s v (xListEnd l)) = Some (last_ptr l ?ys)"
  proof (cases "v = portMAX_DELAY")
    case True
    then have e: "?ys = xs" by (simp add: takeWhile_eq_all_conv portMAX_DELAY_def)
    show ?thesis unfolding e using True seg_prev [OF sg(1)] by simp
  next
    case False
    then show ?thesis using insert_loop_stops [of s l "[]" xs v] sg by simp
  qed
  have ne: "last_ptr l ?ys \<noteq> Item i" 
  proof (cases "?ys = []")
    case False
    then have "last ?ys \<in> set xs" using last_in_set set_takeWhileD by fast
    then show ?thesis using False assms(2) by (auto simp: last_ptr_def)
  qed (simp add: last_ptr_def)
  let ?a = "last_ptr l ?ys"
  define s' where "s' = set_number l (uxNumberOfItems s l + 1) (set_container i (Some l) (set_next ?a (Item i) (set_prev (Item i) ?a
    (set_prev (pxNext s ?a) (Item i) (set_next (Item i) (pxNext s ?a) s)))))"
  have "vListInsert l i s = Some s'"
    unfolding vListInsert_def Let_def v_def [symmetric] it using ne by (simp add: s'_def)
  moreover have "ring s' l (?ys @ i # ?zs)"
    by (rule ring_insert [of s]) (use assms(1-3) ne in \<open>simp_all add: s'_def\<close>)
  ultimately show ?thesis by (simp add: s'_def)
qed

section \<open>The round robin order\<close>

text \<open>
  The items in the order in which \<open>listGET_OWNER_OF_NEXT_ENTRY\<close> visits them: those behind the index,
  then those from the start of the list up to the index.
\<close>

definition queue_of :: "nat \<Rightarrow> lists \<Rightarrow> nat list \<Rightarrow> bool" where
  "queue_of l s q \<longleftrightarrow> (\<exists>ys zs. ring s l (ys @ zs) \<and> pxIndex s l = last_ptr l ys \<and> q = zs @ ys)"

lemma ring_queue: "ring s l xs \<Longrightarrow> \<exists>ys zs. xs = ys @ zs \<and> queue_of l s (zs @ ys)"
proof -
  assume r: "ring s l xs"
  consider "pxIndex s l = last_ptr l []" | i where "i \<in> set xs" "pxIndex s l = Item i" using r by (auto simp: ring_def)
  then show ?thesis
  proof cases
    case 1
    then have "queue_of l s (xs @ [])" using r unfolding queue_of_def by (intro exI [of _ "[]"] exI [of _ xs]) simp
    then show ?thesis by (intro exI [of _ "[]"] exI [of _ xs]) simp
  next
    case 2
    from split_list [OF 2(1)] obtain ys zs where xs: "xs = ys @ i # zs" by blast
    then have "pxIndex s l = last_ptr l (ys @ [i])" "ring s l ((ys @ [i]) @ zs)" using 2 r by simp_all
    then have "queue_of l s (zs @ ys @ [i])" unfolding queue_of_def by (intro exI [of _ "ys @ [i]"] exI [of _ zs]) simp
    then show ?thesis using xs by (intro exI [of _ "ys @ [i]"] exI [of _ zs]) simp
  qed
qed

lemma insert_end_queue:
  assumes "queue_of l s q" "i \<notin> set q" "length q + 1 < 2 ^ 32"
  shows "queue_of l (vListInsertEnd l i s) (q @ [i])"
proof -
  obtain ys zs where q: "ring s l (ys @ zs)" "pxIndex s l = last_ptr l ys" "q = zs @ ys" using assms(1) by (auto simp: queue_of_def)
  have "seg s (xListEnd l) (map Item (ys @ zs)) (xListEnd l)" using q(1) by (simp add: ring_def)
  from seg_next [OF this] have "pxNext s (last_ptr l ys) \<noteq> Item i" using assms(2) q(3) by (cases zs) auto
  moreover have "last_ptr l ys \<noteq> Item i" using assms(2) q(3) by (auto simp: last_ptr_def)
  ultimately have "ring (vListInsertEnd l i s) l (ys @ i # zs)"
    by (intro ring_insert [OF q(1)]) (use q assms(2,3) in \<open>auto simp: vListInsertEnd_def Let_def fun_upd_twist\<close>)
  then show ?thesis using q unfolding queue_of_def
    by (intro exI [of _ "ys @ [i]"] exI [of _ zs]) (simp add: vListInsertEnd_def Let_def)
qed

lemma next_entry_queue:
  assumes "queue_of l s (i # q)"
  shows "\<exists>s'. listGET_OWNER_OF_NEXT_ENTRY l s = Some (pvOwner s i, s') \<and> queue_of l s' (q @ [i]) \<and> pvOwner s' = pvOwner s"
proof -
  obtain ys zs where q: "ring s l (ys @ zs)" "pxIndex s l = last_ptr l ys" "i # q = zs @ ys" using assms by (auto simp: queue_of_def)
  have sg: "seg s (xListEnd l) (map Item (ys @ zs)) (xListEnd l)" using q(1) by (simp add: ring_def)
  let ?s = "set_index l (Item i) s"
  show ?thesis
  proof (cases zs)
    case (Cons z zs')
    then have z: "z = i" "q = zs' @ ys" using q(3) by auto
    have "pxNext s (pxIndex s l) = Item i" using seg_next [OF sg] q(2) Cons z by simp
    then have "listGET_OWNER_OF_NEXT_ENTRY l s = Some (pvOwner s i, ?s)"
      by (simp add: listGET_OWNER_OF_NEXT_ENTRY_def owner_of_def)
    moreover have "ring ?s l ((ys @ [i]) @ zs')" using q(1) Cons z by (auto simp: ring_def cong: seg_cong)
    ultimately show ?thesis using z unfolding queue_of_def
      by (intro exI [of _ ?s] conjI exI [of _ "ys @ [i]"] exI [of _ zs']) simp_all
  next
    case Nil
    then have ys: "ys = i # q" using q(3) by simp
    have n: "pxNext s (pxIndex s l) = xListEnd l" "pxNext s (xListEnd l) = Item i"
      using seg_next [OF sg] q(2) Nil sg ys by simp_all
    have "listGET_OWNER_OF_NEXT_ENTRY l s = Some (pvOwner s i, set_index l (Item i) (set_index l (xListEnd l) s))"
      using n by (simp add: listGET_OWNER_OF_NEXT_ENTRY_def owner_of_def)
    moreover have "set_index l (Item i) (set_index l (xListEnd l) s) = ?s" by (simp add: set_index_def)
    moreover have "ring ?s l ([i] @ q)" using q(1) Nil ys by (auto simp: ring_def cong: seg_cong)
    ultimately show ?thesis unfolding queue_of_def
      by (intro exI [of _ ?s] conjI exI [of _ "[i]"] exI [of _ q]) (simp_all add: last_ptr_def)
  qed
qed

lemma vListRemove_ok:
  assumes "ring s l (ys @ i # zs)"
  shows "\<exists>s'. vListRemove i s = Some s' \<and> ring s' l (ys @ zs) \<and> pvContainer s' i = None \<and> xItemValue s' = xItemValue s \<and>
    pvOwner s' = pvOwner s \<and> pxIndex s' l = (if pxIndex s l = Item i then last_ptr l ys else pxIndex s l)"
proof -
  have sg: "seg s (xListEnd l) (map Item (ys @ i # zs)) (xListEnd l)" and d: "distinct (ys @ i # zs)" and c: "pvContainer s i = Some l"
    using assms by (simp_all add: ring_def)
  have pv: "pxPrevious s (Item i) = last_ptr l ys"
    using sg by (cases ys rule: rev_cases) (auto simp: seg_append)
  have nx: "pxNext s (Item i) = hd (map Item zs @ [xListEnd l])"
    using seg_next [of s l "ys @ [i]" zs "xListEnd l"] sg by simp
  then have ne: "pxNext s (Item i) \<noteq> Item i" using d by (cases zs) auto
  define s2 where "s2 = set_next (last_ptr l ys) (pxNext s (Item i)) (set_prev (pxNext s (Item i)) (last_ptr l ys) s)"
  define s' where "s' = set_number l (uxNumberOfItems s l - 1) (set_container i None (if pxIndex s l = Item i then set_index l (last_ptr l ys) s2 else s2))"
  have ps: "pxPrevious s2 (Item i) = last_ptr l ys" using pv ne by (simp add: s2_def)
  have "vListRemove i s = Some s'"
    using c pv ne ps by (simp add: vListRemove_def Let_def s'_def flip: s2_def) (simp add: s2_def)
  moreover have "seg s' (xListEnd l) (map Item (ys @ zs)) (xListEnd l)"
    by (rule ring_unlink [OF sg d]) (simp_all add: s'_def s2_def)
  moreover have "pxIndex s' l = (if pxIndex s l = Item i then last_ptr l ys else pxIndex s l)" by (simp add: s'_def s2_def)
  moreover have "last_ptr l ys \<in> insert (xListEnd l) (Item ` set (ys @ zs))" by (auto simp: last_ptr_def)
  ultimately show ?thesis using assms d
    by (intro exI [of _ s']) (auto simp: ring_def s'_def s2_def)
qed

lemma remove_queue:
  assumes "queue_of l s q" "i \<in> set q"
  shows "\<exists>s'. vListRemove i s = Some s' \<and> queue_of l s' (remove1 i q)"
proof -
  obtain ys zs where q: "ring s l (ys @ zs)" "pxIndex s l = last_ptr l ys" "q = zs @ ys" using assms(1) by (auto simp: queue_of_def)
  have d: "distinct (ys @ zs)" using q(1) by (simp add: ring_def)
  consider as bs where "ys = as @ i # bs" | as bs where "zs = as @ i # bs"
    using assms(2) q(3) by (auto dest: split_list)
  then show ?thesis
  proof cases
    case 1
    with q(1) have "ring s l (as @ i # (bs @ zs))" by simp
    from vListRemove_ok [OF this] obtain s' where s': "vListRemove i s = Some s'" "ring s' l (as @ bs @ zs)"
      "pxIndex s' l = (if pxIndex s l = Item i then last_ptr l as else pxIndex s l)" by blast
    have "pxIndex s' l = last_ptr l (as @ bs)"
      using s'(3) q(2) 1 d by (cases bs rule: rev_cases) (auto simp: last_ptr_def)
    moreover have "remove1 i q = zs @ as @ bs" using q(3) 1 d by (simp add: remove1_append)
    ultimately show ?thesis using s'(1,2) unfolding queue_of_def
      by (intro exI [of _ s'] conjI exI [of _ "as @ bs"] exI [of _ zs]) simp_all
  next
    case 2
    with q(1) have "ring s l ((ys @ as) @ i # bs)" by simp
    from vListRemove_ok [OF this] obtain s' where s': "vListRemove i s = Some s'" "ring s' l ((ys @ as) @ bs)"
      "pxIndex s' l = (if pxIndex s l = Item i then last_ptr l (ys @ as) else pxIndex s l)" by blast
    have "pxIndex s l \<noteq> Item i" using q(2) 2 d by (auto simp: last_ptr_def dest: last_in_set)
    then have "pxIndex s' l = last_ptr l ys" using s'(3) q(2) by simp
    moreover have "remove1 i q = (as @ bs) @ ys" using q(3) 2 d by (simp add: remove1_append)
    ultimately show ?thesis using s'(1,2) unfolding queue_of_def
      by (intro exI [of _ s'] conjI exI [of _ ys] exI [of _ "as @ bs"]) simp_all
  qed
qed

section \<open>The scheduler's view\<close>

text \<open>The owners returned by \<open>n\<close> calls in a row.\<close>

fun turns :: "('s \<Rightarrow> (nat \<times> 's) option) \<Rightarrow> nat \<Rightarrow> 's \<Rightarrow> (nat list \<times> 's) option" where
  "turns nx 0 s = Some ([], s)"
| "turns nx (Suc n) s = do { (t, s1) \<leftarrow> nx s; (ts, s2) \<leftarrow> turns nx n s1; Some (t # ts, s2) }"

lemma turns_add:
  "turns nx (m + n) s = Option.bind (turns nx m s) (\<lambda>(xs, s1). map_option (\<lambda>(ys, s2). (xs @ ys, s2)) (turns nx n s1))"
proof (induction m arbitrary: s)
  case 0
  then show ?case by (cases "turns nx n s") auto
next
  case (Suc m)
  then show ?case
    by (cases "nx s"; cases "turns nx m (snd (the (nx s)))") (auto simp: bind_eq_Some_conv map_option_case split: option.splits)
qed

text \<open>Turns in a circle: the entry at the front has its turn and goes to the back.\<close>

locale turn_taking =
  fixes rel :: "'s \<Rightarrow> nat list \<Rightarrow> bool"
    and nx :: "'s \<Rightarrow> (nat \<times> 's) option"
    and owner :: "'s \<Rightarrow> nat \<Rightarrow> nat"
  assumes next_front: "rel s (i # q) \<Longrightarrow> \<exists>s'. nx s = Some (owner s i, s') \<and> rel s' (q @ [i]) \<and> owner s' = owner s"
begin

lemma part_of_a_round:
  "rel s (p @ q) \<Longrightarrow> \<exists>s'. turns nx (length p) s = Some (map (owner s) p, s') \<and> rel s' (q @ p) \<and> owner s' = owner s"
proof (induction p arbitrary: s q)
  case Nil
  then show ?case by simp
next
  case (Cons i p)
  then obtain s1 where s1: "nx s = Some (owner s i, s1)" "rel s1 (p @ q @ [i])" "owner s1 = owner s"
    using next_front [of s i "p @ q"] by auto
  from Cons.IH [OF s1(2)] s1 show ?case by auto
qed

lemma fair: "rel s q \<Longrightarrow> \<exists>s'. turns nx (length q) s = Some (map (owner s) q, s') \<and> rel s' q \<and> owner s' = owner s"
  using part_of_a_round [of s q "[]"] by simp

lemma rounds: "rel s q \<Longrightarrow> \<exists>s'. turns nx (k * length q) s = Some (concat (replicate k (map (owner s) q)), s') \<and> rel s' q"
proof (induction k arbitrary: s)
  case 0
  then show ?case by simp
next
  case (Suc k)
  from fair [OF Suc.prems] obtain s1 where s1: "turns nx (length q) s = Some (map (owner s) q, s1)" "rel s1 q" "owner s1 = owner s" by blast
  from Suc.IH [OF s1(2)] s1 show ?case by (auto simp: turns_add)
qed

end

text \<open>What a scheduler relies on: a circular queue of items with owners.\<close>

locale round_robin = turn_taking rel nx owner
  for rel :: "'s \<Rightarrow> nat list \<Rightarrow> bool" and nx :: "'s \<Rightarrow> (nat \<times> 's) option" and owner :: "'s \<Rightarrow> nat \<Rightarrow> nat" +
  fixes put :: "nat \<Rightarrow> 's \<Rightarrow> 's"
    and rem :: "nat \<Rightarrow> 's \<Rightarrow> 's option"
    and room :: nat
  assumes put_back: "\<lbrakk>rel s q; i \<notin> set q; length q < room\<rbrakk> \<Longrightarrow> rel (put i s) (q @ [i])"
    and removed: "\<lbrakk>rel s q; i \<in> set q\<rbrakk> \<Longrightarrow> \<exists>s'. rem i s = Some s' \<and> rel s' (remove1 i q)"
begin

lemma put_is_last:
  assumes "rel s q" "i \<notin> set q" "length q < room"
  shows "\<exists>s'. turns nx (length q) (put i s) = Some (map (owner (put i s)) q, s') \<and> rel s' (i # q)"
  using part_of_a_round [of "put i s" q "[i]"] put_back [OF assms] by auto

end

interpretation lq: round_robin "queue_of l" "listGET_OWNER_OF_NEXT_ENTRY l" pvOwner "vListInsertEnd l" vListRemove "2 ^ 32 - 1" for l
proof unfold_locales
  show "queue_of l (vListInsertEnd l i s) (q @ [i])" if "queue_of l s q" "i \<notin> set q" "length q < 2 ^ 32 - 1" for s q i
    using insert_end_queue [OF that(1,2)] that(3) by simp
qed (fact next_entry_queue remove_queue)+

section \<open>Properties\<close>

text \<open>
  C22. Sorted insertion. On a well-formed list, \<open>vListInsert\<close> returns, and the new item stands behind
  every leading item whose value does not exceed its own; the links, the count, the containers
  and the index are those of a well-formed list again, and a list in ascending order of the
  values stays in ascending order (\<open>list.h\<close> speaks of descending order).
\<close>

theorem vListInsert_sorts:
  assumes "ring s l xs" "i \<notin> set xs" "length xs + 1 < 2 ^ 32"
  shows "\<exists>s' ys zs. vListInsert l i s = Some s' \<and> xs = ys @ zs \<and> ring s' l (ys @ i # zs) \<and> xItemValue s' = xItemValue s \<and>
    pxIndex s' = pxIndex s \<and> (\<forall>j\<in>set ys. xItemValue s (Item j) \<le> xItemValue s (Item i)) \<and>
    (zs \<noteq> [] \<longrightarrow> xItemValue s (Item i) < xItemValue s (Item (hd zs))) \<and>
    (sorted (map (\<lambda>j. xItemValue s (Item j)) xs) \<longrightarrow> sorted (map (\<lambda>j. xItemValue s' (Item j)) (ys @ i # zs)))"
proof -
  let ?P = "\<lambda>j. xItemValue s (Item j) \<le> xItemValue s (Item i)"
  let ?ys = "takeWhile ?P xs" and ?zs = "dropWhile ?P xs" and ?f = "\<lambda>j. xItemValue s (Item j)"
  from vListInsert_ok [OF assms] obtain s' where s': "vListInsert l i s = Some s'" "ring s' l (?ys @ i # ?zs)"
    "xItemValue s' = xItemValue s" "pxIndex s' = pxIndex s" by blast
  have le: "\<forall>j\<in>set ?ys. ?f j \<le> ?f i" using set_takeWhileD by fast
  have gt: "?zs \<noteq> [] \<longrightarrow> ?f i < ?f (hd ?zs)" using hd_dropWhile [of ?P xs] by (auto simp: not_le)
  have "sorted (map ?f (?ys @ i # ?zs))" if "sorted (map ?f xs)"
  proof -
    have "sorted (map ?f (?ys @ ?zs))" using that by simp
    then have so: "sorted (map ?f ?ys)" "sorted (map ?f ?zs)" unfolding map_append sorted_append by simp_all
    have "sorted (map ?f us) \<Longrightarrow> us \<noteq> [] \<longrightarrow> ?f i < ?f (hd us) \<Longrightarrow> \<forall>j\<in>set us. ?f i \<le> ?f j" for us
      by (cases us) (auto intro: order_trans less_imp_le)
    then have "\<forall>j\<in>set ?zs. ?f i \<le> ?f j" using gt so(2) by blast
    then show ?thesis using so le by (auto simp: sorted_append intro: order_trans)
  qed
  then show ?thesis using s' le gt by (intro exI [of _ s'] exI [of _ ?ys] exI [of _ ?zs]) simp
qed

definition sample_lists :: lists where
  "sample_lists = vListInitialise 0 \<lparr>xItemValue = (\<lambda>p. case p of Item i \<Rightarrow> word_of_nat i | _ \<Rightarrow> 0), pxNext = (\<lambda>p. p), pxPrevious = (\<lambda>p. p),
     pvOwner = (\<lambda>i. i + 100), pvContainer = (\<lambda>i. None), uxNumberOfItems = (\<lambda>l. 0), pxIndex = (\<lambda>l. xListEnd l)\<rparr>"

lemma sample_ring: "ring sample_lists 0 []"
  by (simp add: ring_def sample_lists_def vListInitialise_def Let_def)

theorem vListInsert_sorts_witness:
  "\<exists>s s'. vListInsert 0 7 sample_lists = Some s \<and> vListInsert 0 5 s = Some s' \<and> ring s' 0 [5, 7]"
proof -
  obtain s where s: "vListInsert 0 7 sample_lists = Some s" "ring s 0 [7]" "xItemValue s = xItemValue sample_lists"
    using vListInsert_sorts [OF sample_ring, of 7] by auto
  from vListInsert_sorts [OF s(2), of 5] obtain s' ys zs where s': "vListInsert 0 5 s = Some s'" "[7] = ys @ zs" "ring s' 0 (ys @ 5 # zs)"
    "\<forall>j\<in>set ys. xItemValue s (Item j) \<le> xItemValue s (Item 5)" by auto
  have "\<not> xItemValue s (Item 7) \<le> xItemValue s (Item 5)" unfolding s(3) by (simp add: sample_lists_def vListInitialise_def Let_def)
  then have "ys = []" using s'(2,4) by (cases ys) auto
  then show ?thesis using s s' by auto
qed

text \<open>
  C14. The lists are circular queues, and the walk over them is fair. In the order in which
  \<open>listGET_OWNER_OF_NEXT_ENTRY\<close> visits the items, \<open>vListInsertEnd\<close> appends an item, the walk takes the
  first item, returns its owner and moves it to the back, and \<open>vListRemove\<close> deletes an item;
  so as many calls as there are items return the owner of each item exactly once, and an item
  inserted at the end comes after all the others.
\<close>

theorem vList_round_robin:
  assumes "queue_of l s q"
  shows "(i \<notin> set q \<and> length q < 2 ^ 32 - 1 \<longrightarrow>
      queue_of l (vListInsertEnd l i s) (q @ [i]) \<and>
      (\<exists>s'. turns (listGET_OWNER_OF_NEXT_ENTRY l) (length q) (vListInsertEnd l i s) = Some (map (pvOwner (vListInsertEnd l i s)) q, s') \<and>
        queue_of l s' (i # q))) \<and>
    (i \<in> set q \<longrightarrow> (\<exists>s'. vListRemove i s = Some s' \<and> queue_of l s' (remove1 i q))) \<and>
    (\<exists>s'. turns (listGET_OWNER_OF_NEXT_ENTRY l) (length q) s = Some (map (pvOwner s) q, s') \<and> queue_of l s' q)"
  using lq.put_back [OF assms, of i] lq.put_is_last [OF assms, of i] lq.removed [OF assms, of i] lq.fair [OF assms] by blast

theorem vList_round_robin_witness:
  "\<exists>s'. turns (listGET_OWNER_OF_NEXT_ENTRY 0) 1 (vListInsertEnd 0 3 sample_lists) = Some ([103], s') \<and> queue_of 0 s' [3]"
proof -
  have ix: "pxIndex sample_lists 0 = xListEnd 0" and ow: "pvOwner (vListInsertEnd 0 3 sample_lists) 3 = 103"
    by (simp_all add: sample_lists_def vListInitialise_def vListInsertEnd_def Let_def)
  have "queue_of 0 sample_lists []" unfolding queue_of_def by (intro exI [of _ "[]"]) (simp add: sample_ring ix)
  from vList_round_robin [OF this, of 3] have "queue_of 0 (vListInsertEnd 0 3 sample_lists) [3]" by simp
  from vList_round_robin [OF this] ow show ?thesis by simp
qed

end
