(* ===== verification/Kernel_Rings.thy ===== *)
theory Kernel_Rings
  imports Kernel_List
begin

text \<open>
  All the lists of a store together. The shape of a list is the sequence of its items, split behind the item
  the index stands on; the shape of a store gives the shape of every list in use and says that an
  item with a container is in that list. Every operation of \<open>list.c\<close> changes the shape of one list and
  leaves the others alone, so that a client reasons about sequences only.
\<close>

type_synonym cursor = "nat list \<times> nat list"

definition items_of :: "cursor \<Rightarrow> nat list" where
  "items_of c = fst c @ snd c"

lemma items_of_pair [simp]: "items_of (ys, zs) = ys @ zs"
  by (simp add: items_of_def)

definition at_cursor :: "lists \<Rightarrow> nat \<Rightarrow> cursor \<Rightarrow> bool" where
  "at_cursor s l c \<longleftrightarrow> ring s l (items_of c) \<and> pxIndex s l = last_ptr l (fst c)"

text \<open>Items are the members of control blocks; their numbers are below \<open>2 ^ 31\<close>, so that no count wraps.\<close>

definition shape :: "nat set \<Rightarrow> (nat \<Rightarrow> cursor) \<Rightarrow> lists \<Rightarrow> bool" where
  "shape D A s \<longleftrightarrow> (\<forall>l\<in>D. at_cursor s l (A l)) \<and>
     (\<forall>i l. pvContainer s i = Some l \<longrightarrow> l \<in> D \<and> i \<in> set (items_of (A l)) \<and> i < 2 ^ 31)"

lemma shape_ring: "shape D A s \<Longrightarrow> l \<in> D \<Longrightarrow> ring s l (items_of (A l))"
  by (simp add: shape_def at_cursor_def)

lemma shape_index: "shape D A s \<Longrightarrow> l \<in> D \<Longrightarrow> pxIndex s l = last_ptr l (fst (A l))"
  by (simp add: shape_def at_cursor_def)

lemma shape_container: "shape D A s \<Longrightarrow> l \<in> D \<Longrightarrow> pvContainer s i = Some l \<longleftrightarrow> i \<in> set (items_of (A l))"
  unfolding shape_def at_cursor_def ring_def by blast

lemma shape_in: "shape D A s \<Longrightarrow> pvContainer s i = Some l \<Longrightarrow> l \<in> D \<and> i \<in> set (items_of (A l)) \<and> i < 2 ^ 31"
  by (simp add: shape_def)

lemma shape_distinct: "shape D A s \<Longrightarrow> l \<in> D \<Longrightarrow> distinct (items_of (A l))"
  using shape_ring by (fastforce simp: ring_def)

lemma shape_length:
  assumes "shape D A s" "l \<in> D"
  shows "length (items_of (A l)) \<le> 2 ^ 31"
proof -
  have "set (items_of (A l)) \<subseteq> {..< 2 ^ 31}" using shape_in [OF assms(1)] shape_container [OF assms] by blast
  then have "card (set (items_of (A l))) \<le> card {..< (2 :: nat) ^ 31}" by (intro card_mono) auto
  then show ?thesis using distinct_card [OF shape_distinct [OF assms]] by simp
qed

lemma shape_number: "shape D A s \<Longrightarrow> l \<in> D \<Longrightarrow> listLIST_IS_EMPTY l s \<longleftrightarrow> items_of (A l) = []"
proof -
  assume a: "shape D A s" "l \<in> D"
  have "unat (word_of_nat (length (items_of (A l))) :: 32 word) = length (items_of (A l))"
    using shape_length [OF a] by (simp add: unat_of_nat take_bit_nat_eq_self)
  then have "(word_of_nat (length (items_of (A l))) :: 32 word) = 0 \<longleftrightarrow> items_of (A l) = []" by (auto simp: unat_eq_0 [symmetric])
  then show ?thesis using shape_ring [OF a] by (simp add: listLIST_IS_EMPTY_def ring_def)
qed

lemma last_ptr_in: "last_ptr l ys \<in> insert (xListEnd l) (Item ` set ys)"
  by (auto simp: last_ptr_def)

text \<open>A list whose nodes, count and index are not written keeps its shape.\<close>

lemma at_cursor_frame:
  assumes "at_cursor s l c" "\<And>p. p \<in> insert (xListEnd l) (Item ` set (items_of c)) \<Longrightarrow> pxNext s' p = pxNext s p \<and> pxPrevious s' p = pxPrevious s p"
    "xItemValue s' (xListEnd l) = xItemValue s (xListEnd l)" "\<And>i. i \<in> set (items_of c) \<Longrightarrow> pvContainer s' i = pvContainer s i"
    "uxNumberOfItems s' l = uxNumberOfItems s l" "pxIndex s' l = pxIndex s l"
  shows "at_cursor s' l c"
proof -
  have "seg s' (xListEnd l) (map Item (items_of c)) (xListEnd l) = seg s (xListEnd l) (map Item (items_of c)) (xListEnd l)"
    by (rule seg_cong) (use assms(2) in auto)
  moreover have "last_ptr l (fst c) \<in> insert (xListEnd l) (Item ` set (items_of c))" using last_ptr_in [of l "fst c"] by (auto simp: items_of_def)
  ultimately show ?thesis using assms(1,3-6) by (simp add: at_cursor_def ring_def)
qed

text \<open>The nodes an operation on list \<open>l\<close> and item \<open>i\<close> may write.\<close>

definition touches :: "nat \<Rightarrow> nat \<Rightarrow> nat list \<Rightarrow> lists \<Rightarrow> lists \<Rightarrow> bool" where
  "touches l i xs s s' \<longleftrightarrow> (\<forall>p. p \<notin> insert (xListEnd l) (Item ` insert i (set xs)) \<longrightarrow> pxNext s' p = pxNext s p \<and> pxPrevious s' p = pxPrevious s p) \<and>
     xItemValue s' = xItemValue s \<and> pvOwner s' = pvOwner s \<and> (\<forall>j. j \<noteq> i \<longrightarrow> pvContainer s' j = pvContainer s j) \<and>
     (\<forall>m. m \<noteq> l \<longrightarrow> uxNumberOfItems s' m = uxNumberOfItems s m \<and> pxIndex s' m = pxIndex s m)"

lemma shape_update:
  assumes "shape D A s" "l \<in> D" "touches l i (items_of (A l)) s s'" "at_cursor s' l c"
    "\<And>m. m \<in> D \<Longrightarrow> m \<noteq> l \<Longrightarrow> i \<notin> set (items_of (A m))"
    "pvContainer s' i = (if i \<in> set (items_of c) then Some l else None)" "i < 2 ^ 31"
    "set (items_of c) - {i} = set (items_of (A l)) - {i}"
  shows "shape D (A(l := c)) s'"
proof -
  note t = assms(3) [unfolded touches_def]
  have "at_cursor s' m (A m)" if m: "m \<in> D" "m \<noteq> l" for m
  proof (rule at_cursor_frame)
    show "at_cursor s m (A m)" using assms(1) m by (simp add: shape_def)
    have dis: "j \<noteq> i \<and> j \<notin> set (items_of (A l))" if "j \<in> set (items_of (A m))" for j
      using that assms(5) [OF m] shape_container [OF assms(1) m(1), of j] shape_container [OF assms(1,2), of j] m(2) by auto
    show "pxNext s' p = pxNext s p \<and> pxPrevious s' p = pxPrevious s p" if "p \<in> insert (xListEnd m) (Item ` set (items_of (A m)))" for p
      using t that m(2) dis by auto
    show "pvContainer s' j = pvContainer s j" if "j \<in> set (items_of (A m))" for j using dis [OF that] t by simp
  qed (use t m in auto)
  moreover have "k \<in> D \<and> j \<in> set (items_of ((A(l := c)) k)) \<and> j < 2 ^ 31" if "pvContainer s' j = Some k" for j k
  proof (cases "j = i")
    case True
    then show ?thesis using that assms(2,6,7) by (auto split: if_splits)
  next
    case False
    then have "pvContainer s j = Some k" using that t by simp
    then show ?thesis using shape_in [OF assms(1)] assms(8) False by (auto simp: set_eq_iff)
  qed
  ultimately show ?thesis using assms(4) by (auto simp: shape_def)
qed

section \<open>Operations\<close>

text \<open>Items that are free or in the list at hand are in no other list.\<close>

lemma shape_elsewhere:
  "shape D A s \<Longrightarrow> pvContainer s i = None \<or> pvContainer s i = Some l \<Longrightarrow> m \<in> D \<Longrightarrow> m \<noteq> l \<Longrightarrow> i \<notin> set (items_of (A m))"
  using shape_container [of D A s m i] by auto

lemma ring_next_in:
  assumes "ring s l (ys @ zs)"
  shows "pxNext s (last_ptr l ys) \<in> insert (xListEnd l) (Item ` set zs)"
proof -
  have "seg s (xListEnd l) (map Item (ys @ zs)) (xListEnd l)" using assms by (simp add: ring_def)
  from seg_next [OF this] show ?thesis by (cases zs) auto
qed

lemma shape_insert_end:
  assumes "shape D A s" "l \<in> D" "pvContainer s i = None" "i < 2 ^ 31"
  shows "shape D (A(l := (fst (A l) @ [i], snd (A l)))) (vListInsertEnd l i s)"
proof -
  let ?s = "vListInsertEnd l i s" and ?ys = "fst (A l)" and ?zs = "snd (A l)"
  have r: "ring s l (?ys @ ?zs)" and ix: "pxIndex s l = last_ptr l ?ys" using shape_ring [OF assms(1,2)] shape_index [OF assms(1,2)] by (simp_all add: items_of_def)
  have new: "i \<notin> set (items_of (A l))" using assms(3) shape_container [OF assms(1,2), of i] by simp
  have nx: "pxNext s (last_ptr l ?ys) \<in> insert (xListEnd l) (Item ` set ?zs)" using ring_next_in [OF r] .
  have le: "length (?ys @ ?zs) + 1 < 2 ^ 32" using shape_length [OF assms(1,2)] by (simp add: items_of_def)
  have new': "i \<notin> set ?ys" "i \<notin> set ?zs" using new by (simp_all add: items_of_def)
  then have ne: "last_ptr l ?ys \<noteq> Item i" by (auto simp: last_ptr_def)
  have e: "pxNext ?s = (pxNext s)(Item i := pxNext s (last_ptr l ?ys), last_ptr l ?ys := Item i)"
    "pxPrevious ?s = (pxPrevious s)(pxNext s (last_ptr l ?ys) := Item i, Item i := last_ptr l ?ys)"
    "xItemValue ?s = xItemValue s" "pvContainer ?s = (pvContainer s)(i \<mapsto> l)" "uxNumberOfItems ?s = (uxNumberOfItems s)(l := uxNumberOfItems s l + 1)"
    "pxIndex ?s = (pxIndex s)(l := Item i)" "pvOwner ?s = pvOwner s"
    using ne nx new' by (auto simp: vListInsertEnd_def Let_def ix fun_upd_twist)
  have "ring ?s l (?ys @ i # ?zs)" by (rule ring_insert [OF r _ le]) (use new' e in simp_all)
  then have "at_cursor ?s l (?ys @ [i], ?zs)" using e by (simp add: at_cursor_def)
  moreover have "touches l i (items_of (A l)) s ?s" using nx last_ptr_in [of l ?ys] by (auto simp: touches_def e items_of_def)
  ultimately show ?thesis using assms new by (intro shape_update [OF assms(1,2)]) (auto simp: e items_of_def [of "A l"] dest: shape_elsewhere)
qed

lemma insert_end_keeps [simp]:
  "xItemValue (vListInsertEnd l i s) = xItemValue s" "pvOwner (vListInsertEnd l i s) = pvOwner s"
  "pvContainer (vListInsertEnd l i s) = (pvContainer s)(i \<mapsto> l)"
  by (simp_all add: vListInsertEnd_def Let_def)

text \<open>Sorted insertion, for lists whose index rests on the end marker.\<close>

definition ins_sorted :: "lists \<Rightarrow> nat \<Rightarrow> nat list \<Rightarrow> nat list" where
  "ins_sorted s i xs = takeWhile (\<lambda>j. xItemValue s (Item j) \<le> xItemValue s (Item i)) xs @ i #
     dropWhile (\<lambda>j. xItemValue s (Item j) \<le> xItemValue s (Item i)) xs"

lemma set_ins_sorted [simp]: "set (ins_sorted s i xs) = insert i (set xs)"
  by (auto simp: ins_sorted_def dest: set_takeWhileD set_dropWhileD) (metis UnE set_append takeWhile_dropWhile_id)

lemma vListInsert_touches:
  assumes "vListInsert l i s = Some s'" "ring s l xs" "i \<notin> set xs"
  shows "touches l i xs s s' \<and> pvContainer s' i = Some l"
proof -
  obtain it where it: "(if xItemValue s (Item i) = portMAX_DELAY then Some (pxPrevious s (xListEnd l))
      else insert_loop s (xItemValue s (Item i)) (xListEnd l)) = Some it"
    using assms(1) by (auto simp: vListInsert_def Let_def bind_eq_Some_conv)
  have sg: "seg s (xListEnd l) (map Item xs) (xListEnd l)" "xItemValue s (xListEnd l) = portMAX_DELAY" using assms(2) by (simp_all add: ring_def)
  obtain ys zs where s: "xs = ys @ zs" "it = last_ptr l ys"
  proof (cases "xItemValue s (Item i) = portMAX_DELAY")
    case True
    then show ?thesis using that [of xs "[]"] it seg_prev [OF sg(1)] by simp
  next
    case False
    then show ?thesis
      using that it insert_loop_stops [of s l "[]" xs "xItemValue s (Item i)"] sg by (metis append_Nil last_ptr_simps(1) option.inject takeWhile_dropWhile_id)
  qed
  have "it \<in> insert (xListEnd l) (Item ` set xs)" "pxNext s it \<in> insert (xListEnd l) (Item ` set xs)"
    using last_ptr_in [of l ys] ring_next_in [of s l ys zs] assms(2) s by auto
  then show ?thesis using assms(1) it by (auto simp: vListInsert_def Let_def touches_def)
qed

lemma shape_insert:
  assumes "shape D A s" "l \<in> D" "A l = ([], xs)" "pvContainer s i = None" "i < 2 ^ 31"
  shows "\<exists>s'. vListInsert l i s = Some s' \<and> shape D (A(l := ([], ins_sorted s i xs))) s' \<and> xItemValue s' = xItemValue s \<and>
    pvOwner s' = pvOwner s \<and> pvContainer s' = (pvContainer s)(i \<mapsto> l)"
proof -
  have r: "ring s l xs" using shape_ring [OF assms(1,2)] assms(3) by simp
  have new: "i \<notin> set xs" using assms(3,4) shape_container [OF assms(1,2), of i] by simp
  have "length xs + 1 < 2 ^ 32" using shape_length [OF assms(1,2)] assms(3) by simp
  from vListInsert_ok [OF r new this] obtain s' where s': "vListInsert l i s = Some s'" "ring s' l (ins_sorted s i xs)" "pxIndex s' = pxIndex s"
    by (auto simp: ins_sorted_def)
  note t = vListInsert_touches [OF s'(1) r new]
  have "at_cursor s' l ([], ins_sorted s i xs)" using s'(2,3) shape_index [OF assms(1,2)] assms(3) by (simp add: at_cursor_def)
  then have "shape D (A(l := ([], ins_sorted s i xs))) s'"
    using t assms new by (intro shape_update [OF assms(1,2)]) (auto dest: shape_elsewhere)
  moreover have "pvContainer s' = (pvContainer s)(i \<mapsto> l)" using t by (auto simp: touches_def)
  ultimately show ?thesis using s'(1) t by (auto simp: touches_def)
qed

definition remove_c :: "nat \<Rightarrow> cursor \<Rightarrow> cursor" where
  "remove_c i c = (remove1 i (fst c), remove1 i (snd c))"

lemma vListRemove_touches:
  assumes "vListRemove i s = Some s'" "ring s l xs" "i \<in> set xs"
  shows "touches l i xs s s'"
proof -
  from split_list [OF assms(3)] obtain ys zs where xs: "xs = ys @ i # zs" by blast
  have sg: "seg s (xListEnd l) (map Item (ys @ i # zs)) (xListEnd l)" and d: "distinct (ys @ i # zs)" and c: "pvContainer s i = Some l"
    using assms xs by (simp_all add: ring_def)
  have pv: "pxPrevious s (Item i) = last_ptr l ys" using sg by (cases ys rule: rev_cases) (auto simp: seg_append)
  have nx: "pxNext s (Item i) \<in> insert (xListEnd l) (Item ` set zs)"
    using ring_next_in [of s l "ys @ [i]" zs] assms(2) xs by simp
  have "last_ptr l ys \<in> insert (xListEnd l) (Item ` set ys)" by (rule last_ptr_in)
  moreover have "pxNext s (Item i) \<noteq> Item i" using nx d by auto
  ultimately show ?thesis using assms(1) c pv nx xs by (auto simp: vListRemove_def Let_def touches_def)
qed

lemma shape_remove:
  assumes "shape D A s" "pvContainer s i = Some l"
  shows "\<exists>s'. vListRemove i s = Some s' \<and> shape D (A(l := remove_c i (A l))) s' \<and> xItemValue s' = xItemValue s \<and>
    pvOwner s' = pvOwner s \<and> pvContainer s' = (pvContainer s)(i := None)"
proof -
  have l: "l \<in> D" "i \<in> set (items_of (A l))" "i < 2 ^ 31" using shape_in [OF assms] by simp_all
  have r: "ring s l (items_of (A l))" and d: "distinct (items_of (A l))" using shape_ring shape_distinct assms(1) l(1) by blast+
  obtain ys zs where A: "A l = (ys, zs)" by fastforce
  have ix: "pxIndex s l = last_ptr l ys" and d: "distinct (ys @ zs)" using shape_index [OF assms(1) l(1)] A d by simp_all
  have "\<exists>s'. vListRemove i s = Some s' \<and> at_cursor s' l (remove_c i (A l)) \<and> pvContainer s' i = None"
  proof (cases "i \<in> set ys")
    case True
    from split_list [OF this] obtain as bs where ab: "ys = as @ i # bs" by blast
    have "ring s l (as @ i # (bs @ zs))" using r A ab by simp
    from vListRemove_ok [OF this] obtain s' where s': "vListRemove i s = Some s'" "ring s' l (as @ bs @ zs)" "pvContainer s' i = None"
      "pxIndex s' l = (if pxIndex s l = Item i then last_ptr l as else pxIndex s l)" by blast
    have "pxIndex s' l = last_ptr l (as @ bs)" using s'(4) ix ab d by (cases bs rule: rev_cases) (auto simp: last_ptr_def)
    moreover have "remove_c i (A l) = (as @ bs, zs)" using A ab d by (simp add: remove_c_def remove1_append remove1_idem)
    ultimately show ?thesis using s' by (simp add: at_cursor_def)
  next
    case False
    then have "i \<in> set zs" using l(2) A by simp
    from split_list [OF this] obtain as bs where ab: "zs = as @ i # bs" by blast
    have "ring s l ((ys @ as) @ i # bs)" using r A ab by simp
    from vListRemove_ok [OF this] obtain s' where s': "vListRemove i s = Some s'" "ring s' l ((ys @ as) @ bs)" "pvContainer s' i = None"
      "pxIndex s' l = (if pxIndex s l = Item i then last_ptr l (ys @ as) else pxIndex s l)" by blast
    have "pxIndex s l \<noteq> Item i" using ix False by (auto simp: last_ptr_def dest: last_in_set)
    moreover have "remove_c i (A l) = (ys, as @ bs)" using A ab d False by (simp add: remove_c_def remove1_append remove1_idem)
    ultimately show ?thesis using s' ix by (simp add: at_cursor_def)
  qed
  then obtain s' where s': "vListRemove i s = Some s'" "at_cursor s' l (remove_c i (A l))" "pvContainer s' i = None" by blast
  note t = vListRemove_touches [OF s'(1) r l(2)]
  have st: "set (items_of (remove_c i (A l))) = set (items_of (A l)) - {i}" using A d by (auto simp: remove_c_def)
  have "shape D (A(l := remove_c i (A l))) s'"
    using t s' st assms l by (intro shape_update [OF assms(1) l(1)]) (auto dest: shape_elsewhere)
  moreover have "pvContainer s' = (pvContainer s)(i := None)" using t s'(3) by (auto simp: touches_def)
  ultimately show ?thesis using s'(1) t by (auto simp: touches_def)
qed

lemma set_remove_c: "distinct (items_of c) \<Longrightarrow> set (items_of (remove_c i c)) = set (items_of c) - {i}"
  by (auto simp: remove_c_def items_of_def)

text \<open>The walk: the item behind the index, or the first one, and the index moves to it.\<close>

fun next_c :: "cursor \<Rightarrow> (nat \<times> cursor) option" where
  "next_c (ys, z # zs) = Some (z, (ys @ [z], zs))"
| "next_c (y # ys, []) = Some (y, ([y], ys))"
| "next_c ([], []) = None"

lemma next_c_items: "next_c c = Some (i, c') \<Longrightarrow> items_of c' = items_of c \<and> i \<in> set (items_of c)"
  by (cases c rule: next_c.cases) auto

lemma next_c_some: "items_of c \<noteq> [] \<Longrightarrow> \<exists>i c'. next_c c = Some (i, c')"
  by (cases c rule: next_c.cases) auto

lemma shape_next:
  assumes "shape D A s" "l \<in> D" "next_c (A l) = Some (i, c)"
  shows "\<exists>s'. listGET_OWNER_OF_NEXT_ENTRY l s = Some (pvOwner s i, s') \<and> shape D (A(l := c)) s' \<and> xItemValue s' = xItemValue s \<and>
    pvOwner s' = pvOwner s \<and> pvContainer s' = pvContainer s"
proof -
  let ?s = "set_index l (Item i) s"
  have sg: "seg s (xListEnd l) (map Item (items_of (A l))) (xListEnd l)" using shape_ring [OF assms(1,2)] by (simp add: ring_def)
  have ix: "pxIndex s l = last_ptr l (fst (A l))" by (rule shape_index [OF assms(1,2)])
  have n: "listGET_OWNER_OF_NEXT_ENTRY l s = Some (pvOwner s i, ?s)" and c: "items_of c = items_of (A l)" "last_ptr l (fst c) = Item i" "i \<in> set (items_of c)"
  proof -
    show "listGET_OWNER_OF_NEXT_ENTRY l s = Some (pvOwner s i, ?s)"
      using assms(3) sg ix seg_next [of s l "fst (A l)" "snd (A l)" "xListEnd l"]
      by (cases "A l" rule: next_c.cases) (auto simp: listGET_OWNER_OF_NEXT_ENTRY_def Let_def owner_of_def set_index_def)
    show "items_of c = items_of (A l)" "last_ptr l (fst c) = Item i" "i \<in> set (items_of c)"
      using assms(3) by (cases "A l" rule: next_c.cases; auto simp: last_ptr_def)+
  qed
  have "at_cursor ?s l c" using shape_ring [OF assms(1,2)] c by (auto simp: at_cursor_def ring_def cong: seg_cong)
  moreover have "touches l i (items_of (A l)) s ?s" by (simp add: touches_def)
  moreover have "pvContainer s i = Some l" using c shape_container [OF assms(1,2), of i] by simp
  ultimately have "shape D (A(l := c)) ?s"
    using c shape_in [OF assms(1), of i l] shape_elsewhere [OF assms(1), of i l] by (intro shape_update [OF assms(1,2)]) auto
  then show ?thesis using n by simp
qed

lemma shape_head:
  assumes "shape D A s" "l \<in> D"
  shows "listGET_OWNER_OF_HEAD_ENTRY l s = Some (case items_of (A l) of [] \<Rightarrow> None | i # _ \<Rightarrow> Some (pvOwner s i))"
proof -
  have "seg s (xListEnd l) (map Item (items_of (A l))) (xListEnd l)" using shape_ring [OF assms] by (simp add: ring_def)
  then show ?thesis using shape_number [OF assms]
    by (auto simp: listGET_OWNER_OF_HEAD_ENTRY_def listLIST_IS_EMPTY_def owner_of_def split: list.splits)
qed

text \<open>\<open>listSET_LIST_ITEM_VALUE\<close> and \<open>listSET_LIST_ITEM_OWNER\<close>.\<close>

definition listSET_LIST_ITEM_VALUE :: "nat \<Rightarrow> 32 word \<Rightarrow> lists \<Rightarrow> lists" where
  "listSET_LIST_ITEM_VALUE i v s = s\<lparr>xItemValue := (xItemValue s)(Item i := v)\<rparr>"

definition listSET_LIST_ITEM_OWNER :: "nat \<Rightarrow> nat \<Rightarrow> lists \<Rightarrow> lists" where
  "listSET_LIST_ITEM_OWNER i t s = s\<lparr>pvOwner := (pvOwner s)(i := t)\<rparr>"

definition listGET_LIST_ITEM_VALUE :: "nat \<Rightarrow> lists \<Rightarrow> 32 word" where
  "listGET_LIST_ITEM_VALUE i s = xItemValue s (Item i)"

lemma list_set_simps [simp]:
  "pvContainer (listSET_LIST_ITEM_VALUE i v s) = pvContainer s" "pvOwner (listSET_LIST_ITEM_VALUE i v s) = pvOwner s"
  "xItemValue (listSET_LIST_ITEM_VALUE i v s) = (xItemValue s)(Item i := v)"
  "pvContainer (listSET_LIST_ITEM_OWNER i t s) = pvContainer s" "pvOwner (listSET_LIST_ITEM_OWNER i t s) = (pvOwner s)(i := t)"
  "xItemValue (listSET_LIST_ITEM_OWNER i t s) = xItemValue s"
  by (simp_all add: listSET_LIST_ITEM_VALUE_def listSET_LIST_ITEM_OWNER_def)

lemma shape_same_links:
  assumes "shape D A s" "pxNext s' = pxNext s" "pxPrevious s' = pxPrevious s" "pvContainer s' = pvContainer s"
    "uxNumberOfItems s' = uxNumberOfItems s" "pxIndex s' = pxIndex s" "\<And>l. xItemValue s' (xListEnd l) = xItemValue s (xListEnd l)"
  shows "shape D A s'"
proof -
  have "at_cursor s' l (A l)" if "l \<in> D" for l
    using assms(1) that by (intro at_cursor_frame [of s l "A l" s']) (simp_all add: assms(2-) shape_def)
  then show ?thesis using assms(1) by (simp add: shape_def assms(4))
qed

lemma shape_set_value [simp]: "shape D A s \<Longrightarrow> shape D A (listSET_LIST_ITEM_VALUE i v s)"
  by (rule shape_same_links [of D A s]) (simp_all add: listSET_LIST_ITEM_VALUE_def)

lemma shape_set_owner [simp]: "shape D A s \<Longrightarrow> shape D A (listSET_LIST_ITEM_OWNER i t s)"
  by (rule shape_same_links [of D A s]) (simp_all add: listSET_LIST_ITEM_OWNER_def)

end
