(* ===== verification/Kernel_Heap.thy ===== *)
theory Kernel_Heap
  imports Prelude "HOL-Library.Multiset"
begin

text \<open>
  The allocator of the kernel, \<open>portable/MemMang/heap_2.c\<close>, with the configuration of the projects (a heap of
  15 KByte, alignment 8, no hook for failed requests). A block is named by the offset of its header in \<open>ucHeap\<close>;
  the store holds the two fields of every header. \<open>size_t\<close> is a 32-bit word. Following a null link and
  freeing an address without room for a header in front of it are the value \<open>None\<close>. The scheduler is suspended
  during every operation, so that operations are atomic.
\<close>

unbundle bit_operations_syntax

section \<open>The allocator\<close>

datatype block = xStart | xEnd | Blk nat

record heap =
  pxNextFreeBlock :: "block \<Rightarrow> block option"
  xBlockSize :: "block \<Rightarrow> 32 word"
  xFreeBytesRemaining :: "32 word"
  xHeapHasBeenInitialised :: bool

definition configTOTAL_HEAP_SIZE :: "32 word" where
  "configTOTAL_HEAP_SIZE = 15 * 1024"

definition heapSTRUCT_SIZE :: "32 word" where
  "heapSTRUCT_SIZE = 8 + 8 - 8 mod 8"

definition heapMINIMUM_BLOCK_SIZE :: "32 word" where
  "heapMINIMUM_BLOCK_SIZE = heapSTRUCT_SIZE * 2"

text \<open>The loop of \<open>prvInsertBlockIntoFreeList\<close>.\<close>

partial_function (option) insert_scan :: "heap \<Rightarrow> 32 word \<Rightarrow> block \<Rightarrow> block option" where
  "insert_scan h sz pxIterator =
     (case pxNextFreeBlock h pxIterator of
        None \<Rightarrow> None
      | Some b \<Rightarrow> if xBlockSize h b < sz then insert_scan h sz b else Some pxIterator)"

definition prvInsertBlockIntoFreeList :: "block \<Rightarrow> heap \<Rightarrow> heap option" where
  "prvInsertBlockIntoFreeList b h =
     map_option (\<lambda>pxIterator.
        let h1 = h\<lparr>pxNextFreeBlock := (pxNextFreeBlock h)(b := pxNextFreeBlock h pxIterator)\<rparr> in
        h1\<lparr>pxNextFreeBlock := (pxNextFreeBlock h1)(pxIterator := Some b)\<rparr>)
       (insert_scan h (xBlockSize h b) xStart)"

definition prvHeapInit :: "heap \<Rightarrow> heap" where
  "prvHeapInit h = h\<lparr>
     pxNextFreeBlock := (pxNextFreeBlock h)(xStart := Some (Blk 0), xEnd := None, Blk 0 := Some xEnd),
     xBlockSize := (xBlockSize h)(xStart := 0, xEnd := configTOTAL_HEAP_SIZE, Blk 0 := configTOTAL_HEAP_SIZE)\<rparr>"

text \<open>The loop of \<open>pvPortMalloc\<close>: the previous block and the block found.\<close>

partial_function (option) malloc_scan :: "heap \<Rightarrow> 32 word \<Rightarrow> block \<Rightarrow> block \<Rightarrow> (block \<times> block) option" where
  "malloc_scan h wanted pxPreviousBlock pxBlock =
     (if xBlockSize h pxBlock < wanted then
        (case pxNextFreeBlock h pxBlock of
           None \<Rightarrow> Some (pxPreviousBlock, pxBlock)
         | Some b \<Rightarrow> malloc_scan h wanted pxBlock b)
      else Some (pxPreviousBlock, pxBlock))"

declare insert_scan.simps [code] malloc_scan.simps [code]

text \<open>The size wanted: the request and the header, aligned, in 32-bit arithmetic.\<close>

definition block_size :: "32 word \<Rightarrow> 32 word" where
  "block_size xWantedSize =
     (if 0 < xWantedSize then
        let w = xWantedSize + heapSTRUCT_SIZE in
        if w AND 7 \<noteq> 0 then w + (8 - (w AND 7)) else w
      else xWantedSize)"

definition take_block :: "32 word \<Rightarrow> block \<Rightarrow> nat \<Rightarrow> heap \<Rightarrow> heap option" where
  "take_block wanted prev a h =
     (let h1 = h\<lparr>pxNextFreeBlock := (pxNextFreeBlock h)(prev := pxNextFreeBlock h (Blk a))\<rparr> in
      Option.bind
        (if heapMINIMUM_BLOCK_SIZE < xBlockSize h1 (Blk a) - wanted then
           let new = Blk (a + unat wanted);
               h2 = h1\<lparr>xBlockSize := (xBlockSize h1)(new := xBlockSize h1 (Blk a) - wanted, Blk a := wanted)\<rparr>
           in prvInsertBlockIntoFreeList new h2
         else Some h1)
        (\<lambda>h. Some (h\<lparr>xFreeBytesRemaining := xFreeBytesRemaining h - xBlockSize h (Blk a)\<rparr>)))"

definition pvPortMalloc :: "32 word \<Rightarrow> heap \<Rightarrow> (nat option \<times> heap) option" where
  "pvPortMalloc xWantedSize h =
     (let h = (if xHeapHasBeenInitialised h then h else (prvHeapInit h)\<lparr>xHeapHasBeenInitialised := True\<rparr>);
          wanted = block_size xWantedSize in
      if 0 < wanted \<and> wanted < configTOTAL_HEAP_SIZE then
        Option.bind (pxNextFreeBlock h xStart) (\<lambda>first.
        Option.bind (malloc_scan h wanted xStart first) (\<lambda>(prev, blk).
          case blk of
            xEnd \<Rightarrow> Some (None, h)
          | Blk a \<Rightarrow> Option.bind (take_block wanted prev a h) (\<lambda>h'. Some (Some (a + unat heapSTRUCT_SIZE), h'))
          | xStart \<Rightarrow> None))
      else Some (None, h))"

definition vPortFree :: "nat option \<Rightarrow> heap \<Rightarrow> heap option" where
  "vPortFree pv h =
     (case pv of
        None \<Rightarrow> Some h
      | Some p \<Rightarrow>
          if p < unat heapSTRUCT_SIZE then None
          else
            let pxLink = Blk (p - unat heapSTRUCT_SIZE) in
            Option.bind (prvInsertBlockIntoFreeList pxLink h) (\<lambda>h.
            Some (h\<lparr>xFreeBytesRemaining := xFreeBytesRemaining h + xBlockSize h pxLink\<rparr>)))"

definition xPortGetFreeHeapSize :: "heap \<Rightarrow> 32 word" where
  "xPortGetFreeHeapSize h = xFreeBytesRemaining h"

definition heap_0 :: heap where
  "heap_0 = \<lparr>pxNextFreeBlock = (\<lambda>_. None), xBlockSize = (\<lambda>_. 0), xFreeBytesRemaining = configTOTAL_HEAP_SIZE, xHeapHasBeenInitialised = False\<rparr>"

section \<open>The free list\<close>

fun links :: "heap \<Rightarrow> block \<Rightarrow> nat list \<Rightarrow> bool" where
  "links h b [] \<longleftrightarrow> pxNextFreeBlock h b = Some xEnd"
| "links h b (a # as) \<longleftrightarrow> pxNextFreeBlock h b = Some (Blk a) \<and> links h (Blk a) as"

abbreviation bsz :: "heap \<Rightarrow> nat \<Rightarrow> nat" where
  "bsz h a \<equiv> unat (xBlockSize h (Blk a))"

text \<open>The block in front of the ones that are large enough.\<close>

definition behind :: "block \<Rightarrow> nat list \<Rightarrow> block" where
  "behind b ys = (if ys = [] then b else Blk (last ys))"

definition front :: "nat list \<Rightarrow> block" where
  "front zs = (case zs of [] \<Rightarrow> xEnd | a # _ \<Rightarrow> Blk a)"

lemma links_next: "links h b zs \<Longrightarrow> pxNextFreeBlock h b = Some (front zs)"
  by (cases zs) (auto simp: front_def)

lemma links_append: "links h b (ys @ zs) \<Longrightarrow> links h (behind b ys) zs"
  by (induction ys arbitrary: b) (auto simp: behind_def)

lemma links_frame: "\<lbrakk>links h b fs; \<And>c. c \<in> insert b (Blk ` set fs) \<Longrightarrow> pxNextFreeBlock h' c = pxNextFreeBlock h c\<rbrakk> \<Longrightarrow> links h' b fs"
  by (induction fs arbitrary: b) auto

lemma insert_scan_value:
  assumes "links h b fs" "\<not> xBlockSize h xEnd < sz"
  shows "insert_scan h sz b = Some (behind b (takeWhile (\<lambda>a. xBlockSize h (Blk a) < sz) fs))"
  using assms
proof (induction fs arbitrary: b)
  case Nil
  then show ?case by (subst insert_scan.simps) (simp add: behind_def)
next
  case (Cons a fs)
  then show ?case by (subst insert_scan.simps) (auto simp: behind_def)
qed

lemma malloc_scan_value:
  assumes "links h b fs" "\<not> xBlockSize h xEnd < sz"
  shows "malloc_scan h sz b (front fs) =
    Some (behind b (takeWhile (\<lambda>a. xBlockSize h (Blk a) < sz) fs), front (dropWhile (\<lambda>a. xBlockSize h (Blk a) < sz) fs))"
  using assms
proof (induction fs arbitrary: b)
  case Nil
  then show ?case by (subst malloc_scan.simps) (simp add: behind_def front_def)
next
  case (Cons a fs)
  have n: "pxNextFreeBlock h (Blk a) = Some (front fs)" using Cons.prems by (intro links_next) simp
  then show ?case using Cons by (subst malloc_scan.simps) (auto simp: behind_def front_def)
qed

lemma links_link:
  assumes "links h b (ys @ zs)" "distinct (ys @ zs)" "c \<notin> set (ys @ zs)" "b \<noteq> Blk c" "b \<notin> Blk ` set (ys @ zs)"
    "pxNextFreeBlock h' = (pxNextFreeBlock h)(Blk c := pxNextFreeBlock h (behind b ys), behind b ys := Some (Blk c))"
  shows "links h' b (ys @ c # zs)"
  using assms
proof (induction ys arbitrary: b)
  case Nil
  then have "links h' (Blk c) zs"
    by (cases zs) (auto simp: behind_def elim!: links_frame)
  with Nil show ?case by (auto simp: behind_def)
next
  case (Cons a ys)
  then have "behind b (a # ys) = behind (Blk a) ys" by (simp add: behind_def)
  moreover have "b \<noteq> behind (Blk a) ys" using Cons.prems(5) by (auto simp: behind_def)
  ultimately show ?case using Cons by auto
qed

lemma links_unlink:
  assumes "links h b (ys @ a # zs)" "distinct (ys @ a # zs)" "b \<notin> Blk ` set (ys @ a # zs)"
    "pxNextFreeBlock h' = (pxNextFreeBlock h)(behind b ys := pxNextFreeBlock h (Blk a))"
  shows "links h' b (ys @ zs)"
  using assms
proof (induction ys arbitrary: b)
  case Nil
  then show ?case by (cases zs) (auto simp: behind_def elim!: links_frame)
next
  case (Cons x ys)
  then have "behind b (x # ys) = behind (Blk x) ys" by (simp add: behind_def)
  moreover have "b \<noteq> behind (Blk x) ys" using Cons.prems(3) by (auto simp: behind_def)
  ultimately show ?case using Cons by auto
qed

section \<open>The blocks of the heap\<close>

text \<open>The blocks, free or in use, fill the heap without overlap.\<close>

definition tiled :: "heap \<Rightarrow> nat list \<Rightarrow> bool" where
  "tiled h bs \<longleftrightarrow> distinct bs \<and>
     (\<forall>a\<in>set bs. 8 dvd a \<and> 8 dvd bsz h a \<and> 16 \<le> bsz h a \<and> a + bsz h a \<le> 15360) \<and>
     (\<forall>a\<in>set bs. \<forall>b\<in>set bs. a \<noteq> b \<longrightarrow> a + bsz h a \<le> b \<or> b + bsz h b \<le> a) \<and>
     sum_list (map (bsz h) bs) = 15360"

definition heap_inv :: "heap \<Rightarrow> nat list \<Rightarrow> nat list \<Rightarrow> bool" where
  "heap_inv h fs us \<longleftrightarrow> xHeapHasBeenInitialised h \<and> links h xStart fs \<and> xBlockSize h xEnd = configTOTAL_HEAP_SIZE \<and>
     sorted (map (bsz h) fs) \<and> tiled h (fs @ us) \<and> unat (xFreeBytesRemaining h) = sum_list (map (bsz h) fs)"

lemma heap_consts [simp]:
  "unat configTOTAL_HEAP_SIZE = 15360" "unat heapSTRUCT_SIZE = 16" "unat heapMINIMUM_BLOCK_SIZE = 32"
  by (simp_all add: configTOTAL_HEAP_SIZE_def heapSTRUCT_SIZE_def heapMINIMUM_BLOCK_SIZE_def)

lemma tiled_cong: "\<lbrakk>\<And>a. a \<in> set bs \<Longrightarrow> bsz h' a = bsz h a\<rbrakk> \<Longrightarrow> tiled h' bs = tiled h bs"
  unfolding tiled_def by (intro conj_cong refl ball_cong imp_cong) (auto cong: map_cong)

lemma tiled_perm:
  assumes "mset bs = mset bs'"
  shows "tiled h bs = tiled h bs'"
proof -
  have "set bs = set bs'" "distinct bs = distinct bs'" using assms by (auto dest: mset_eq_setD mset_eq_imp_distinct_iff)
  moreover have "sum_list (map (bsz h) bs) = sum_list (map (bsz h) bs')" using assms by (metis mset_map sum_mset_sum_list)
  ultimately show ?thesis by (simp add: tiled_def)
qed

lemma sum_list_mset: "mset xs = mset ys \<Longrightarrow> sum_list (map f xs) = sum_list (map f ys)" for f :: "nat \<Rightarrow> nat"
  by (metis mset_map sum_mset_sum_list)

text \<open>A block cut in two.\<close>

lemma tiled_split:
  assumes "tiled h (a # bs)" "8 dvd w" "16 \<le> w" "w + 16 \<le> bsz h a"
    "bsz h' a = w" "bsz h' (a + w) = bsz h a - w" "\<And>b. b \<in> set bs \<Longrightarrow> bsz h' b = bsz h b"
  shows "tiled h' ((a + w) # a # bs)"
proof -
  have d: "a + bsz h a \<le> b \<or> b + bsz h b \<le> a" "8 dvd b" "8 dvd bsz h b" "16 \<le> bsz h b" "b + bsz h b \<le> 15360" "b \<noteq> a" if "b \<in> set bs" for b
    using assms(1) that by (auto simp: tiled_def)
  have a: "8 dvd a" "8 dvd bsz h a" "a + bsz h a \<le> 15360" "distinct (a # bs)" "bsz h a + sum_list (map (bsz h) bs) = 15360"
    using assms(1) by (auto simp: tiled_def)
  have n: "a + w \<noteq> b" "a + bsz h a \<le> b \<or> b + bsz h b \<le> a + w" "a + w \<le> b \<or> b + bsz h b \<le> a" if "b \<in> set bs" for b
    using d(1,4) [OF that] assms(3,4) by auto
  have m: "map (bsz h') bs = map (bsz h) bs" using assms(7) by simp
  have "distinct ((a + w) # a # bs)" using n(1) a(4) assms(3) by auto
  moreover have "sum_list (map (bsz h') ((a + w) # a # bs)) = 15360" using a(5) assms(4-6) by (simp add: m)
  moreover have "\<forall>b\<in>set ((a + w) # a # bs). 8 dvd b \<and> 8 dvd bsz h' b \<and> 16 \<le> bsz h' b \<and> b + bsz h' b \<le> 15360"
    using a d assms(2-7) by (auto intro: dvd_diff_nat)
  moreover have "\<forall>b\<in>set ((a + w) # a # bs). \<forall>c\<in>set ((a + w) # a # bs). b \<noteq> c \<longrightarrow> b + bsz h' b \<le> c \<or> c + bsz h' c \<le> b"
  proof -
    have "b + bsz h b \<le> c \<or> c + bsz h c \<le> b" if "b \<in> set bs" "c \<in> set bs" "b \<noteq> c" for b c
      using assms(1) that by (auto simp: tiled_def)
    then show ?thesis using n assms(4-7) by fastforce
  qed
  ultimately show ?thesis by (simp only: tiled_def)
qed

lemma insert_block:
  assumes "links h xStart fs" "xBlockSize h xEnd = configTOTAL_HEAP_SIZE" "sorted (map (bsz h) fs)" "distinct fs" "c \<notin> set fs"
    "bsz h c \<le> 15360"
  shows "\<exists>fs' nx. prvInsertBlockIntoFreeList (Blk c) h = Some (h\<lparr>pxNextFreeBlock := nx\<rparr>) \<and>
    links (h\<lparr>pxNextFreeBlock := nx\<rparr>) xStart fs' \<and> mset fs' = add_mset c (mset fs) \<and> sorted (map (bsz h) fs')"
proof -
  let ?P = "\<lambda>a. xBlockSize h (Blk a) < xBlockSize h (Blk c)"
  define ys where "ys = takeWhile ?P fs"
  define zs where "zs = dropWhile ?P fs"
  have fs: "fs = ys @ zs" by (simp add: ys_def zs_def)
  have "\<not> xBlockSize h xEnd < xBlockSize h (Blk c)" using assms(2,6) by (simp add: word_less_nat_alt)
  then have s: "insert_scan h (xBlockSize h (Blk c)) xStart = Some (behind xStart ys)"
    unfolding ys_def by (rule insert_scan_value [OF assms(1)])
  let ?nx = "(pxNextFreeBlock h)(Blk c := pxNextFreeBlock h (behind xStart ys), behind xStart ys := Some (Blk c))"
  have "prvInsertBlockIntoFreeList (Blk c) h = Some (h\<lparr>pxNextFreeBlock := ?nx\<rparr>)"
    by (simp add: prvInsertBlockIntoFreeList_def s Let_def)
  moreover have "links (h\<lparr>pxNextFreeBlock := ?nx\<rparr>) xStart (ys @ c # zs)"
    using assms(1,4,5) unfolding fs by (intro links_link [of h]) auto
  moreover have "mset (ys @ c # zs) = add_mset c (mset fs)" by (simp add: fs)
  moreover have "sorted (map (bsz h) (ys @ c # zs))"
  proof -
    have "bsz h y < bsz h c" if "y \<in> set ys" for y using that unfolding ys_def by (auto dest: set_takeWhileD simp: word_less_nat_alt)
    moreover have "bsz h c \<le> bsz h z" if "z \<in> set zs" for z
    proof (cases zs)
      case (Cons x xs)
      then have "\<not> ?P x" using hd_dropWhile [of ?P fs] by (simp add: zs_def)
      moreover have "bsz h x \<le> bsz h z" using assms(3) that Cons by (auto simp: fs sorted_append)
      ultimately show ?thesis by (simp add: word_less_nat_alt)
    qed (use that in simp)
    ultimately show ?thesis using assms(3) by (fastforce simp: fs sorted_append less_imp_le intro: le_trans)
  qed
  ultimately show ?thesis by blast
qed

section \<open>The operations\<close>

lemma round_up: "8 * ((k + 7) div 8) = (if k mod 8 = 0 then k else k + (8 - k mod 8))" for k :: nat
proof -
  obtain q r where k: "k = 8 * q + r" "r < 8" by (metis mod_less_divisor mult_div_mod_eq zero_less_numeral)
  then have "k mod 8 = r" by simp
  moreover have "(k + 7) div 8 = (if r = 0 then q else q + 1)" using k by (auto intro!: div_nat_eqI)
  ultimately show ?thesis using k by simp
qed

lemma block_size_value:
  assumes "0 < n" "unat n + 23 < 2 ^ 32"
  shows "unat (block_size n) = 8 * ((unat n + 23) div 8)"
proof -
  have w: "unat (n + heapSTRUCT_SIZE) = unat n + 16" using assms(2) by (subst unat_add_lem [THEN iffD1]) auto
  have m: "unat (v AND 7) = unat v mod 8" for v :: "32 word"
  proof -
    have e: "(7 :: 32 word) = mask 3" by (simp add: mask_eq_exp_minus_1)
    show ?thesis unfolding e take_bit_eq_mask [symmetric] unsigned_take_bit_eq by (simp add: take_bit_eq_mod)
  qed
  have z: "n + heapSTRUCT_SIZE AND 7 = 0 \<longleftrightarrow> (unat n + 16) mod 8 = 0"
    using m [of "n + heapSTRUCT_SIZE"] by (simp add: unat_eq_zero [symmetric] w)
  show ?thesis
  proof (cases "(unat n + 16) mod 8 = 0")
    case True
    then have "block_size n = n + heapSTRUCT_SIZE" using assms(1) z by (simp add: block_size_def Let_def)
    moreover have "unat n + 16 = 8 * ((unat n + 23) div 8)" using True round_up [of "unat n + 16"] by (simp add: add.commute)
    ultimately show ?thesis by (simp add: w)
  next
    case False
    then have b: "block_size n = n + heapSTRUCT_SIZE + (8 - (n + heapSTRUCT_SIZE AND 7))" using assms(1) z by (simp add: block_size_def Let_def)
    have "unat (8 - (n + heapSTRUCT_SIZE AND 7)) = 8 - (unat n + 16) mod 8" by (subst unat_sub) (simp_all add: word_le_nat_alt m w)
    moreover have "0 < (unat n + 16) mod 8" using False by simp
    ultimately have "unat (block_size n) = unat n + 16 + (8 - (unat n + 16) mod 8)" unfolding b using assms(2) w
      by (subst unat_add_lem [THEN iffD1]) auto
    moreover have "unat n + 16 + (8 - (unat n + 16) mod 8) = 8 * ((unat n + 23) div 8)"
      using round_up [of "unat n + 16"] False by (simp add: add.commute)
    ultimately show ?thesis by simp
  qed
qed

lemma links_sizes [simp]: "links (h\<lparr>xBlockSize := f\<rparr>) b fs = links h b fs" "links (h\<lparr>xFreeBytesRemaining := n\<rparr>) b fs = links h b fs"
  by (induction fs arbitrary: b) simp_all

lemma tiled_next [simp]: "tiled (h\<lparr>pxNextFreeBlock := nx\<rparr>) bs = tiled h bs" "tiled (h\<lparr>xFreeBytesRemaining := n\<rparr>) bs = tiled h bs"
  by (simp_all add: tiled_def)

definition unlinked :: "block \<Rightarrow> nat \<Rightarrow> heap \<Rightarrow> heap" where
  "unlinked prev a h = h\<lparr>pxNextFreeBlock := (pxNextFreeBlock h)(prev := pxNextFreeBlock h (Blk a))\<rparr>"

lemma unlinked_simps [simp]:
  "xBlockSize (unlinked prev a h) = xBlockSize h" "xFreeBytesRemaining (unlinked prev a h) = xFreeBytesRemaining h"
  "xHeapHasBeenInitialised (unlinked prev a h) = xHeapHasBeenInitialised h" "tiled (unlinked prev a h) bs = tiled h bs"
  by (simp_all add: unlinked_def)

lemma unlinked_inv:
  assumes "heap_inv h (ys @ a # zs) us"
  shows "links (unlinked (behind xStart ys) a h) xStart (ys @ zs)" "tiled h (a # ys @ zs @ us)"
    "sorted (map (bsz h) (ys @ zs))" "unat (xFreeBytesRemaining h) = bsz h a + sum_list (map (bsz h) (ys @ zs))"
    "xHeapHasBeenInitialised h" "xBlockSize h xEnd = configTOTAL_HEAP_SIZE" "distinct (ys @ zs)"
proof -
  have i: "links h xStart (ys @ a # zs)" "tiled h ((ys @ a # zs) @ us)" using assms by (simp_all add: heap_inv_def)
  then show t: "tiled h (a # ys @ zs @ us)" using tiled_perm [of "(ys @ a # zs) @ us" "a # ys @ zs @ us" h] by simp
  have d: "distinct (ys @ a # zs)" using i(2) by (auto simp: tiled_def)
  then show "distinct (ys @ zs)" by simp
  show "links (unlinked (behind xStart ys) a h) xStart (ys @ zs)" unfolding unlinked_def by (rule links_unlink [OF i(1) d]) auto
qed (use assms in \<open>auto simp: heap_inv_def sorted_append\<close>)

text \<open>A block that is taken whole, and one of which the rest goes back to the free list.\<close>

lemma take_whole:
  assumes "heap_inv h (ys @ a # zs) us"
  shows "heap_inv ((unlinked (behind xStart ys) a h)\<lparr>xFreeBytesRemaining := xFreeBytesRemaining h - xBlockSize h (Blk a)\<rparr>) (ys @ zs) (a # us)"
proof -
  note i = unlinked_inv [OF assms]
  have "unat (xFreeBytesRemaining h - xBlockSize h (Blk a)) = sum_list (map (bsz h) (ys @ zs))"
    using i(4) by (subst unat_sub) (simp_all add: word_le_nat_alt)
  then show ?thesis using i tiled_perm [of "(ys @ zs) @ a # us" "a # ys @ zs @ us" h] by (simp add: heap_inv_def)
qed

lemma take_part:
  assumes "heap_inv h (ys @ a # zs) us" "8 dvd unat w" "16 \<le> unat w" "unat w + 32 < bsz h a"
  shows "\<exists>fs nx. prvInsertBlockIntoFreeList (Blk (a + unat w))
      ((unlinked (behind xStart ys) a h)\<lparr>xBlockSize := (xBlockSize h)(Blk (a + unat w) := xBlockSize h (Blk a) - w, Blk a := w)\<rparr>) = Some nx \<and>
    heap_inv (nx\<lparr>xFreeBytesRemaining := xFreeBytesRemaining h - w\<rparr>) fs (a # us) \<and> xFreeBytesRemaining nx = xFreeBytesRemaining h \<and>
    bsz nx a = unat w \<and> xBlockSize nx (Blk a) = w \<and> (\<forall>u\<in>set us. bsz nx u = bsz h u)"
proof -
  note i = unlinked_inv [OF assms(1)]
  let ?s = "xBlockSize h (Blk a)" and ?c = "a + unat w"
  define h2 where "h2 = (unlinked (behind xStart ys) a h)\<lparr>xBlockSize := (xBlockSize h)(Blk ?c := ?s - w, Blk a := w)\<rparr>"
  have s: "unat (?s - w) = bsz h a - unat w" using assms(4) by (intro unat_sub) (simp add: word_le_nat_alt)
  have "a + bsz h a \<le> b \<or> b + bsz h b \<le> a" "16 \<le> bsz h b" if "b \<in> set (ys @ zs @ us)" for b
    using i(2) that by (auto simp: tiled_def)
  then have c: "?c \<notin> set (ys @ zs @ us)" using assms(4) by fastforce
  have z2: "bsz h2 a = unat w" "bsz h2 ?c = bsz h a - unat w" "\<And>b. b \<in> set (ys @ zs @ us) \<Longrightarrow> bsz h2 b = bsz h b"
    using s c i(2) assms(3) by (auto simp: h2_def tiled_def)
  have t2: "tiled h2 (?c # a # ys @ zs @ us)" using i(2) assms(2-4) z2 by (intro tiled_split [of h]) auto
  have m2: "map (bsz h2) (ys @ zs) = map (bsz h) (ys @ zs)" using z2(3) by auto
  have "a + bsz h a \<le> 15360" using i(2) by (simp add: tiled_def)
  then have "bsz h2 ?c \<le> 15360" using z2(2) by linarith
  moreover have "links h2 xStart (ys @ zs)" "xBlockSize h2 xEnd = configTOTAL_HEAP_SIZE" using i(1,6) by (simp_all add: h2_def)
  moreover have "sorted (map (bsz h2) (ys @ zs))" unfolding m2 by (rule i(3))
  moreover have "?c \<notin> set (ys @ zs)" using c by auto
  ultimately obtain fs nx where f: "prvInsertBlockIntoFreeList (Blk ?c) h2 = Some (h2\<lparr>pxNextFreeBlock := nx\<rparr>)"
    "links (h2\<lparr>pxNextFreeBlock := nx\<rparr>) xStart fs" "mset fs = add_mset ?c (mset (ys @ zs))" "sorted (map (bsz h2) fs)"
    using insert_block i(7) by blast
  have "sum_list (map (bsz h2) fs) = bsz h2 ?c + sum_list (map (bsz h2) (ys @ zs))" using sum_list_mset [of fs "?c # ys @ zs"] f(3) by simp
  moreover have "unat (xFreeBytesRemaining h - w) = unat (xFreeBytesRemaining h) - unat w"
    using i(4) assms(4) by (intro unat_sub) (simp add: word_le_nat_alt)
  ultimately have "unat (xFreeBytesRemaining h - w) = sum_list (map (bsz h2) fs)" unfolding m2 z2(2) using i(4) assms(4) by simp
  moreover have "tiled h2 (fs @ a # us)" using t2 f(3) tiled_perm [of "fs @ a # us" "?c # a # ys @ zs @ us" h2] by simp
  moreover have "xHeapHasBeenInitialised h2" "xBlockSize h2 xEnd = configTOTAL_HEAP_SIZE" "xFreeBytesRemaining h2 = xFreeBytesRemaining h"
    "xBlockSize h2 (Blk a) = w" using i(5,6) by (simp_all add: h2_def)
  ultimately show ?thesis using f z2 unfolding h2_def [symmetric]
    by (intro exI [of _ fs] exI [of _ "h2\<lparr>pxNextFreeBlock := nx\<rparr>"]) (simp add: heap_inv_def)
qed

lemma take_block_ok:
  assumes "heap_inv h (ys @ a # zs) us" "8 dvd unat w" "16 \<le> unat w" "unat w \<le> bsz h a"
  shows "\<exists>h' fs. take_block w (behind xStart ys) a h = Some h' \<and> heap_inv h' fs (a # us) \<and> unat w \<le> bsz h' a \<and>
    (\<forall>u\<in>set us. bsz h' u = bsz h u)"
proof (cases "heapMINIMUM_BLOCK_SIZE < xBlockSize h (Blk a) - w")
  case False
  then show ?thesis using take_whole [OF assms(1)] assms(4)
    by (intro exI) (auto simp: take_block_def Let_def unlinked_def [symmetric])
next
  case True
  have "unat (xBlockSize h (Blk a) - w) = bsz h a - unat w" using assms(4) by (intro unat_sub) (simp add: word_le_nat_alt)
  then have "unat w + 32 < bsz h a" using True assms(4) by (simp add: word_less_nat_alt)
  from take_part [OF assms(1-3) this] show ?thesis using True by (auto simp: take_block_def Let_def unlinked_def [symmetric])
qed

text \<open>Initialisation gives one free block.\<close>

lemma prvHeapInit_ok: "xFreeBytesRemaining h = configTOTAL_HEAP_SIZE \<Longrightarrow> heap_inv ((prvHeapInit h)\<lparr>xHeapHasBeenInitialised := True\<rparr>) [0] []"
  by (simp add: heap_inv_def prvHeapInit_def tiled_def)

lemma malloc_value:
  assumes "heap_inv h fs us" "unat n + 23 < 2 ^ 32"
  obtains (none) "pvPortMalloc n h = Some (None, h)" "n = 0 \<or> 15360 \<le> unat (block_size n) \<or> (\<forall>f\<in>set fs. bsz h f < unat (block_size n))"
  | (block) a h' fs' where "pvPortMalloc n h = Some (Some (a + 16), h')" "heap_inv h' fs' (a # us)" "unat n + 16 \<le> bsz h' a"
      "\<forall>u\<in>set us. bsz h' u = bsz h u" "a \<in> set fs" "n \<noteq> 0" "\<forall>f\<in>set fs. unat (block_size n) \<le> bsz h f \<longrightarrow> bsz h a \<le> bsz h f"
proof (cases "0 < n \<and> block_size n < configTOTAL_HEAP_SIZE")
  case False
  moreover have "block_size 0 = 0" by (simp add: block_size_def)
  ultimately have "pvPortMalloc n h = Some (None, h)" using assms(1) word_gt_0 [of n] by (auto simp: pvPortMalloc_def heap_inv_def Let_def)
  then show ?thesis using none False word_gt_0 [of n] by (auto simp: word_less_nat_alt)
next
  case True
  let ?w = "block_size n"
  let ?P = "\<lambda>a. xBlockSize h (Blk a) < ?w"
  have w: "unat ?w = 8 * ((unat n + 23) div 8)" using True assms(2) by (intro block_size_value) auto
  then have w1: "unat n + 16 \<le> unat ?w" "16 \<le> unat ?w" "8 dvd unat ?w" "0 < ?w" by (auto simp: word_less_nat_alt)
  have l: "links h xStart fs" "xHeapHasBeenInitialised h" "sorted (map (bsz h) fs)" using assms(1) by (auto simp: heap_inv_def)
  have "\<not> xBlockSize h xEnd < ?w" using assms(1) True by (auto simp: heap_inv_def)
  then have m: "malloc_scan h ?w xStart (front fs) = Some (behind xStart (takeWhile ?P fs), front (dropWhile ?P fs))"
    by (rule malloc_scan_value [OF l(1)])
  have run: "pvPortMalloc n h = (case front (dropWhile ?P fs) of xEnd \<Rightarrow> Some (None, h)
      | Blk a \<Rightarrow> Option.bind (take_block ?w (behind xStart (takeWhile ?P fs)) a h) (\<lambda>h'. Some (Some (a + 16), h')) | xStart \<Rightarrow> None)"
    using True w1(4) l m links_next [OF l(1)] by (simp add: pvPortMalloc_def Let_def)
  show ?thesis
  proof (cases "dropWhile ?P fs")
    case Nil
    then have "\<forall>f\<in>set fs. bsz h f < unat ?w" by (simp add: word_less_nat_alt)
    then show ?thesis using none run Nil by (simp add: front_def)
  next
    case (Cons a zs)
    then have fs: "fs = takeWhile ?P fs @ a # zs" and "\<not> ?P a" using dropWhile_eq_Cons_conv [of ?P fs a zs] by blast+
    then have a: "unat ?w \<le> bsz h a" by (simp add: word_less_nat_alt)
    obtain h' fs' where t: "take_block ?w (behind xStart (takeWhile ?P fs)) a h = Some h'" "heap_inv h' fs' (a # us)" "unat ?w \<le> bsz h' a"
      "\<forall>u\<in>set us. bsz h' u = bsz h u"
      using take_block_ok [of h "takeWhile ?P fs" a zs us ?w] assms(1) fs a w1 by auto
    have "bsz h a \<le> bsz h f" if "f \<in> set fs" "unat ?w \<le> bsz h f" for f
    proof -
      have "f \<notin> set (takeWhile ?P fs)" using that(2) by (auto dest: set_takeWhileD simp: word_less_nat_alt)
      then have "f = a \<or> f \<in> set zs" using that(1) fs by (metis Un_iff set_append set_ConsD)
      moreover have "sorted (map (bsz h) (a # zs))" using l(3) by (subst (asm) fs) (simp add: sorted_append)
      ultimately show ?thesis by auto
    qed
    moreover have "a \<in> set fs" using fs by (metis in_set_conv_decomp)
    moreover have "n \<noteq> 0" using True by auto
    ultimately show ?thesis using block [of a h' fs'] t w1(1) run Cons by (simp add: front_def)
  qed
qed

lemma free_value:
  assumes "heap_inv h fs us" "mset us = add_mset a (mset us')"
  shows "\<exists>h' fs'. vPortFree (Some (a + 16)) h = Some h' \<and> heap_inv h' fs' us' \<and> (\<forall>u. bsz h' u = bsz h u) \<and>
    unat (xPortGetFreeHeapSize h') = unat (xPortGetFreeHeapSize h) + bsz h a"
proof -
  have i: "xHeapHasBeenInitialised h" "links h xStart fs" "xBlockSize h xEnd = configTOTAL_HEAP_SIZE" "sorted (map (bsz h) fs)"
    "tiled h (fs @ us)" "unat (xFreeBytesRemaining h) = sum_list (map (bsz h) fs)" using assms(1) by (auto simp: heap_inv_def)
  have t: "tiled h (a # fs @ us')" using i(5) assms(2) tiled_perm [of "fs @ us" "a # fs @ us'" h] by simp
  then have "distinct fs" "a \<notin> set fs" "bsz h a \<le> 15360" by (auto simp: tiled_def)
  then obtain fs' nx where f: "prvInsertBlockIntoFreeList (Blk a) h = Some (h\<lparr>pxNextFreeBlock := nx\<rparr>)"
    "links (h\<lparr>pxNextFreeBlock := nx\<rparr>) xStart fs'" "mset fs' = add_mset a (mset fs)" "sorted (map (bsz h) fs')"
    using insert_block [OF i(2-4)] by blast
  have "bsz h a + sum_list (map (bsz h) fs) \<le> 15360" using t by (simp add: tiled_def)
  then have u: "unat (xFreeBytesRemaining h + xBlockSize h (Blk a)) = bsz h a + sum_list (map (bsz h) fs)"
    using i(6) by (subst unat_add_lem [THEN iffD1]) auto
  moreover have "sum_list (map (bsz h) fs') = bsz h a + sum_list (map (bsz h) fs)" using sum_list_mset [of fs' "a # fs"] f(3) by simp
  moreover have "tiled h (fs' @ us')" using t f(3) tiled_perm [of "fs' @ us'" "a # fs @ us'" h] by simp
  ultimately have "heap_inv (h\<lparr>pxNextFreeBlock := nx, xFreeBytesRemaining := xFreeBytesRemaining h + xBlockSize h (Blk a)\<rparr>) fs' us'"
    using i(1,3) f by (simp add: heap_inv_def)
  then show ?thesis using f(1) u i(6) by (auto simp: vPortFree_def xPortGetFreeHeapSize_def Let_def)
qed

section \<open>Histories\<close>

text \<open>
  The states that requests and releases lead to, with the addresses in use and the sizes requested for them. Only
  addresses in use are released, and no request is within 23 bytes of the range of \<open>size_t\<close>.
\<close>

inductive heap_reach :: "heap \<Rightarrow> (nat \<times> nat) list \<Rightarrow> bool" where
  start: "heap_reach heap_0 []"
| malloc: "\<lbrakk>heap_reach h live; unat n + 23 < 2 ^ 32; pvPortMalloc n h = Some (Some p, h')\<rbrakk> \<Longrightarrow> heap_reach h' ((p, unat n) # live)"
| failed: "\<lbrakk>heap_reach h live; unat n + 23 < 2 ^ 32; pvPortMalloc n h = Some (None, h')\<rbrakk> \<Longrightarrow> heap_reach h' live"
| free: "\<lbrakk>heap_reach h (live @ (p, n) # live'); vPortFree (Some p) h = Some h'\<rbrakk> \<Longrightarrow> heap_reach h' (live @ live')"

definition headers :: "(nat \<times> nat) list \<Rightarrow> nat list" where
  "headers live = map (\<lambda>(p, n). p - 16) live"

definition fits :: "heap \<Rightarrow> (nat \<times> nat) list \<Rightarrow> bool" where
  "fits h live \<longleftrightarrow> (\<forall>(p, n)\<in>set live. 16 \<le> p \<and> n + 16 \<le> bsz h (p - 16))"

definition heap_live :: "heap \<Rightarrow> (nat \<times> nat) list \<Rightarrow> bool" where
  "heap_live h live \<longleftrightarrow> (h = heap_0 \<and> live = []) \<or> (\<exists>fs. heap_inv h fs (headers live) \<and> fits h live)"

abbreviation ready :: heap where
  "ready \<equiv> (prvHeapInit heap_0)\<lparr>xHeapHasBeenInitialised := True\<rparr>"

lemma malloc_first: "pvPortMalloc n heap_0 = pvPortMalloc n ready"
  by (simp add: pvPortMalloc_def heap_0_def)

lemma heap_live_inv:
  assumes "heap_live h live"
  obtains h0 fs where "heap_inv h0 fs (headers live)" "fits h0 live" "\<And>n. pvPortMalloc n h = pvPortMalloc n h0" "live \<noteq> [] \<Longrightarrow> h0 = h"
    "xFreeBytesRemaining h0 = xFreeBytesRemaining h"
proof (cases "h = heap_0 \<and> live = []")
  case True
  have "heap_inv ready [0] (headers [])" using prvHeapInit_ok [of heap_0] by (simp add: headers_def heap_0_def)
  moreover have "xFreeBytesRemaining ready = xFreeBytesRemaining heap_0" by (simp add: prvHeapInit_def)
  ultimately show ?thesis using that [of ready "[0]"] True malloc_first by (simp add: fits_def)
next
  case False
  then show ?thesis using assms that by (auto simp: heap_live_def)
qed

lemma heap_live_malloc:
  assumes "heap_live h live" "unat n + 23 < 2 ^ 32"
  obtains (none) h' where "pvPortMalloc n h = Some (None, h')" "heap_live h' live"
  | (block) p h' where "pvPortMalloc n h = Some (Some p, h')" "heap_live h' ((p, unat n) # live)"
proof -
  obtain h0 fs where i: "heap_inv h0 fs (headers live)" "fits h0 live" "pvPortMalloc n h = pvPortMalloc n h0"
    using heap_live_inv [OF assms(1)] by metis
  show ?thesis
  proof (rule malloc_value [OF i(1) assms(2)])
    assume "pvPortMalloc n h0 = Some (None, h0)"
    then show ?thesis using none [of h0] i by (auto simp: heap_live_def)
  next
    fix a h' fs'
    assume m: "pvPortMalloc n h0 = Some (Some (a + 16), h')" "heap_inv h' fs' (a # headers live)" "unat n + 16 \<le> bsz h' a"
      "\<forall>u\<in>set (headers live). bsz h' u = bsz h0 u"
    then have "fits h' ((a + 16, unat n) # live)" using i(2) by (force simp: fits_def headers_def)
    moreover have "headers ((a + 16, unat n) # live) = a # headers live" by (simp add: headers_def)
    ultimately have "heap_live h' ((a + 16, unat n) # live)" using m(2) by (auto simp: heap_live_def)
    then show ?thesis using block m(1) i(3) by simp
  qed
qed

lemma heap_live_free:
  assumes "heap_live h (live @ (p, n) # live')"
  shows "\<exists>h'. vPortFree (Some p) h = Some h' \<and> heap_live h' (live @ live') \<and> unat (xPortGetFreeHeapSize h) + n + 16 \<le> unat (xPortGetFreeHeapSize h')"
proof -
  obtain fs where i: "heap_inv h fs (headers (live @ (p, n) # live'))" "fits h (live @ (p, n) # live')" using assms by (auto simp: heap_live_def)
  then have p: "p - 16 + 16 = p" "n + 16 \<le> bsz h (p - 16)" by (auto simp: fits_def)
  have "mset (headers (live @ (p, n) # live')) = add_mset (p - 16) (mset (headers (live @ live')))" by (simp add: headers_def)
  from free_value [OF i(1) this] p(1) obtain h' fs' where f: "vPortFree (Some p) h = Some h'" "heap_inv h' fs' (headers (live @ live'))"
    "\<forall>u. bsz h' u = bsz h u" "unat (xPortGetFreeHeapSize h') = unat (xPortGetFreeHeapSize h) + bsz h (p - 16)" by auto
  have "fits h' (live @ live')" using i(2) f(3) by (auto simp: fits_def)
  then show ?thesis using f p(2) by (auto simp: heap_live_def)
qed

lemma heap_reach_live: "heap_reach h live \<Longrightarrow> heap_live h live"
proof (induction rule: heap_reach.induct)
  case start
  then show ?case by (simp add: heap_live_def)
next
  case (malloc h live n p h')
  then show ?case by (auto elim: heap_live_malloc [where n = n])
next
  case (failed h live n h')
  then show ?case by (auto elim: heap_live_malloc [where n = n])
next
  case (free h live p n live' h')
  then show ?case using heap_live_free [of h live p n live'] by auto
qed

lemma inv_regions:
  assumes "heap_inv h fs (headers live)" "fits h live"
  shows "distinct (map fst live)"
    "(p, n) \<in> set live \<Longrightarrow> 16 \<le> p \<and> 8 dvd p \<and> p + n \<le> 15360"
    "\<lbrakk>(p, n) \<in> set live; (q, m) \<in> set live; p \<noteq> q\<rbrakk> \<Longrightarrow> p + n \<le> q - 16 \<or> q + m \<le> p - 16"
    "sum_list (map (\<lambda>(p, n). n + 16) live) + unat (xPortGetFreeHeapSize h) \<le> 15360"
    "live = [] \<Longrightarrow> unat (xPortGetFreeHeapSize h) = 15360"
proof -
  have t: "tiled h (fs @ headers live)" and f: "unat (xPortGetFreeHeapSize h) = sum_list (map (bsz h) fs)"
    using assms(1) by (auto simp: heap_inv_def xPortGetFreeHeapSize_def)
  have b: "16 \<le> p" "n + 16 \<le> bsz h (p - 16)" "p - 16 \<in> set (headers live)" if "(p, n) \<in> set live" for p n
    using assms(2) that by (force simp: fits_def headers_def)+
  have g: "8 dvd a" "a + bsz h a \<le> 15360" if "a \<in> set (headers live)" for a using t that by (auto simp: tiled_def)
  have d: "a + bsz h a \<le> c \<or> c + bsz h c \<le> a" if "a \<in> set (headers live)" "c \<in> set (headers live)" "a \<noteq> c" for a c
    using t that by (auto simp: tiled_def)
  have "distinct (headers live)" using t by (simp add: tiled_def)
  moreover have "headers live = map (\<lambda>p. p - 16) (map fst live)" by (auto simp: headers_def)
  ultimately show "distinct (map fst live)" by (metis distinct_map)
  show "16 \<le> p \<and> 8 dvd p \<and> p + n \<le> 15360" if "(p, n) \<in> set live"
  proof -
    have "8 dvd (p - 16) + 16" using g(1) [OF b(3) [OF that]] by (rule dvd_add) simp
    then show ?thesis using b [OF that] g(2) [OF b(3) [OF that]] by simp
  qed
  show "p + n \<le> q - 16 \<or> q + m \<le> p - 16" if "(p, n) \<in> set live" "(q, m) \<in> set live" "p \<noteq> q"
    using d [OF b(3) [OF that(1)] b(3) [OF that(2)]] b(1,2) [OF that(1)] b(1,2) [OF that(2)] that(3) by linarith
  have "sum_list (map (\<lambda>(p, n). n + 16) live) \<le> sum_list (map (\<lambda>x. bsz h (fst x - 16)) live)"
    using b(2) by (intro sum_list_mono) auto
  also have "\<dots> = sum_list (map (bsz h) (headers live))" by (simp add: headers_def comp_def split_beta)
  finally show "sum_list (map (\<lambda>(p, n). n + 16) live) + unat (xPortGetFreeHeapSize h) \<le> 15360" using t f by (simp add: tiled_def)
  show "unat (xPortGetFreeHeapSize h) = 15360" if "live = []" using t f that by (simp add: tiled_def headers_def)
qed

section \<open>Properties\<close>

text \<open>
  C8. The allocator is sound. After any history of requests and releases, every address in use is a multiple of
  8, its bytes lie inside the heap, and the bytes requested, together with the header in front of them, overlap no
  other region in use nor its header; the free counter accounts for them, and is the whole heap when nothing is in use. Every further
  request returns, with or without memory, and every address in use can be released, which gives back at least
  its bytes and its header.
\<close>

theorem heap_sound:
  assumes "heap_reach h live"
  shows "distinct (map fst live) \<and>
    (\<forall>(p, n)\<in>set live. 16 \<le> p \<and> 8 dvd p \<and> p + n \<le> 15360 \<and>
      (\<exists>h'. vPortFree (Some p) h = Some h' \<and> unat (xPortGetFreeHeapSize h) + n + 16 \<le> unat (xPortGetFreeHeapSize h'))) \<and>
    (\<forall>(p, n)\<in>set live. \<forall>(q, m)\<in>set live. p \<noteq> q \<longrightarrow> p + n \<le> q - 16 \<or> q + m \<le> p - 16) \<and>
    sum_list (map (\<lambda>(p, n). n + 16) live) + unat (xPortGetFreeHeapSize h) \<le> 15360 \<and>
    (live = [] \<longrightarrow> unat (xPortGetFreeHeapSize h) = 15360) \<and>
    (\<forall>n. unat n + 23 < 2 ^ 32 \<longrightarrow> (\<exists>r h'. pvPortMalloc n h = Some (r, h')))"
proof -
  have l: "heap_live h live" using assms by (rule heap_reach_live)
  obtain h0 fs where i: "heap_inv h0 fs (headers live)" "fits h0 live" "xFreeBytesRemaining h0 = xFreeBytesRemaining h"
    using heap_live_inv [OF l] by metis
  have "xPortGetFreeHeapSize h0 = xPortGetFreeHeapSize h" using i(3) by (simp add: xPortGetFreeHeapSize_def)
  note r = inv_regions [OF i(1,2), unfolded this]
  have "\<exists>h'. vPortFree (Some p) h = Some h' \<and> unat (xPortGetFreeHeapSize h) + n + 16 \<le> unat (xPortGetFreeHeapSize h')" if "(p, n) \<in> set live" for p n
    using split_list [OF that] heap_live_free l by blast
  moreover have "\<exists>r h'. pvPortMalloc n h = Some (r, h')" if "unat n + 23 < 2 ^ 32" for n
    using heap_live_malloc [OF l that] by metis
  moreover have "\<forall>(p, n)\<in>set live. \<forall>(q, m)\<in>set live. p \<noteq> q \<longrightarrow> p + n \<le> q - 16 \<or> q + m \<le> p - 16" using r(3) by blast
  ultimately show ?thesis using r(1,2,4,5) by (intro conjI) auto
qed

text \<open>Two requests, of 100 and of 60 bytes, and the release of the first.\<close>

definition two_requests :: "heap option" where
  "two_requests = Option.bind (pvPortMalloc 100 heap_0) (\<lambda>(p, h). Option.bind (pvPortMalloc 60 h) (\<lambda>(q, h). vPortFree p h))"

lemma two_requests_value:
  "\<exists>h. two_requests = Some h \<and> heap_reach h [(136, 60)] \<and> xPortGetFreeHeapSize h = 15280"
proof -
  obtain h1 where h1: "pvPortMalloc 100 heap_0 = Some (Some 16, h1)"
  proof -
    have "map_option fst (pvPortMalloc 100 heap_0) = Some (Some 16)" by code_simp
    then show ?thesis using that by auto
  qed
  obtain h2 where h2: "pvPortMalloc 60 h1 = Some (Some 136, h2)"
  proof -
    have "Option.bind (pvPortMalloc 100 heap_0) (\<lambda>(p, h). map_option fst (pvPortMalloc 60 h)) = Some (Some 136)" by code_simp
    then show ?thesis using that h1 by auto
  qed
  have "heap_reach h2 ([(136, 60)] @ (16, 100) # [])"
    using heap_reach.malloc [OF heap_reach.malloc [OF heap_reach.start _ h1] _ h2] by simp
  note r = this
  then obtain h3 where h3: "vPortFree (Some 16) h2 = Some h3" using heap_live_free heap_reach_live by blast
  have s: "two_requests = Some h3" by (simp add: two_requests_def h1 h2 h3)
  have "map_option xPortGetFreeHeapSize two_requests = Some 15280" by code_simp
  then have "xPortGetFreeHeapSize h3 = 15280" unfolding s by simp
  then show ?thesis using s heap_reach.free [OF r h3] by (intro exI [of _ h3]) simp
qed

theorem heap_sound_witness: "\<exists>h h'. two_requests = Some h \<and> vPortFree (Some 136) h = Some h' \<and> 15280 + 76 \<le> unat (xPortGetFreeHeapSize h')"
proof -
  obtain h where h: "two_requests = Some h" "heap_reach h [(136, 60)]" "xPortGetFreeHeapSize h = 15280" using two_requests_value by blast
  from heap_sound [OF h(2)] h(1,3) show ?thesis by auto
qed

text \<open>
  The size is computed without a check for overflow: a request of 4294967288 bytes is granted with the
  block of the 8 bytes at offset 0, and the address returned lies in the free block behind it.
\<close>

lemma heap_wraps: "map_option (\<lambda>(p, h). (p, xBlockSize h (Blk 0))) (pvPortMalloc 0xFFFFFFF8 heap_0) = Some (Some 16, 8)"
  by code_simp

end
