(* ===== verification/Kernel_Task.thy ===== *)
theory Kernel_Task
  imports Kernel_Rings Kernel_Heap
begin

text \<open>
  The scheduler of the kernel, \<open>tasks.c\<close>, in the configuration of the projects (preemption, seven priorities, 32-bit
  ticks, mutexes, deletion, no suspension of single tasks, no hooks), on the modelled lists and the modelled allocator.
  A task is named by the address of its control block; its two list items are members of the block. The
  lists of the scheduler have the numbers below 11, every other list is the event list of a queue. \<open>portYIELD\<close>
  sets the pending bit of the exception \<open>PendSV\<close>, whose handler switches the context (\<open>portable/GCC/ARM_CM3\<close>). The
  result \<open>None\<close> is an access through \<open>NULL\<close> or outside the array of the ready lists, or a loop without
  end. Stacks and their contents, names excepted, and the trace buffer are not modelled.
\<close>

section \<open>State\<close>

record sched =
  lsts :: lists
  uxPriority :: "nat \<Rightarrow> 32 word"
  uxBasePriority :: "nat \<Rightarrow> 32 word"
  pxStack :: "nat \<Rightarrow> nat"
  pcTaskName :: "nat \<Rightarrow> string"
  uxTCBNumber :: "nat \<Rightarrow> 32 word"
  pxCurrentTCB :: "nat option"
  pxDelayedTaskList :: nat
  pxOverflowDelayedTaskList :: nat
  uxTasksDeleted :: "32 word"
  uxCurrentNumberOfTasks :: "32 word"
  xTickCount :: "32 word"
  uxTopUsedPriority :: "32 word"
  uxTopReadyPriority :: "32 word"
  xSchedulerRunning :: bool
  uxSchedulerSuspended :: "32 word"
  uxMissedTicks :: "32 word"
  xMissedYield :: bool
  xNumOfOverflows :: "32 word"
  uxTaskNumber :: "32 word"
  pendsv :: bool
  kheap :: heap

definition xGenericListItem :: "nat \<Rightarrow> nat" where
  "xGenericListItem t = 2 * t"

definition xEventListItem :: "nat \<Rightarrow> nat" where
  "xEventListItem t = 2 * t + 1"

definition configMAX_PRIORITIES :: "32 word" where
  "configMAX_PRIORITIES = 7"

definition pxReadyTasksLists :: "32 word \<Rightarrow> nat option" where
  "pxReadyTasksLists p = (if p < configMAX_PRIORITIES then Some (unat p) else None)"

definition xDelayedTaskList1 :: nat where
  "xDelayedTaskList1 = 7"

definition xDelayedTaskList2 :: nat where
  "xDelayedTaskList2 = 8"

definition xPendingReadyList :: nat where
  "xPendingReadyList = 9"

definition xTasksWaitingTermination :: nat where
  "xTasksWaitingTermination = 10"

text \<open>Operations on the lists, and those that may fault.\<close>

definition on_lists :: "(lists \<Rightarrow> lists) \<Rightarrow> sched \<Rightarrow> sched" where
  "on_lists f s = s\<lparr>lsts := f (lsts s)\<rparr>"

definition try_lists :: "(lists \<Rightarrow> lists option) \<Rightarrow> sched \<Rightarrow> sched option" where
  "try_lists f s = map_option (\<lambda>l. s\<lparr>lsts := l\<rparr>) (f (lsts s))"

abbreviation generic_in :: "sched \<Rightarrow> nat \<Rightarrow> nat option" where
  "generic_in s t \<equiv> pvContainer (lsts s) (xGenericListItem t)"

abbreviation event_in :: "sched \<Rightarrow> nat \<Rightarrow> nat option" where
  "event_in s t \<equiv> pvContainer (lsts s) (xEventListItem t)"

section \<open>The ready lists\<close>

definition prvAddTaskToReadyQueue :: "nat \<Rightarrow> sched \<Rightarrow> sched option" where
  "prvAddTaskToReadyQueue pxTCB s = do {
     let s1 = (if uxTopReadyPriority s < uxPriority s pxTCB then s\<lparr>uxTopReadyPriority := uxPriority s pxTCB\<rparr> else s);
     l \<leftarrow> pxReadyTasksLists (uxPriority s1 pxTCB);
     Some (on_lists (vListInsertEnd l (xGenericListItem pxTCB)) s1)
   }"

definition portYIELD_WITHIN_API :: "sched \<Rightarrow> sched" where
  "portYIELD_WITHIN_API s = s\<lparr>pendsv := True\<rparr>"

partial_function (option) prvCheckDelayedTasks :: "sched \<Rightarrow> sched option" where
  "prvCheckDelayedTasks s =
     Option.bind (listGET_OWNER_OF_HEAD_ENTRY (pxDelayedTaskList s) (lsts s)) (\<lambda>head.
       case head of
         None \<Rightarrow> Some s
       | Some pxTCB \<Rightarrow>
           if xTickCount s < listGET_LIST_ITEM_VALUE (xGenericListItem pxTCB) (lsts s) then Some s
           else
             Option.bind (try_lists (vListRemove (xGenericListItem pxTCB)) s) (\<lambda>s1.
             Option.bind (if event_in s1 pxTCB \<noteq> None then try_lists (vListRemove (xEventListItem pxTCB)) s1 else Some s1) (\<lambda>s2.
             Option.bind (prvAddTaskToReadyQueue pxTCB s2) prvCheckDelayedTasks)))"

declare prvCheckDelayedTasks.simps [code]

definition prvGetTCBFromHandle :: "nat option \<Rightarrow> sched \<Rightarrow> nat option" where
  "prvGetTCBFromHandle pxHandle s = (case pxHandle of None \<Rightarrow> pxCurrentTCB s | Some t \<Rightarrow> Some t)"

section \<open>Ticks and context switches\<close>

definition vTaskIncrementTick :: "sched \<Rightarrow> sched option" where
  "vTaskIncrementTick s =
     (if uxSchedulerSuspended s = 0 then
        let s1 = s\<lparr>xTickCount := xTickCount s + 1\<rparr>;
            s2 = (if xTickCount s1 = 0 then
                    s1\<lparr>pxDelayedTaskList := pxOverflowDelayedTaskList s1, pxOverflowDelayedTaskList := pxDelayedTaskList s1,
                      xNumOfOverflows := xNumOfOverflows s1 + 1\<rparr>
                  else s1)
        in prvCheckDelayedTasks s2
      else Some (s\<lparr>uxMissedTicks := uxMissedTicks s + 1\<rparr>))"

definition xPortSysTickHandler :: "sched \<Rightarrow> sched option" where
  "xPortSysTickHandler s = vTaskIncrementTick (s\<lparr>pendsv := True\<rparr>)"

text \<open>The loop of \<open>vTaskSwitchContext\<close> that looks for the highest list with a task.\<close>

partial_function (option) top_loop :: "sched \<Rightarrow> sched option" where
  "top_loop s =
     Option.bind (pxReadyTasksLists (uxTopReadyPriority s)) (\<lambda>l.
       if listLIST_IS_EMPTY l (lsts s) then top_loop (s\<lparr>uxTopReadyPriority := uxTopReadyPriority s - 1\<rparr>) else Some s)"

declare top_loop.simps [code]

definition vTaskSwitchContext :: "sched \<Rightarrow> sched option" where
  "vTaskSwitchContext s =
     (if uxSchedulerSuspended s \<noteq> 0 then Some (s\<lparr>xMissedYield := True\<rparr>)
      else do {
        s1 \<leftarrow> top_loop s;
        l \<leftarrow> pxReadyTasksLists (uxTopReadyPriority s1);
        (t, ls) \<leftarrow> listGET_OWNER_OF_NEXT_ENTRY l (lsts s1);
        Some (s1\<lparr>lsts := ls, pxCurrentTCB := Some t\<rparr>)
      })"

definition xPortPendSVHandler :: "sched \<Rightarrow> sched option" where
  "xPortPendSVHandler s = vTaskSwitchContext (s\<lparr>pendsv := False\<rparr>)"

definition vTaskMissedYield :: "sched \<Rightarrow> sched" where
  "vTaskMissedYield s = s\<lparr>xMissedYield := True\<rparr>"

section \<open>Suspending the scheduler\<close>

definition vTaskSuspendAll :: "sched \<Rightarrow> sched" where
  "vTaskSuspendAll s = s\<lparr>uxSchedulerSuspended := uxSchedulerSuspended s + 1\<rparr>"

text \<open>The two loops of \<open>xTaskResumeAll\<close>: the tasks held pending, then the ticks that were missed.\<close>

partial_function (option) pending_loop :: "bool \<Rightarrow> sched \<Rightarrow> (bool \<times> sched) option" where
  "pending_loop xYieldRequired s =
     Option.bind (listGET_OWNER_OF_HEAD_ENTRY xPendingReadyList (lsts s)) (\<lambda>head.
       case head of
         None \<Rightarrow> Some (xYieldRequired, s)
       | Some pxTCB \<Rightarrow>
           Option.bind (try_lists (vListRemove (xEventListItem pxTCB)) s) (\<lambda>s1.
           Option.bind (try_lists (vListRemove (xGenericListItem pxTCB)) s1) (\<lambda>s2.
           Option.bind (prvAddTaskToReadyQueue pxTCB s2) (\<lambda>s3.
           Option.bind (pxCurrentTCB s3) (\<lambda>c.
             pending_loop (xYieldRequired \<or> uxPriority s3 c \<le> uxPriority s3 pxTCB) s3)))))"

partial_function (option) missed_loop :: "sched \<Rightarrow> sched option" where
  "missed_loop s =
     (if 0 < uxMissedTicks s then
        Option.bind (vTaskIncrementTick s) (\<lambda>s1. missed_loop (s1\<lparr>uxMissedTicks := uxMissedTicks s1 - 1\<rparr>))
      else Some s)"

declare pending_loop.simps [code] missed_loop.simps [code]

definition xTaskResumeAll :: "sched \<Rightarrow> (bool \<times> sched) option" where
  "xTaskResumeAll s = do {
     let s1 = s\<lparr>uxSchedulerSuspended := uxSchedulerSuspended s - 1\<rparr>;
     (if uxSchedulerSuspended s1 = 0 \<and> 0 < uxCurrentNumberOfTasks s1 then do {
        (y, s2) \<leftarrow> pending_loop False s1;
        (y', s3) \<leftarrow> (if 0 < uxMissedTicks s2 then map_option (Pair True) (missed_loop s2) else Some (y, s2));
        (if y' \<or> xMissedYield s3 then Some (True, portYIELD_WITHIN_API (s3\<lparr>xMissedYield := False\<rparr>)) else Some (False, s3))
      }
      else Some (False, s1))
   }"

section \<open>Blocking\<close>

text \<open>The current task leaves the ready list for the delayed list that fits its time to wake.\<close>

definition add_to_delayed :: "nat \<Rightarrow> 32 word \<Rightarrow> sched \<Rightarrow> sched option" where
  "add_to_delayed c xTimeToWake s = do {
     s1 \<leftarrow> try_lists (vListRemove (xGenericListItem c)) s;
     let s2 = on_lists (listSET_LIST_ITEM_VALUE (xGenericListItem c) xTimeToWake) s1;
     (if xTimeToWake < xTickCount s2 then try_lists (vListInsert (pxOverflowDelayedTaskList s2) (xGenericListItem c)) s2
      else try_lists (vListInsert (pxDelayedTaskList s2) (xGenericListItem c)) s2)
   }"

text \<open>\<open>irq\<close> is what the interrupts do while the scheduler is suspended.\<close>

definition vTaskDelay :: "(sched \<Rightarrow> sched option) \<Rightarrow> 32 word \<Rightarrow> sched \<Rightarrow> sched option" where
  "vTaskDelay irq xTicksToDelay s = do {
     (xAlreadyYielded, s') \<leftarrow>
       (if 0 < xTicksToDelay then do {
          let s1 = vTaskSuspendAll s;
          let xTimeToWake = xTickCount s1 + xTicksToDelay;
          c \<leftarrow> pxCurrentTCB s1;
          s2 \<leftarrow> add_to_delayed c xTimeToWake s1;
          s3 \<leftarrow> irq s2;
          xTaskResumeAll s3
        }
        else Some (False, s));
     Some (if xAlreadyYielded then s' else portYIELD_WITHIN_API s')
   }"

text \<open>The decision of \<open>vTaskDelayUntil\<close>.\<close>

definition xShouldDelay :: "32 word \<Rightarrow> 32 word \<Rightarrow> 32 word \<Rightarrow> bool" where
  "xShouldDelay xTick xPreviousWakeTime xTimeToWake =
     (if xTick < xPreviousWakeTime then xTimeToWake < xPreviousWakeTime \<and> xTick < xTimeToWake
      else xTimeToWake < xPreviousWakeTime \<or> xTick < xTimeToWake)"

definition vTaskDelayUntil :: "(sched \<Rightarrow> sched option) \<Rightarrow> 32 word \<Rightarrow> 32 word \<Rightarrow> sched \<Rightarrow> (32 word \<times> sched) option" where
  "vTaskDelayUntil irq xPreviousWakeTime xTimeIncrement s = do {
     let s1 = vTaskSuspendAll s;
     let xTimeToWake = xPreviousWakeTime + xTimeIncrement;
     s2 \<leftarrow> (if xShouldDelay (xTickCount s1) xPreviousWakeTime xTimeToWake then do {
              c \<leftarrow> pxCurrentTCB s1;
              add_to_delayed c xTimeToWake s1
            }
            else Some s1);
     s3 \<leftarrow> irq s2;
     (xAlreadyYielded, s4) \<leftarrow> xTaskResumeAll s3;
     Some (xTimeToWake, if xAlreadyYielded then s4 else portYIELD_WITHIN_API s4)
   }"

definition vTaskPlaceOnEventList :: "nat \<Rightarrow> 32 word \<Rightarrow> sched \<Rightarrow> sched option" where
  "vTaskPlaceOnEventList pxEventList xTicksToWait s = do {
     c \<leftarrow> pxCurrentTCB s;
     s1 \<leftarrow> try_lists (vListInsert pxEventList (xEventListItem c)) s;
     add_to_delayed c (xTickCount s1 + xTicksToWait) s1
   }"

definition xTaskRemoveFromEventList :: "nat \<Rightarrow> sched \<Rightarrow> (bool \<times> sched) option" where
  "xTaskRemoveFromEventList pxEventList s = do {
     head \<leftarrow> listGET_OWNER_OF_HEAD_ENTRY pxEventList (lsts s);
     pxUnblockedTCB \<leftarrow> head;
     s1 \<leftarrow> try_lists (vListRemove (xEventListItem pxUnblockedTCB)) s;
     s2 \<leftarrow> (if uxSchedulerSuspended s1 = 0 then do {
              s2 \<leftarrow> try_lists (vListRemove (xGenericListItem pxUnblockedTCB)) s1;
              prvAddTaskToReadyQueue pxUnblockedTCB s2
            }
            else Some (on_lists (vListInsertEnd xPendingReadyList (xEventListItem pxUnblockedTCB)) s1));
     c \<leftarrow> pxCurrentTCB s2;
     Some (uxPriority s2 c \<le> uxPriority s2 pxUnblockedTCB, s2)
   }"

subsection \<open>Timeouts\<close>

record xTimeOutType =
  xOverflowCount :: "32 word"
  xTimeOnEntering :: "32 word"

definition vTaskSetTimeOutState :: "sched \<Rightarrow> xTimeOutType" where
  "vTaskSetTimeOutState s = \<lparr>xOverflowCount = xNumOfOverflows s, xTimeOnEntering = xTickCount s\<rparr>"

text \<open>Whether the time is over, and the new time left and state.\<close>

definition xTaskCheckForTimeOut :: "xTimeOutType \<Rightarrow> 32 word \<Rightarrow> sched \<Rightarrow> bool \<times> 32 word \<times> xTimeOutType" where
  "xTaskCheckForTimeOut pxTimeOut xTicksToWait s =
     (if xNumOfOverflows s \<noteq> xOverflowCount pxTimeOut \<and> xTimeOnEntering pxTimeOut \<le> xTickCount s then (True, xTicksToWait, pxTimeOut)
      else if xTickCount s - xTimeOnEntering pxTimeOut < xTicksToWait then
        (False, xTicksToWait - (xTickCount s - xTimeOnEntering pxTimeOut), vTaskSetTimeOutState s)
      else (True, xTicksToWait, pxTimeOut))"

section \<open>Priorities\<close>

definition uxTaskPriorityGet :: "nat option \<Rightarrow> sched \<Rightarrow> 32 word option" where
  "uxTaskPriorityGet pxTask s = map_option (uxPriority s) (prvGetTCBFromHandle pxTask s)"

text \<open>The value of the event item puts higher priorities first.\<close>

definition set_event_value :: "nat \<Rightarrow> 32 word \<Rightarrow> sched \<Rightarrow> sched" where
  "set_event_value t p = on_lists (listSET_LIST_ITEM_VALUE (xEventListItem t) (configMAX_PRIORITIES - p))"

definition in_ready_list :: "32 word \<Rightarrow> nat \<Rightarrow> sched \<Rightarrow> bool option" where
  "in_ready_list p t s = map_option (\<lambda>l. listIS_CONTAINED_WITHIN l (xGenericListItem t) (lsts s)) (pxReadyTasksLists p)"

definition vTaskPrioritySet :: "nat option \<Rightarrow> 32 word \<Rightarrow> sched \<Rightarrow> sched option" where
  "vTaskPrioritySet pxTask uxNewPriority s = do {
     let new = (if configMAX_PRIORITIES \<le> uxNewPriority then configMAX_PRIORITIES - 1 else uxNewPriority);
     let task = (if pxTask = pxCurrentTCB s then None else pxTask);
     t \<leftarrow> prvGetTCBFromHandle task s;
     let old = uxBasePriority s t;
     (if old \<noteq> new then do {
        let xYieldRequired = (if old < new then task \<noteq> None else task = None);
        let s1 = (if uxBasePriority s t = uxPriority s t then s\<lparr>uxPriority := (uxPriority s)(t := new)\<rparr> else s);
        let s2 = s1\<lparr>uxBasePriority := (uxBasePriority s1)(t := new)\<rparr>;
        let s3 = set_event_value t new s2;
        r \<leftarrow> in_ready_list old t s3;
        s4 \<leftarrow> (if r then do {
                 s4 \<leftarrow> try_lists (vListRemove (xGenericListItem t)) s3;
                 prvAddTaskToReadyQueue t s4
               }
               else Some s3);
        Some (if xYieldRequired then portYIELD_WITHIN_API s4 else s4)
      }
      else Some s)
   }"

definition vTaskPriorityInherit :: "nat \<Rightarrow> sched \<Rightarrow> sched option" where
  "vTaskPriorityInherit pxTCB s = do {
     c \<leftarrow> pxCurrentTCB s;
     (if uxPriority s pxTCB < uxPriority s c then do {
        let s1 = set_event_value pxTCB (uxPriority s c) s;
        r \<leftarrow> in_ready_list (uxPriority s1 pxTCB) pxTCB s1;
        (if r then do {
           s2 \<leftarrow> try_lists (vListRemove (xGenericListItem pxTCB)) s1;
           prvAddTaskToReadyQueue pxTCB (s2\<lparr>uxPriority := (uxPriority s2)(pxTCB := uxPriority s2 c)\<rparr>)
         }
         else Some (s1\<lparr>uxPriority := (uxPriority s1)(pxTCB := uxPriority s1 c)\<rparr>))
      }
      else Some s)
   }"

definition vTaskPriorityDisinherit :: "nat option \<Rightarrow> sched \<Rightarrow> sched option" where
  "vTaskPriorityDisinherit pxMutexHolder s =
     (case pxMutexHolder of
        None \<Rightarrow> Some s
      | Some t \<Rightarrow>
          if uxPriority s t \<noteq> uxBasePriority s t then do {
            s1 \<leftarrow> try_lists (vListRemove (xGenericListItem t)) s;
            let s2 = s1\<lparr>uxPriority := (uxPriority s1)(t := uxBasePriority s1 t)\<rparr>;
            prvAddTaskToReadyQueue t (set_event_value t (uxPriority s2 t) s2)
          }
          else Some s)"

section \<open>Creation and deletion\<close>

text \<open>\<open>sizeof (tskTCB)\<close>: the top of the stack, two items of 20 bytes, priority, stack, name, number and base priority.\<close>

definition sizeof_tskTCB :: "32 word" where
  "sizeof_tskTCB = 4 + 2 * 20 + 4 + 4 + 16 + 4 + 4"

definition prvAllocateTCBAndStack :: "16 word \<Rightarrow> nat option \<Rightarrow> heap \<Rightarrow> ((nat \<times> nat) option \<times> heap) option" where
  "prvAllocateTCBAndStack usStackDepth puxStackBuffer h = do {
     (p, h1) \<leftarrow> pvPortMalloc sizeof_tskTCB h;
     (case p of
        None \<Rightarrow> Some (None, h1)
      | Some pxNewTCB \<Rightarrow> do {
          (b, h2) \<leftarrow> (case puxStackBuffer of None \<Rightarrow> pvPortMalloc (ucast usStackDepth * 4) h1 | Some b \<Rightarrow> Some (Some b, h1));
          (case b of
             None \<Rightarrow> do { h3 \<leftarrow> vPortFree (Some pxNewTCB) h2; Some (None, h3) }
           | Some stack \<Rightarrow> Some (Some (pxNewTCB, stack), h2))
        })
   }"

text \<open>\<open>strncpy\<close> into the 16 bytes of the name, of which the last one is then a terminator.\<close>

definition task_name :: "string \<Rightarrow> string" where
  "task_name pcName = take 15 (pcName @ replicate 16 (CHR 0x00)) @ [CHR 0x00]"

definition prvInitialiseTCBVariables :: "nat \<Rightarrow> string \<Rightarrow> 32 word \<Rightarrow> sched \<Rightarrow> sched" where
  "prvInitialiseTCBVariables t pcName uxPrio s =
     (let p = (if configMAX_PRIORITIES \<le> uxPrio then configMAX_PRIORITIES - 1 else uxPrio);
          s1 = s\<lparr>pcTaskName := (pcTaskName s)(t := task_name pcName), uxPriority := (uxPriority s)(t := p), uxBasePriority := (uxBasePriority s)(t := p)\<rparr>;
          s2 = on_lists (vListInitialiseItem (xGenericListItem t)) s1;
          s3 = on_lists (vListInitialiseItem (xEventListItem t)) s2;
          s4 = on_lists (listSET_LIST_ITEM_OWNER (xGenericListItem t) t) s3;
          s5 = set_event_value t p s4
      in on_lists (listSET_LIST_ITEM_OWNER (xEventListItem t) t) s5)"

definition prvInitialiseTaskLists :: "sched \<Rightarrow> sched" where
  "prvInitialiseTaskLists s =
     (let s1 = on_lists (fold vListInitialise [0 ..< unat configMAX_PRIORITIES]) s;
          s2 = on_lists (vListInitialise xDelayedTaskList1) s1;
          s3 = on_lists (vListInitialise xDelayedTaskList2) s2;
          s4 = on_lists (vListInitialise xPendingReadyList) s3;
          s5 = on_lists (vListInitialise xTasksWaitingTermination) s4
      in s5\<lparr>pxDelayedTaskList := xDelayedTaskList1, pxOverflowDelayedTaskList := xDelayedTaskList2\<rparr>)"

definition xTaskGenericCreate :: "string \<Rightarrow> 16 word \<Rightarrow> 32 word \<Rightarrow> nat option \<Rightarrow> sched \<Rightarrow> (nat option \<times> sched) option" where
  "xTaskGenericCreate pcName usStackDepth uxPrio puxStackBuffer s = do {
     (r, h) \<leftarrow> prvAllocateTCBAndStack usStackDepth puxStackBuffer (kheap s);
     (case r of
        None \<Rightarrow> Some (None, s\<lparr>kheap := h\<rparr>)
      | Some (t, stack) \<Rightarrow> do {
          let s1 = prvInitialiseTCBVariables t pcName uxPrio (s\<lparr>kheap := h, pxStack := (pxStack s)(t := stack)\<rparr>);
          let s2 = s1\<lparr>uxCurrentNumberOfTasks := uxCurrentNumberOfTasks s1 + 1\<rparr>;
          let s3 = (case pxCurrentTCB s2 of
                      None \<Rightarrow>
                        let s3 = s2\<lparr>pxCurrentTCB := Some t\<rparr> in
                        if uxCurrentNumberOfTasks s3 = 1 then prvInitialiseTaskLists s3 else s3
                    | Some c \<Rightarrow> if \<not> xSchedulerRunning s2 \<and> uxPriority s2 c \<le> uxPrio then s2\<lparr>pxCurrentTCB := Some t\<rparr> else s2);
          let s4 = (if uxTopUsedPriority s3 < uxPriority s3 t then s3\<lparr>uxTopUsedPriority := uxPriority s3 t\<rparr> else s3);
          let s5 = s4\<lparr>uxTCBNumber := (uxTCBNumber s4)(t := uxTaskNumber s4), uxTaskNumber := uxTaskNumber s4 + 1\<rparr>;
          s6 \<leftarrow> prvAddTaskToReadyQueue t s5;
          (if xSchedulerRunning s6 then do {
             c \<leftarrow> pxCurrentTCB s6;
             Some (Some t, if uxPriority s6 c < uxPrio then portYIELD_WITHIN_API s6 else s6)
           }
           else Some (Some t, s6))
        })
   }"

definition vTaskDelete :: "nat option \<Rightarrow> sched \<Rightarrow> sched option" where
  "vTaskDelete pxTaskToDelete s = do {
     let task = (if pxTaskToDelete = pxCurrentTCB s then None else pxTaskToDelete);
     t \<leftarrow> prvGetTCBFromHandle task s;
     s1 \<leftarrow> try_lists (vListRemove (xGenericListItem t)) s;
     s2 \<leftarrow> (if event_in s1 t \<noteq> None then try_lists (vListRemove (xEventListItem t)) s1 else Some s1);
     let s3 = on_lists (vListInsertEnd xTasksWaitingTermination (xGenericListItem t)) s2;
     let s4 = s3\<lparr>uxTasksDeleted := uxTasksDeleted s3 + 1, uxTaskNumber := uxTaskNumber s3 + 1\<rparr>;
     Some (if xSchedulerRunning s4 \<and> task = None then portYIELD_WITHIN_API s4 else s4)
   }"

definition prvDeleteTCB :: "nat \<Rightarrow> sched \<Rightarrow> sched option" where
  "prvDeleteTCB t s = do {
     h1 \<leftarrow> vPortFree (Some (pxStack s t)) (kheap s);
     h2 \<leftarrow> vPortFree (Some t) h1;
     Some (s\<lparr>kheap := h2\<rparr>)
   }"

definition prvCheckTasksWaitingTermination :: "sched \<Rightarrow> sched option" where
  "prvCheckTasksWaitingTermination s =
     (if 0 < uxTasksDeleted s then do {
        let s1 = vTaskSuspendAll s;
        let xListIsEmpty = listLIST_IS_EMPTY xTasksWaitingTermination (lsts s1);
        (_, s2) \<leftarrow> xTaskResumeAll s1;
        (if \<not> xListIsEmpty then do {
           head \<leftarrow> listGET_OWNER_OF_HEAD_ENTRY xTasksWaitingTermination (lsts s2);
           t \<leftarrow> head;
           s3 \<leftarrow> try_lists (vListRemove (xGenericListItem t)) s2;
           prvDeleteTCB t (s3\<lparr>uxCurrentNumberOfTasks := uxCurrentNumberOfTasks s3 - 1, uxTasksDeleted := uxTasksDeleted s3 - 1\<rparr>)
         }
         else Some s2)
      }
      else Some s)"

text \<open>One round of \<open>prvIdleTask\<close>.\<close>

definition prvIdleTask :: "sched \<Rightarrow> sched option" where
  "prvIdleTask s = do {
     s1 \<leftarrow> prvCheckTasksWaitingTermination s;
     Some (if 1 < uxNumberOfItems (lsts s1) 0 then portYIELD_WITHIN_API s1 else s1)
   }"

text \<open>The scheduler is started with the idle task; the result tells the address of its control block.\<close>

definition vTaskStartScheduler :: "sched \<Rightarrow> (nat option \<times> sched) option" where
  "vTaskStartScheduler s = do {
     (r, s1) \<leftarrow> xTaskGenericCreate ''IDLE'' 128 0 None s;
     Some (r, if r \<noteq> None then s1\<lparr>xSchedulerRunning := True, xTickCount := 0\<rparr> else s1)
   }"

definition vTaskEndScheduler :: "sched \<Rightarrow> sched" where
  "vTaskEndScheduler s = s\<lparr>xSchedulerRunning := False\<rparr>"

definition xTaskGetTickCount :: "sched \<Rightarrow> 32 word" where
  "xTaskGetTickCount s = xTickCount s"

definition uxTaskGetNumberOfTasks :: "sched \<Rightarrow> 32 word" where
  "uxTaskGetNumberOfTasks s = uxCurrentNumberOfTasks s"

end
