(* ===== verification/Kernel_Sched.thy ===== *)
theory Kernel_Sched
  imports Kernel_Task
begin

text \<open>
  The invariant of the scheduler and its preservation. The lists are seen through the containers of the items: an item is
  in a list when its container says so, the delayed lists are sorted by their values, and the index of every list that
  is filled by sorted insertion rests on its end marker.
\<close>

section \<open>The lists as containers\<close>

text \<open>Lists filled at the end: the ready lists, the pending list and the list of deleted tasks.\<close>

definition end_lists :: "nat set" where
  "end_lists = {..<7} \<union> {9, 10}"

definition by_value :: "lists \<Rightarrow> nat list \<Rightarrow> bool" where
  "by_value ls xs \<longleftrightarrow> sorted (map (\<lambda>i. xItemValue ls (Item i)) xs)"

definition lists_ok :: "nat set \<Rightarrow> lists \<Rightarrow> bool" where
  "lists_ok D ls \<longleftrightarrow> {..<11} \<subseteq> D \<and>
     (\<exists>A. shape D A ls \<and> (\<forall>l\<in>D. l \<notin> end_lists \<longrightarrow> fst (A l) = []) \<and>
        (\<forall>l. l = 7 \<or> l = 8 \<longrightarrow> by_value ls (items_of (A l))))"

lemma lists_okE:
  assumes "lists_ok D ls"
  obtains A where "shape D A ls" "\<And>l. l \<in> D \<Longrightarrow> l \<notin> end_lists \<Longrightarrow> fst (A l) = []" "{..<11} \<subseteq> D"
    "\<And>l. l = 7 \<or> l = 8 \<Longrightarrow> by_value ls (items_of (A l))"
  using assms unfolding lists_ok_def by blast

lemma lists_okI:
  "\<lbrakk>shape D A ls; \<And>l. l \<in> D \<Longrightarrow> l \<notin> end_lists \<Longrightarrow> fst (A l) = []; {..<11} \<subseteq> D; \<And>l. l = 7 \<or> l = 8 \<Longrightarrow> by_value ls (items_of (A l))\<rbrakk> \<Longrightarrow>
   lists_ok D ls"
  unfolding lists_ok_def by blast

lemma lists_ok_bound: "lists_ok D ls \<Longrightarrow> pvContainer ls i = Some l \<Longrightarrow> l \<in> D \<and> i < 2 ^ 31"
  by (auto simp: lists_ok_def dest: shape_in)

lemma by_value_remove1: "by_value ls xs \<Longrightarrow> by_value ls (remove1 i xs)"
  unfolding by_value_def by (rule sorted_map_remove1)

lemma by_value_same: "xItemValue ls' = xItemValue ls \<Longrightarrow> by_value ls' xs = by_value ls xs"
  by (simp add: by_value_def)

lemma lists_ok_remove:
  assumes "lists_ok D ls" "pvContainer ls i = Some l"
  shows "\<exists>ls'. vListRemove i ls = Some ls' \<and> lists_ok D ls' \<and> xItemValue ls' = xItemValue ls \<and> pvOwner ls' = pvOwner ls \<and>
    pvContainer ls' = (pvContainer ls)(i := None)"
proof -
  obtain A where A: "shape D A ls" "\<And>l. l \<in> D \<Longrightarrow> l \<notin> end_lists \<Longrightarrow> fst (A l) = []" "{..<11} \<subseteq> D"
    "\<And>l. l = 7 \<or> l = 8 \<Longrightarrow> by_value ls (items_of (A l))" by (rule lists_okE [OF assms(1)]) (rule that)
  from shape_remove [OF A(1) assms(2)] obtain ls' where s: "vListRemove i ls = Some ls'" "shape D (A(l := remove_c i (A l))) ls'"
    "xItemValue ls' = xItemValue ls" "pvOwner ls' = pvOwner ls" "pvContainer ls' = (pvContainer ls)(i := None)" by blast
  have l: "l \<in> D" using lists_ok_bound [OF assms] by simp
  have "by_value ls' (items_of ((A(l := remove_c i (A l))) m))" if m: "m = 7 \<or> m = 8" for m
  proof (cases "m = l")
    case True
    then have "l \<notin> end_lists" using m by (auto simp: end_lists_def)
    then have f: "items_of (A l) = snd (A l)" "items_of (remove_c i (A l)) = remove1 i (snd (A l))"
      using A(2) [OF l] by (simp_all add: items_of_def remove_c_def)
    show ?thesis using by_value_remove1 [of ls "snd (A l)" i] A(4) [OF m] True f by (simp add: by_value_same [OF s(3)])
  qed (use A(4) [OF m] in \<open>simp add: by_value_same [OF s(3)]\<close>)
  then have "lists_ok D ls'" by (intro lists_okI [OF s(2)]) (use A(2,3) in \<open>auto simp: remove_c_def\<close>)
  then show ?thesis using s by blast
qed

lemma lists_ok_insert_end:
  assumes "lists_ok D ls" "pvContainer ls i = None" "i < 2 ^ 31" "l \<in> end_lists"
  shows "lists_ok D (vListInsertEnd l i ls)"
proof -
  obtain A where A: "shape D A ls" "\<And>l. l \<in> D \<Longrightarrow> l \<notin> end_lists \<Longrightarrow> fst (A l) = []" "{..<11} \<subseteq> D"
    "\<And>l. l = 7 \<or> l = 8 \<Longrightarrow> by_value ls (items_of (A l))" by (rule lists_okE [OF assms(1)]) (rule that)
  have l: "l \<in> D" "l \<notin> {7, 8}" using assms(4) A(3) by (auto simp: end_lists_def)
  show ?thesis by (rule lists_okI [OF shape_insert_end [OF A(1) l(1) assms(2,3)]]) (use A(2-4) l assms(4) in \<open>auto simp: by_value_def\<close>)
qed

lemma by_value_ins_sorted:
  assumes "by_value ls xs"
  shows "by_value ls (ins_sorted ls i xs)"
proof -
  let ?f = "\<lambda>j. xItemValue ls (Item j)" and ?P = "\<lambda>j. xItemValue ls (Item j) \<le> xItemValue ls (Item i)"
  have "sorted (map ?f (takeWhile ?P xs @ dropWhile ?P xs))" using assms by (simp add: by_value_def)
  then have so: "sorted (map ?f (takeWhile ?P xs))" "sorted (map ?f (dropWhile ?P xs))" unfolding map_append sorted_append by simp_all
  have "\<forall>j\<in>set us. ?f i \<le> ?f j" if "sorted (map ?f us)" "us \<noteq> [] \<longrightarrow> \<not> ?P (hd us)" for us
    using that by (cases us) (auto intro: order_trans less_imp_le simp: not_le)
  then have "\<forall>j\<in>set (dropWhile ?P xs). ?f i \<le> ?f j" using so(2) hd_dropWhile [of ?P xs] by blast
  then show ?thesis using so by (auto simp: by_value_def ins_sorted_def sorted_append dest: set_takeWhileD intro: order_trans)
qed

lemma lists_ok_insert:
  assumes "lists_ok D ls" "pvContainer ls i = None" "i < 2 ^ 31" "l \<in> D" "l \<notin> end_lists"
  shows "\<exists>ls'. vListInsert l i ls = Some ls' \<and> lists_ok D ls' \<and> xItemValue ls' = xItemValue ls \<and> pvOwner ls' = pvOwner ls \<and>
    pvContainer ls' = (pvContainer ls)(i \<mapsto> l)"
proof -
  obtain A where A: "shape D A ls" "\<And>l. l \<in> D \<Longrightarrow> l \<notin> end_lists \<Longrightarrow> fst (A l) = []" "{..<11} \<subseteq> D"
    "\<And>l. l = 7 \<or> l = 8 \<Longrightarrow> by_value ls (items_of (A l))" by (rule lists_okE [OF assms(1)]) (rule that)
  have e: "A l = ([], snd (A l))" using A(2) [OF assms(4,5)] by (simp add: prod_eq_iff)
  let ?A = "A(l := ([], ins_sorted ls i (snd (A l))))"
  from shape_insert [OF A(1) assms(4) e assms(2,3)] obtain ls' where s: "vListInsert l i ls = Some ls'" "shape D ?A ls'"
    "xItemValue ls' = xItemValue ls" "pvOwner ls' = pvOwner ls" "pvContainer ls' = (pvContainer ls)(i \<mapsto> l)" by blast
  have "by_value ls' (items_of (?A m))" if m: "m = 7 \<or> m = 8" for m
  proof (cases "m = l")
    case True
    then show ?thesis using by_value_ins_sorted [of ls "snd (A l)" i] A(4) [OF m] A(2) [OF assms(4,5)] by (simp add: by_value_same [OF s(3)] items_of_def)
  qed (use A(4) [OF m] in \<open>simp add: by_value_same [OF s(3)]\<close>)
  then have "lists_ok D ls'" by (intro lists_okI [OF s(2)]) (use A(2,3) in auto)
  then show ?thesis using s by blast
qed

lemma lists_ok_set_value:
  assumes "lists_ok D ls" "pvContainer ls i \<noteq> Some 7" "pvContainer ls i \<noteq> Some 8"
  shows "lists_ok D (listSET_LIST_ITEM_VALUE i v ls)"
proof -
  obtain A where A: "shape D A ls" "\<And>l. l \<in> D \<Longrightarrow> l \<notin> end_lists \<Longrightarrow> fst (A l) = []" "{..<11} \<subseteq> D"
    "\<And>l. l = 7 \<or> l = 8 \<Longrightarrow> by_value ls (items_of (A l))" by (rule lists_okE [OF assms(1)]) (rule that)
  have "by_value (listSET_LIST_ITEM_VALUE i v ls) (items_of (A m))" if m: "m = 7 \<or> m = 8" for m
  proof -
    have "m \<in> D" using m A(3) by auto
    then have "i \<notin> set (items_of (A m))" using shape_container [OF A(1), of m i] assms(2,3) m by auto
    then have "map (\<lambda>j. xItemValue (listSET_LIST_ITEM_VALUE i v ls) (Item j)) (items_of (A m)) = map (\<lambda>j. xItemValue ls (Item j)) (items_of (A m))" by auto
    then show ?thesis using A(4) [OF m] unfolding by_value_def by (simp only:)
  qed
  then show ?thesis by (intro lists_okI [OF shape_set_value [OF A(1)]]) (use A in auto)
qed

lemma lists_ok_set_owner: "lists_ok D ls \<Longrightarrow> lists_ok D (listSET_LIST_ITEM_OWNER i t ls)"
  by (auto simp: lists_ok_def by_value_def intro!: shape_set_owner)

lemma lists_ok_empty:
  assumes "lists_ok D ls" "l \<in> D"
  shows "listLIST_IS_EMPTY l ls \<longleftrightarrow> (\<forall>i. pvContainer ls i \<noteq> Some l)"
proof -
  obtain A where A: "shape D A ls" using assms(1) unfolding lists_ok_def by blast
  show ?thesis using shape_number [OF A assms(2)] shape_container [OF A assms(2)] by auto
qed

text \<open>The head of a list; in the delayed lists it has the least value.\<close>

lemma lists_ok_head:
  assumes "lists_ok D ls" "l \<in> D"
  obtains (none) "listGET_OWNER_OF_HEAD_ENTRY l ls = Some None" "\<And>i. pvContainer ls i \<noteq> Some l"
  | (head) i where "listGET_OWNER_OF_HEAD_ENTRY l ls = Some (Some (pvOwner ls i))" "pvContainer ls i = Some l"
      "\<And>j. \<lbrakk>l \<in> {7, 8}; pvContainer ls j = Some l\<rbrakk> \<Longrightarrow> xItemValue ls (Item i) \<le> xItemValue ls (Item j)"
proof -
  obtain A where A: "shape D A ls" "\<And>l. l = 7 \<or> l = 8 \<Longrightarrow> by_value ls (items_of (A l))" by (rule lists_okE [OF assms(1)]) (rule that)
  note c = shape_container [OF A(1) assms(2)]
  show ?thesis
  proof (cases "items_of (A l)")
    case Nil
    then show ?thesis using none shape_head [OF A(1) assms(2)] c by simp
  next
    case (Cons i js)
    have "xItemValue ls (Item i) \<le> xItemValue ls (Item j)" if "l \<in> {7, 8}" "pvContainer ls j = Some l" for j
    proof -
      have "sorted (map (\<lambda>i. xItemValue ls (Item i)) (i # js))" using A(2) [of l] that(1) Cons by (simp add: by_value_def)
      then show ?thesis using that(2) c [of j] Cons by auto
    qed
    then show ?thesis using head [of i] shape_head [OF A(1) assms(2)] c [of i] Cons by simp
  qed
qed

lemma lists_ok_next:
  assumes "lists_ok D ls" "l < 7" "pvContainer ls j = Some l"
  shows "\<exists>i ls'. listGET_OWNER_OF_NEXT_ENTRY l ls = Some (pvOwner ls i, ls') \<and> pvContainer ls i = Some l \<and> lists_ok D ls' \<and>
    xItemValue ls' = xItemValue ls \<and> pvOwner ls' = pvOwner ls \<and> pvContainer ls' = pvContainer ls"
proof -
  obtain A where A: "shape D A ls" "\<And>l. l \<in> D \<Longrightarrow> l \<notin> end_lists \<Longrightarrow> fst (A l) = []" "{..<11} \<subseteq> D"
    "\<And>l. l = 7 \<or> l = 8 \<Longrightarrow> by_value ls (items_of (A l))" by (rule lists_okE [OF assms(1)]) (rule that)
  have l: "l \<in> D" "l \<in> end_lists" "l \<notin> {7, 8}" using A(3) assms(2) by (auto simp: end_lists_def)
  have "items_of (A l) \<noteq> []" using shape_container [OF A(1) l(1), of j] assms(3) by auto
  then obtain i c where n: "next_c (A l) = Some (i, c)" using next_c_some by blast
  from shape_next [OF A(1) l(1) n] obtain ls' where s: "listGET_OWNER_OF_NEXT_ENTRY l ls = Some (pvOwner ls i, ls')" "shape D (A(l := c)) ls'"
    "xItemValue ls' = xItemValue ls" "pvOwner ls' = pvOwner ls" "pvContainer ls' = pvContainer ls" by blast
  have "lists_ok D ls'" by (rule lists_okI [OF s(2)]) (use A(2-4) l in \<open>auto simp: by_value_same [OF s(3)]\<close>)
  moreover have "pvContainer ls i = Some l" using next_c_items [OF n] shape_container [OF A(1) l(1), of i] by simp
  ultimately show ?thesis using s by blast
qed

lemma shape_initialise:
  assumes "shape D A ls" "\<And>i. pvContainer ls i \<noteq> Some l"
  shows "shape (insert l D) (A(l := ([], []))) (vListInitialise l ls)"
proof -
  let ?s = "vListInitialise l ls"
  have "at_cursor ?s m (A m)" if "m \<in> D" "m \<noteq> l" for m
    by (rule at_cursor_frame [of ls]) (use assms(1) that in \<open>auto simp: shape_def vListInitialise_def Let_def\<close>)
  moreover have "at_cursor ?s l ([], [])" by (simp add: at_cursor_def ring_def vListInitialise_def Let_def)
  moreover have "pvContainer ?s = pvContainer ls" by (simp add: vListInitialise_def Let_def)
  ultimately show ?thesis using assms by (auto simp: shape_def)
qed

lemma lists_ok_initialise:
  assumes "lists_ok D ls" "l \<notin> {..<11}" "\<And>i. pvContainer ls i \<noteq> Some l"
  shows "lists_ok (insert l D) (vListInitialise l ls)"
proof -
  obtain A where A: "shape D A ls" "\<And>l. l \<in> D \<Longrightarrow> l \<notin> end_lists \<Longrightarrow> fst (A l) = []" "{..<11} \<subseteq> D"
    "\<And>l. l = 7 \<or> l = 8 \<Longrightarrow> by_value ls (items_of (A l))" by (rule lists_okE [OF assms(1)]) (rule that)
  from shape_initialise [OF A(1) assms(3)] show ?thesis
  proof (rule lists_okI)
    show "by_value (vListInitialise l ls) (items_of ((A(l := ([], []))) m))" if "m = 7 \<or> m = 8" for m
      using A(4) [OF that] that assms(2) by (auto simp: by_value_def vListInitialise_def Let_def)
  qed (use A(2,3) in auto)
qed

lemma initialise_keeps [simp]:
  "pvContainer (vListInitialise l ls) = pvContainer ls" "pvOwner (vListInitialise l ls) = pvOwner ls"
  "xItemValue (vListInitialise l ls) (Item i) = xItemValue ls (Item i)"
  by (simp_all add: vListInitialise_def Let_def)

section \<open>The invariant\<close>

lemma item_simps [simp]:
  "xGenericListItem t = xGenericListItem u \<longleftrightarrow> t = u" "xEventListItem t = xEventListItem u \<longleftrightarrow> t = u"
  "xGenericListItem t \<noteq> xEventListItem u" "xEventListItem u \<noteq> xGenericListItem t"
  by (simp_all add: xGenericListItem_def xEventListItem_def) presburger+

abbreviation wake_time :: "sched \<Rightarrow> nat \<Rightarrow> 32 word" where
  "wake_time s t \<equiv> xItemValue (lsts s) (Item (xGenericListItem t))"

text \<open>The list of the priority of a task, and the tasks in a list of generic items.\<close>

abbreviation ready_list :: "sched \<Rightarrow> nat \<Rightarrow> nat" where
  "ready_list s t \<equiv> unat (uxPriority s t)"

text \<open>
  The tasks \<open>T\<close> have small addresses and valid priorities and own their items; only items of tasks are in lists;
  event items are in event lists or pending; the generic item of a task is in the ready list of its priority, in a
  delayed list or among the deleted ones; a task whose event item is in a list is delayed.
\<close>

definition tasks_ok :: "nat set \<Rightarrow> sched \<Rightarrow> bool" where
  "tasks_ok T s \<longleftrightarrow> finite T \<and>
     (\<forall>t\<in>T. t < 2 ^ 30 \<and> uxPriority s t < 7 \<and> uxBasePriority s t < 7 \<and>
        pvOwner (lsts s) (xGenericListItem t) = t \<and> pvOwner (lsts s) (xEventListItem t) = t) \<and>
     (\<forall>t. t \<notin> T \<longrightarrow> generic_in s t = None \<and> event_in s t = None) \<and>
     (\<forall>t\<in>T. \<forall>l. event_in s t = Some l \<longrightarrow> l = 9 \<or> 11 \<le> l) \<and>
     (\<forall>t\<in>T. \<exists>l. generic_in s t = Some l \<and> (l = ready_list s t \<or> l = 7 \<or> l = 8 \<or> l = 10)) \<and>
     (\<forall>t\<in>T. event_in s t \<noteq> None \<longrightarrow> generic_in s t = Some 7 \<or> generic_in s t = Some 8)"

definition delay_lists_ok :: "sched \<Rightarrow> bool" where
  "delay_lists_ok s \<longleftrightarrow> pxDelayedTaskList s = 7 \<and> pxOverflowDelayedTaskList s = 8 \<or> pxDelayedTaskList s = 8 \<and> pxOverflowDelayedTaskList s = 7"

text \<open>Tasks in the current delayed list wake later, before the tick count wraps; those in the other one after it wraps.\<close>

definition time_ok :: "nat set \<Rightarrow> sched \<Rightarrow> bool" where
  "time_ok T s \<longleftrightarrow> (\<forall>t\<in>T. (generic_in s t = Some (pxDelayedTaskList s) \<longrightarrow> xTickCount s < wake_time s t) \<and>
     (generic_in s t = Some (pxOverflowDelayedTaskList s) \<longrightarrow> wake_time s t < xTickCount s))"

definition top_ok :: "nat set \<Rightarrow> sched \<Rightarrow> bool" where
  "top_ok T s \<longleftrightarrow> uxTopReadyPriority s < 7 \<and> (\<forall>t\<in>T. generic_in s t = Some (ready_list s t) \<longrightarrow> uxPriority s t \<le> uxTopReadyPriority s)"

text \<open>What holds also inside the loops over the delayed tasks and over the pending tasks.\<close>

definition core_ok :: "nat set \<Rightarrow> nat set \<Rightarrow> sched \<Rightarrow> bool" where
  "core_ok T E s \<longleftrightarrow> E \<inter> {..<11} = {} \<and> lists_ok ({..<11} \<union> E) (lsts s) \<and> tasks_ok T s \<and> delay_lists_ok s \<and> top_ok T s"

lemma tasks_okD:
  assumes "tasks_ok T s" "t \<in> T"
  shows "t < 2 ^ 30" "uxPriority s t < 7" "uxBasePriority s t < 7"
    "pvOwner (lsts s) (xGenericListItem t) = t" "pvOwner (lsts s) (xEventListItem t) = t"
    "\<exists>l. generic_in s t = Some l \<and> (l = ready_list s t \<or> l = 7 \<or> l = 8 \<or> l = 10)"
    "event_in s t \<noteq> None \<Longrightarrow> generic_in s t = Some 7 \<or> generic_in s t = Some 8"
  using assms unfolding tasks_ok_def by blast+

lemma task_items:
  assumes "tasks_ok T s" "t \<in> T"
  shows "xGenericListItem t < 2 ^ 31" "xEventListItem t < 2 ^ 31"
  using tasks_okD(1) [OF assms] by (simp_all add: xGenericListItem_def xEventListItem_def)

lemma ready_list_less: "tasks_ok T s \<Longrightarrow> t \<in> T \<Longrightarrow> ready_list s t < 7"
  using tasks_okD(2) [of T s t] by (simp add: word_less_nat_alt)

lemma item_cases:
  obtains t where "i = xGenericListItem t" | t where "i = xEventListItem t"
  by (cases "even i") (auto simp: xGenericListItem_def xEventListItem_def elim: evenE oddE)

lemma tasks_only: "tasks_ok T s \<Longrightarrow> generic_in s t = Some l \<Longrightarrow> t \<in> T" "tasks_ok T s \<Longrightarrow> event_in s t = Some l \<Longrightarrow> t \<in> T"
  unfolding tasks_ok_def by (metis option.distinct(1))+

lemma generic_item:
  assumes "tasks_ok T s" "pvContainer (lsts s) i = Some l" "l < 9 \<or> l = 10"
  obtains t where "t \<in> T" "i = xGenericListItem t"
proof (cases i rule: item_cases)
  case (2 t)
  then have "t \<in> T" "event_in s t = Some l" using assms tasks_only(2) by auto
  then show ?thesis using assms(1,3) unfolding tasks_ok_def by fastforce
next
  case (1 t)
  then show ?thesis using that [of t] tasks_only(1) [OF assms(1), of t l] assms(2) by simp
qed

lemma event_item:
  assumes "tasks_ok T s" "pvContainer (lsts s) i = Some l" "l = 9 \<or> 11 \<le> l"
  obtains t where "t \<in> T" "i = xEventListItem t"
proof (cases i rule: item_cases)
  case (1 t)
  then have "t \<in> T" "generic_in s t = Some l" using assms tasks_only(1) by auto
  then show ?thesis using tasks_okD(6) [OF assms(1), of t] ready_list_less [OF assms(1), of t] assms(3) by auto
next
  case (2 t)
  then show ?thesis using that [of t] tasks_only(2) [OF assms(1), of t l] assms(2) by simp
qed

lemma add_to_ready:
  assumes "lists_ok D (lsts s)" "generic_in s t = None" "t < 2 ^ 30" "uxPriority s t < 7"
  shows "\<exists>ls. prvAddTaskToReadyQueue t s = Some (s\<lparr>lsts := ls, uxTopReadyPriority := max (uxTopReadyPriority s) (uxPriority s t)\<rparr>) \<and>
    lists_ok D ls \<and> xItemValue ls = xItemValue (lsts s) \<and> pvOwner ls = pvOwner (lsts s) \<and>
    pvContainer ls = (pvContainer (lsts s))(xGenericListItem t \<mapsto> ready_list s t)"
proof -
  let ?ls = "vListInsertEnd (ready_list s t) (xGenericListItem t) (lsts s)"
  have p: "ready_list s t \<in> end_lists" "xGenericListItem t < 2 ^ 31"
    using assms(3,4) by (simp_all add: end_lists_def word_less_nat_alt xGenericListItem_def)
  have l: "pxReadyTasksLists (uxPriority s t) = Some (ready_list s t)" using assms(4) by (simp add: pxReadyTasksLists_def configMAX_PRIORITIES_def)
  have "prvAddTaskToReadyQueue t s = Some (s\<lparr>lsts := ?ls, uxTopReadyPriority := max (uxTopReadyPriority s) (uxPriority s t)\<rparr>)"
  proof (cases "uxTopReadyPriority s < uxPriority s t")
    case True
    then show ?thesis by (simp add: prvAddTaskToReadyQueue_def Let_def l on_lists_def)
  next
    case False
    then have "max (uxTopReadyPriority s) (uxPriority s t) = uxTopReadyPriority s" by simp
    then show ?thesis using False by (simp add: prvAddTaskToReadyQueue_def Let_def l on_lists_def)
  qed
  then show ?thesis using lists_ok_insert_end [OF assms(1,2) p(2,1)] by (intro exI [of _ ?ls]) simp
qed

section \<open>Waking tasks\<close>

text \<open>The tasks \<open>W\<close> have been made ready.\<close>

definition woken :: "nat set \<Rightarrow> sched \<Rightarrow> sched \<Rightarrow> bool" where
  "woken W s s' \<longleftrightarrow> (\<exists>ls tp. s' = s\<lparr>lsts := ls, uxTopReadyPriority := tp\<rparr> \<and> xItemValue ls = xItemValue (lsts s) \<and> pvOwner ls = pvOwner (lsts s) \<and>
     uxTopReadyPriority s \<le> tp \<and> tp < 7 \<and> (\<forall>t\<in>W. uxPriority s t \<le> tp) \<and>
     (\<forall>t. pvContainer ls (xGenericListItem t) = (if t \<in> W then Some (ready_list s t) else generic_in s t) \<and>
          pvContainer ls (xEventListItem t) = (if t \<in> W then None else event_in s t)))"

lemma wokenE:
  assumes "woken W s s'"
  obtains ls tp where "s' = s\<lparr>lsts := ls, uxTopReadyPriority := tp\<rparr>" "xItemValue ls = xItemValue (lsts s)" "pvOwner ls = pvOwner (lsts s)"
    "uxTopReadyPriority s \<le> tp" "tp < 7" "\<And>t. t \<in> W \<Longrightarrow> uxPriority s t \<le> tp"
    "\<And>t. pvContainer ls (xGenericListItem t) = (if t \<in> W then Some (ready_list s t) else generic_in s t)"
    "\<And>t. pvContainer ls (xEventListItem t) = (if t \<in> W then None else event_in s t)"
  using assms unfolding woken_def by blast

lemma woken_refl: "uxTopReadyPriority s < 7 \<Longrightarrow> woken {} s s"
  unfolding woken_def by (intro exI [of _ "lsts s"] exI [of _ "uxTopReadyPriority s"]) simp

lemma woken_trans:
  assumes "woken V s s1" "woken W s1 s2"
  shows "woken (V \<union> W) s s2"
proof -
  from assms(1) obtain ls1 tp1 where a: "s1 = s\<lparr>lsts := ls1, uxTopReadyPriority := tp1\<rparr>" "xItemValue ls1 = xItemValue (lsts s)" "pvOwner ls1 = pvOwner (lsts s)"
    "uxTopReadyPriority s \<le> tp1" "tp1 < 7" "\<And>t. t \<in> V \<Longrightarrow> uxPriority s t \<le> tp1"
    "\<And>t. pvContainer ls1 (xGenericListItem t) = (if t \<in> V then Some (ready_list s t) else generic_in s t)"
    "\<And>t. pvContainer ls1 (xEventListItem t) = (if t \<in> V then None else event_in s t)" by (rule wokenE) (rule that)
  from assms(2) obtain ls2 tp2 where b: "s2 = s1\<lparr>lsts := ls2, uxTopReadyPriority := tp2\<rparr>" "xItemValue ls2 = xItemValue (lsts s1)" "pvOwner ls2 = pvOwner (lsts s1)"
    "uxTopReadyPriority s1 \<le> tp2" "tp2 < 7" "\<And>t. t \<in> W \<Longrightarrow> uxPriority s1 t \<le> tp2"
    "\<And>t. pvContainer ls2 (xGenericListItem t) = (if t \<in> W then Some (ready_list s1 t) else generic_in s1 t)"
    "\<And>t. pvContainer ls2 (xEventListItem t) = (if t \<in> W then None else event_in s1 t)" by (rule wokenE) (rule that)
  have le: "tp1 \<le> tp2" using a(1) b(4) by simp
  show ?thesis unfolding woken_def
    by (intro exI [of _ ls2] exI [of _ tp2] conjI) (use a b le in \<open>auto intro: order_trans\<close>)
qed

lemma woken_tasks:
  assumes "tasks_ok T s" "woken W s s'" "W \<subseteq> T"
  shows "tasks_ok T s'"
proof -
  from assms(2) obtain ls tp where a: "s' = s\<lparr>lsts := ls, uxTopReadyPriority := tp\<rparr>" "pvOwner ls = pvOwner (lsts s)"
    "\<And>t. pvContainer ls (xGenericListItem t) = (if t \<in> W then Some (ready_list s t) else generic_in s t)"
    "\<And>t. pvContainer ls (xEventListItem t) = (if t \<in> W then None else event_in s t)" by (rule wokenE) (rule that)
  show ?thesis using assms(1,3) by (auto simp: tasks_ok_def a)
qed

lemma woken_core:
  assumes "core_ok T E s" "woken W s s'" "W \<subseteq> T" "lists_ok ({..<11} \<union> E) (lsts s')"
  shows "core_ok T E s'"
proof -
  from assms(2) obtain ls tp where a: "s' = s\<lparr>lsts := ls, uxTopReadyPriority := tp\<rparr>" "xItemValue ls = xItemValue (lsts s)" "pvOwner ls = pvOwner (lsts s)"
    "uxTopReadyPriority s \<le> tp" "tp < 7" "\<And>t. t \<in> W \<Longrightarrow> uxPriority s t \<le> tp"
    "\<And>t. pvContainer ls (xGenericListItem t) = (if t \<in> W then Some (ready_list s t) else generic_in s t)"
    "\<And>t. pvContainer ls (xEventListItem t) = (if t \<in> W then None else event_in s t)" by (rule wokenE) (rule that)
  have "tasks_ok T s'" using assms(1) woken_tasks [OF _ assms(2,3)] by (simp add: core_ok_def)
  moreover have "top_ok T s'" using assms(1) a(4-6) by (auto simp: core_ok_def top_ok_def a(1,7) intro: order_trans)
  ultimately show ?thesis using assms(1,4) by (simp add: core_ok_def delay_lists_ok_def a(1))
qed

lemma try_remove:
  assumes "lists_ok D (lsts s)" "pvContainer (lsts s) i = Some l"
  shows "\<exists>ls. try_lists (vListRemove i) s = Some (s\<lparr>lsts := ls\<rparr>) \<and> lists_ok D ls \<and> xItemValue ls = xItemValue (lsts s) \<and> pvOwner ls = pvOwner (lsts s) \<and>
    pvContainer ls = (pvContainer (lsts s))(i := None)"
  using lists_ok_remove [OF assms] by (auto simp: try_lists_def)

text \<open>The generic item and, if it is in a list, the event item are removed.\<close>

lemma detach:
  assumes "lists_ok D (lsts s)" "generic_in s t = Some l"
  shows "\<exists>l1 l2. try_lists (vListRemove (xGenericListItem t)) s = Some (s\<lparr>lsts := l1\<rparr>) \<and>
    (if event_in (s\<lparr>lsts := l1\<rparr>) t \<noteq> None then try_lists (vListRemove (xEventListItem t)) (s\<lparr>lsts := l1\<rparr>) else Some (s\<lparr>lsts := l1\<rparr>)) = Some (s\<lparr>lsts := l2\<rparr>) \<and>
    lists_ok D l2 \<and> xItemValue l2 = xItemValue (lsts s) \<and> pvOwner l2 = pvOwner (lsts s) \<and>
    pvContainer l2 = (pvContainer (lsts s))(xGenericListItem t := None, xEventListItem t := None)"
proof -
  from try_remove [OF assms] obtain l1 where l1: "try_lists (vListRemove (xGenericListItem t)) s = Some (s\<lparr>lsts := l1\<rparr>)" "lists_ok D l1"
    "xItemValue l1 = xItemValue (lsts s)" "pvOwner l1 = pvOwner (lsts s)" "pvContainer l1 = (pvContainer (lsts s))(xGenericListItem t := None)" by blast
  show ?thesis
  proof (cases "event_in (s\<lparr>lsts := l1\<rparr>) t")
    case None
    then have "pvContainer l1 = (pvContainer l1)(xEventListItem t := None)" by (simp add: fun_upd_idem)
    then show ?thesis using None l1 by (intro exI [of _ l1] conjI) simp_all
  next
    case (Some m)
    then have "lists_ok D (lsts (s\<lparr>lsts := l1\<rparr>))" using l1(2) by simp
    from try_remove [OF this Some] obtain l2 where "try_lists (vListRemove (xEventListItem t)) (s\<lparr>lsts := l1\<rparr>) = Some (s\<lparr>lsts := l2\<rparr>)" "lists_ok D l2"
      "xItemValue l2 = xItemValue l1" "pvOwner l2 = pvOwner l1" "pvContainer l2 = (pvContainer l1)(xEventListItem t := None)" by auto
    then show ?thesis using Some l1 by (intro exI [of _ l1] exI [of _ l2]) simp
  qed
qed

text \<open>Then the task is added to its ready list.\<close>

lemma make_ready:
  assumes "lists_ok D (lsts s)" "generic_in s t = Some l" "t < 2 ^ 30" "uxPriority s t < 7" "uxTopReadyPriority s < 7"
  shows "\<exists>s'. Option.bind (try_lists (vListRemove (xGenericListItem t)) s) (\<lambda>s1.
      Option.bind (if event_in s1 t \<noteq> None then try_lists (vListRemove (xEventListItem t)) s1 else Some s1) (prvAddTaskToReadyQueue t)) = Some s' \<and>
    woken {t} s s' \<and> lists_ok D (lsts s')"
proof -
  from detach [OF assms(1,2)] obtain l1 l2 where l: "try_lists (vListRemove (xGenericListItem t)) s = Some (s\<lparr>lsts := l1\<rparr>)"
    "(if event_in (s\<lparr>lsts := l1\<rparr>) t \<noteq> None then try_lists (vListRemove (xEventListItem t)) (s\<lparr>lsts := l1\<rparr>) else Some (s\<lparr>lsts := l1\<rparr>)) = Some (s\<lparr>lsts := l2\<rparr>)"
    "lists_ok D l2" "xItemValue l2 = xItemValue (lsts s)" "pvOwner l2 = pvOwner (lsts s)"
    "pvContainer l2 = (pvContainer (lsts s))(xGenericListItem t := None, xEventListItem t := None)" by blast
  have "lists_ok D (lsts (s\<lparr>lsts := l2\<rparr>))" "generic_in (s\<lparr>lsts := l2\<rparr>) t = None" "uxPriority (s\<lparr>lsts := l2\<rparr>) t < 7" using l(3,6) assms(4) by simp_all
  from add_to_ready [OF this(1,2) assms(3) this(3)] obtain l3 where l3:
    "prvAddTaskToReadyQueue t (s\<lparr>lsts := l2\<rparr>) = Some (s\<lparr>lsts := l3, uxTopReadyPriority := max (uxTopReadyPriority s) (uxPriority s t)\<rparr>)"
    "lists_ok D l3" "xItemValue l3 = xItemValue l2" "pvOwner l3 = pvOwner l2" "pvContainer l3 = (pvContainer l2)(xGenericListItem t \<mapsto> ready_list s t)" by auto
  have "woken {t} s (s\<lparr>lsts := l3, uxTopReadyPriority := max (uxTopReadyPriority s) (uxPriority s t)\<rparr>)"
    unfolding woken_def using l(4-6) l3(3-5) assms(4,5) by (intro exI [of _ l3] exI conjI) (rule refl, auto)
  then show ?thesis using l(1,2) l3(1,2) by simp
qed

section \<open>Ticks\<close>

lemma core_okD:
  assumes "core_ok T E s"
  shows "lists_ok ({..<11} \<union> E) (lsts s)" "tasks_ok T s" "top_ok T s" "uxTopReadyPriority s < 7" "delay_lists_ok s"
    "pxDelayedTaskList s \<in> {..<11} \<union> E" "pxDelayedTaskList s = 7 \<or> pxDelayedTaskList s = 8"
    "pxOverflowDelayedTaskList s = 7 \<or> pxOverflowDelayedTaskList s = 8" "pxDelayedTaskList s \<noteq> pxOverflowDelayedTaskList s"
  using assms by (auto simp: core_ok_def top_ok_def delay_lists_ok_def)

text \<open>The tasks whose time has come.\<close>

definition due :: "sched \<Rightarrow> nat set" where
  "due s = {t. generic_in s t = Some (pxDelayedTaskList s) \<and> wake_time s t \<le> xTickCount s}"

lemma due_woken: "woken {t} s s' \<Longrightarrow> t \<in> due s \<Longrightarrow> ready_list s t < 7 \<Longrightarrow> delay_lists_ok s \<Longrightarrow> due s' = due s - {t}"
  by (erule wokenE) (auto simp: due_def delay_lists_ok_def)

lemma due_tasks: "core_ok T E s \<Longrightarrow> due s \<subseteq> T \<and> finite (due s)"
proof -
  assume "core_ok T E s"
  then have t: "tasks_ok T s" by (rule core_okD(2))
  have "due s \<subseteq> T" using tasks_only(1) [OF t] by (auto simp: due_def)
  moreover have "finite T" using t by (simp add: tasks_ok_def)
  ultimately show ?thesis by (simp add: finite_subset)
qed

lemma check_delayed:
  assumes "core_ok T E s"
  shows "\<exists>s'. prvCheckDelayedTasks s = Some s' \<and> woken (due s) s s' \<and> core_ok T E s'"
  using assms
proof (induction "card (due s)" arbitrary: s rule: less_induct)
  case less
  note c = core_okD [OF less.prems]
  from c(1,6) show ?case
  proof (cases rule: lists_ok_head)
    case none
    then have "due s = {}" by (auto simp: due_def)
    then show ?thesis using none(1) woken_refl [OF c(4)] less.prems by (subst prvCheckDelayedTasks.simps) simp
  next
    case (head i)
    have "pxDelayedTaskList s < 9 \<or> pxDelayedTaskList s = 10" using c(7) by auto
    from c(2) head(2) this obtain t where t: "t \<in> T" "i = xGenericListItem t" by (rule generic_item)
    have ow: "pvOwner (lsts s) i = t" using tasks_okD(4) [OF c(2) t(1)] t(2) by simp
    show ?thesis
    proof (cases "xTickCount s < wake_time s t")
      case True
      then have "due s = {}" using head(3) c(7) t(2) by (fastforce simp: due_def)
      then show ?thesis using head(1) ow True t(2) woken_refl [OF c(4)] less.prems
        by (subst prvCheckDelayedTasks.simps) (simp add: listGET_LIST_ITEM_VALUE_def)
    next
      case False
      then have d: "t \<in> due s" using head(2) t(2) by (simp add: due_def)
      have l: "generic_in s t = Some (pxDelayedTaskList s)" using head(2) t(2) by simp
      from make_ready [OF c(1) l tasks_okD(1,2) [OF c(2) t(1)] c(4)] obtain s1 where
        s1: "Option.bind (try_lists (vListRemove (xGenericListItem t)) s) (\<lambda>s1.
          Option.bind (if event_in s1 t \<noteq> None then try_lists (vListRemove (xEventListItem t)) s1 else Some s1) (prvAddTaskToReadyQueue t)) = Some s1"
        "woken {t} s s1" "lists_ok ({..<11} \<union> E) (lsts s1)" by blast
      have s1': "core_ok T E s1" "due s1 = due s - {t}"
        using woken_core [OF less.prems s1(2) _ s1(3)] due_woken [OF s1(2) d ready_list_less [OF c(2) t(1)] c(5)] t(1) by simp_all
      have "card (due s1) < card (due s)" unfolding s1'(2) using d due_tasks [OF less.prems] by (intro card_Diff1_less) auto
      from less.hyps [OF this s1'(1)] obtain s' where s': "prvCheckDelayedTasks s1 = Some s'" "woken (due s1) s1 s'" "core_ok T E s'" by blast
      have "prvCheckDelayedTasks s = prvCheckDelayedTasks s1"
        using head(1) ow False t(2) s1(1) by (subst prvCheckDelayedTasks.simps) (auto simp: listGET_LIST_ITEM_VALUE_def bind_assoc bind_eq_Some_conv)
      moreover have "woken (due s) s s'" using woken_trans [OF s1(2) s'(2)] s1'(2) d by (simp add: insert_absorb)
      ultimately show ?thesis using s'(1,3) by simp
    qed
  qed
qed

text \<open>The clock of \<open>vTaskIncrementTick\<close>: the count, and the delayed lists change roles when it wraps.\<close>

definition clock :: "sched \<Rightarrow> sched" where
  "clock s = (let s1 = s\<lparr>xTickCount := xTickCount s + 1\<rparr> in
     if xTickCount s1 = 0 then
       s1\<lparr>pxDelayedTaskList := pxOverflowDelayedTaskList s1, pxOverflowDelayedTaskList := pxDelayedTaskList s1, xNumOfOverflows := xNumOfOverflows s1 + 1\<rparr>
     else s1)"

lemma clock_simps [simp]:
  "lsts (clock s) = lsts s" "uxPriority (clock s) = uxPriority s" "uxBasePriority (clock s) = uxBasePriority s" "uxTopReadyPriority (clock s) = uxTopReadyPriority s"
  "xTickCount (clock s) = xTickCount s + 1" "pxCurrentTCB (clock s) = pxCurrentTCB s" "uxSchedulerSuspended (clock s) = uxSchedulerSuspended s"
  "uxMissedTicks (clock s) = uxMissedTicks s"
  by (simp_all add: clock_def Let_def)

lemma clock_core: "core_ok T E s \<Longrightarrow> core_ok T E (clock s)"
  by (auto simp: core_ok_def tasks_ok_def top_ok_def delay_lists_ok_def clock_def Let_def)

lemma tick_less: "(x :: 32 word) + 1 \<noteq> 0 \<Longrightarrow> x < x + 1"
  by (simp add: word_less_nat_alt unatSuc add.commute)

lemma tick_next: "(x :: 32 word) < y \<Longrightarrow> y \<le> x + 1 \<longleftrightarrow> y = x + 1"
  using inc_le [of x y] by auto

definition delayed :: "sched \<Rightarrow> nat \<Rightarrow> bool" where
  "delayed s t \<longleftrightarrow> generic_in s t = Some 7 \<or> generic_in s t = Some 8"

lemma delayed_iff: "delay_lists_ok s \<Longrightarrow> delayed s t \<longleftrightarrow> generic_in s t = Some (pxDelayedTaskList s) \<or> generic_in s t = Some (pxOverflowDelayedTaskList s)"
  by (auto simp: delayed_def delay_lists_ok_def)

lemma tick_max: "(x :: 32 word) + 1 = 0 \<Longrightarrow> \<not> x < y"
  by (metis add_diff_cancel_right' diff_0 leD word_n1_ge)

lemma clock_due:
  assumes "core_ok T E s" "time_ok T s"
  shows "due (clock s) = {t. delayed s t \<and> wake_time s t = xTickCount s + 1}"
proof -
  note c = core_okD [OF assms(1)]
  have d: "xTickCount s < wake_time s t" if "generic_in s t = Some (pxDelayedTaskList s)" for t
    using that assms(2) tasks_only(1) [OF c(2) that] by (simp add: time_ok_def)
  have o': "wake_time s t < xTickCount s" if "generic_in s t = Some (pxOverflowDelayedTaskList s)" for t
    using that assms(2) tasks_only(1) [OF c(2) that] by (simp add: time_ok_def)
  show ?thesis
  proof (cases "xTickCount s + 1 = 0")
    case True
    then show ?thesis using d tick_max [OF True] delayed_iff [OF c(5)] by (fastforce simp: due_def clock_def Let_def)
  next
    case False
    have "wake_time s t \<noteq> xTickCount s + 1" if "generic_in s t = Some (pxOverflowDelayedTaskList s)" for t
      using o' [OF that] tick_less [OF False] by (auto dest: less_trans)
    then show ?thesis using d tick_next False delayed_iff [OF c(5)] by (fastforce simp: due_def clock_def Let_def)
  qed
qed

lemma clock_time:
  assumes "core_ok T E s" "time_ok T s" "woken (due (clock s)) (clock s) s'"
  shows "time_ok T s'"
  unfolding time_ok_def
proof (intro ballI conjI impI)
  note c = core_okD [OF assms(1)] and c' = core_okD [OF clock_core [OF assms(1)]]
  from assms(3) obtain ls tp where a: "s' = (clock s)\<lparr>lsts := ls, uxTopReadyPriority := tp\<rparr>" "xItemValue ls = xItemValue (lsts s)"
    "\<And>t. pvContainer ls (xGenericListItem t) = (if t \<in> due (clock s) then Some (ready_list s t) else generic_in s t)" by (rule wokenE) auto
  fix t assume t: "t \<in> T"
  have r: "ready_list s t < 7" by (rule ready_list_less [OF c(2) t])
  { assume "generic_in s' t = Some (pxDelayedTaskList s')"
    then have "generic_in s t = Some (pxDelayedTaskList (clock s))" "t \<notin> due (clock s)" using r c'(7) by (auto simp: a split: if_splits)
    then show "xTickCount s' < wake_time s' t" by (simp add: a due_def not_le) }
  { assume "generic_in s' t = Some (pxOverflowDelayedTaskList s')"
    then have g: "generic_in s t = Some (pxOverflowDelayedTaskList (clock s))" using r c'(8) by (auto simp: a split: if_splits)
    show "wake_time s' t < xTickCount s'"
    proof (cases "xTickCount s + 1 = 0")
      case True
      then have "xTickCount s < wake_time s t" using g assms(2) t by (simp add: clock_def Let_def time_ok_def)
      then show ?thesis using tick_max [OF True] by blast
    next
      case False
      then have "wake_time s t < xTickCount s" using g assms(2) t by (simp add: clock_def Let_def time_ok_def)
      then show ?thesis using tick_less [OF False] by (simp add: a)
    qed }
qed

lemma increment_tick:
  assumes "core_ok T E s" "time_ok T s" "uxSchedulerSuspended s = 0"
  shows "\<exists>s'. vTaskIncrementTick s = Some s' \<and> woken {t. delayed s t \<and> wake_time s t = xTickCount s + 1} (clock s) s' \<and> core_ok T E s' \<and> time_ok T s'"
proof -
  note c = core_okD [OF assms(1)]
  from check_delayed [OF clock_core [OF assms(1)]] obtain s' where
    s': "prvCheckDelayedTasks (clock s) = Some s'" "woken (due (clock s)) (clock s) s'" "core_ok T E s'" by blast
  have "vTaskIncrementTick s = prvCheckDelayedTasks (clock s)" using assms(3) by (simp add: vTaskIncrementTick_def clock_def Let_def)
  moreover have "time_ok T s'" by (rule clock_time [OF assms(1,2) s'(2)])
  ultimately show ?thesis using s' clock_due [OF assms(1,2)] by simp
qed

section \<open>Context switches\<close>

text \<open>The search stops at the greatest priority with a ready task.\<close>

lemma top_loop_stops:
  assumes "core_ok T E s" "u \<in> T" "generic_in s u = Some (ready_list s u)"
  shows "\<exists>p. top_loop s = Some (s\<lparr>uxTopReadyPriority := p\<rparr>) \<and> core_ok T E (s\<lparr>uxTopReadyPriority := p\<rparr>) \<and>
    (\<exists>t\<in>T. generic_in s t = Some (ready_list s t) \<and> uxPriority s t = p)"
  using assms
proof (induction "unat (uxTopReadyPriority s)" arbitrary: s)
  case 0
  note c = core_okD [OF "0.prems"(1)]
  have tp: "uxTopReadyPriority s = 0" using 0(1) by (simp add: unat_eq_0)
  then have u: "uxPriority s u = 0" using "0.prems" c(3) by (simp add: top_ok_def)
  have "\<not> listLIST_IS_EMPTY 0 (lsts s)" using lists_ok_empty [OF c(1), of 0] "0.prems"(3) u by auto
  then have "top_loop s = Some s" by (subst top_loop.simps) (simp add: tp pxReadyTasksLists_def configMAX_PRIORITIES_def)
  moreover have "s\<lparr>uxTopReadyPriority := 0\<rparr> = s" using tp by simp
  ultimately show ?case using "0.prems" u by (intro exI [of _ 0] conjI bexI [of _ u]) auto
next
  case (Suc n)
  note c = core_okD [OF Suc.prems(1)]
  let ?p = "uxTopReadyPriority s"
  have l: "pxReadyTasksLists ?p = Some (unat ?p)" "unat ?p < 7" using c(4) by (simp_all add: pxReadyTasksLists_def configMAX_PRIORITIES_def word_less_nat_alt)
  show ?case
  proof (cases "listLIST_IS_EMPTY (unat ?p) (lsts s)")
    case False
    then obtain i where i: "pvContainer (lsts s) i = Some (unat ?p)" using lists_ok_empty [OF c(1), of "unat ?p"] l(2) by auto
    from c(2) i obtain t where t: "t \<in> T" "i = xGenericListItem t" by (rule generic_item) (use l(2) in simp)
    then have "ready_list s t = unat ?p" using tasks_okD(6) [OF c(2) t(1)] i l(2) by auto
    then have "uxPriority s t = ?p" by (simp add: word_unat_eq_iff)
    moreover have "s\<lparr>uxTopReadyPriority := ?p\<rparr> = s" by simp
    moreover have "top_loop s = Some s" using False by (subst top_loop.simps) (simp add: l(1))
    ultimately show ?thesis using Suc.prems(1) t i by (intro exI [of _ ?p] conjI bexI [of _ t]) simp_all
  next
    case True
    let ?s = "s\<lparr>uxTopReadyPriority := ?p - 1\<rparr>"
    have n: "unat (?p - 1) = n" using Suc(2) by (metis diff_Suc_1 unat_eq_zero unat_minus_one nat.distinct(1) unat_0)
    have "uxPriority s t \<le> ?p - 1" if "t \<in> T" "generic_in s t = Some (ready_list s t)" for t
    proof -
      have "uxPriority s t \<le> ?p" using that c(3) by (simp add: top_ok_def)
      moreover have "ready_list s t \<noteq> unat ?p" using True that lists_ok_empty [OF c(1), of "unat ?p"] l(2) by auto
      ultimately show ?thesis using n Suc(2) by (simp add: word_le_nat_alt)
    qed
    moreover have "?p - 1 < 7" using n Suc(2) l(2) by (simp add: word_less_nat_alt)
    ultimately have "core_ok T E ?s" using Suc.prems(1) by (auto simp: core_ok_def tasks_ok_def delay_lists_ok_def top_ok_def)
    moreover have "n = unat (uxTopReadyPriority ?s)" using n by simp
    ultimately obtain p where "top_loop ?s = Some (?s\<lparr>uxTopReadyPriority := p\<rparr>)" "core_ok T E (?s\<lparr>uxTopReadyPriority := p\<rparr>)"
      "\<exists>t\<in>T. generic_in s t = Some (ready_list s t) \<and> uxPriority s t = p" using Suc(1) [of ?s] Suc.prems(2,3) by auto
    moreover have "top_loop s = top_loop ?s" using True by (subst top_loop.simps) (simp add: l(1))
    ultimately show ?thesis by (intro exI [of _ p]) simp
  qed
qed

lemma switch_context:
  assumes "core_ok T E s" "uxSchedulerSuspended s = 0" "u \<in> T" "generic_in s u = Some (ready_list s u)"
  shows "\<exists>ls p t. vTaskSwitchContext s = Some (s\<lparr>lsts := ls, uxTopReadyPriority := p, pxCurrentTCB := Some t\<rparr>) \<and>
    core_ok T E (s\<lparr>lsts := ls, uxTopReadyPriority := p, pxCurrentTCB := Some t\<rparr>) \<and> xItemValue ls = xItemValue (lsts s) \<and> pvContainer ls = pvContainer (lsts s) \<and>
    t \<in> T \<and> generic_in s t = Some (ready_list s t) \<and> (\<forall>v\<in>T. generic_in s v = Some (ready_list s v) \<longrightarrow> uxPriority s v \<le> uxPriority s t)"
proof -
  from top_loop_stops [OF assms(1,3,4)] obtain p v where p: "top_loop s = Some (s\<lparr>uxTopReadyPriority := p\<rparr>)" "core_ok T E (s\<lparr>uxTopReadyPriority := p\<rparr>)"
    "v \<in> T" "generic_in s v = Some (ready_list s v)" "uxPriority s v = p" by blast
  note c = core_okD [OF p(2)]
  have l: "pxReadyTasksLists p = Some (unat p)" "unat p < 7" using c(4) by (simp_all add: pxReadyTasksLists_def configMAX_PRIORITIES_def word_less_nat_alt)
  have o': "pvContainer (lsts s) (xGenericListItem v) = Some (unat p)" using p(4,5) by simp
  have lo: "lists_ok ({..<11} \<union> E) (lsts s)" using c(1) by simp
  from lists_ok_next [OF lo l(2) o'] obtain i ls where n: "listGET_OWNER_OF_NEXT_ENTRY (unat p) (lsts s) = Some (pvOwner (lsts s) i, ls)"
    "pvContainer (lsts s) i = Some (unat p)" "lists_ok ({..<11} \<union> E) ls" "xItemValue ls = xItemValue (lsts s)" "pvOwner ls = pvOwner (lsts s)"
    "pvContainer ls = pvContainer (lsts s)" by blast
  have tk: "tasks_ok T s" using assms(1) by (rule core_okD(2))
  from tk n(2) obtain t where t: "t \<in> T" "i = xGenericListItem t" by (rule generic_item) (use l(2) in simp)
  have ow: "pvOwner (lsts s) i = t" using tasks_okD(4) [OF tk t(1)] t(2) by simp
  have "ready_list s t = unat p" using tasks_okD(6) [OF tk t(1)] n(2) t(2) l(2) by auto
  then have tp: "uxPriority s t = p" by (simp add: word_unat_eq_iff)
  have "\<forall>v\<in>T. generic_in s v = Some (ready_list s v) \<longrightarrow> uxPriority s v \<le> p" using c(3) by (simp add: top_ok_def)
  moreover have "vTaskSwitchContext s = Some (s\<lparr>lsts := ls, uxTopReadyPriority := p, pxCurrentTCB := Some t\<rparr>)"
    using assms(2) p(1) l(1) n(1) ow by (simp add: vTaskSwitchContext_def)
  moreover have "core_ok T E (s\<lparr>lsts := ls, uxTopReadyPriority := p, pxCurrentTCB := Some t\<rparr>)"
    using p(2) n(3,5,6) by (simp add: core_ok_def tasks_ok_def delay_lists_ok_def top_ok_def)
  ultimately show ?thesis using n(2,4,6) t tp by (intro exI [of _ ls] exI [of _ p] exI [of _ t] conjI) simp_all
qed

section \<open>Resuming the scheduler\<close>

text \<open>The event item is removed, then the generic item, and the task is added to its ready list.\<close>

lemma make_ready_event:
  assumes "lists_ok D (lsts s)" "generic_in s t = Some l" "event_in s t = Some m" "t < 2 ^ 30" "uxPriority s t < 7" "uxTopReadyPriority s < 7"
  shows "\<exists>s'. Option.bind (try_lists (vListRemove (xEventListItem t)) s) (\<lambda>s1.
      Option.bind (try_lists (vListRemove (xGenericListItem t)) s1) (prvAddTaskToReadyQueue t)) = Some s' \<and>
    woken {t} s s' \<and> lists_ok D (lsts s')"
proof -
  from try_remove [OF assms(1,3)] obtain l1 where l1: "try_lists (vListRemove (xEventListItem t)) s = Some (s\<lparr>lsts := l1\<rparr>)" "lists_ok D l1"
    "xItemValue l1 = xItemValue (lsts s)" "pvOwner l1 = pvOwner (lsts s)" "pvContainer l1 = (pvContainer (lsts s))(xEventListItem t := None)" by blast
  have g: "generic_in (s\<lparr>lsts := l1\<rparr>) t = Some l" "event_in (s\<lparr>lsts := l1\<rparr>) t = None" using assms(2) l1(5) by simp_all
  from make_ready [of D "s\<lparr>lsts := l1\<rparr>", OF _ g(1) assms(4)] l1(2) assms(5,6) obtain s' where
    s': "Option.bind (try_lists (vListRemove (xGenericListItem t)) (s\<lparr>lsts := l1\<rparr>)) (\<lambda>s1.
      Option.bind (if event_in s1 t \<noteq> None then try_lists (vListRemove (xEventListItem t)) s1 else Some s1) (prvAddTaskToReadyQueue t)) = Some s'"
    "woken {t} (s\<lparr>lsts := l1\<rparr>) s'" "lists_ok D (lsts s')" by auto
  from try_remove [of D "s\<lparr>lsts := l1\<rparr>", OF _ g(1)] l1(2) obtain l2 where l2: "try_lists (vListRemove (xGenericListItem t)) (s\<lparr>lsts := l1\<rparr>) = Some (s\<lparr>lsts := l2\<rparr>)"
    "pvContainer l2 = (pvContainer l1)(xGenericListItem t := None)" by auto
  have "prvAddTaskToReadyQueue t (s\<lparr>lsts := l2\<rparr>) = Some s'" using s'(1) l2 l1(5) by simp
  moreover have "woken {t} s s'"
    using s'(2) l1(3-5) unfolding woken_def by (auto split: if_splits)
  ultimately show ?thesis using l1(1) l2(1) s'(3) by simp
qed

definition pending :: "sched \<Rightarrow> nat set" where
  "pending s = {t. event_in s t = Some xPendingReadyList}"

lemma pending_woken: "woken W s s' \<Longrightarrow> pending s' = pending s - W"
  by (erule wokenE) (auto simp: pending_def)

lemma pending_tasks: "core_ok T E s \<Longrightarrow> pending s \<subseteq> T \<and> finite (pending s)"
proof -
  assume "core_ok T E s"
  then have t: "tasks_ok T s" by (rule core_okD(2))
  have "pending s \<subseteq> T" using tasks_only(2) [OF t] by (auto simp: pending_def)
  moreover have "finite T" using t by (simp add: tasks_ok_def)
  ultimately show ?thesis by (simp add: finite_subset)
qed

lemma pending_ready:
  assumes "core_ok T E s" "pxCurrentTCB s = Some c"
  shows "\<exists>s'. pending_loop y s = Some (y \<or> (\<exists>t\<in>pending s. uxPriority s c \<le> uxPriority s t), s') \<and> woken (pending s) s s' \<and> core_ok T E s'"
  using assms
proof (induction "card (pending s)" arbitrary: s y rule: less_induct)
  case less
  note c = core_okD [OF less.prems(1)]
  have "xPendingReadyList \<in> {..<11} \<union> E" by (simp add: xPendingReadyList_def)
  from c(1) this show ?case
  proof (cases rule: lists_ok_head)
    case none
    then have "pending s = {}" by (auto simp: pending_def)
    then show ?thesis using none(1) woken_refl [OF c(4)] less.prems by (subst pending_loop.simps) simp
  next
    case (head i)
    from c(2) head(2) obtain t where t: "t \<in> T" "i = xEventListItem t" by (rule event_item) (simp add: xPendingReadyList_def)
    have ow: "pvOwner (lsts s) i = t" using tasks_okD(5) [OF c(2) t(1)] t(2) by simp
    have p: "t \<in> pending s" and e: "event_in s t = Some xPendingReadyList" using head(2) t(2) by (simp_all add: pending_def)
    obtain l where l: "generic_in s t = Some l" using tasks_okD(6) [OF c(2) t(1)] by blast
    from make_ready_event [OF c(1) l e tasks_okD(1,2) [OF c(2) t(1)] c(4)] obtain s1 where
      s1: "Option.bind (try_lists (vListRemove (xEventListItem t)) s) (\<lambda>s1. Option.bind (try_lists (vListRemove (xGenericListItem t)) s1) (prvAddTaskToReadyQueue t)) = Some s1"
      "woken {t} s s1" "lists_ok ({..<11} \<union> E) (lsts s1)" by blast
    have s1': "core_ok T E s1" "pending s1 = pending s - {t}" using woken_core [OF less.prems(1) s1(2) _ s1(3)] pending_woken [OF s1(2)] t(1) by simp_all
    have k: "pxCurrentTCB s1 = Some c" "uxPriority s1 = uxPriority s" using s1(2) less.prems(2) by (auto elim!: wokenE)
    have "card (pending s1) < card (pending s)" unfolding s1'(2) using p pending_tasks [OF less.prems(1)] by (intro card_Diff1_less) auto
    from less.hyps [OF this s1'(1) k(1)] obtain s' where s': "pending_loop (y \<or> uxPriority s c \<le> uxPriority s t) s1 =
        Some ((y \<or> uxPriority s c \<le> uxPriority s t) \<or> (\<exists>t\<in>pending s1. uxPriority s1 c \<le> uxPriority s1 t), s')" "woken (pending s1) s1 s'" "core_ok T E s'" by blast
    have "pending_loop y s = pending_loop (y \<or> uxPriority s c \<le> uxPriority s t) s1"
      using head(1) ow s1(1) k by (subst pending_loop.simps) (auto simp: bind_assoc bind_eq_Some_conv)
    moreover have "woken (pending s) s s'" using woken_trans [OF s1(2) s'(2)] s1'(2) p by (simp add: insert_absorb)
    moreover have "((y \<or> uxPriority s c \<le> uxPriority s t) \<or> (\<exists>t\<in>pending s1. uxPriority s1 c \<le> uxPriority s1 t)) = (y \<or> (\<exists>t\<in>pending s. uxPriority s c \<le> uxPriority s t))"
      using s1'(2) p k(2) by auto
    ultimately show ?thesis using s'(1,3) by simp
  qed
qed

text \<open>The ticks a delayed task still has to wait.\<close>

definition remaining :: "sched \<Rightarrow> nat \<Rightarrow> nat" where
  "remaining s t = unat (wake_time s t - xTickCount s)"

text \<open>\<open>n\<close> ticks have passed: the tasks whose time has come are ready, and nothing else has changed.\<close>

definition elapsed :: "nat \<Rightarrow> sched \<Rightarrow> sched \<Rightarrow> bool" where
  "elapsed n s s' \<longleftrightarrow> (\<exists>ls tp d v k. s' = s\<lparr>lsts := ls, uxTopReadyPriority := tp, xTickCount := xTickCount s + word_of_nat n,
       pxDelayedTaskList := d, pxOverflowDelayedTaskList := v, xNumOfOverflows := k\<rparr> \<and> xItemValue ls = xItemValue (lsts s) \<and>
     (\<forall>t. pvContainer ls (xGenericListItem t) = (if delayed s t \<and> remaining s t \<le> n then Some (ready_list s t) else generic_in s t) \<and>
          pvContainer ls (xEventListItem t) = (if delayed s t \<and> remaining s t \<le> n then None else event_in s t)))"

lemma elapsedE:
  assumes "elapsed n s s'"
  obtains ls tp d v k where "s' = s\<lparr>lsts := ls, uxTopReadyPriority := tp, xTickCount := xTickCount s + word_of_nat n,
       pxDelayedTaskList := d, pxOverflowDelayedTaskList := v, xNumOfOverflows := k\<rparr>" "xItemValue ls = xItemValue (lsts s)"
    "\<And>t. pvContainer ls (xGenericListItem t) = (if delayed s t \<and> remaining s t \<le> n then Some (ready_list s t) else generic_in s t)"
    "\<And>t. pvContainer ls (xEventListItem t) = (if delayed s t \<and> remaining s t \<le> n then None else event_in s t)"
  using assms unfolding elapsed_def by blast

lemma time_waits:
  assumes "core_ok T E s" "time_ok T s" "delayed s t"
  shows "0 < remaining s t"
proof -
  note c = core_okD [OF assms(1)]
  have "t \<in> T" using assms(3) tasks_only(1) [OF c(2)] by (auto simp: delayed_def)
  then have "wake_time s t \<noteq> xTickCount s" using assms(2,3) delayed_iff [OF c(5), of t] by (auto simp: time_ok_def)
  then show ?thesis by (simp add: remaining_def unat_gt_0)
qed

lemma elapsed_0:
  assumes "core_ok T E s" "time_ok T s"
  shows "elapsed 0 s s"
  unfolding elapsed_def
proof (intro exI conjI allI)
  show "s = s\<lparr>lsts := lsts s, uxTopReadyPriority := uxTopReadyPriority s, xTickCount := xTickCount s + word_of_nat 0,
    pxDelayedTaskList := pxDelayedTaskList s, pxOverflowDelayedTaskList := pxOverflowDelayedTaskList s, xNumOfOverflows := xNumOfOverflows s\<rparr>" by simp
qed (auto dest: time_waits [OF assms])

lemma elapsed_tick:
  assumes "core_ok T E s" "time_ok T s" "woken {t. delayed s t \<and> wake_time s t = xTickCount s + 1} (clock s) s'"
  shows "elapsed 1 s s'"
proof -
  have "wake_time s t = xTickCount s + 1 \<longleftrightarrow> remaining s t \<le> 1" if "delayed s t" for t
  proof -
    have "remaining s t \<le> 1 \<longleftrightarrow> remaining s t = 1" using time_waits [OF assms(1,2) that] by auto
    also have "\<dots> \<longleftrightarrow> wake_time s t - xTickCount s = 1" by (simp add: remaining_def word_unat_eq_iff)
    finally show ?thesis by (auto simp: diff_eq_eq add.commute)
  qed
  then have e: "{t. delayed s t \<and> wake_time s t = xTickCount s + 1} = {t. delayed s t \<and> remaining s t \<le> 1}" by auto
  show ?thesis
  proof (rule wokenE [OF assms(3) [unfolded e]])
    fix ls tp
    assume a: "s' = clock s\<lparr>lsts := ls, uxTopReadyPriority := tp\<rparr>" "xItemValue ls = xItemValue (lsts (clock s))"
      "\<And>t. pvContainer ls (xGenericListItem t) = (if t \<in> {t. delayed s t \<and> remaining s t \<le> 1} then Some (ready_list (clock s) t) else generic_in (clock s) t)"
      "\<And>t. pvContainer ls (xEventListItem t) = (if t \<in> {t. delayed s t \<and> remaining s t \<le> 1} then None else event_in (clock s) t)"
    have "s' = s\<lparr>lsts := ls, uxTopReadyPriority := tp, xTickCount := xTickCount s + word_of_nat 1, pxDelayedTaskList := pxDelayedTaskList (clock s),
        pxOverflowDelayedTaskList := pxOverflowDelayedTaskList (clock s), xNumOfOverflows := xNumOfOverflows (clock s)\<rparr>"
      by (simp add: a(1) clock_def Let_def)
    then show ?thesis unfolding elapsed_def using a(2-4)
      by (intro exI [of _ ls] exI [of _ tp] exI [of _ "pxDelayedTaskList (clock s)"] exI [of _ "pxOverflowDelayedTaskList (clock s)"]
          exI [of _ "xNumOfOverflows (clock s)"] conjI) simp_all
  qed
qed

lemma elapsed_next:
  assumes "core_ok T E s" "time_ok T s" "elapsed 1 s s1" "elapsed n s1 s2"
  shows "elapsed (Suc n) s s2"
proof -
  from assms(3) obtain ls tp d v k where a: "s1 = s\<lparr>lsts := ls, uxTopReadyPriority := tp, xTickCount := xTickCount s + word_of_nat 1,
       pxDelayedTaskList := d, pxOverflowDelayedTaskList := v, xNumOfOverflows := k\<rparr>" "xItemValue ls = xItemValue (lsts s)"
    "\<And>t. pvContainer ls (xGenericListItem t) = (if delayed s t \<and> remaining s t \<le> 1 then Some (ready_list s t) else generic_in s t)"
    "\<And>t. pvContainer ls (xEventListItem t) = (if delayed s t \<and> remaining s t \<le> 1 then None else event_in s t)" by (rule elapsedE) (rule that)
  from assms(4) obtain ls' tp' d' v' k' where b: "s2 = s1\<lparr>lsts := ls', uxTopReadyPriority := tp', xTickCount := xTickCount s1 + word_of_nat n,
       pxDelayedTaskList := d', pxOverflowDelayedTaskList := v', xNumOfOverflows := k'\<rparr>" "xItemValue ls' = xItemValue (lsts s1)"
    "\<And>t. pvContainer ls' (xGenericListItem t) = (if delayed s1 t \<and> remaining s1 t \<le> n then Some (ready_list s1 t) else generic_in s1 t)"
    "\<And>t. pvContainer ls' (xEventListItem t) = (if delayed s1 t \<and> remaining s1 t \<le> n then None else event_in s1 t)" by (rule elapsedE) (rule that)
  have r: "ready_list s t < 7" if "delayed s t" for t
    using that ready_list_less [OF core_okD(2) [OF assms(1)]] tasks_only(1) [OF core_okD(2) [OF assms(1)]] by (auto simp: delayed_def)
  have d: "delayed s1 t \<longleftrightarrow> delayed s t \<and> \<not> remaining s t \<le> 1" for t using r [of t] a(1) by (auto simp: delayed_def a(3))
  have m: "remaining s1 t = remaining s t - 1" if "delayed s t" for t
  proof -
    have "wake_time s t - xTickCount s \<noteq> 0" using time_waits [OF assms(1,2) that] by (auto simp: remaining_def)
    from unat_minus_one [OF this] show ?thesis using a(1,2) by (simp add: remaining_def diff_diff_eq)
  qed
  have w: "(delayed s1 t \<and> remaining s1 t \<le> n) \<or> (delayed s t \<and> remaining s t \<le> 1) \<longleftrightarrow> delayed s t \<and> remaining s t \<le> Suc n" for t
    using d [of t] m [of t] by auto
  show ?thesis unfolding elapsed_def
  proof (intro exI conjI allI)
    show "s2 = s\<lparr>lsts := ls', uxTopReadyPriority := tp', xTickCount := xTickCount s + word_of_nat (Suc n),
       pxDelayedTaskList := d', pxOverflowDelayedTaskList := v', xNumOfOverflows := k'\<rparr>" by (simp add: b(1) a(1))
    show "xItemValue ls' = xItemValue (lsts s)" using a(1,2) b(2) by simp
    fix t
    show "pvContainer ls' (xGenericListItem t) = (if delayed s t \<and> remaining s t \<le> Suc n then Some (ready_list s t) else generic_in s t)"
      using w [of t] b(3) [of t] a(3) [of t] a(1) d [of t] by auto
    show "pvContainer ls' (xEventListItem t) = (if delayed s t \<and> remaining s t \<le> Suc n then None else event_in s t)"
      using w [of t] b(4) [of t] a(4) [of t] a(1) d [of t] by auto
  qed
qed

text \<open>The fields the invariant does not speak about.\<close>

lemma core_ok_frame [simp]:
  "core_ok T E (s\<lparr>uxMissedTicks := m\<rparr>) = core_ok T E s" "core_ok T E (s\<lparr>uxSchedulerSuspended := m\<rparr>) = core_ok T E s"
  "core_ok T E (s\<lparr>pendsv := b\<rparr>) = core_ok T E s" "core_ok T E (s\<lparr>xMissedYield := b\<rparr>) = core_ok T E s"
  "core_ok T E (s\<lparr>pxCurrentTCB := c\<rparr>) = core_ok T E s" "core_ok T E (s\<lparr>uxTasksDeleted := m\<rparr>) = core_ok T E s"
  "core_ok T E (s\<lparr>uxCurrentNumberOfTasks := m\<rparr>) = core_ok T E s" "core_ok T E (s\<lparr>uxTaskNumber := m\<rparr>) = core_ok T E s"
  "core_ok T E (s\<lparr>kheap := h\<rparr>) = core_ok T E s" "core_ok T E (s\<lparr>uxTopUsedPriority := m\<rparr>) = core_ok T E s"
  by (simp_all add: core_ok_def tasks_ok_def delay_lists_ok_def top_ok_def)

lemma time_ok_frame [simp]:
  "time_ok T (s\<lparr>uxMissedTicks := m\<rparr>) = time_ok T s" "time_ok T (s\<lparr>uxSchedulerSuspended := m\<rparr>) = time_ok T s"
  "time_ok T (s\<lparr>pendsv := b\<rparr>) = time_ok T s" "time_ok T (s\<lparr>xMissedYield := b\<rparr>) = time_ok T s"
  "time_ok T (s\<lparr>pxCurrentTCB := c\<rparr>) = time_ok T s" "time_ok T (s\<lparr>uxTasksDeleted := m\<rparr>) = time_ok T s"
  "time_ok T (s\<lparr>uxCurrentNumberOfTasks := m\<rparr>) = time_ok T s" "time_ok T (s\<lparr>uxTaskNumber := m\<rparr>) = time_ok T s"
  "time_ok T (s\<lparr>kheap := h\<rparr>) = time_ok T s" "time_ok T (s\<lparr>uxTopUsedPriority := m\<rparr>) = time_ok T s"
  by (simp_all add: time_ok_def)

lemma delayed_frame [simp]:
  "delayed (s\<lparr>uxMissedTicks := m\<rparr>) t = delayed s t" "remaining (s\<lparr>uxMissedTicks := m\<rparr>) t = remaining s t"
  "delayed (s\<lparr>uxSchedulerSuspended := m\<rparr>) t = delayed s t" "remaining (s\<lparr>uxSchedulerSuspended := m\<rparr>) t = remaining s t"
  by (simp_all add: delayed_def remaining_def)

lemma pending_elapsed: "elapsed n s s' \<Longrightarrow> pending s' \<subseteq> pending s"
  by (erule elapsedE) (auto simp: pending_def split: if_splits)

lemma elapsed_missed: "elapsed n (s\<lparr>uxMissedTicks := m\<rparr>) s' \<Longrightarrow> elapsed n s (s'\<lparr>uxMissedTicks := uxMissedTicks s\<rparr>)"
  unfolding elapsed_def by (elim exE conjE) (intro exI conjI, rule refl | simp)+

lemma missed_ticks:
  assumes "core_ok T E s" "time_ok T s" "uxSchedulerSuspended s = 0"
  shows "\<exists>s'. missed_loop s = Some (s'\<lparr>uxMissedTicks := 0\<rparr>) \<and> elapsed (unat (uxMissedTicks s)) s s' \<and> core_ok T E s' \<and> time_ok T s'"
  using assms
proof (induction "unat (uxMissedTicks s)" arbitrary: s)
  case 0
  then have "uxMissedTicks s = 0" by (simp add: unat_eq_0)
  then show ?case using elapsed_0 [OF "0.prems"(1,2)] "0.prems" by (intro exI [of _ s]) (subst missed_loop.simps, simp)
next
  case (Suc n)
  then have m: "0 < uxMissedTicks s" "uxMissedTicks s \<noteq> 0" by (auto simp: word_less_nat_alt)
  from increment_tick [OF Suc.prems] obtain s1 where s1: "vTaskIncrementTick s = Some s1"
    "woken {t. delayed s t \<and> wake_time s t = xTickCount s + 1} (clock s) s1" "core_ok T E s1" "time_ok T s1" by blast
  have e: "elapsed 1 s s1" by (rule elapsed_tick [OF Suc.prems(1,2) s1(2)])
  then have k: "uxMissedTicks s1 = uxMissedTicks s" "uxSchedulerSuspended s1 = 0" using Suc.prems(3) by (auto elim!: elapsedE)
  let ?s = "s1\<lparr>uxMissedTicks := uxMissedTicks s - 1\<rparr>"
  have n: "n = unat (uxMissedTicks ?s)" using Suc(2) unat_minus_one [OF m(2)] by simp
  have "core_ok T E ?s" "time_ok T ?s" "uxSchedulerSuspended ?s = 0" using s1(3,4) k by simp_all
  from Suc.hyps(1) [OF n this] obtain s' where s': "missed_loop ?s = Some (s'\<lparr>uxMissedTicks := 0\<rparr>)" "elapsed n ?s s'" "core_ok T E s'" "time_ok T s'"
    unfolding n [symmetric] by blast
  have "elapsed (Suc n) s (s'\<lparr>uxMissedTicks := uxMissedTicks s1\<rparr>)"
    using elapsed_next [OF Suc.prems(1,2) e elapsed_missed [OF s'(2)]] .
  moreover have "missed_loop s = missed_loop ?s" using m(1) s1(1) k(1) by (subst missed_loop.simps) simp
  ultimately show ?case using s' Suc(2) by (intro exI [of _ "s'\<lparr>uxMissedTicks := uxMissedTicks s1\<rparr>"]) simp
qed

lemma woken_time:
  assumes "core_ok T E s" "time_ok T s" "woken W s s'"
  shows "time_ok T s'"
proof -
  from assms(3) obtain ls tp where a: "s' = s\<lparr>lsts := ls, uxTopReadyPriority := tp\<rparr>" "xItemValue ls = xItemValue (lsts s)"
    "\<And>t. pvContainer ls (xGenericListItem t) = (if t \<in> W then Some (ready_list s t) else generic_in s t)" by (rule wokenE) auto
  note c = core_okD [OF assms(1)]
  show ?thesis using assms(2) c(7,8) ready_list_less [OF c(2)] by (fastforce simp: time_ok_def a split: if_splits)
qed

definition resumed :: "sched \<Rightarrow> sched \<Rightarrow> bool" where
  "resumed s s' \<longleftrightarrow> (\<exists>s2 s3 b. woken (pending s) (s\<lparr>uxSchedulerSuspended := 0\<rparr>) s2 \<and> elapsed (unat (uxMissedTicks s)) s2 s3 \<and>
     s' = s3\<lparr>uxMissedTicks := 0, xMissedYield := b, pendsv := pendsv s'\<rparr>)"

lemma resume_all:
  assumes "core_ok T E s" "time_ok T s" "uxSchedulerSuspended s = 1" "0 < uxCurrentNumberOfTasks s" "pxCurrentTCB s = Some c"
  shows "\<exists>y s'. xTaskResumeAll s = Some (y, s') \<and> resumed s s' \<and> core_ok T E s' \<and> time_ok T s' \<and> pendsv s' = (pendsv s \<or> y) \<and>
    y = (0 < uxMissedTicks s \<or> xMissedYield s \<or> (\<exists>t\<in>pending s. uxPriority s c \<le> uxPriority s t))"
proof -
  let ?s = "s\<lparr>uxSchedulerSuspended := 0\<rparr>" and ?y = "\<exists>t\<in>pending s. uxPriority s c \<le> uxPriority s t"
  have cs: "core_ok T E ?s" "time_ok T ?s" "pxCurrentTCB ?s = Some c" "pending ?s = pending s" using assms by (simp_all add: pending_def)
  from pending_ready [OF cs(1,3), of False] cs(4) obtain s2 where s2: "pending_loop False ?s = Some (?y, s2)" "woken (pending s) ?s s2" "core_ok T E s2" by auto
  have k: "uxMissedTicks s2 = uxMissedTicks s" "uxSchedulerSuspended s2 = 0" "xMissedYield s2 = xMissedYield s" "pendsv s2 = pendsv s" using s2(2) by (auto elim!: wokenE)
  from missed_ticks [OF s2(3) woken_time [OF cs(1,2) s2(2)] k(2)] obtain s3 where s3: "missed_loop s2 = Some (s3\<lparr>uxMissedTicks := 0\<rparr>)"
    "elapsed (unat (uxMissedTicks s)) s2 s3" "core_ok T E s3" "time_ok T s3" unfolding k by blast
  have k3: "xMissedYield s3 = xMissedYield s" "pendsv s3 = pendsv s" "uxMissedTicks s3 = uxMissedTicks s" using s3(2) k by (auto elim!: elapsedE)
  let ?z = "0 < uxMissedTicks s \<or> ?y" and ?t = "s3\<lparr>uxMissedTicks := 0\<rparr>"
  have "(if 0 < uxMissedTicks s2 then map_option (Pair True) (missed_loop s2) else Some (?y, s2)) = Some (?z, ?t)"
  proof (cases "0 < uxMissedTicks s")
    case True
    then show ?thesis using s3(1) k(1) by simp
  next
    case False
    then have z: "uxMissedTicks s2 = 0" using k(1) by (simp add: word_gt_0)
    then have "missed_loop s2 = Some s2" by (subst missed_loop.simps) simp
    then show ?thesis using False k(1) s3(1) by simp
  qed
  then have r: "xTaskResumeAll s = (if ?z \<or> xMissedYield s then Some (True, ?t\<lparr>xMissedYield := False, pendsv := True\<rparr>) else Some (False, ?t))"
    using assms(3,4) s2(1) k3 by (simp add: xTaskResumeAll_def Let_def portYIELD_WITHIN_API_def)
  show ?thesis
  proof (cases "?z \<or> xMissedYield s")
    case True
    let ?u = "?t\<lparr>xMissedYield := False, pendsv := True\<rparr>"
    have "resumed s ?u" unfolding resumed_def using s2(2) s3(2) by (intro exI [of _ s2] exI [of _ s3] exI [of _ False]) simp
    then show ?thesis using True r s3(3,4) by (intro exI [of _ True] exI [of _ ?u]) auto
  next
    case False
    have "resumed s ?t" unfolding resumed_def using s2(2) s3(2) by (intro exI [of _ s2] exI [of _ s3] exI [of _ "xMissedYield s3"]) simp
    then show ?thesis using False r s3(3,4) k3 by (intro exI [of _ False] exI [of _ ?t]) auto
  qed
qed

end
