(* ===== verification/Kernel_Run.thy ===== *)
theory Kernel_Run
  imports Kernel_Sched
begin

text \<open>
  Runs of the kernel: the interrupts and the calls of tasks as events, the conditions under which the code may
  make them, and the invariant of all reachable states. From it: the kernel never follows a null pointer or leaves
  its arrays, the task that runs is one of the highest priority, and a delay ends at its tick.
\<close>

section \<open>The whole invariant\<close>

text \<open>Every task has its control block and its stack in the heap.\<close>

definition memory_ok :: "nat set \<Rightarrow> sched \<Rightarrow> bool" where
  "memory_ok T s \<longleftrightarrow> (\<exists>live. heap_live (kheap s) live \<and> (\<forall>t\<in>T. (t, unat sizeof_tskTCB) \<in> set live \<and> pxStack s t \<in> fst ` set live) \<and>
     inj_on (pxStack s) T \<and> (\<forall>t\<in>T. pxStack s t \<notin> T))"

definition deleted :: "sched \<Rightarrow> nat set" where
  "deleted s = {t. generic_in s t = Some xTasksWaitingTermination}"

definition rest_ok :: "nat \<Rightarrow> nat set \<Rightarrow> sched \<Rightarrow> bool" where
  "rest_ok idle T s \<longleftrightarrow> memory_ok T s \<and> uxCurrentNumberOfTasks s = word_of_nat (card T) \<and> uxTasksDeleted s = word_of_nat (card (deleted s)) \<and>
     (\<exists>c\<in>T. pxCurrentTCB s = Some c) \<and> idle \<in> T \<and> generic_in s idle = Some (ready_list s idle) \<and> xSchedulerRunning s"

definition calm :: "sched \<Rightarrow> bool" where
  "calm s \<longleftrightarrow> (uxSchedulerSuspended s = 0 \<longrightarrow> uxMissedTicks s = 0 \<and> pending s = {})"

definition kernel_ok :: "nat \<Rightarrow> nat set \<Rightarrow> nat set \<Rightarrow> sched \<Rightarrow> bool" where
  "kernel_ok idle T E s \<longleftrightarrow> core_ok T E s \<and> time_ok T s \<and> rest_ok idle T s \<and> calm s"

lemma kernel_okD:
  assumes "kernel_ok idle T E s"
  shows "core_ok T E s" "time_ok T s" "rest_ok idle T s" "calm s" "idle \<in> T" "generic_in s idle = Some (ready_list s idle)"
    "\<exists>c\<in>T. pxCurrentTCB s = Some c"
  using assms by (auto simp: kernel_ok_def rest_ok_def)

lemma rest_ok_cong:
  assumes "rest_ok idle T s" "kheap s' = kheap s" "pxStack s' = pxStack s" "uxCurrentNumberOfTasks s' = uxCurrentNumberOfTasks s"
    "uxTasksDeleted s' = uxTasksDeleted s" "deleted s' = deleted s" "\<exists>c\<in>T. pxCurrentTCB s' = Some c" "generic_in s' idle = Some (ready_list s' idle)"
    "xSchedulerRunning s' = xSchedulerRunning s"
  shows "rest_ok idle T s'"
  using assms by (simp add: rest_ok_def memory_ok_def)

lemma not_deleted: "tasks_ok T s \<Longrightarrow> t \<in> T \<Longrightarrow> delayed s t \<Longrightarrow> ready_list s t < 7 \<and> t \<notin> deleted s"
  using ready_list_less by (auto simp: delayed_def deleted_def xTasksWaitingTermination_def)

lemma ready_not_delayed: "tasks_ok T s \<Longrightarrow> t \<in> T \<Longrightarrow> generic_in s t = Some (ready_list s t) \<Longrightarrow> \<not> delayed s t"
  using ready_list_less by (fastforce simp: delayed_def)

lemma ready_no_event: "tasks_ok T s \<Longrightarrow> t \<in> T \<Longrightarrow> generic_in s t = Some (ready_list s t) \<Longrightarrow> event_in s t = None"
  using tasks_okD(7) [of T s t] ready_not_delayed [of T s t] by (cases "event_in s t") (auto simp: delayed_def)

lemma delayed_task: "tasks_ok T s \<Longrightarrow> delayed s t \<Longrightarrow> t \<in> T"
  using tasks_only(1) by (auto simp: delayed_def)

lemma deleted_woken:
  assumes "tasks_ok T s" "woken W s s'" "\<And>t. t \<in> W \<Longrightarrow> delayed s t"
  shows "deleted s' = deleted s"
proof -
  have "t \<in> deleted s' \<longleftrightarrow> t \<in> deleted s" for t
    by (rule wokenE [OF assms(2)])
      (use not_deleted [OF assms(1) delayed_task [OF assms(1)], of t] assms(3) [of t] in \<open>auto simp: deleted_def xTasksWaitingTermination_def split: if_splits\<close>)
  then show ?thesis by blast
qed

lemma deleted_elapsed:
  assumes "tasks_ok T s" "elapsed n s s'"
  shows "deleted s' = deleted s"
proof -
  have "t \<in> deleted s' \<longleftrightarrow> t \<in> deleted s" for t
    by (rule elapsedE [OF assms(2)])
      (use not_deleted [OF assms(1) delayed_task [OF assms(1)], of t] in \<open>auto simp: deleted_def xTasksWaitingTermination_def split: if_splits\<close>)
  then show ?thesis by blast
qed

lemma rest_woken:
  assumes "rest_ok idle T s" "tasks_ok T s" "woken W s s'" "\<And>t. t \<in> W \<Longrightarrow> delayed s t"
  shows "rest_ok idle T s'"
proof -
  from assms(3) obtain ls tp where a: "s' = s\<lparr>lsts := ls, uxTopReadyPriority := tp\<rparr>"
    "\<And>t. pvContainer ls (xGenericListItem t) = (if t \<in> W then Some (ready_list s t) else generic_in s t)" by (rule wokenE) auto
  have "deleted s' = deleted s" by (rule deleted_woken [OF assms(2-4)])
  moreover have "idle \<notin> W" using ready_not_delayed [OF assms(2), of idle] assms(1,4) by (auto simp: rest_ok_def)
  ultimately show ?thesis using assms(1) a by (intro rest_ok_cong [OF assms(1)]) (auto simp: rest_ok_def)
qed

lemma rest_elapsed:
  assumes "rest_ok idle T s" "tasks_ok T s" "elapsed n s s'"
  shows "rest_ok idle T s'"
proof -
  from assms(3) obtain ls tp d v k where a: "s' = s\<lparr>lsts := ls, uxTopReadyPriority := tp, xTickCount := xTickCount s + word_of_nat n,
       pxDelayedTaskList := d, pxOverflowDelayedTaskList := v, xNumOfOverflows := k\<rparr>"
    "\<And>t. pvContainer ls (xGenericListItem t) = (if delayed s t \<and> remaining s t \<le> n then Some (ready_list s t) else generic_in s t)" by (rule elapsedE) auto
  have "deleted s' = deleted s" by (rule deleted_elapsed [OF assms(2,3)])
  moreover have "\<not> delayed s idle" using ready_not_delayed [OF assms(2), of idle] assms(1) by (auto simp: rest_ok_def)
  ultimately show ?thesis using assms(1) a by (intro rest_ok_cong [OF assms(1)]) (auto simp: rest_ok_def)
qed

text \<open>One task changes its lists or its priority.\<close>

lemma core_move:
  assumes "core_ok T E s" "c \<in> T" "lists_ok ({..<11} \<union> E) (lsts s')" "pvOwner (lsts s') = pvOwner (lsts s)"
    "\<And>t. t \<noteq> c \<Longrightarrow> generic_in s' t = generic_in s t \<and> event_in s' t = event_in s t \<and> uxPriority s' t = uxPriority s t \<and> uxBasePriority s' t = uxBasePriority s t"
    "uxPriority s' c < 7" "uxBasePriority s' c < 7" "generic_in s' c = Some l" "l = ready_list s' c \<or> l = 7 \<or> l = 8 \<or> l = 10"
    "\<And>m. event_in s' c = Some m \<Longrightarrow> (m = 9 \<or> 11 \<le> m) \<and> (l = 7 \<or> l = 8)"
    "pxDelayedTaskList s' = pxDelayedTaskList s" "pxOverflowDelayedTaskList s' = pxOverflowDelayedTaskList s"
    "uxTopReadyPriority s \<le> uxTopReadyPriority s'" "uxTopReadyPriority s' < 7" "l = ready_list s' c \<Longrightarrow> uxPriority s' c \<le> uxTopReadyPriority s'"
  shows "core_ok T E s'"
proof -
  have t: "tasks_ok T s" using assms(1) by (rule core_okD(2))
  have "tasks_ok T s'" unfolding tasks_ok_def
  proof (intro conjI ballI allI impI)
    fix u assume u: "u \<in> T"
    show "u < 2 ^ 30" "pvOwner (lsts s') (xGenericListItem u) = u" "pvOwner (lsts s') (xEventListItem u) = u"
      using tasks_okD [OF t u] assms(4) by simp_all
    show "uxPriority s' u < 7" "uxBasePriority s' u < 7" using tasks_okD [OF t u] assms(5) [of u] assms(6,7) by (cases "u = c"; simp)+
    show "\<exists>l. generic_in s' u = Some l \<and> (l = ready_list s' u \<or> l = 7 \<or> l = 8 \<or> l = 10)"
      using tasks_okD(6) [OF t u] assms(5) [of u] assms(8,9) by (cases "u = c") auto
    { fix m assume "event_in s' u = Some m"
      then show "m = 9 \<or> 11 \<le> m" using t u assms(5) [of u] assms(10) [of m] by (cases "u = c") (auto simp: tasks_ok_def) }
    { assume "event_in s' u \<noteq> None"
      then show "generic_in s' u = Some 7 \<or> generic_in s' u = Some 8"
        using tasks_okD(7) [OF t u] assms(5) [of u] assms(8,10) by (cases "u = c") auto }
  next
    fix u assume "u \<notin> T"
    then show "generic_in s' u = None" "event_in s' u = None" using t assms(2) assms(5) [of u] by (auto simp: tasks_ok_def)
  qed (use t in \<open>simp add: tasks_ok_def\<close>)
  moreover have "top_ok T s'" unfolding top_ok_def
  proof (intro conjI ballI impI)
    fix u assume u: "u \<in> T" "generic_in s' u = Some (ready_list s' u)"
    show "uxPriority s' u \<le> uxTopReadyPriority s'"
    proof (cases "u = c")
      case True
      then show ?thesis using u assms(8,15) by simp
    next
      case False
      then have "uxPriority s u \<le> uxTopReadyPriority s" using u assms(5) [of u] core_okD(3) [OF assms(1)] by (simp add: top_ok_def)
      then show ?thesis using assms(5) [OF False] assms(13) by simp
    qed
  qed (rule assms(14))
  ultimately show ?thesis using assms(1,3,11,12) by (simp add: core_ok_def delay_lists_ok_def)
qed

lemma time_move:
  assumes "time_ok T s" "\<And>t. t \<noteq> c \<Longrightarrow> generic_in s' t = generic_in s t \<and> wake_time s' t = wake_time s t"
    "pxDelayedTaskList s' = pxDelayedTaskList s" "pxOverflowDelayedTaskList s' = pxOverflowDelayedTaskList s" "xTickCount s' = xTickCount s"
    "generic_in s' c = Some (pxDelayedTaskList s) \<Longrightarrow> xTickCount s < wake_time s' c" "generic_in s' c = Some (pxOverflowDelayedTaskList s) \<Longrightarrow> wake_time s' c < xTickCount s"
  shows "time_ok T s'"
  unfolding time_ok_def
proof
  fix t assume "t \<in> T"
  then show "(generic_in s' t = Some (pxDelayedTaskList s') \<longrightarrow> xTickCount s' < wake_time s' t) \<and> (generic_in s' t = Some (pxOverflowDelayedTaskList s') \<longrightarrow> wake_time s' t < xTickCount s')"
    using assms by (cases "t = c") (auto simp: time_ok_def)
qed

lemma rest_ok_frame [simp]:
  "rest_ok idle T (s\<lparr>pendsv := b\<rparr>) = rest_ok idle T s" "rest_ok idle T (s\<lparr>uxMissedTicks := m\<rparr>) = rest_ok idle T s"
  "rest_ok idle T (s\<lparr>uxSchedulerSuspended := m\<rparr>) = rest_ok idle T s" "rest_ok idle T (s\<lparr>xMissedYield := b\<rparr>) = rest_ok idle T s"
  by (simp_all add: rest_ok_def memory_ok_def deleted_def)

lemma kernel_ok_pendsv [simp]: "kernel_ok idle T E (s\<lparr>pendsv := b\<rparr>) = kernel_ok idle T E s"
  by (simp add: kernel_ok_def calm_def pending_def)

section \<open>Interrupts\<close>

text \<open>An interrupt is a tick or wakes the first task that waits in an event list, if there is one.\<close>

datatype irq = Tick_irq | Wake_irq nat

definition run_irq :: "irq \<Rightarrow> sched \<Rightarrow> sched option" where
  "run_irq q s =
     (case q of
        Tick_irq \<Rightarrow> xPortSysTickHandler s
      | Wake_irq l \<Rightarrow> if \<not> listLIST_IS_EMPTY l (lsts s) then map_option snd (xTaskRemoveFromEventList l s) else Some s)"

fun run_irqs :: "irq list \<Rightarrow> sched \<Rightarrow> sched option" where
  "run_irqs [] s = Some s"
| "run_irqs (q # qs) s = Option.bind (run_irq q s) (run_irqs qs)"

fun irq_ok :: "nat set \<Rightarrow> irq \<Rightarrow> bool" where
  "irq_ok E Tick_irq \<longleftrightarrow> True"
| "irq_ok E (Wake_irq l) \<longleftrightarrow> l \<in> E"

lemma tick_ok:
  assumes "kernel_ok idle T E s"
  shows "\<exists>s'. xPortSysTickHandler s = Some s' \<and> kernel_ok idle T E s' \<and>
    (if uxSchedulerSuspended s = 0 then elapsed 1 (s\<lparr>pendsv := True\<rparr>) s' else s' = s\<lparr>pendsv := True, uxMissedTicks := uxMissedTicks s + 1\<rparr>)"
proof -
  let ?s = "s\<lparr>pendsv := True\<rparr>"
  have k: "kernel_ok idle T E ?s" using assms by simp
  note d = kernel_okD [OF k]
  show ?thesis
  proof (cases "uxSchedulerSuspended s = 0")
    case True
    then have "uxSchedulerSuspended ?s = 0" by simp
    from increment_tick [OF d(1,2) this] obtain s' where s': "vTaskIncrementTick ?s = Some s'"
      "woken {t. delayed ?s t \<and> wake_time ?s t = xTickCount ?s + 1} (clock ?s) s'" "core_ok T E s'" "time_ok T s'" by blast
    note e = elapsed_tick [OF d(1,2) s'(2)]
    have p: "pending s' = {}" "uxMissedTicks s' = 0" using e d(4) True by (auto elim!: elapsedE simp: pending_def calm_def split: if_splits)
    then have "kernel_ok idle T E s'" using s'(3,4) rest_elapsed [OF d(3) core_okD(2) [OF d(1)] e] by (simp add: kernel_ok_def calm_def)
    then show ?thesis using s'(1) e True by (simp add: xPortSysTickHandler_def)
  next
    case False
    then have "kernel_ok idle T E (s\<lparr>pendsv := True, uxMissedTicks := uxMissedTicks s + 1\<rparr>)" using assms by (simp add: kernel_ok_def calm_def)
    then show ?thesis using False by (simp add: xPortSysTickHandler_def vTaskIncrementTick_def)
  qed
qed

lemma pending_delayed: "tasks_ok T s \<Longrightarrow> t \<in> pending s \<Longrightarrow> delayed s t"
  using tasks_only(2) tasks_okD(7) by (fastforce simp: pending_def delayed_def)

text \<open>Waking the first waiting task: it is ready at once, or held pending while the scheduler is suspended.\<close>

lemma wake_ok:
  assumes "kernel_ok idle T E s" "l \<in> E" "\<not> listLIST_IS_EMPTY l (lsts s)"
  shows "\<exists>y t s'. xTaskRemoveFromEventList l s = Some (y, s') \<and> kernel_ok idle T E s' \<and> event_in s t = Some l \<and>
    (if uxSchedulerSuspended s = 0 then woken {t} s s'
     else \<exists>ls. s' = s\<lparr>lsts := ls\<rparr> \<and> xItemValue ls = xItemValue (lsts s) \<and> pvContainer ls = (pvContainer (lsts s))(xEventListItem t \<mapsto> xPendingReadyList))"
proof -
  note d = kernel_okD [OF assms(1)] and c = core_okD [OF kernel_okD(1) [OF assms(1)]]
  have lE: "l \<in> {..<11} \<union> E" "11 \<le> l" using assms(2) d(1) by (auto simp: core_ok_def)
  have ne: "\<exists>i. pvContainer (lsts s) i = Some l" using lists_ok_empty [OF c(1) lE(1)] assms(3) by simp
  obtain i where i: "listGET_OWNER_OF_HEAD_ENTRY l (lsts s) = Some (Some (pvOwner (lsts s) i))" "pvContainer (lsts s) i = Some l"
    by (rule lists_ok_head [OF c(1) lE(1)]) (use ne that in auto)
  from c(2) i(2) obtain t where t: "t \<in> T" "i = xEventListItem t" by (rule event_item) (use lE in simp)
  have ow: "pvOwner (lsts s) i = t" using tasks_okD(5) [OF c(2) t(1)] t(2) by simp
  have e: "event_in s t = Some l" using i(2) t(2) by simp
  then obtain g where g: "generic_in s t = Some g" "g = 7 \<or> g = 8" using tasks_okD(7) [OF c(2) t(1)] by auto
  obtain cur where cur: "cur \<in> T" "pxCurrentTCB s = Some cur" using d(7) by blast
  show ?thesis
  proof (cases "uxSchedulerSuspended s = 0")
    case True
    from make_ready_event [OF c(1) g(1) e tasks_okD(1,2) [OF c(2) t(1)] c(4)] obtain s' where
      s': "Option.bind (try_lists (vListRemove (xEventListItem t)) s) (\<lambda>s1. Option.bind (try_lists (vListRemove (xGenericListItem t)) s1) (prvAddTaskToReadyQueue t)) = Some s'"
      "woken {t} s s'" "lists_ok ({..<11} \<union> E) (lsts s')" by blast
    have r: "core_ok T E s'" "time_ok T s'" "rest_ok idle T s'"
      using woken_core [OF d(1) s'(2) _ s'(3)] t(1) woken_time [OF d(1,2) s'(2)] rest_woken [OF d(3) c(2) s'(2)] g by (auto simp: delayed_def)
    have "calm s'" using d(4) True s'(2) pending_woken [OF s'(2)] by (auto elim!: wokenE simp: calm_def)
    moreover have "pxCurrentTCB s' = Some cur" using s'(2) cur by (auto elim!: wokenE)
    moreover obtain s1 where "try_lists (vListRemove (xEventListItem t)) s = Some s1" "uxSchedulerSuspended s1 = 0"
      "Option.bind (try_lists (vListRemove (xGenericListItem t)) s1) (prvAddTaskToReadyQueue t) = Some s'"
      using s'(1) True by (auto simp: bind_eq_Some_conv try_lists_def)
    ultimately show ?thesis using r i(1) ow True s'(2) e
      by (intro exI [of _ "uxPriority s' cur \<le> uxPriority s' t"] exI [of _ t] exI [of _ s']) (simp add: xTaskRemoveFromEventList_def kernel_ok_def)
  next
    case False
    from try_remove [OF c(1) e] obtain l1 where l1: "try_lists (vListRemove (xEventListItem t)) s = Some (s\<lparr>lsts := l1\<rparr>)" "lists_ok ({..<11} \<union> E) l1"
      "xItemValue l1 = xItemValue (lsts s)" "pvOwner l1 = pvOwner (lsts s)" "pvContainer l1 = (pvContainer (lsts s))(xEventListItem t := None)" by blast
    let ?ls = "vListInsertEnd xPendingReadyList (xEventListItem t) l1"
    let ?s = "s\<lparr>lsts := ?ls\<rparr>"
    have lo: "lists_ok ({..<11} \<union> E) ?ls"
      using task_items [OF c(2) t(1)] l1 by (intro lists_ok_insert_end) (simp_all add: end_lists_def xPendingReadyList_def)
    have co: "pvContainer ?ls = (pvContainer (lsts s))(xEventListItem t \<mapsto> xPendingReadyList)" using l1(5) by simp
    have "core_ok T E ?s"
      by (rule core_move [OF d(1) t(1), where l = g])
        (use lo l1 g c tasks_okD [OF c(2) t(1)] ready_list_less [OF c(2) t(1)] in \<open>auto simp: co xPendingReadyList_def\<close>)
    moreover have "time_ok T ?s" using d(2) l1(3,5) by (simp add: time_ok_def)
    moreover have "rest_ok idle T ?s" using d(3) by (intro rest_ok_cong [OF d(3)]) (auto simp: rest_ok_def deleted_def l1(5))
    moreover have "calm ?s" using False by (simp add: calm_def)
    moreover have "\<exists>ls. ?s = s\<lparr>lsts := ls\<rparr> \<and> xItemValue ls = xItemValue (lsts s) \<and> pvContainer ls = (pvContainer (lsts s))(xEventListItem t \<mapsto> xPendingReadyList)"
      using l1 by (intro exI [of _ ?ls]) simp
    ultimately show ?thesis using i(1) ow False l1 cur e
      by (intro exI [of _ "uxPriority s cur \<le> uxPriority s t"] exI [of _ t] exI [of _ ?s]) (simp add: xTaskRemoveFromEventList_def kernel_ok_def on_lists_def)
  qed
qed

lemma run_irq_ok:
  assumes "kernel_ok idle T E s" "irq_ok E q"
  shows "\<exists>s'. run_irq q s = Some s' \<and> kernel_ok idle T E s'"
  using tick_ok [OF assms(1)] wake_ok [OF assms(1)] assms by (cases q) (force simp: run_irq_def)+

lemma run_irqs_ok:
  "kernel_ok idle T E s \<Longrightarrow> \<forall>q\<in>set qs. irq_ok E q \<Longrightarrow> \<exists>s'. run_irqs qs s = Some s' \<and> kernel_ok idle T E s'"
proof (induction qs arbitrary: s)
  case (Cons q qs)
  then obtain s1 where "run_irq q s = Some s1" "kernel_ok idle T E s1" using run_irq_ok [of idle T E s q] by auto
  then show ?case using Cons by auto
qed simp

section \<open>Calls of tasks\<close>

text \<open>After a switch the task that runs is ready, and no ready task has a higher priority.\<close>

definition highest :: "nat set \<Rightarrow> sched \<Rightarrow> bool" where
  "highest T s \<longleftrightarrow> (\<exists>t\<in>T. pxCurrentTCB s = Some t \<and> generic_in s t = Some (ready_list s t) \<and>
     (\<forall>u\<in>T. generic_in s u = Some (ready_list s u) \<longrightarrow> uxPriority s u \<le> uxPriority s t))"

lemma switch_ok:
  assumes "kernel_ok idle T E s"
  shows "\<exists>s'. xPortPendSVHandler s = Some s' \<and> kernel_ok idle T E s' \<and> xItemValue (lsts s') = xItemValue (lsts s) \<and> pvContainer (lsts s') = pvContainer (lsts s) \<and>
    xTickCount s' = xTickCount s \<and> uxPriority s' = uxPriority s \<and> uxSchedulerSuspended s' = uxSchedulerSuspended s \<and> uxMissedTicks s' = uxMissedTicks s \<and>
    (uxSchedulerSuspended s = 0 \<longrightarrow> highest T s')"
proof (cases "uxSchedulerSuspended s = 0")
  case True
  let ?s = "s\<lparr>pendsv := False\<rparr>"
  have "kernel_ok idle T E ?s" using assms by simp
  note d = kernel_okD [OF this]
  have "uxSchedulerSuspended ?s = 0" using True by simp
  from switch_context [OF d(1) this d(5,6)] obtain ls p t where
    r: "vTaskSwitchContext ?s = Some (?s\<lparr>lsts := ls, uxTopReadyPriority := p, pxCurrentTCB := Some t\<rparr>)"
    "core_ok T E (?s\<lparr>lsts := ls, uxTopReadyPriority := p, pxCurrentTCB := Some t\<rparr>)" "xItemValue ls = xItemValue (lsts s)" "pvContainer ls = pvContainer (lsts s)" "t \<in> T" "generic_in s t = Some (ready_list s t)"
    "\<forall>v\<in>T. generic_in s v = Some (ready_list s v) \<longrightarrow> uxPriority s v \<le> uxPriority s t" by auto
  let ?s' = "?s\<lparr>lsts := ls, uxTopReadyPriority := p, pxCurrentTCB := Some t\<rparr>"
  have "time_ok T ?s'" using d(2) r(3,4) by (simp add: time_ok_def)
  moreover have "rest_ok idle T ?s'" by (rule rest_ok_cong [OF d(3)]) (use d(6) r in \<open>auto simp: deleted_def\<close>)
  moreover have "calm ?s'" using d(4) r(4) by (simp add: calm_def pending_def)
  ultimately have "kernel_ok idle T E ?s'" using r(2) by (simp add: kernel_ok_def)
  moreover have "highest T ?s'" using r by (simp add: highest_def)
  ultimately show ?thesis using r by (intro exI [of _ ?s']) (simp add: xPortPendSVHandler_def)
next
  case False
  then have "xPortPendSVHandler s = Some (s\<lparr>pendsv := False, xMissedYield := True\<rparr>)" by (simp add: xPortPendSVHandler_def vTaskSwitchContext_def)
  moreover have "kernel_ok idle T E (s\<lparr>pendsv := False, xMissedYield := True\<rparr>)" using assms False by (simp add: kernel_ok_def calm_def pending_def)
  ultimately show ?thesis using False by simp
qed

lemma suspend_ok:
  assumes "kernel_ok idle T E s" "uxSchedulerSuspended s + 1 \<noteq> 0"
  shows "kernel_ok idle T E (vTaskSuspendAll s)"
  using assms by (simp add: kernel_ok_def vTaskSuspendAll_def calm_def)

lemma count_pos: "rest_ok idle T s \<Longrightarrow> tasks_ok T s \<Longrightarrow> 0 < uxCurrentNumberOfTasks s"
proof -
  assume a: "rest_ok idle T s" "tasks_ok T s"
  have "T \<subseteq> {..< 2 ^ 30}" using a(2) by (auto simp: tasks_ok_def)
  then have "card T \<le> card {..< (2 :: nat) ^ 30}" by (intro card_mono) auto
  moreover have "0 < card T" using a by (auto simp: rest_ok_def tasks_ok_def card_gt_0_iff)
  ultimately have "unat (word_of_nat (card T) :: 32 word) = card T" by (simp add: unat_of_nat take_bit_nat_eq_self)
  then show ?thesis using a(1) \<open>0 < card T\<close> by (simp add: rest_ok_def word_less_nat_alt)
qed

lemma resume_ok:
  assumes "kernel_ok idle T E s" "uxSchedulerSuspended s \<noteq> 0"
  shows "\<exists>y s'. xTaskResumeAll s = Some (y, s') \<and> kernel_ok idle T E s' \<and> (y \<longrightarrow> pendsv s') \<and> (pendsv s \<longrightarrow> pendsv s') \<and>
    (if uxSchedulerSuspended s = 1 then resumed s s' \<and> deleted s' = deleted s else s' = s\<lparr>uxSchedulerSuspended := uxSchedulerSuspended s - 1\<rparr>)"
proof -
  note d = kernel_okD [OF assms(1)] and c = core_okD [OF kernel_okD(1) [OF assms(1)]]
  show ?thesis
  proof (cases "uxSchedulerSuspended s = 1")
    case True
    obtain cur where "pxCurrentTCB s = Some cur" using d(7) by blast
    from resume_all [OF d(1,2) True count_pos [OF d(3) c(2)] this] obtain y s' where
      r: "xTaskResumeAll s = Some (y, s')" "resumed s s'" "core_ok T E s'" "time_ok T s'" "pendsv s' = (pendsv s \<or> y)" by blast
    from r(2) obtain s2 s3 b where m: "woken (pending s) (s\<lparr>uxSchedulerSuspended := 0\<rparr>) s2" "elapsed (unat (uxMissedTicks s)) s2 s3"
      "s' = s3\<lparr>uxMissedTicks := 0, xMissedYield := b, pendsv := pendsv s'\<rparr>" unfolding resumed_def by blast
    let ?s = "s\<lparr>uxSchedulerSuspended := 0\<rparr>"
    have t: "tasks_ok T ?s" using c(2) by (simp add: tasks_ok_def)
    have "deleted s2 = deleted s" using deleted_woken [OF t m(1)] pending_delayed [OF c(2)] by (simp add: deleted_def)
    have "rest_ok idle T ?s" using d(3) by simp
    from rest_woken [OF this t m(1)] pending_delayed [OF c(2)] have "rest_ok idle T s2" by simp
    moreover have t2: "tasks_ok T s2" using woken_tasks [OF t m(1)] pending_tasks [OF d(1)] by simp
    ultimately have "rest_ok idle T s3" using rest_elapsed m(2) by blast
    then have "rest_ok idle T s'" by (subst m(3)) simp
    moreover have "pending s2 = {}" using pending_woken [OF m(1)] by (auto simp: pending_def)
    then have "pending s3 = {}" using pending_elapsed [OF m(2)] by blast
    moreover have "lsts s' = lsts s3" by (subst m(3)) simp
    ultimately have rp: "rest_ok idle T s'" "pending s' = {}" "deleted s' = deleted s"
      using deleted_elapsed [OF t2 m(2)] \<open>deleted s2 = deleted s\<close> by (simp_all add: pending_def deleted_def)
    moreover have "uxMissedTicks s' = 0" by (subst m(3)) simp
    ultimately have "kernel_ok idle T E s'" using r(3,4) by (simp add: kernel_ok_def calm_def)
    then show ?thesis using r rp(3) True by auto
  next
    case False
    then have n: "uxSchedulerSuspended s - 1 \<noteq> 0" by (metis add.commute add_0 diff_add_cancel)
    then have "xTaskResumeAll s = Some (False, s\<lparr>uxSchedulerSuspended := uxSchedulerSuspended s - 1\<rparr>)" by (simp add: xTaskResumeAll_def Let_def)
    moreover have "kernel_ok idle T E (s\<lparr>uxSchedulerSuspended := uxSchedulerSuspended s - 1\<rparr>)" using assms(1) n by (simp add: kernel_ok_def calm_def)
    ultimately show ?thesis using False by auto
  qed
qed

text \<open>The current task leaves its list for a delayed list.\<close>

lemma add_to_delayed_value:
  assumes "lists_ok ({..<11} \<union> E) (lsts s)" "generic_in s c = Some l" "l \<noteq> 7" "l \<noteq> 8" "xGenericListItem c < 2 ^ 31" "delay_lists_ok s"
  shows "\<exists>ls. add_to_delayed c w s = Some (s\<lparr>lsts := ls\<rparr>) \<and> lists_ok ({..<11} \<union> E) ls \<and> xItemValue ls = (xItemValue (lsts s))(Item (xGenericListItem c) := w) \<and>
    pvOwner ls = pvOwner (lsts s) \<and>
    pvContainer ls = (pvContainer (lsts s))(xGenericListItem c \<mapsto> if w < xTickCount s then pxOverflowDelayedTaskList s else pxDelayedTaskList s)"
proof -
  from try_remove [OF assms(1,2)] obtain l1 where l1: "try_lists (vListRemove (xGenericListItem c)) s = Some (s\<lparr>lsts := l1\<rparr>)" "lists_ok ({..<11} \<union> E) l1"
    "xItemValue l1 = xItemValue (lsts s)" "pvOwner l1 = pvOwner (lsts s)" "pvContainer l1 = (pvContainer (lsts s))(xGenericListItem c := None)" by blast
  let ?l2 = "listSET_LIST_ITEM_VALUE (xGenericListItem c) w l1" and ?d = "if w < xTickCount s then pxOverflowDelayedTaskList s else pxDelayedTaskList s"
  have l2: "lists_ok ({..<11} \<union> E) ?l2" by (rule lists_ok_set_value [OF l1(2)]) (simp_all add: l1(5))
  have d: "?d \<in> {..<11} \<union> E" "?d \<notin> end_lists" using assms(6) by (auto simp: delay_lists_ok_def end_lists_def)
  have "pvContainer ?l2 (xGenericListItem c) = None" by (simp add: l1(5))
  from lists_ok_insert [OF l2 this assms(5) d] obtain l3 where l3: "vListInsert ?d (xGenericListItem c) ?l2 = Some l3" "lists_ok ({..<11} \<union> E) l3"
    "xItemValue l3 = xItemValue ?l2" "pvOwner l3 = pvOwner ?l2" "pvContainer l3 = (pvContainer ?l2)(xGenericListItem c \<mapsto> ?d)" by blast
  have "try_lists (vListInsert ?d (xGenericListItem c)) (s\<lparr>lsts := ?l2\<rparr>) = Some (s\<lparr>lsts := l3\<rparr>)" using l3(1) by (simp add: try_lists_def)
  then have "add_to_delayed c w s = Some (s\<lparr>lsts := l3\<rparr>)"
    using l1(1) by (cases "w < xTickCount s") (simp_all add: add_to_delayed_def Let_def on_lists_def)
  then show ?thesis using l3 l1 by (intro exI [of _ l3]) simp
qed

text \<open>A sleeping task that an operation leaves alone; \<open>X\<close> are the tasks the operation names.\<close>

definition unmoved :: "nat \<Rightarrow> sched \<Rightarrow> sched \<Rightarrow> bool" where
  "unmoved c s s' \<longleftrightarrow> generic_in s' c = generic_in s c \<and> event_in s' c = event_in s c \<and> wake_time s' c = wake_time s c \<and>
     xTickCount s' = xTickCount s \<and> uxMissedTicks s' = uxMissedTicks s"

definition spares :: "nat set \<Rightarrow> sched \<Rightarrow> sched \<Rightarrow> bool" where
  "spares X s s' \<longleftrightarrow> (\<forall>c. delayed s c \<and> event_in s c = None \<and> c \<notin> X \<longrightarrow> unmoved c s s')"

lemma spares_trans:
  assumes "spares X s s1" "spares X s1 s2"
  shows "spares X s s2"
  using assms unfolding spares_def unmoved_def delayed_def by metis

lemma spares_same: "lsts s' = lsts s \<Longrightarrow> xTickCount s' = xTickCount s \<Longrightarrow> uxMissedTicks s' = uxMissedTicks s \<Longrightarrow> spares X s s'"
  by (simp add: spares_def unmoved_def)

text \<open>The current task, which is not the idle task and is ready, blocks until \<open>w\<close>.\<close>

definition may_block :: "nat \<Rightarrow> nat \<Rightarrow> sched \<Rightarrow> bool" where
  "may_block idle c s \<longleftrightarrow> pxCurrentTCB s = Some c \<and> c \<noteq> idle \<and> generic_in s c = Some (ready_list s c)"

lemma block_until:
  assumes "kernel_ok idle T E s" "may_block idle c s" "w \<noteq> xTickCount s" "lists_ok ({..<11} \<union> E) l0" "xItemValue l0 = xItemValue (lsts s)"
    "pvOwner l0 = pvOwner (lsts s)" "pvContainer l0 = (pvContainer (lsts s))(xEventListItem c := ev)" "\<And>m. ev = Some m \<Longrightarrow> 11 \<le> m"
  shows "\<exists>ls. add_to_delayed c w (s\<lparr>lsts := l0\<rparr>) = Some (s\<lparr>lsts := ls\<rparr>) \<and> kernel_ok idle T E (s\<lparr>lsts := ls\<rparr>) \<and> spares {} s (s\<lparr>lsts := ls\<rparr>) \<and>
    delayed (s\<lparr>lsts := ls\<rparr>) c \<and> remaining (s\<lparr>lsts := ls\<rparr>) c = unat (w - xTickCount s) \<and> event_in (s\<lparr>lsts := ls\<rparr>) c = ev"
proof -
  note d = kernel_okD [OF assms(1)] and k = core_okD [OF kernel_okD(1) [OF assms(1)]]
  obtain c': "c \<in> T" "pxCurrentTCB s = Some c" "c \<noteq> idle" using d(7) assms(2) by (auto simp: may_block_def)
  have g: "generic_in (s\<lparr>lsts := l0\<rparr>) c = Some (ready_list s c)" using assms(2,7) by (simp add: may_block_def)
  have r: "ready_list s c < 7" by (rule ready_list_less [OF k(2) c'(1)])
  let ?d = "if w < xTickCount s then pxOverflowDelayedTaskList s else pxDelayedTaskList s"
  have dl: "?d = 7 \<or> ?d = 8" using k(7,8) by auto
  have "lists_ok ({..<11} \<union> E) (lsts (s\<lparr>lsts := l0\<rparr>))" "delay_lists_ok (s\<lparr>lsts := l0\<rparr>)" using assms(4) k(5) by (simp_all add: delay_lists_ok_def)
  from add_to_delayed_value [OF this(1) g _ _ task_items(1) [OF k(2) c'(1)] this(2), of w] r obtain ls where
    ls: "add_to_delayed c w (s\<lparr>lsts := l0\<rparr>) = Some (s\<lparr>lsts := ls\<rparr>)" "lists_ok ({..<11} \<union> E) ls"
    "xItemValue ls = (xItemValue l0)(Item (xGenericListItem c) := w)" "pvOwner ls = pvOwner l0" "pvContainer ls = (pvContainer l0)(xGenericListItem c \<mapsto> ?d)" by auto
  let ?s = "s\<lparr>lsts := ls\<rparr>"
  have co: "pvContainer ls = (pvContainer (lsts s))(xEventListItem c := ev, xGenericListItem c \<mapsto> ?d)" using ls(5) assms(7) by simp
  have cr: "core_ok T E ?s"
  proof (rule core_move [OF d(1) c'(1), where l = ?d])
    show "(m = 9 \<or> 11 \<le> m) \<and> (?d = 7 \<or> ?d = 8)" if "event_in ?s c = Some m" for m using that assms(8) [of m] dl by (auto simp: co)
  qed (use ls(2,4) assms(6,8) r k(4) dl tasks_okD [OF k(2) c'(1)] in \<open>auto simp: co\<close>)
  have wt: "xItemValue ls (Item (xGenericListItem t)) = (if t = c then w else wake_time s t)" for t using ls(3) assms(5) by simp
  have "time_ok T ?s"
    by (rule time_move [OF d(2), where c = c]) (use k(9) assms(3) in \<open>auto simp: co wt not_less less_le split: if_splits\<close>)
  moreover have "rest_ok idle T ?s"
    by (rule rest_ok_cong [OF d(3)]) (use d(3,6) r dl c' assms(2) in \<open>auto simp: co deleted_def xTasksWaitingTermination_def may_block_def split: if_splits\<close>)
  moreover have "calm ?s"
  proof -
    have "t \<in> pending ?s \<longleftrightarrow> t \<in> pending s" if "uxSchedulerSuspended s = 0" for t
      using that d(4) assms(8) by (cases ev) (auto simp: pending_def co calm_def xPendingReadyList_def)
    then show ?thesis using d(4) by (auto simp: calm_def)
  qed
  ultimately have "kernel_ok idle T E ?s" using cr by (simp add: kernel_ok_def)
  moreover have "spares {} s ?s"
    using ready_not_delayed [OF k(2) c'(1)] assms(2) by (auto simp: spares_def unmoved_def co wt may_block_def)
  moreover have "delayed ?s c" "remaining ?s c = unat (w - xTickCount s)" "event_in ?s c = ev" using dl wt by (auto simp: delayed_def remaining_def co)
  ultimately show ?thesis using ls(1) by blast
qed

text \<open>The ticks among the interrupts.\<close>

definition ticks_of :: "irq list \<Rightarrow> nat" where
  "ticks_of qs = length (filter (\<lambda>q. q = Tick_irq) qs)"

lemma ticks_of_simps [simp]: "ticks_of [] = 0" "ticks_of (q # qs) = (if q = Tick_irq then 1 else 0) + ticks_of qs" "ticks_of (qs @ rs) = ticks_of qs + ticks_of rs"
  by (simp_all add: ticks_of_def)

text \<open>What interrupts do while the scheduler is suspended.\<close>

definition held :: "nat \<Rightarrow> sched \<Rightarrow> sched \<Rightarrow> bool" where
  "held n s s' \<longleftrightarrow> uxSchedulerSuspended s' = uxSchedulerSuspended s \<and> xTickCount s' = xTickCount s \<and> uxMissedTicks s' = uxMissedTicks s + word_of_nat n \<and>
     (\<forall>t. generic_in s' t = generic_in s t \<and> wake_time s' t = wake_time s t \<and> (event_in s t = None \<longrightarrow> event_in s' t = None))"

lemma irq_held:
  assumes "kernel_ok idle T E s" "irq_ok E q" "uxSchedulerSuspended s \<noteq> 0" "run_irq q s = Some s'"
  shows "held (ticks_of [q]) s s'"
proof (cases q)
  case Tick_irq
  then show ?thesis using assms(3,4) by (auto simp: run_irq_def xPortSysTickHandler_def vTaskIncrementTick_def held_def)
next
  case (Wake_irq l)
  show ?thesis
  proof (cases "listLIST_IS_EMPTY l (lsts s)")
    case True
    then show ?thesis using Wake_irq assms(4) by (simp add: run_irq_def held_def)
  next
    case False
    from wake_ok [OF assms(1) _ False] Wake_irq assms(2,3) obtain y t s1 ls where
      w: "xTaskRemoveFromEventList l s = Some (y, s1)" "event_in s t = Some l" "s1 = s\<lparr>lsts := ls\<rparr>" "xItemValue ls = xItemValue (lsts s)"
      "pvContainer ls = (pvContainer (lsts s))(xEventListItem t \<mapsto> xPendingReadyList)" by auto
    have "s' = s1" using assms(4) w(1) Wake_irq False by (simp add: run_irq_def)
    then show ?thesis using w Wake_irq by (auto simp: held_def)
  qed
qed

lemma irqs_held:
  assumes "kernel_ok idle T E s" "\<forall>q\<in>set qs. irq_ok E q" "uxSchedulerSuspended s \<noteq> 0" "run_irqs qs s = Some s'"
  shows "held (ticks_of qs) s s'"
  using assms
proof (induction qs arbitrary: s)
  case Nil
  then show ?case by (simp add: held_def)
next
  case (Cons q qs)
  then obtain s1 where s1: "run_irq q s = Some s1" "run_irqs qs s1 = Some s'" by (auto simp: bind_eq_Some_conv)
  have k: "kernel_ok idle T E s1" using run_irq_ok [OF Cons.prems(1), of q] Cons.prems(2) s1(1) by auto
  have h: "held (ticks_of [q]) s s1" using irq_held [OF Cons.prems(1) _ Cons.prems(3) s1(1)] Cons.prems(2) by simp
  then have "uxSchedulerSuspended s1 \<noteq> 0" using Cons.prems(3) by (simp add: held_def)
  from Cons.IH [OF k _ this s1(2)] Cons.prems(2) have "held (ticks_of qs) s1 s'" by simp
  then show ?case using h by (auto simp: held_def add.assoc)
qed

text \<open>Resuming, seen from a sleeping task that waits for no event.\<close>

lemma resumed_sleeper:
  assumes "tasks_ok T s" "resumed s s'" "delayed s c" "event_in s c = None"
  shows "generic_in s' c = (if remaining s c \<le> unat (uxMissedTicks s) then Some (ready_list s c) else generic_in s c)" "event_in s' c = None"
    "wake_time s' c = wake_time s c" "xTickCount s' = xTickCount s + uxMissedTicks s" "uxMissedTicks s' = 0" "uxPriority s' = uxPriority s"
    "uxSchedulerSuspended s' = 0"
proof -
  obtain s2 s3 b where m: "woken (pending s) (s\<lparr>uxSchedulerSuspended := 0\<rparr>) s2" "elapsed (unat (uxMissedTicks s)) s2 s3"
    "s' = s3\<lparr>uxMissedTicks := 0, xMissedYield := b, pendsv := pendsv s'\<rparr>" using assms(2) unfolding resumed_def by blast
  have p: "c \<notin> pending s" using assms(4) by (simp add: pending_def)
  have s2: "generic_in s2 c = generic_in s c" "event_in s2 c = None" "wake_time s2 c = wake_time s c" "xTickCount s2 = xTickCount s" "uxPriority s2 = uxPriority s"
    "uxSchedulerSuspended s2 = 0" using m(1) p assms(4) by (auto elim!: wokenE)
  have d: "delayed s2 c" "remaining s2 c = remaining s c" using s2 assms(3) by (simp_all add: delayed_def remaining_def)
  have s3: "generic_in s3 c = (if remaining s c \<le> unat (uxMissedTicks s) then Some (ready_list s c) else generic_in s c)" "event_in s3 c = None"
    "wake_time s3 c = wake_time s c" "xTickCount s3 = xTickCount s + uxMissedTicks s" "uxPriority s3 = uxPriority s" "uxSchedulerSuspended s3 = 0"
    using m(2) s2 d by (auto elim!: elapsedE)
  have "lsts s' = lsts s3" "xTickCount s' = xTickCount s3" "uxMissedTicks s' = 0" "uxPriority s' = uxPriority s3" "uxSchedulerSuspended s' = uxSchedulerSuspended s3" by (subst m(3), simp)+
  then show "generic_in s' c = (if remaining s c \<le> unat (uxMissedTicks s) then Some (ready_list s c) else generic_in s c)" "event_in s' c = None"
    "wake_time s' c = wake_time s c" "xTickCount s' = xTickCount s + uxMissedTicks s" "uxMissedTicks s' = 0" "uxPriority s' = uxPriority s"
    "uxSchedulerSuspended s' = 0" using s3 by simp_all
qed

text \<open>The interrupts while the scheduler is suspended, and the resumption that ends a delay.\<close>

lemma irqs_resume:
  assumes "kernel_ok idle T E s" "uxSchedulerSuspended s = 1" "\<forall>q\<in>set qs. irq_ok E q"
  obtains s3 y s4 where "run_irqs qs s = Some s3" "kernel_ok idle T E s3" "held (ticks_of qs) s s3" "xTaskResumeAll s3 = Some (y, s4)" "resumed s3 s4"
    "kernel_ok idle T E (if y then s4 else portYIELD_WITHIN_API s4)" "pendsv (if y then s4 else portYIELD_WITHIN_API s4)"
proof -
  from run_irqs_ok [OF assms(1,3)] obtain s3 where i: "run_irqs qs s = Some s3" "kernel_ok idle T E s3" by blast
  have h: "held (ticks_of qs) s s3" using irqs_held [OF assms(1,3) _ i(1)] assms(2) by simp
  then have "uxSchedulerSuspended s3 = 1" using assms(2) by (simp add: held_def)
  from resume_ok [OF i(2)] this obtain y s4 where "xTaskResumeAll s3 = Some (y, s4)" "kernel_ok idle T E s4" "y \<longrightarrow> pendsv s4" "resumed s3 s4" by auto
  then show ?thesis using that [of s3 y s4] i h by (auto simp: portYIELD_WITHIN_API_def)
qed

text \<open>The first part of a delay until \<open>w\<close>.\<close>

lemma delay_begins:
  assumes "kernel_ok idle T E s" "may_block idle c s" "uxSchedulerSuspended s = 0" "w \<noteq> xTickCount s"
  obtains s2 where "add_to_delayed c w (vTaskSuspendAll s) = Some s2" "kernel_ok idle T E s2" "spares {} (vTaskSuspendAll s) s2"
    "delayed s2 c" "remaining s2 c = unat (w - xTickCount s)" "event_in s2 c = None" "uxSchedulerSuspended s2 = 1" "uxMissedTicks s2 = 0"
proof -
  let ?s = "vTaskSuspendAll s"
  have k: "kernel_ok idle T E ?s" using suspend_ok [OF assms(1)] assms(3) by simp
  note c = core_okD [OF kernel_okD(1) [OF k]]
  have m: "may_block idle c ?s" "w \<noteq> xTickCount ?s" using assms(2,4) by (auto simp: may_block_def vTaskSuspendAll_def)
  have cT: "c \<in> T" using m(1) kernel_okD(7) [OF k] by (auto simp: may_block_def)
  have ev: "event_in ?s c = None" using ready_no_event [OF c(2) cT] m(1) by (simp add: may_block_def)
  have "pvContainer (lsts ?s) = (pvContainer (lsts ?s))(xEventListItem c := None)" using ev by (simp add: fun_upd_idem)
  from block_until [OF k m c(1) refl refl this] obtain ls where b: "add_to_delayed c w ?s = Some (?s\<lparr>lsts := ls\<rparr>)" "kernel_ok idle T E (?s\<lparr>lsts := ls\<rparr>)"
    "spares {} ?s (?s\<lparr>lsts := ls\<rparr>)" "delayed (?s\<lparr>lsts := ls\<rparr>) c" "remaining (?s\<lparr>lsts := ls\<rparr>) c = unat (w - xTickCount s)" "event_in (?s\<lparr>lsts := ls\<rparr>) c = None"
    by (auto simp: vTaskSuspendAll_def)
  moreover have "uxSchedulerSuspended (?s\<lparr>lsts := ls\<rparr>) = 1" "uxMissedTicks (?s\<lparr>lsts := ls\<rparr>) = 0"
    using assms(1,3) by (simp_all add: vTaskSuspendAll_def kernel_ok_def calm_def)
  ultimately show ?thesis by (rule that)
qed

lemma delay_steps:
  assumes "kernel_ok idle T E s" "may_block idle c s" "uxSchedulerSuspended s = 0" "0 < n" "\<forall>q\<in>set qs. irq_ok E q"
  obtains s2 s3 y s4 where "kernel_ok idle T E s2" "spares {} (vTaskSuspendAll s) s2" "delayed s2 c" "remaining s2 c = unat n" "event_in s2 c = None"
    "uxSchedulerSuspended s2 = 1" "uxMissedTicks s2 = 0" "kernel_ok idle T E s3" "held (ticks_of qs) s2 s3" "resumed s3 s4"
    "vTaskDelay (run_irqs qs) n s = Some (if y then s4 else portYIELD_WITHIN_API s4)"
    "kernel_ok idle T E (if y then s4 else portYIELD_WITHIN_API s4)" "pendsv (if y then s4 else portYIELD_WITHIN_API s4)"
proof -
  have "xTickCount s + n \<noteq> xTickCount s" using assms(4) by auto
  from delay_begins [OF assms(1-3) this] obtain s2 where b: "add_to_delayed c (xTickCount s + n) (vTaskSuspendAll s) = Some s2" "kernel_ok idle T E s2"
    "spares {} (vTaskSuspendAll s) s2" "delayed s2 c" "remaining s2 c = unat n" "event_in s2 c = None" "uxSchedulerSuspended s2 = 1" "uxMissedTicks s2 = 0" by auto
  from b(2,7) assms(5) obtain s3 y s4 where r: "run_irqs qs s2 = Some s3" "kernel_ok idle T E s3" "held (ticks_of qs) s2 s3" "xTaskResumeAll s3 = Some (y, s4)" "resumed s3 s4"
    "kernel_ok idle T E (if y then s4 else portYIELD_WITHIN_API s4)" "pendsv (if y then s4 else portYIELD_WITHIN_API s4)" by (rule irqs_resume) (rule that)
  have "pxCurrentTCB (vTaskSuspendAll s) = Some c" "xTickCount (vTaskSuspendAll s) = xTickCount s" using assms(2) by (simp_all add: may_block_def vTaskSuspendAll_def)
  then have "vTaskDelay (run_irqs qs) n s = Some (if y then s4 else portYIELD_WITHIN_API s4)"
    using assms(4) b(1) r(1,4) by (simp add: vTaskDelay_def Let_def)
  then show ?thesis using that [of s2 s3 s4 y] b(2-8) r by simp
qed

lemma delay_zero: "vTaskDelay irq 0 s = Some (portYIELD_WITHIN_API s)"
  by (simp add: vTaskDelay_def)

lemma place_ok:
  assumes "kernel_ok idle T E s" "may_block idle c s" "l \<in> E" "0 < n"
  shows "\<exists>s'. vTaskPlaceOnEventList l n s = Some s' \<and> kernel_ok idle T E s' \<and> spares {} s s' \<and> event_in s' c = Some l \<and> delayed s' c \<and> remaining s' c = unat n"
proof -
  note d = kernel_okD [OF assms(1)] and k = core_okD [OF kernel_okD(1) [OF assms(1)]]
  have c: "c \<in> T" "pxCurrentTCB s = Some c" using d(7) assms(2) by (auto simp: may_block_def)
  have ev: "event_in s c = None" using ready_no_event [OF k(2) c(1)] assms(2) by (simp add: may_block_def)
  have l: "11 \<le> l" "l \<in> {..<11} \<union> E" "l \<notin> end_lists" using assms(3) d(1) by (auto simp: core_ok_def end_lists_def)
  from lists_ok_insert [OF k(1) ev task_items(2) [OF k(2) c(1)] l(2,3)] obtain l1 where l1: "vListInsert l (xEventListItem c) (lsts s) = Some l1"
    "lists_ok ({..<11} \<union> E) l1" "xItemValue l1 = xItemValue (lsts s)" "pvOwner l1 = pvOwner (lsts s)" "pvContainer l1 = (pvContainer (lsts s))(xEventListItem c \<mapsto> l)" by blast
  have "xTickCount s + n \<noteq> xTickCount s" using assms(4) by auto
  from block_until [OF assms(1,2) this l1(2-5)] l(1) obtain ls where "add_to_delayed c (xTickCount s + n) (s\<lparr>lsts := l1\<rparr>) = Some (s\<lparr>lsts := ls\<rparr>)"
    "kernel_ok idle T E (s\<lparr>lsts := ls\<rparr>)" "spares {} s (s\<lparr>lsts := ls\<rparr>)" "delayed (s\<lparr>lsts := ls\<rparr>) c" "remaining (s\<lparr>lsts := ls\<rparr>) c = unat n"
    "event_in (s\<lparr>lsts := ls\<rparr>) c = Some l" by auto
  then show ?thesis using l1(1) c(2) by (intro exI [of _ "s\<lparr>lsts := ls\<rparr>"]) (simp add: vTaskPlaceOnEventList_def try_lists_def)
qed

section \<open>Priorities\<close>

text \<open>A task moves to the ready list of a new priority.\<close>

lemma requeue_ok:
  assumes "kernel_ok idle T E s" "t \<in> T" "generic_in s t = Some (ready_list s t)" "p < 7" "b < 7" "lists_ok ({..<11} \<union> E) l0"
    "pvOwner l0 = pvOwner (lsts s)" "pvContainer l0 = (pvContainer (lsts s))(xGenericListItem t := None)" "\<And>u. xItemValue l0 (Item (xGenericListItem u)) = wake_time s u"
    "s0 = s\<lparr>lsts := l0, uxPriority := (uxPriority s)(t := p), uxBasePriority := (uxBasePriority s)(t := b)\<rparr>"
  shows "\<exists>s'. prvAddTaskToReadyQueue t s0 = Some s' \<and> kernel_ok idle T E s' \<and> spares {} s s' \<and> pendsv s' = pendsv s \<and>
    uxPriority s' = (uxPriority s)(t := p) \<and> uxBasePriority s' = (uxBasePriority s)(t := b) \<and> uxSchedulerSuspended s' = uxSchedulerSuspended s \<and> pxCurrentTCB s' = pxCurrentTCB s"
proof -
  note d = kernel_okD [OF assms(1)] and k = core_okD [OF kernel_okD(1) [OF assms(1)]]
  have r: "ready_list s t < 7" "unat p < 7" using ready_list_less [OF k(2) assms(2)] assms(4) by (simp_all add: word_less_nat_alt)
  have "lists_ok ({..<11} \<union> E) (lsts s0)" "generic_in s0 t = None" "uxPriority s0 t < 7" using assms(4,6,8,10) by simp_all
  from add_to_ready [OF this(1,2) tasks_okD(1) [OF k(2) assms(2)] this(3)] obtain ls where
    ls: "prvAddTaskToReadyQueue t s0 = Some (s0\<lparr>lsts := ls, uxTopReadyPriority := max (uxTopReadyPriority s0) (uxPriority s0 t)\<rparr>)"
    "lists_ok ({..<11} \<union> E) ls" "xItemValue ls = xItemValue (lsts s0)" "pvOwner ls = pvOwner (lsts s0)"
    "pvContainer ls = (pvContainer (lsts s0))(xGenericListItem t \<mapsto> ready_list s0 t)" by blast
  let ?s = "s0\<lparr>lsts := ls, uxTopReadyPriority := max (uxTopReadyPriority s0) (uxPriority s0 t)\<rparr>"
  have co: "pvContainer ls = (pvContainer (lsts s))(xGenericListItem t \<mapsto> unat p)" using ls(5) assms(8,10) by simp
  have nd: "\<not> delayed s t" by (rule ready_not_delayed [OF k(2) assms(2,3)])
  have "core_ok T E ?s"
    by (rule core_move [OF d(1) assms(2), where l = "unat p"])
      (use ls(2,4) assms(2,4,5,7) k(4) ready_no_event [OF k(2) assms(2,3)] in \<open>auto simp: co assms(10)\<close>)
  moreover have "time_ok T ?s"
    by (rule time_move [OF d(2), where c = t]) (use k(7,8) r(2) assms(9) ls(3) in \<open>auto simp: co assms(10)\<close>)
  moreover have "rest_ok idle T ?s"
    by (rule rest_ok_cong [OF d(3)])
      (use d(3,6) r assms(3) in \<open>auto simp: co assms(10) deleted_def xTasksWaitingTermination_def rest_ok_def\<close>)
  moreover have "calm ?s" using d(4) by (simp add: calm_def pending_def co assms(10))
  ultimately have "kernel_ok idle T E ?s" by (simp add: kernel_ok_def)
  moreover have "spares {} s ?s" using nd assms(9) ls(3) by (auto simp: spares_def unmoved_def co assms(10))
  ultimately show ?thesis using ls(1) by (intro exI [of _ ?s]) (simp add: assms(10))
qed

text \<open>The priority of a task that is not ready changes.\<close>

lemma reprioritise_ok:
  assumes "kernel_ok idle T E s" "t \<in> T" "generic_in s t \<noteq> Some (ready_list s t) \<or> p = uxPriority s t" "p < 7" "b < 7"
  shows "kernel_ok idle T E (s\<lparr>uxPriority := (uxPriority s)(t := p), uxBasePriority := (uxBasePriority s)(t := b)\<rparr>)" (is "kernel_ok idle T E ?s")
proof -
  note d = kernel_okD [OF assms(1)] and k = core_okD [OF kernel_okD(1) [OF assms(1)]]
  from tasks_okD(6) [OF k(2) assms(2)] obtain l where l: "generic_in s t = Some l" "l = ready_list s t \<or> l = 7 \<or> l = 8 \<or> l = 10" by blast
  have p: "unat p < 7" using assms(4) by (simp add: word_less_nat_alt)
  have "core_ok T E ?s"
  proof (rule core_move [OF d(1) assms(2), where l = l])
    show "uxPriority ?s t \<le> uxTopReadyPriority ?s" if "l = ready_list ?s t"
      using that l assms(2,3) p k(3) by (auto simp: top_ok_def)
    show "(m = 9 \<or> 11 \<le> m) \<and> (l = 7 \<or> l = 8)" if "event_in ?s t = Some m" for m
      using that tasks_okD(7) [OF k(2) assms(2)] l(1) k(2) assms(2) by (auto simp: tasks_ok_def)
  qed (use k(1,4) assms l in auto)
  moreover have "time_ok T ?s" using d(2) by (simp add: time_ok_def)
  moreover have "rest_ok idle T ?s"
    by (rule rest_ok_cong [OF d(3)]) (use d(3,6) assms(3) in \<open>auto simp: deleted_def rest_ok_def\<close>)
  moreover have "calm ?s" using d(4) by (simp add: calm_def pending_def)
  ultimately show ?thesis by (simp add: kernel_ok_def)
qed

text \<open>The value of an event item is of no concern here.\<close>

lemma set_event_value_ok:
  assumes "kernel_ok idle T E s" "t \<in> T"
  shows "kernel_ok idle T E (set_event_value t p s)" "lsts (set_event_value t p s) = listSET_LIST_ITEM_VALUE (xEventListItem t) (configMAX_PRIORITIES - p) (lsts s)"
    "spares {} s (set_event_value t p s)"
proof -
  note d = kernel_okD [OF assms(1)] and k = core_okD [OF kernel_okD(1) [OF assms(1)]]
  have "event_in s t \<noteq> Some 7" "event_in s t \<noteq> Some 8" using k(2) assms(2) by (auto simp: tasks_ok_def)
  from lists_ok_set_value [OF k(1) this] have "lists_ok ({..<11} \<union> E) (lsts (set_event_value t p s))" by (simp add: set_event_value_def on_lists_def)
  then show "kernel_ok idle T E (set_event_value t p s)"
    using assms(1) by (simp add: kernel_ok_def core_ok_def tasks_ok_def delay_lists_ok_def top_ok_def time_ok_def calm_def pending_def
        rest_ok_def memory_ok_def deleted_def set_event_value_def on_lists_def)
  show "lsts (set_event_value t p s) = listSET_LIST_ITEM_VALUE (xEventListItem t) (configMAX_PRIORITIES - p) (lsts s)"
    by (simp add: set_event_value_def on_lists_def)
  show "spares {} s (set_event_value t p s)" by (simp add: spares_def unmoved_def set_event_value_def on_lists_def)
qed

lemma in_ready_list_value: "p < 7 \<Longrightarrow> in_ready_list p t s = Some (generic_in s t = Some (unat p))"
  by (simp add: in_ready_list_def pxReadyTasksLists_def configMAX_PRIORITIES_def listIS_CONTAINED_WITHIN_def)

text \<open>The event value is set, the task is removed from its ready list and added to the one of its new priority.\<close>

lemma move_ready_ok:
  assumes "kernel_ok idle T E s" "t \<in> T" "generic_in s t = Some (ready_list s t)" "p < 7" "b < 7"
  shows "\<exists>l0 s'. try_lists (vListRemove (xGenericListItem t)) (set_event_value t q s) = Some (s\<lparr>lsts := l0\<rparr>) \<and>
    prvAddTaskToReadyQueue t (s\<lparr>lsts := l0, uxPriority := (uxPriority s)(t := p), uxBasePriority := (uxBasePriority s)(t := b)\<rparr>) = Some s' \<and>
    kernel_ok idle T E s' \<and> spares {} s s'"
proof -
  let ?s = "set_event_value t q s"
  note e = set_event_value_ok [OF assms(1,2), of q]
  have s: "?s = s\<lparr>lsts := lsts ?s\<rparr>" by (simp add: set_event_value_def on_lists_def)
  have "generic_in ?s t = Some (ready_list s t)" using assms(3) by (simp add: e(2))
  from try_remove [OF core_okD(1) [OF kernel_okD(1) [OF e(1)]] this] obtain l0 where l0: "try_lists (vListRemove (xGenericListItem t)) ?s = Some (?s\<lparr>lsts := l0\<rparr>)"
    "lists_ok ({..<11} \<union> E) l0" "xItemValue l0 = xItemValue (lsts ?s)" "pvOwner l0 = pvOwner (lsts ?s)" "pvContainer l0 = (pvContainer (lsts ?s))(xGenericListItem t := None)" by blast
  have l: "?s\<lparr>lsts := l0\<rparr> = s\<lparr>lsts := l0\<rparr>" by (subst s) simp
  from requeue_ok [OF assms l0(2) _ _ _ refl] l0(3-5) e(2) show ?thesis using l0(1) l by (auto simp: fun_eq_iff)
qed

definition target :: "nat option \<Rightarrow> sched \<Rightarrow> nat option" where
  "target h s = (case h of None \<Rightarrow> pxCurrentTCB s | Some t \<Rightarrow> Some t)"

lemma target_current [simp]: "prvGetTCBFromHandle (if h = pxCurrentTCB s then None else h) s = target h s"
  by (cases h) (auto simp: prvGetTCBFromHandle_def target_def)

lemma priority_set_ok:
  assumes "kernel_ok idle T E s" "target h s = Some t" "t \<in> T"
  shows "\<exists>s'. vTaskPrioritySet h p s = Some s' \<and> kernel_ok idle T E s' \<and> spares {} s s'"
proof -
  note k = core_okD [OF kernel_okD(1) [OF assms(1)]]
  define new where "new = (if configMAX_PRIORITIES \<le> p then configMAX_PRIORITIES - 1 else p)"
  define y where "y = (if uxBasePriority s t < new then (if h = pxCurrentTCB s then None else h) \<noteq> None else (if h = pxCurrentTCB s then None else h) = None)"
  have n: "new < 7" by (simp add: new_def configMAX_PRIORITIES_def not_le)
  have ob: "uxBasePriority s t < 7" by (rule tasks_okD(3) [OF k(2) assms(3)])
  define p' where "p' = (if uxBasePriority s t = uxPriority s t then new else uxPriority s t)"
  have p': "p' < 7" using n tasks_okD(2) [OF k(2) assms(3)] by (simp add: p'_def)
  let ?s2 = "s\<lparr>uxPriority := (uxPriority s)(t := p'), uxBasePriority := (uxBasePriority s)(t := new)\<rparr>"
  let ?s3 = "set_event_value t new ?s2"
  have s2: "(if uxBasePriority s t = uxPriority s t then s\<lparr>uxPriority := (uxPriority s)(t := new)\<rparr> else s)
      \<lparr>uxBasePriority := (uxBasePriority (if uxBasePriority s t = uxPriority s t then s\<lparr>uxPriority := (uxPriority s)(t := new)\<rparr> else s))(t := new)\<rparr> = ?s2"
    by (simp add: p'_def)
  have g: "generic_in ?s3 t = generic_in s t" by (simp add: set_event_value_def on_lists_def)
  have r: "in_ready_list (uxBasePriority s t) t ?s3 = Some (generic_in s t = Some (unat (uxBasePriority s t)))" using in_ready_list_value [OF ob] g by simp
  have v: "vTaskPrioritySet h p s = (if uxBasePriority s t \<noteq> new then
      Option.bind (if generic_in s t = Some (unat (uxBasePriority s t)) then Option.bind (try_lists (vListRemove (xGenericListItem t)) ?s3) (prvAddTaskToReadyQueue t) else Some ?s3)
        (\<lambda>s4. Some (if y then portYIELD_WITHIN_API s4 else s4)) else Some s)"
    using assms(2) r unfolding vTaskPrioritySet_def Let_def new_def [symmetric] target_current s2 by (simp add: s2 y_def)
  have fin: "\<exists>s'. Option.bind (Some s4) (\<lambda>s4. Some (if y then portYIELD_WITHIN_API s4 else s4)) = Some s' \<and> kernel_ok idle T E s' \<and> spares {} s s'"
    if "kernel_ok idle T E s4" "spares {} s s4" for s4
    using that by (auto simp: portYIELD_WITHIN_API_def spares_def unmoved_def)
  show ?thesis
  proof (cases "uxBasePriority s t \<noteq> new \<and> generic_in s t = Some (unat (uxBasePriority s t))")
    case True
    have "generic_in s t = Some (ready_list s t)" using tasks_okD(6) [OF k(2) assms(3)] True ob by (auto simp: word_less_nat_alt)
    from move_ready_ok [OF assms(1,3) this p' n, of new] obtain l0 s4 where m: "try_lists (vListRemove (xGenericListItem t)) (set_event_value t new s) = Some (s\<lparr>lsts := l0\<rparr>)"
      "prvAddTaskToReadyQueue t (s\<lparr>lsts := l0, uxPriority := (uxPriority s)(t := p'), uxBasePriority := (uxBasePriority s)(t := new)\<rparr>) = Some s4"
      "kernel_ok idle T E s4" "spares {} s s4" by blast
    have "try_lists (vListRemove (xGenericListItem t)) ?s3 = Some (s\<lparr>lsts := l0, uxPriority := (uxPriority s)(t := p'), uxBasePriority := (uxBasePriority s)(t := new)\<rparr>)"
      using m(1) by (auto simp: try_lists_def set_event_value_def on_lists_def dest: arg_cong [where f = lsts])
    then show ?thesis using fin [OF m(3,4)] m(2) True by (simp add: v)
  next
    case False
    show ?thesis
    proof (cases "uxBasePriority s t = new")
      case True
      then show ?thesis using assms(1) by (simp add: v spares_def unmoved_def)
    next
      case ne: False
      have "generic_in s t \<noteq> Some (ready_list s t) \<or> p' = uxPriority s t" using False ne by (auto simp: p'_def)
      from reprioritise_ok [OF assms(1,3) this p' n] have "kernel_ok idle T E ?s2" .
      from set_event_value_ok [OF this assms(3), of new] have "kernel_ok idle T E ?s3" "spares {} ?s2 ?s3" by simp_all
      moreover have "spares {} s ?s3" by (simp add: spares_def unmoved_def set_event_value_def on_lists_def)
      ultimately show ?thesis using fin [of ?s3] False ne by (simp add: v)
    qed
  qed
qed

lemma inherit_ok:
  assumes "kernel_ok idle T E s" "t \<in> T"
  shows "\<exists>s'. vTaskPriorityInherit t s = Some s' \<and> kernel_ok idle T E s' \<and> spares {} s s'"
proof -
  note k = core_okD [OF kernel_okD(1) [OF assms(1)]]
  obtain c where c: "c \<in> T" "pxCurrentTCB s = Some c" using kernel_okD(7) [OF assms(1)] by blast
  let ?p = "uxPriority s c" and ?s = "set_event_value t (uxPriority s c) s"
  note e = set_event_value_ok [OF assms, of ?p]
  have p: "?p < 7" "uxPriority s t < 7" "uxBasePriority s t < 7" using tasks_okD(2,3) [OF k(2)] c(1) assms(2) by simp_all
  have f: "uxPriority ?s = uxPriority s" "generic_in ?s t = generic_in s t" by (simp_all add: set_event_value_def on_lists_def)
  show ?thesis
  proof (cases "uxPriority s t < ?p")
    case False
    then show ?thesis using assms(1) c by (simp add: vTaskPriorityInherit_def spares_def unmoved_def)
  next
    case lt: True
    show ?thesis
    proof (cases "generic_in s t = Some (ready_list s t)")
      case True
      from move_ready_ok [OF assms True p(1,3), of ?p] obtain l0 s' where m: "try_lists (vListRemove (xGenericListItem t)) ?s = Some (s\<lparr>lsts := l0\<rparr>)"
        "prvAddTaskToReadyQueue t (s\<lparr>lsts := l0, uxPriority := (uxPriority s)(t := ?p), uxBasePriority := (uxBasePriority s)(t := uxBasePriority s t)\<rparr>) = Some s'"
        "kernel_ok idle T E s'" "spares {} s s'" by blast
      then show ?thesis using c(2) lt True in_ready_list_value [OF p(2)] f by (simp add: vTaskPriorityInherit_def Let_def)
    next
      case False
      let ?s' = "?s\<lparr>uxPriority := (uxPriority ?s)(t := ?p), uxBasePriority := (uxBasePriority ?s)(t := uxBasePriority ?s t)\<rparr>"
      have b: "uxBasePriority ?s t < 7" using p(3) by (simp add: set_event_value_def on_lists_def)
      have "generic_in ?s t \<noteq> Some (ready_list ?s t) \<or> ?p = uxPriority ?s t" using False f by simp
      from reprioritise_ok [OF e(1) assms(2) this p(1) b] have "kernel_ok idle T E ?s'" .
      moreover have "spares {} s ?s'" using e(3) by (simp add: spares_def unmoved_def set_event_value_def on_lists_def)
      ultimately show ?thesis using c(2) lt False in_ready_list_value [OF p(2)] f by (simp add: vTaskPriorityInherit_def Let_def)
    qed
  qed
qed

lemma disinherit_ok:
  assumes "kernel_ok idle T E s" "\<And>t. h = Some t \<Longrightarrow> t \<in> T \<and> generic_in s t = Some (ready_list s t)"
  shows "\<exists>s'. vTaskPriorityDisinherit h s = Some s' \<and> kernel_ok idle T E s' \<and> spares {} s s'"
proof (cases h)
  case None
  then show ?thesis using assms(1) by (simp add: vTaskPriorityDisinherit_def spares_def unmoved_def)
next
  case (Some t)
  note k = core_okD [OF kernel_okD(1) [OF assms(1)]] and t = assms(2) [OF Some]
  let ?b = "uxBasePriority s t"
  have b: "?b < 7" using tasks_okD(3) [OF k(2)] t by blast
  show ?thesis
  proof (cases "uxPriority s t = ?b")
    case True
    then show ?thesis using Some assms(1) by (simp add: vTaskPriorityDisinherit_def spares_def unmoved_def)
  next
    case False
    from try_remove [OF k(1)] t obtain l1 where l1: "try_lists (vListRemove (xGenericListItem t)) s = Some (s\<lparr>lsts := l1\<rparr>)" "lists_ok ({..<11} \<union> E) l1"
      "xItemValue l1 = xItemValue (lsts s)" "pvOwner l1 = pvOwner (lsts s)" "pvContainer l1 = (pvContainer (lsts s))(xGenericListItem t := None)" by blast
    let ?l = "listSET_LIST_ITEM_VALUE (xEventListItem t) (configMAX_PRIORITIES - ?b) l1"
    have "event_in s t = None" using ready_no_event [OF k(2)] t by blast
    then have "lists_ok ({..<11} \<union> E) ?l" by (intro lists_ok_set_value [OF l1(2)]) (simp_all add: l1(5))
    from requeue_ok [OF assms(1) conjunct1 [OF t] conjunct2 [OF t] b b this _ _ _ refl] l1(3-5) obtain s' where
      "prvAddTaskToReadyQueue t (s\<lparr>lsts := ?l, uxPriority := (uxPriority s)(t := ?b), uxBasePriority := (uxBasePriority s)(t := ?b)\<rparr>) = Some s'"
      "kernel_ok idle T E s'" "spares {} s s'" by auto
    moreover have sw: "s\<lparr>uxPriority := (uxPriority s)(t := ?b), lsts := ?l\<rparr> = s\<lparr>lsts := ?l, uxPriority := (uxPriority s)(t := ?b), uxBasePriority := (uxBasePriority s)(t := ?b)\<rparr>"
      by simp
    have "vTaskPriorityDisinherit h s = prvAddTaskToReadyQueue t (s\<lparr>uxPriority := (uxPriority s)(t := ?b), lsts := ?l\<rparr>)"
      using Some False l1(1) by (simp add: vTaskPriorityDisinherit_def Let_def set_event_value_def on_lists_def)
    ultimately show ?thesis unfolding sw by (intro exI [of _ s']) simp
  qed
qed

end
