(* ===== verification/Kernel_Life.thy ===== *)
theory Kernel_Life
  imports Kernel_Run
begin

text \<open>
  Creation and deletion of tasks on the modelled allocator, and the start of the scheduler: every one of them
  keeps the invariant of the kernel, and a task that is deleted gives its control block and its stack back.
\<close>

section \<open>The control blocks in the heap\<close>

lemma heap_live_distinct:
  assumes "heap_live h live"
  shows "distinct (map fst live)" "(p, n) \<in> set live \<Longrightarrow> 16 \<le> p \<and> p < 2 ^ 30"
proof -
  consider "live = []" | fs where "heap_inv h fs (headers live)" "fits h live" using assms by (auto simp: heap_live_def)
  then show "distinct (map fst live)" "(p, n) \<in> set live \<Longrightarrow> 16 \<le> p \<and> p < 2 ^ 30"
    by (cases; use inv_regions(1,2) [of h _ live] in fastforce)+
qed

lemma sizeof_tskTCB_value [simp]: "unat sizeof_tskTCB = 76"
  by (simp add: sizeof_tskTCB_def)

lemma memory_okE:
  assumes "memory_ok T s"
  obtains live where "heap_live (kheap s) live" "\<And>t. t \<in> T \<Longrightarrow> (t, 76) \<in> set live" "\<And>t. t \<in> T \<Longrightarrow> pxStack s t \<in> fst ` set live"
    "inj_on (pxStack s) T" "\<And>t. t \<in> T \<Longrightarrow> pxStack s t \<notin> T"
  using assms unfolding memory_ok_def sizeof_tskTCB_value by blast

text \<open>The allocation gives nothing, or a control block and a stack that overlap with nothing in use.\<close>

lemma allocate_ok:
  assumes "memory_ok T s"
  obtains (none) h where "prvAllocateTCBAndStack depth None (kheap s) = Some (None, h)" "memory_ok T (s\<lparr>kheap := h\<rparr>)"
  | (new) t b h where "prvAllocateTCBAndStack depth None (kheap s) = Some (Some (t, b), h)" "t \<notin> T" "t < 2 ^ 30"
      "memory_ok (insert t T) (s\<lparr>kheap := h, pxStack := (pxStack s)(t := b)\<rparr>)"
proof -
  from assms obtain live where m: "heap_live (kheap s) live" "\<And>t. t \<in> T \<Longrightarrow> (t, 76) \<in> set live" "\<And>t. t \<in> T \<Longrightarrow> pxStack s t \<in> fst ` set live"
    "inj_on (pxStack s) T" "\<And>t. t \<in> T \<Longrightarrow> pxStack s t \<notin> T" by (rule memory_okE) (rule that)
  have keep: "memory_ok T (s\<lparr>kheap := h\<rparr>)" if "heap_live h live" for h
    using that m by (auto simp: memory_ok_def)
  have "unat sizeof_tskTCB + 23 < 2 ^ 32" by simp
  with m(1) show ?thesis
  proof (cases rule: heap_live_malloc)
    case n: (none h)
    then show ?thesis using none [of h] keep by (simp add: prvAllocateTCBAndStack_def)
  next
    case p: (block p h1)
    have "unat (ucast depth * 4 :: 32 word) + 23 < 2 ^ 32"
    proof -
      have d: "unat depth < 65536" using unsigned_less [of depth, where 'a = nat] by simp
      then have "unat (ucast depth :: 32 word) = unat depth" by (simp add: unsigned_ucast_eq take_bit_nat_eq_self)
      then show ?thesis using d by (simp add: unat_word_ariths)
    qed
    with p(2) show ?thesis
    proof (cases rule: heap_live_malloc)
      case n: (none h2)
      from heap_live_free [of h2 "[]" p 76 live] n(2) obtain h3 where "vPortFree (Some p) h2 = Some h3" "heap_live h3 live" by auto
      then show ?thesis using none [of h3] keep p(1) n(1) by (simp add: prvAllocateTCBAndStack_def)
    next
      case b: (block b h2)
      let ?live = "(b, unat (ucast depth * 4 :: 32 word)) # (p, 76) # live"
      have hl: "heap_live h2 ?live" using b(2) by simp
      note dis = heap_live_distinct [OF hl]
      have ne: "b \<noteq> p" "b \<notin> fst ` set live" "p \<notin> fst ` set live" using dis(1) by auto
      have T: "p \<notin> T" "b \<notin> T" using ne m(2) [of p] m(2) [of b] by force+
      have st: "b \<notin> pxStack s ` T" "p \<notin> pxStack s ` T" using ne m(3) by auto
      have "memory_ok (insert p T) (s\<lparr>kheap := h2, pxStack := (pxStack s)(p := b)\<rparr>)"
        unfolding memory_ok_def sizeof_tskTCB_value
      proof (intro exI [of _ ?live] conjI ballI)
        show "heap_live (kheap (s\<lparr>kheap := h2, pxStack := (pxStack s)(p := b)\<rparr>)) ?live" using hl by simp
        show "inj_on (pxStack (s\<lparr>kheap := h2, pxStack := (pxStack s)(p := b)\<rparr>)) (insert p T)"
          using m(4) T st by (auto simp: inj_on_def)
        fix u assume u: "u \<in> insert p T"
        show "(u, 76) \<in> set ?live" using u m(2) by auto
        show "pxStack (s\<lparr>kheap := h2, pxStack := (pxStack s)(p := b)\<rparr>) u \<in> fst ` set ?live" using u m(3) T by auto
        show "pxStack (s\<lparr>kheap := h2, pxStack := (pxStack s)(p := b)\<rparr>) u \<notin> insert p T" using u m(5) T st ne by auto
      qed
      moreover have "p < 2 ^ 30" using dis(2) [of p 76] by simp
      ultimately show ?thesis using new [of p b h2] p(1) b(1) T(1) by (simp add: prvAllocateTCBAndStack_def)
    qed
  qed
qed

text \<open>Deleting gives the stack and the control block back.\<close>

lemma delete_tcb:
  assumes "memory_ok T s" "t \<in> T"
  shows "\<exists>h. prvDeleteTCB t s = Some (s\<lparr>kheap := h\<rparr>) \<and> memory_ok (T - {t}) (s\<lparr>kheap := h\<rparr>)"
proof -
  from assms(1) obtain live where m: "heap_live (kheap s) live" "\<And>t. t \<in> T \<Longrightarrow> (t, 76) \<in> set live" "\<And>t. t \<in> T \<Longrightarrow> pxStack s t \<in> fst ` set live"
    "inj_on (pxStack s) T" "\<And>t. t \<in> T \<Longrightarrow> pxStack s t \<notin> T" by (rule memory_okE) (rule that)
  from m(3) [OF assms(2)] obtain n where "(pxStack s t, n) \<in> set live" by auto
  then obtain as bs where ab: "live = as @ (pxStack s t, n) # bs" by (auto dest: split_list)
  from heap_live_free [of "kheap s" as "pxStack s t" n bs] m(1) ab obtain h1 where h1: "vPortFree (Some (pxStack s t)) (kheap s) = Some h1" "heap_live h1 (as @ bs)" by auto
  have ne: "pxStack s t \<noteq> t" using m(5) [OF assms(2)] assms(2) by auto
  then have "(t, 76) \<in> set (as @ bs)" using m(2) [OF assms(2)] ab by auto
  then obtain cs ds where cd: "as @ bs = cs @ (t, 76) # ds" by (metis split_list)
  from heap_live_free [of h1 cs t 76 ds] h1(2) cd obtain h2 where h2: "vPortFree (Some t) h1 = Some h2" "heap_live h2 (cs @ ds)" by auto
  have left: "(x, k) \<in> set (cs @ ds)" if "(x, k) \<in> set live" "x \<noteq> t" "x \<noteq> pxStack s t" for x k
  proof -
    have "(x, k) \<in> set (as @ bs)" using that ab by auto
    then show ?thesis using that(2) unfolding cd by auto
  qed
  have "memory_ok (T - {t}) (s\<lparr>kheap := h2\<rparr>)"
    unfolding memory_ok_def sizeof_tskTCB_value
  proof (intro exI [of _ "cs @ ds"] conjI ballI)
    fix u assume u: "u \<in> T - {t}"
    then have "pxStack s u \<noteq> pxStack s t" using m(4) assms(2) by (auto simp: inj_on_def)
    moreover have "u \<noteq> pxStack s t" "pxStack s u \<noteq> t" using m(5) [of t] m(5) [of u] u assms(2) by auto
    moreover obtain k where "(pxStack s u, k) \<in> set live" using m(3) [of u] u by auto
    ultimately show "(u, 76) \<in> set (cs @ ds)" "pxStack (s\<lparr>kheap := h2\<rparr>) u \<in> fst ` set (cs @ ds)"
      using left [of u 76] left [of "pxStack s u" k] m(2) [of u] u by force+
    show "pxStack (s\<lparr>kheap := h2\<rparr>) u \<notin> T - {t}" using m(5) [of u] u by auto
  qed (use h2(2) m(4) in \<open>auto simp: inj_on_def\<close>)
  then show ?thesis using h1(1) h2(1) by (intro exI [of _ h2]) (simp add: prvDeleteTCB_def)
qed

section \<open>Deletion\<close>

lemma memory_ok_cong: "kheap s' = kheap s \<Longrightarrow> pxStack s' = pxStack s \<Longrightarrow> memory_ok T s' = memory_ok T s"
  by (simp add: memory_ok_def)

lemma delete_ok:
  assumes "kernel_ok idle T E s" "target h s = Some t" "t \<in> T" "t \<noteq> idle" "t \<notin> deleted s"
  shows "\<exists>s'. vTaskDelete h s = Some s' \<and> kernel_ok idle T E s' \<and> spares {t} s s' \<and> deleted s' = insert t (deleted s)"
proof -
  note d = kernel_okD [OF assms(1)] and k = core_okD [OF kernel_okD(1) [OF assms(1)]]
  obtain l where l: "generic_in s t = Some l" using tasks_okD(6) [OF k(2) assms(3)] by blast
  from detach [OF k(1) l] obtain l1 l2 where m: "try_lists (vListRemove (xGenericListItem t)) s = Some (s\<lparr>lsts := l1\<rparr>)"
    "(if event_in (s\<lparr>lsts := l1\<rparr>) t \<noteq> None then try_lists (vListRemove (xEventListItem t)) (s\<lparr>lsts := l1\<rparr>) else Some (s\<lparr>lsts := l1\<rparr>)) = Some (s\<lparr>lsts := l2\<rparr>)"
    "lists_ok ({..<11} \<union> E) l2" "xItemValue l2 = xItemValue (lsts s)" "pvOwner l2 = pvOwner (lsts s)"
    "pvContainer l2 = (pvContainer (lsts s))(xGenericListItem t := None, xEventListItem t := None)" by blast
  let ?ls = "vListInsertEnd xTasksWaitingTermination (xGenericListItem t) l2"
  let ?s = "s\<lparr>lsts := ?ls, uxTasksDeleted := uxTasksDeleted s + 1, uxTaskNumber := uxTaskNumber s + 1\<rparr>"
  have lo: "lists_ok ({..<11} \<union> E) ?ls"
    by (rule lists_ok_insert_end [OF m(3)]) (use m(6) task_items [OF k(2) assms(3)] in \<open>simp_all add: end_lists_def xTasksWaitingTermination_def\<close>)
  have r: "ready_list s t < 7" by (rule ready_list_less [OF k(2) assms(3)])
  note v = m(4,5)
  have cr: "core_ok T E ?s"
    by (rule core_move [OF d(1) assms(3), where l = 10])
      (use lo v(2) k(4) r tasks_okD(2,3) [OF k(2) assms(3)] in \<open>auto simp: m(6) xTasksWaitingTermination_def\<close>)
  have tm: "time_ok T ?s" by (rule time_move [OF d(2), where c = t]) (use k(7,8) v(1) in \<open>auto simp: m(6) xTasksWaitingTermination_def\<close>)
  have de: "deleted ?s = insert t (deleted s)" by (auto simp: deleted_def m(6))
  have fin: "finite (deleted s)"
    by (rule finite_subset [of _ T]) (use k(2) tasks_only(1) [OF k(2)] in \<open>auto simp: deleted_def tasks_ok_def\<close>)
  have "memory_ok T ?s" using d(3) memory_ok_cong [of ?s s T] by (simp add: rest_ok_def)
  then have rs: "rest_ok idle T ?s"
    using d(3) assms(4,5) fin unfolding rest_ok_def de by (auto simp: m(6))
  have "calm ?s" using d(4) by (auto simp: calm_def pending_def m(6))
  then have ok: "kernel_ok idle T E ?s" using cr tm rs by (simp add: kernel_ok_def)
  have sp: "spares {t} s ?s" using v(1) by (auto simp: spares_def unmoved_def m(6))
  let ?y = "xSchedulerRunning s \<and> (if h = pxCurrentTCB s then None else h) = None"
  have "vTaskDelete h s = Some (if ?y then portYIELD_WITHIN_API ?s else ?s)"
    using m(1,2) assms(2) unfolding vTaskDelete_def Let_def target_current
    by (simp add: on_lists_def)
  then show ?thesis using ok sp de by (auto simp: portYIELD_WITHIN_API_def spares_def unmoved_def deleted_def)
qed

text \<open>The idle task removes one deleted task from the kernel and from the heap.\<close>

lemma word_pred: "0 < card A \<Longrightarrow> (word_of_nat (card A) :: 32 word) - 1 = word_of_nat (card A - 1)"
  by (cases "card A") simp_all

lemma reap_ok:
  assumes "kernel_ok idle T E s" "pxCurrentTCB s = Some idle" "t \<in> deleted s"
  shows "\<exists>l1 s'. try_lists (vListRemove (xGenericListItem t)) s = Some (s\<lparr>lsts := l1\<rparr>) \<and>
    prvDeleteTCB t (s\<lparr>lsts := l1, uxCurrentNumberOfTasks := uxCurrentNumberOfTasks s - 1, uxTasksDeleted := uxTasksDeleted s - 1\<rparr>) = Some s' \<and>
    kernel_ok idle (T - {t}) E s' \<and> spares {t} s s' \<and> generic_in s' t = None \<and> event_in s' t = None \<and> t \<in> T \<and> (\<forall>u\<in>T - {t}. generic_in s' u \<noteq> None)"
proof -
  note d = kernel_okD [OF assms(1)] and k = core_okD [OF kernel_okD(1) [OF assms(1)]]
  have g: "generic_in s t = Some 10" using assms(3) by (simp add: deleted_def xTasksWaitingTermination_def)
  have t: "t \<in> T" "t \<noteq> idle" using tasks_only(1) [OF k(2) g] g d(6) ready_list_less [OF k(2) d(5)] by auto
  have ev: "event_in s t = None" using tasks_okD(7) [OF k(2) t(1)] g by (cases "event_in s t") auto
  from try_remove [OF k(1) g] obtain l1 where l1: "try_lists (vListRemove (xGenericListItem t)) s = Some (s\<lparr>lsts := l1\<rparr>)" "lists_ok ({..<11} \<union> E) l1"
    "xItemValue l1 = xItemValue (lsts s)" "pvOwner l1 = pvOwner (lsts s)" "pvContainer l1 = (pvContainer (lsts s))(xGenericListItem t := None)" by blast
  let ?s = "s\<lparr>lsts := l1, uxCurrentNumberOfTasks := uxCurrentNumberOfTasks s - 1, uxTasksDeleted := uxTasksDeleted s - 1\<rparr>"
  have "memory_ok T ?s" using d(3) memory_ok_cong [of ?s s T] by (simp add: rest_ok_def)
  from delete_tcb [OF this t(1)] obtain h where h: "prvDeleteTCB t ?s = Some (?s\<lparr>kheap := h\<rparr>)" "memory_ok (T - {t}) (?s\<lparr>kheap := h\<rparr>)" by blast
  let ?s' = "?s\<lparr>kheap := h\<rparr>"
  have "tasks_ok (T - {t}) ?s'" using k(2) ev by (auto simp: tasks_ok_def l1(4,5))
  moreover have "top_ok (T - {t}) ?s'" using k(3) by (auto simp: top_ok_def l1(5))
  ultimately have cr: "core_ok (T - {t}) E ?s'" using d(1) l1(2) by (simp add: core_ok_def delay_lists_ok_def)
  have tm: "time_ok (T - {t}) ?s'" using d(2) by (auto simp: time_ok_def l1(3,5))
  have de: "deleted ?s' = deleted s - {t}" by (auto simp: deleted_def l1(5))
  have fin: "finite T" "finite (deleted s)" using k(2) tasks_only(1) [OF k(2)] by (auto simp: deleted_def tasks_ok_def intro: finite_subset [of _ T])
  have cd: "card (T - {t}) = card T - 1" "card (deleted s - {t}) = card (deleted s) - 1" "0 < card T" "0 < card (deleted s)"
    using t(1) assms(3) fin by (auto simp: card_gt_0_iff)
  have "rest_ok idle (T - {t}) ?s'"
    using d(3) h(2) t assms(2) unfolding rest_ok_def de cd(1,2) by (simp add: l1(5) word_pred [OF cd(3)] word_pred [OF cd(4)])
  moreover have "calm ?s'" using d(4) by (simp add: calm_def pending_def l1(5))
  ultimately have "kernel_ok idle (T - {t}) E ?s'" using cr tm by (simp add: kernel_ok_def)
  moreover have "spares {t} s ?s'" by (auto simp: spares_def unmoved_def l1(3,5))
  moreover have "\<forall>u\<in>T - {t}. generic_in ?s' u \<noteq> None" using tasks_okD(6) [OF k(2)] by (fastforce simp: l1(5))
  ultimately show ?thesis using l1(1,5) h(1) t(1) ev by (intro exI [of _ l1] exI [of _ ?s']) simp
qed

section \<open>Creation\<close>

abbreviation capped :: "32 word \<Rightarrow> 32 word" where
  "capped p \<equiv> if configMAX_PRIORITIES \<le> p then configMAX_PRIORITIES - 1 else p"

lemma capped_less: "capped p < 7"
  by (simp add: configMAX_PRIORITIES_def not_le)

text \<open>The items of a new control block.\<close>

definition new_items :: "nat \<Rightarrow> 32 word \<Rightarrow> lists \<Rightarrow> lists" where
  "new_items t p ls = listSET_LIST_ITEM_OWNER (xEventListItem t) t (listSET_LIST_ITEM_VALUE (xEventListItem t) (configMAX_PRIORITIES - p)
     (listSET_LIST_ITEM_OWNER (xGenericListItem t) t (vListInitialiseItem (xEventListItem t) (vListInitialiseItem (xGenericListItem t) ls))))"

lemma init_tcb: "prvInitialiseTCBVariables t name p s = s\<lparr>lsts := new_items t (capped p) (lsts s), pcTaskName := (pcTaskName s)(t := task_name name),
    uxPriority := (uxPriority s)(t := capped p), uxBasePriority := (uxBasePriority s)(t := capped p)\<rparr>"
  by (simp add: prvInitialiseTCBVariables_def Let_def new_items_def on_lists_def set_event_value_def)

lemma new_items_simps:
  assumes "pvContainer ls (xGenericListItem t) = None" "pvContainer ls (xEventListItem t) = None"
  shows "pvContainer (new_items t p ls) = pvContainer ls" "pvOwner (new_items t p ls) = (pvOwner ls)(xGenericListItem t := t, xEventListItem t := t)"
    "xItemValue (new_items t p ls) (Item (xGenericListItem u)) = xItemValue ls (Item (xGenericListItem u))"
    "lists_ok D ls \<Longrightarrow> lists_ok D (new_items t p ls)"
proof -
  have i: "vListInitialiseItem (xEventListItem t) (vListInitialiseItem (xGenericListItem t) ls) = ls"
    using assms by (simp add: vListInitialiseItem_def set_container_def fun_upd_idem)
  show "pvContainer (new_items t p ls) = pvContainer ls" "pvOwner (new_items t p ls) = (pvOwner ls)(xGenericListItem t := t, xEventListItem t := t)"
    "xItemValue (new_items t p ls) (Item (xGenericListItem u)) = xItemValue ls (Item (xGenericListItem u))"
    by (simp_all add: new_items_def i)
  show "lists_ok D ls \<Longrightarrow> lists_ok D (new_items t p ls)"
    unfolding new_items_def i using assms by (intro lists_ok_set_owner lists_ok_set_value) simp_all
qed

text \<open>A control block outside of all lists becomes a ready task.\<close>

lemma add_new_task:
  assumes "core_ok T E s" "time_ok T s" "t \<notin> T" "t < 2 ^ 30" "p < 7"
    "s0 = s\<lparr>lsts := new_items t p (lsts s), uxPriority := (uxPriority s)(t := p), uxBasePriority := (uxBasePriority s)(t := p)\<rparr>"
  shows "\<exists>ls tp. prvAddTaskToReadyQueue t s0 = Some (s0\<lparr>lsts := ls, uxTopReadyPriority := tp\<rparr>) \<and>
    core_ok (insert t T) E (s0\<lparr>lsts := ls, uxTopReadyPriority := tp\<rparr>) \<and> time_ok (insert t T) (s0\<lparr>lsts := ls, uxTopReadyPriority := tp\<rparr>) \<and>
    pvContainer ls = (pvContainer (lsts s))(xGenericListItem t \<mapsto> unat p) \<and> (\<forall>u. xItemValue ls (Item (xGenericListItem u)) = wake_time s u)"
proof -
  note k = core_okD [OF assms(1)]
  have no: "generic_in s t = None" "event_in s t = None" using k(2) assms(3) by (simp_all add: tasks_ok_def)
  note n = new_items_simps [OF no]
  have "lists_ok ({..<11} \<union> E) (lsts s0)" "generic_in s0 t = None" "uxPriority s0 t < 7" using n(1,4) k(1) no assms(5,6) by simp_all
  from add_to_ready [OF this(1,2) assms(4) this(3)] obtain ls where ls:
    "prvAddTaskToReadyQueue t s0 = Some (s0\<lparr>lsts := ls, uxTopReadyPriority := max (uxTopReadyPriority s0) (uxPriority s0 t)\<rparr>)"
    "lists_ok ({..<11} \<union> E) ls" "xItemValue ls = xItemValue (lsts s0)" "pvOwner ls = pvOwner (lsts s0)"
    "pvContainer ls = (pvContainer (lsts s0))(xGenericListItem t \<mapsto> ready_list s0 t)" by blast
  have co: "pvContainer ls = (pvContainer (lsts s))(xGenericListItem t \<mapsto> unat p)" using ls(5) n(1) assms(6) by simp
  have ow: "pvOwner ls = (pvOwner (lsts s))(xGenericListItem t := t, xEventListItem t := t)" using ls(4) n(2) assms(6) by simp
  have v: "xItemValue ls (Item (xGenericListItem u)) = wake_time s u" for u using ls(3) n(3) assms(6) by simp
  let ?s = "s0\<lparr>lsts := ls, uxTopReadyPriority := max (uxTopReadyPriority s0) (uxPriority s0 t)\<rparr>"
  have p: "unat p < 7" using assms(5) by (simp add: word_less_nat_alt)
  have "tasks_ok (insert t T) ?s" using k(2) assms(3-5) no by (auto simp: tasks_ok_def co ow assms(6))
  moreover have "top_ok (insert t T) ?s" using k(3,4) assms(3,5) by (auto simp: top_ok_def co assms(6) le_max_iff_disj)
  ultimately have "core_ok (insert t T) E ?s" using assms(1) ls(2) by (simp add: core_ok_def delay_lists_ok_def assms(6))
  moreover have "time_ok (insert t T) ?s" using assms(2) k(7,8) p by (auto simp: time_ok_def co v assms(6))
  ultimately show ?thesis using ls(1) co v by (intro exI [of _ ls] exI) simp
qed

lemma deleted_finite: "tasks_ok T s \<Longrightarrow> finite (deleted s) \<and> finite T"
proof -
  assume k: "tasks_ok T s"
  have f: "finite T" using k by (simp add: tasks_ok_def)
  moreover have "deleted s \<subseteq> T" using tasks_only(1) [OF k] unfolding deleted_def by blast
  ultimately show ?thesis by (blast intro: finite_subset)
qed

lemma used_priority: "(if uxTopUsedPriority s < q then s\<lparr>uxTopUsedPriority := q\<rparr> else s) = s\<lparr>uxTopUsedPriority := max (uxTopUsedPriority s) q\<rparr>"
proof (cases "uxTopUsedPriority s < q")
  case True
  then have "max (uxTopUsedPriority s) q = q" by (simp add: max_absorb2 less_imp_le)
  then show ?thesis using True by simp
next
  case False
  then have "max (uxTopUsedPriority s) q = uxTopUsedPriority s" by (simp add: max_absorb1 not_less)
  then show ?thesis using False by simp
qed

text \<open>While the scheduler runs, a creation fails or adds a ready task.\<close>

lemma create_task_ok:
  assumes "kernel_ok idle T E s"
  obtains (none) s' where "xTaskGenericCreate name depth p None s = Some (None, s')" "kernel_ok idle T E s'" "spares {} s s'"
  | (new) t s' where "xTaskGenericCreate name depth p None s = Some (Some t, s')" "kernel_ok idle (insert t T) E s'" "spares {} s s'" "t \<notin> T"
      "generic_in s' t = Some (ready_list s' t)"
proof -
  note d = kernel_okD [OF assms] and k = core_okD [OF kernel_okD(1) [OF assms]]
  have me: "memory_ok T s" and run: "xSchedulerRunning s" using d(3) by (simp_all add: rest_ok_def)
  obtain c where c: "c \<in> T" "pxCurrentTCB s = Some c" using d(7) by blast
  show ?thesis
  proof (rule allocate_ok [OF me, of depth])
    fix h assume a: "prvAllocateTCBAndStack depth None (kheap s) = Some (None, h)" "memory_ok T (s\<lparr>kheap := h\<rparr>)"
    have "kernel_ok idle T E (s\<lparr>kheap := h\<rparr>)" using assms a(2) by (simp add: kernel_ok_def rest_ok_def deleted_def calm_def pending_def)
    then show ?thesis using none [of "s\<lparr>kheap := h\<rparr>"] a(1) by (simp add: xTaskGenericCreate_def spares_def unmoved_def)
  next
    fix t b h assume a: "prvAllocateTCBAndStack depth None (kheap s) = Some (Some (t, b), h)" "t \<notin> T" "t < 2 ^ 30"
      "memory_ok (insert t T) (s\<lparr>kheap := h, pxStack := (pxStack s)(t := b)\<rparr>)"
    define s5 where "s5 = s\<lparr>kheap := h, pxStack := (pxStack s)(t := b), pcTaskName := (pcTaskName s)(t := task_name name),
      uxCurrentNumberOfTasks := uxCurrentNumberOfTasks s + 1, uxTopUsedPriority := max (uxTopUsedPriority s) (capped p),
      uxTCBNumber := (uxTCBNumber s)(t := uxTaskNumber s), uxTaskNumber := uxTaskNumber s + 1\<rparr>"
    define s0 where "s0 = s5\<lparr>lsts := new_items t (capped p) (lsts s5), uxPriority := (uxPriority s5)(t := capped p), uxBasePriority := (uxBasePriority s5)(t := capped p)\<rparr>"
    have l5: "lsts s5 = lsts s" "uxPriority s5 = uxPriority s" by (simp_all add: s5_def)
    have "core_ok T E s5" "time_ok T s5" using d(1,2) by (simp_all add: s5_def core_ok_def tasks_ok_def top_ok_def delay_lists_ok_def time_ok_def)
    from add_new_task [OF this a(2,3) capped_less s0_def] obtain ls tp where n: "prvAddTaskToReadyQueue t s0 = Some (s0\<lparr>lsts := ls, uxTopReadyPriority := tp\<rparr>)"
      "core_ok (insert t T) E (s0\<lparr>lsts := ls, uxTopReadyPriority := tp\<rparr>)" "time_ok (insert t T) (s0\<lparr>lsts := ls, uxTopReadyPriority := tp\<rparr>)"
      "pvContainer ls = (pvContainer (lsts s))(xGenericListItem t \<mapsto> unat (capped p))" "\<forall>u. xItemValue ls (Item (xGenericListItem u)) = wake_time s u"
      unfolding l5 by blast
    let ?s = "s0\<lparr>lsts := ls, uxTopReadyPriority := tp\<rparr>"
    have f: "kheap ?s = h" "pxStack ?s = (pxStack s)(t := b)" "uxCurrentNumberOfTasks ?s = uxCurrentNumberOfTasks s + 1" "uxTasksDeleted ?s = uxTasksDeleted s"
      "pxCurrentTCB ?s = Some c" "xSchedulerRunning ?s" "uxPriority ?s = (uxPriority s)(t := capped p)" "uxSchedulerSuspended ?s = uxSchedulerSuspended s"
      "uxMissedTicks ?s = uxMissedTicks s" "xTickCount ?s = xTickCount s" "lsts ?s = ls" using run c(2) by (simp_all add: s0_def s5_def)
    have r0: "xSchedulerRunning s0" using run by (simp add: s0_def s5_def)
    have ct: "c \<noteq> t" "idle \<noteq> t" using a(2) c(1) d(5) by auto
    have cp: "unat (capped p) < 7" using capped_less [of p] by (simp add: word_less_nat_alt)
    have "deleted ?s = deleted s" using cp a(2) tasks_only(1) [OF k(2), of t] by (auto simp: deleted_def f(11) n(4) xTasksWaitingTermination_def)
    moreover have "memory_ok (insert t T) ?s" using a(4) by (simp add: memory_ok_def f(1,2))
    ultimately have "rest_ok idle (insert t T) ?s"
      using d(3) c ct a(2) deleted_finite [OF k(2)] unfolding rest_ok_def f by (simp add: n(4) r0)
    moreover have "calm ?s" using d(4) by (simp add: calm_def pending_def f n(4))
    ultimately have ok: "kernel_ok idle (insert t T) E ?s" using n(2,3) by (simp add: kernel_ok_def)
    have sp: "spares {} s ?s" using a(2) delayed_task [OF k(2)] by (auto simp: spares_def unmoved_def f n(4,5))
    have s6: "xTaskGenericCreate name depth p None s = Some (Some t, if uxPriority ?s c < p then portYIELD_WITHIN_API ?s else ?s)"
    proof -
      have e: "s0 = s\<lparr>kheap := h, pxStack := (pxStack s)(t := b), lsts := new_items t (capped p) (lsts s), pcTaskName := (pcTaskName s)(t := task_name name),
        uxPriority := (uxPriority s)(t := capped p), uxBasePriority := (uxBasePriority s)(t := capped p), uxCurrentNumberOfTasks := uxCurrentNumberOfTasks s + 1,
        uxTopUsedPriority := max (uxTopUsedPriority s) (capped p), uxTCBNumber := (uxTCBNumber s)(t := uxTaskNumber s), uxTaskNumber := uxTaskNumber s + 1\<rparr>"
        by (simp add: s0_def s5_def)
      show ?thesis
        using a(1) c(2) run n(1) f(5,6) unfolding xTaskGenericCreate_def Let_def used_priority e
        by (simp add: init_tcb split del: if_split) (intro if_cong refl; simp add: portYIELD_WITHIN_API_def)
    qed
    show ?thesis
      by (rule new [OF s6]) (use ok sp a(2) n(4) f(7,11) in \<open>auto simp: portYIELD_WITHIN_API_def spares_def unmoved_def\<close>)
  qed
qed

end
