(* ===== verification/Kernel_Start.thy ===== *)
theory Kernel_Start
  imports Kernel_Life
begin

text \<open>
  The start of the system: tasks are created while the scheduler does not run, the first creation initialises the
  lists, and \<open>vTaskStartScheduler\<close> adds the idle task.
\<close>

section \<open>The lists\<close>

abbreviation no_lists :: lists where
  "no_lists \<equiv> \<lparr>xItemValue = (\<lambda>_. 0), pxNext = (\<lambda>p. p), pxPrevious = (\<lambda>p. p), pvOwner = (\<lambda>_. 0), pvContainer = (\<lambda>_. None),
     uxNumberOfItems = (\<lambda>_. 0), pxIndex = xListEnd\<rparr>"

text \<open>The variables of \<open>tasks.c\<close> before \<open>main\<close>.\<close>

definition sched_0 :: sched where
  "sched_0 = \<lparr>lsts = no_lists, uxPriority = (\<lambda>_. 0), uxBasePriority = (\<lambda>_. 0), pxStack = (\<lambda>_. 0), pcTaskName = (\<lambda>_. []), uxTCBNumber = (\<lambda>_. 0),
     pxCurrentTCB = None, pxDelayedTaskList = xDelayedTaskList1, pxOverflowDelayedTaskList = xDelayedTaskList1, uxTasksDeleted = 0, uxCurrentNumberOfTasks = 0,
     xTickCount = 0, uxTopUsedPriority = 0, uxTopReadyPriority = 0, xSchedulerRunning = False, uxSchedulerSuspended = 0, uxMissedTicks = 0,
     xMissedYield = False, xNumOfOverflows = 0, uxTaskNumber = 0, pendsv = False, kheap = heap_0\<rparr>"

lemma initialise_all:
  assumes "\<And>i. pvContainer ls i = None"
  shows "shape (set xs) (\<lambda>_. ([], [])) (fold vListInitialise xs ls)"
proof (induction xs rule: rev_induct)
  case Nil
  then show ?case using assms by (simp add: shape_def)
next
  case (snoc l xs)
  have "pvContainer (fold vListInitialise xs ls) = pvContainer ls" by (induction xs arbitrary: ls) simp_all
  then have "shape (insert l (set xs)) ((\<lambda>_. ([], []))(l := ([], []))) (vListInitialise l (fold vListInitialise xs ls))"
    using assms by (intro shape_initialise [OF snoc]) simp
  then show ?case by (simp add: fun_upd_idem)
qed

lemma initialise_keeps_all [simp]:
  "pvContainer (fold vListInitialise xs ls) = pvContainer ls" "pvOwner (fold vListInitialise xs ls) = pvOwner ls"
  "xItemValue (fold vListInitialise xs ls) (Item i) = xItemValue ls (Item i)"
  by (induction xs arbitrary: ls) simp_all

abbreviation kernel_lists :: "lists \<Rightarrow> lists" where
  "kernel_lists \<equiv> fold vListInitialise [0..<11]"

lemma kernel_lists_ok: "(\<And>i. pvContainer ls i = None) \<Longrightarrow> lists_ok {..<11} (kernel_lists ls)"
  using initialise_all [of ls "[0..<11]"] by (intro lists_okI) (auto simp: by_value_def atLeast0LessThan)

lemma initialise_task_lists:
  "prvInitialiseTaskLists s = s\<lparr>lsts := kernel_lists (lsts s), pxDelayedTaskList := 7, pxOverflowDelayedTaskList := 8\<rparr>"
proof -
  have e: "[0..<11] = [0..<7] @ [7, 8, 9, 10 :: nat]" by code_simp
  show ?thesis
    unfolding e by (simp add: prvInitialiseTaskLists_def Let_def on_lists_def configMAX_PRIORITIES_def xDelayedTaskList1_def xDelayedTaskList2_def
      xPendingReadyList_def xTasksWaitingTermination_def)
qed

lemma initialise_new_items: "vListInitialise l (new_items t p ls) = new_items t p (vListInitialise l ls)"
  by (simp add: vListInitialise_def Let_def new_items_def listSET_LIST_ITEM_OWNER_def listSET_LIST_ITEM_VALUE_def vListInitialiseItem_def
      set_container_def set_index_def set_next_def set_prev_def set_number_def fun_upd_twist)

lemma kernel_lists_new_items: "fold vListInitialise xs (new_items t p ls) = new_items t p (fold vListInitialise xs ls)"
  by (induction xs arbitrary: ls) (simp_all add: initialise_new_items)

section \<open>Before the scheduler runs\<close>

text \<open>\<open>T\<close> are the tasks created so far, all of them ready; one of the highest priority is to run first.\<close>

definition waiting_ok :: "nat set \<Rightarrow> sched \<Rightarrow> bool" where
  "waiting_ok T s \<longleftrightarrow> memory_ok T s \<and> uxCurrentNumberOfTasks s = word_of_nat (card T) \<and> uxTasksDeleted s = 0 \<and> \<not> xSchedulerRunning s \<and>
     uxSchedulerSuspended s = 0 \<and> uxMissedTicks s = 0 \<and> (\<forall>t. event_in s t = None) \<and> (\<forall>t\<in>T. generic_in s t = Some (ready_list s t)) \<and>
     (if T = {} then pxCurrentTCB s = None \<and> uxTopReadyPriority s = 0 \<and> (\<forall>i. pvContainer (lsts s) i = None)
      else core_ok T {} s \<and> highest T s)"

lemma sched_0_ok: "waiting_ok {} sched_0"
  by (auto simp: waiting_ok_def sched_0_def memory_ok_def heap_live_def)

text \<open>A new control block and what is chosen to run.\<close>

definition begun :: "nat set \<Rightarrow> sched \<Rightarrow> sched" where
  "begun T s = (if T = {} then prvInitialiseTaskLists s else s)"

lemma begun_ok:
  assumes "waiting_ok T s"
  shows "core_ok T {} (begun T s)" "time_ok T (begun T s)" "begun T s = s\<lparr>lsts := lsts (begun T s), pxDelayedTaskList := pxDelayedTaskList (begun T s),
    pxOverflowDelayedTaskList := pxOverflowDelayedTaskList (begun T s)\<rparr>" "pvContainer (lsts (begun T s)) = pvContainer (lsts s)"
proof -
  show "begun T s = s\<lparr>lsts := lsts (begun T s), pxDelayedTaskList := pxDelayedTaskList (begun T s),
    pxOverflowDelayedTaskList := pxOverflowDelayedTaskList (begun T s)\<rparr>" "pvContainer (lsts (begun T s)) = pvContainer (lsts s)"
    by (simp_all add: begun_def initialise_task_lists)
  have "core_ok T {} (begun T s) \<and> time_ok T (begun T s)"
  proof (cases "T = {}")
    case True
    then have "\<forall>i. pvContainer (lsts s) i = None" "uxTopReadyPriority s = 0" using assms by (simp_all add: waiting_ok_def)
    then show ?thesis using True kernel_lists_ok [of "lsts s"]
      by (simp add: begun_def initialise_task_lists core_ok_def tasks_ok_def delay_lists_ok_def top_ok_def time_ok_def)
  next
    case False
    then have c: "core_ok T {} s" "\<forall>t\<in>T. generic_in s t = Some (ready_list s t)" using assms by (simp_all add: waiting_ok_def)
    note k = core_okD [OF c(1)]
    have "time_ok T s" using c(2) ready_list_less [OF k(2)] k(5) unfolding time_ok_def delay_lists_ok_def by fastforce
    then show ?thesis using c(1) False by (simp add: begun_def)
  qed
  then show "core_ok T {} (begun T s)" "time_ok T (begun T s)" by simp_all
qed

text \<open>The task chosen: the new one, unless the present one has a higher priority.\<close>

definition chosen :: "nat \<Rightarrow> 32 word \<Rightarrow> sched \<Rightarrow> nat" where
  "chosen t p s = (case pxCurrentTCB s of None \<Rightarrow> t | Some c \<Rightarrow> if uxPriority s c \<le> p then t else c)"

lemma create_waiting_eq:
  assumes "waiting_ok T s" "prvAllocateTCBAndStack depth None (kheap s) = Some (Some (t, b), h)" "t \<notin> T"
    "s0 = (begun T s)\<lparr>kheap := h, pxStack := (pxStack s)(t := b), lsts := new_items t (capped p) (lsts (begun T s)), pcTaskName := (pcTaskName s)(t := task_name name),
      uxPriority := (uxPriority s)(t := capped p), uxBasePriority := (uxBasePriority s)(t := capped p), pxCurrentTCB := Some (chosen t p s),
      uxCurrentNumberOfTasks := uxCurrentNumberOfTasks s + 1,
      uxTopUsedPriority := max (uxTopUsedPriority s) (capped p), uxTCBNumber := (uxTCBNumber s)(t := uxTaskNumber s), uxTaskNumber := uxTaskNumber s + 1\<rparr>"
    "prvAddTaskToReadyQueue t s0 = Some s6" "\<not> xSchedulerRunning s6"
  shows "xTaskGenericCreate name depth p None s = Some (Some t, s6)"
proof (cases "pxCurrentTCB s")
  case None
  have "T = {}" using None assms(1) unfolding waiting_ok_def highest_def by (metis option.distinct(1))
  then have e: "s0 = s\<lparr>kheap := h, pxStack := (pxStack s)(t := b),
      pcTaskName := (pcTaskName s)(t := task_name name), uxPriority := (uxPriority s)(t := capped p), uxBasePriority := (uxBasePriority s)(t := capped p),
      uxCurrentNumberOfTasks := 1, pxCurrentTCB := Some t, lsts := new_items t (capped p) (kernel_lists (lsts s)), pxDelayedTaskList := 7, pxOverflowDelayedTaskList := 8, uxTopUsedPriority := max (uxTopUsedPriority s) (capped p), uxTCBNumber := (uxTCBNumber s)(t := uxTaskNumber s), uxTaskNumber := uxTaskNumber s + 1\<rparr>"
    using assms(1,4) None by (simp add: begun_def initialise_task_lists chosen_def waiting_ok_def)
  have n: "uxCurrentNumberOfTasks s = 0" using assms(1) \<open>T = {}\<close> by (simp add: waiting_ok_def)
  let ?s1 = "s\<lparr>kheap := h, pxStack := (pxStack s)(t := b), lsts := new_items t (capped p) (lsts s), pcTaskName := (pcTaskName s)(t := task_name name),
      uxPriority := (uxPriority s)(t := capped p), uxBasePriority := (uxBasePriority s)(t := capped p), uxCurrentNumberOfTasks := 1, pxCurrentTCB := Some t\<rparr>"
  have "prvInitialiseTaskLists ?s1 = ?s1\<lparr>lsts := new_items t (capped p) (kernel_lists (lsts s)), pxDelayedTaskList := 7, pxOverflowDelayedTaskList := 8\<rparr>"
    by (simp add: initialise_task_lists kernel_lists_new_items)
  then show ?thesis
    using assms(2,5,6) None n unfolding xTaskGenericCreate_def Let_def used_priority e by (simp add: init_tcb split del: if_split)
next
  case (Some c)
  have "T \<noteq> {}" using Some assms(1) by (auto simp: waiting_ok_def)
  then have "c \<in> T" using Some assms(1) by (auto simp: waiting_ok_def highest_def)
  then have ct: "c \<noteq> t" using assms(3) by auto
  have r: "\<not> xSchedulerRunning s" using assms(1) by (simp add: waiting_ok_def)
  have e: "s0 = s\<lparr>kheap := h, pxStack := (pxStack s)(t := b), lsts := new_items t (capped p) (lsts s), pcTaskName := (pcTaskName s)(t := task_name name),
      uxPriority := (uxPriority s)(t := capped p), uxBasePriority := (uxBasePriority s)(t := capped p), uxCurrentNumberOfTasks := uxCurrentNumberOfTasks s + 1,
      pxCurrentTCB := Some (chosen t p s),
      uxTopUsedPriority := max (uxTopUsedPriority s) (capped p), uxTCBNumber := (uxTCBNumber s)(t := uxTaskNumber s), uxTaskNumber := uxTaskNumber s + 1\<rparr>"
    using assms(4) \<open>T \<noteq> {}\<close> by (simp add: begun_def)
  show ?thesis
  proof (cases "uxPriority s c \<le> p")
    case True
    then have "chosen t p s = t" using Some by (simp add: chosen_def)
    then show ?thesis
      using assms(2,5,6) Some True ct r unfolding xTaskGenericCreate_def Let_def used_priority e by (simp add: init_tcb split del: if_split)
  next
    case False
    then have "chosen t p s = c" using Some by (simp add: chosen_def)
    then have e': "s0 = s\<lparr>kheap := h, pxStack := (pxStack s)(t := b), lsts := new_items t (capped p) (lsts s), pcTaskName := (pcTaskName s)(t := task_name name),
      uxPriority := (uxPriority s)(t := capped p), uxBasePriority := (uxBasePriority s)(t := capped p), uxCurrentNumberOfTasks := uxCurrentNumberOfTasks s + 1,
      uxTopUsedPriority := max (uxTopUsedPriority s) (capped p), uxTCBNumber := (uxTCBNumber s)(t := uxTaskNumber s), uxTaskNumber := uxTaskNumber s + 1\<rparr>"
      using assms(4) \<open>T \<noteq> {}\<close> Some by (simp add: begun_def)
    show ?thesis
      using assms(2,5,6) Some False ct r unfolding xTaskGenericCreate_def Let_def used_priority e' by (simp add: init_tcb split del: if_split)
  qed
qed

lemma create_waiting:
  assumes "waiting_ok T s"
  shows "\<exists>r s'. xTaskGenericCreate name depth p None s = Some (r, s') \<and> (case r of None \<Rightarrow> waiting_ok T s' | Some t \<Rightarrow> t \<notin> T \<and> waiting_ok (insert t T) s')"
proof -
  have me: "memory_ok T s" using assms by (simp add: waiting_ok_def)
  show ?thesis
  proof (rule allocate_ok [OF me, of depth])
    fix h assume a: "prvAllocateTCBAndStack depth None (kheap s) = Some (None, h)" "memory_ok T (s\<lparr>kheap := h\<rparr>)"
    have "core_ok T {} (s\<lparr>kheap := h\<rparr>) = core_ok T {} s" "highest T (s\<lparr>kheap := h\<rparr>) = highest T s"
      by (simp_all add: core_ok_def tasks_ok_def top_ok_def delay_lists_ok_def highest_def)
    then have "waiting_ok T (s\<lparr>kheap := h\<rparr>)" using assms a(2) by (simp add: waiting_ok_def)
    then show ?thesis using a(1) by (simp add: xTaskGenericCreate_def)
  next
    fix t b h assume a: "prvAllocateTCBAndStack depth None (kheap s) = Some (Some (t, b), h)" "t \<notin> T" "t < 2 ^ 30"
      "memory_ok (insert t T) (s\<lparr>kheap := h, pxStack := (pxStack s)(t := b)\<rparr>)"
    note g = begun_ok [OF assms]
    define s5 where "s5 = (begun T s)\<lparr>kheap := h, pxStack := (pxStack s)(t := b), pcTaskName := (pcTaskName s)(t := task_name name), pxCurrentTCB := Some (chosen t p s),
      uxCurrentNumberOfTasks := uxCurrentNumberOfTasks s + 1, uxTopUsedPriority := max (uxTopUsedPriority s) (capped p),
      uxTCBNumber := (uxTCBNumber s)(t := uxTaskNumber s), uxTaskNumber := uxTaskNumber s + 1\<rparr>"
    define s0 where "s0 = s5\<lparr>lsts := new_items t (capped p) (lsts s5), uxPriority := (uxPriority s5)(t := capped p), uxBasePriority := (uxBasePriority s5)(t := capped p)\<rparr>"
    have b: "uxPriority (begun T s) = uxPriority s" "uxBasePriority (begun T s) = uxBasePriority s" "xSchedulerRunning (begun T s) = xSchedulerRunning s"
      "uxTasksDeleted (begun T s) = uxTasksDeleted s" "uxSchedulerSuspended (begun T s) = uxSchedulerSuspended s" "uxMissedTicks (begun T s) = uxMissedTicks s"
      by (subst g(3), simp)+
    have "core_ok T {} s5" "time_ok T s5" using g(1,2) by (simp_all add: s5_def core_ok_def tasks_ok_def top_ok_def delay_lists_ok_def time_ok_def)
    from add_new_task [OF this a(2,3) capped_less s0_def] obtain ls tp where n: "prvAddTaskToReadyQueue t s0 = Some (s0\<lparr>lsts := ls, uxTopReadyPriority := tp\<rparr>)"
      "core_ok (insert t T) {} (s0\<lparr>lsts := ls, uxTopReadyPriority := tp\<rparr>)"
      "pvContainer ls = (pvContainer (lsts s))(xGenericListItem t \<mapsto> unat (capped p))" using g(4) by (auto simp: s5_def)
    let ?s = "s0\<lparr>lsts := ls, uxTopReadyPriority := tp\<rparr>"
    have f: "kheap ?s = h" "pxStack ?s = (pxStack s)(t := b)" "uxCurrentNumberOfTasks ?s = uxCurrentNumberOfTasks s + 1" "uxTasksDeleted ?s = uxTasksDeleted s"
      "pxCurrentTCB ?s = Some (chosen t p s)" "xSchedulerRunning ?s = xSchedulerRunning s" "uxPriority ?s = (uxPriority s)(t := capped p)"
      "uxSchedulerSuspended ?s = uxSchedulerSuspended s" "uxMissedTicks ?s = uxMissedTicks s" "lsts ?s = ls"
      using b by (simp_all add: s0_def s5_def)
    have "s0 = (begun T s)\<lparr>kheap := h, pxStack := (pxStack s)(t := b), lsts := new_items t (capped p) (lsts (begun T s)), pcTaskName := (pcTaskName s)(t := task_name name),
      uxPriority := (uxPriority s)(t := capped p), uxBasePriority := (uxBasePriority s)(t := capped p), pxCurrentTCB := Some (chosen t p s),
      uxCurrentNumberOfTasks := uxCurrentNumberOfTasks s + 1,
      uxTopUsedPriority := max (uxTopUsedPriority s) (capped p), uxTCBNumber := (uxTCBNumber s)(t := uxTaskNumber s), uxTaskNumber := uxTaskNumber s + 1\<rparr>"
      using b by (simp add: s0_def s5_def)
    from create_waiting_eq [OF assms a(1,2) this n(1)] f(6) assms have c: "xTaskGenericCreate name depth p None s = Some (Some t, ?s)" by (simp add: waiting_ok_def)
    have fin: "finite T" using g(1) by (simp add: core_ok_def tasks_ok_def)
    have rd: "\<forall>u\<in>insert t T. generic_in ?s u = Some (ready_list ?s u)" using assms a(2) unfolding f n(3) by (auto simp: waiting_ok_def)
    have hi: "highest (insert t T) ?s"
    proof (cases "T = {}")
      case True
      then have "chosen t p s = t" using assms by (simp add: chosen_def waiting_ok_def)
      then show ?thesis using True rd f(5,7) by (simp add: highest_def)
    next
      case False
      then have k: "core_ok T {} s" "highest T s" "\<forall>t\<in>T. generic_in s t = Some (ready_list s t)" using assms by (simp_all add: waiting_ok_def)
      from k(2,3) obtain c where hc: "c \<in> T" "pxCurrentTCB s = Some c" "\<forall>u\<in>T. uxPriority s u \<le> uxPriority s c" by (auto simp: highest_def)
      have c7: "uxPriority s c < 7" by (rule tasks_okD(2) [OF core_okD(2) [OF k(1)] hc(1)])
      have le: "uxPriority s c \<le> capped p" if "uxPriority s c \<le> p"
        using that c7 by (auto simp: configMAX_PRIORITIES_def word_le_nat_alt word_less_nat_alt)
      have gt: "capped p < uxPriority s c" if "\<not> uxPriority s c \<le> p" using that c7 by (auto simp: configMAX_PRIORITIES_def)
      have "c \<noteq> t" using hc(1) a(2) by auto
      then show ?thesis using hc rd f(5,7) le gt a(2) unfolding highest_def chosen_def by (auto intro: order_trans less_imp_le)
    qed
    have "waiting_ok (insert t T) ?s"
      using assms a(2) fin rd hi n(2) memory_ok_cong [of ?s "s\<lparr>kheap := h, pxStack := (pxStack s)(t := b)\<rparr>"] a(4)
      unfolding waiting_ok_def f n(3) by simp
    then show ?thesis using c a(2) by simp
  qed
qed

section \<open>The start\<close>

text \<open>The creations of \<open>main\<close>: the names, the depths of the stacks and the priorities.\<close>

fun create_all :: "(string \<times> 16 word \<times> 32 word) list \<Rightarrow> sched \<Rightarrow> sched option" where
  "create_all [] s = Some s"
| "create_all ((name, depth, p) # ts) s = Option.bind (xTaskGenericCreate name depth p None s) (\<lambda>(_, s'). create_all ts s')"

definition boot :: "(string \<times> 16 word \<times> 32 word) list \<Rightarrow> (nat option \<times> sched) option" where
  "boot ts = Option.bind (create_all ts sched_0) vTaskStartScheduler"

lemma create_all_ok: "waiting_ok T s \<Longrightarrow> \<exists>T' s'. create_all ts s = Some s' \<and> waiting_ok T' s'"
proof (induction ts arbitrary: T s)
  case (Cons x ts)
  obtain name depth p where x: "x = (name, depth, p)" by (cases x)
  from create_waiting [OF Cons.prems, of name depth p] obtain r s' where c: "xTaskGenericCreate name depth p None s = Some (r, s')"
    "case r of None \<Rightarrow> waiting_ok T s' | Some t \<Rightarrow> t \<notin> T \<and> waiting_ok (insert t T) s'" by blast
  then show ?case using Cons.IH by (cases r) (auto simp: x)
qed auto

lemma waiting_start:
  assumes "waiting_ok T s" "idle \<in> T"
  shows "kernel_ok idle T {} (s\<lparr>xSchedulerRunning := True, xTickCount := 0\<rparr>)" "highest T (s\<lparr>xSchedulerRunning := True, xTickCount := 0\<rparr>)"
proof -
  let ?s = "s\<lparr>xSchedulerRunning := True, xTickCount := 0\<rparr>"
  have ne: "T \<noteq> {}" using assms(2) by auto
  have c: "core_ok T {} s" "highest T s" "\<forall>t\<in>T. generic_in s t = Some (ready_list s t)" using assms(1) ne by (simp_all add: waiting_ok_def)
  note k = core_okD [OF c(1)]
  show "highest T ?s" using c(2) by (simp add: highest_def)
  have de: "deleted s = {}" using tasks_only(1) [OF k(2)] c(3) ready_list_less [OF k(2)] by (fastforce simp: deleted_def xTasksWaitingTermination_def)
  have "core_ok T {} ?s" using c(1) by (simp add: core_ok_def tasks_ok_def delay_lists_ok_def top_ok_def)
  moreover have "time_ok T ?s" using c(3) ready_list_less [OF k(2)] k(5) unfolding time_ok_def delay_lists_ok_def by fastforce
  moreover have "rest_ok idle T ?s"
    using assms c(2,3) de memory_ok_cong [of ?s s T] by (auto simp: rest_ok_def waiting_ok_def highest_def deleted_def)
  moreover have "calm ?s" using assms(1) by (simp add: calm_def pending_def waiting_ok_def)
  ultimately show "kernel_ok idle T {} ?s" by (simp add: kernel_ok_def)
qed

lemma boot_ok: "\<exists>r s. boot ts = Some (r, s) \<and> (\<forall>idle. r = Some idle \<longrightarrow> (\<exists>T. kernel_ok idle T {} s \<and> highest T s))"
proof -
  obtain T s where a: "create_all ts sched_0 = Some s" "waiting_ok T s" using create_all_ok [OF sched_0_ok] by blast
  from create_waiting [OF a(2), of "''IDLE''" 128 0] obtain r s' where c: "xTaskGenericCreate ''IDLE'' 128 0 None s = Some (r, s')"
    "case r of None \<Rightarrow> waiting_ok T s' | Some t \<Rightarrow> t \<notin> T \<and> waiting_ok (insert t T) s'" by blast
  show ?thesis
  proof (cases r)
    case None
    then show ?thesis using a(1) c(1) by (simp add: boot_def vTaskStartScheduler_def)
  next
    case (Some t)
    then have "waiting_ok (insert t T) s'" using c(2) by simp
    from waiting_start [OF this, of t] show ?thesis using a(1) c(1) Some by (auto simp: boot_def vTaskStartScheduler_def)
  qed
qed

end
