(* ===== verification/Kernel_Steps.thy ===== *)
theory Kernel_Steps
  imports Kernel_Start
begin

text \<open>
  The kernel as a whole: interrupts, context switches and the calls of tasks as events, what the code requires of
  each of them, and the states that the start of the system and events lead to. No event follows a null pointer or
  leaves an array; the invariant holds in every state; a delayed task wakes at its tick.
\<close>

section \<open>Events\<close>

text \<open>
  The interrupts of a delay come while it holds the scheduler suspended. \<open>New_list\<close> is the initialisation of an event list
  when a queue is created, \<open>Block\<close> what a queue does to the task that has to wait.
\<close>

datatype kevent = Interrupt irq | Switch | Delay "irq list" "32 word" | Delay_until "irq list" "32 word" "32 word" | Suspend_all | Resume_all
  | Block nat "32 word" | Set_priority "nat option" "32 word" | Inherit nat | Disinherit "nat option"
  | Create string "16 word" "32 word" | Delete "nat option" | Idle_round | New_list nat

fun perform :: "kevent \<Rightarrow> sched \<Rightarrow> sched option" where
  "perform (Interrupt q) s = run_irq q s"
| "perform Switch s = xPortPendSVHandler s"
| "perform (Delay qs n) s = vTaskDelay (run_irqs qs) n s"
| "perform (Delay_until qs previous n) s = map_option snd (vTaskDelayUntil (run_irqs qs) previous n s)"
| "perform Suspend_all s = Some (vTaskSuspendAll s)"
| "perform Resume_all s = map_option snd (xTaskResumeAll s)"
| "perform (Block l n) s = vTaskPlaceOnEventList l n s"
| "perform (Set_priority h p) s = vTaskPrioritySet h p s"
| "perform (Inherit t) s = vTaskPriorityInherit t s"
| "perform (Disinherit h) s = vTaskPriorityDisinherit h s"
| "perform (Create name depth p) s = map_option snd (xTaskGenericCreate name depth p None s)"
| "perform (Delete h) s = vTaskDelete h s"
| "perform Idle_round s = prvIdleTask s"
| "perform (New_list l) s = Some (on_lists (vListInitialise l) s)"

definition is_task :: "sched \<Rightarrow> nat \<Rightarrow> bool" where
  "is_task s t \<longleftrightarrow> generic_in s t \<noteq> None"

definition is_ready :: "sched \<Rightarrow> nat \<Rightarrow> bool" where
  "is_ready s t \<longleftrightarrow> generic_in s t = Some (ready_list s t)"

text \<open>The task that runs may block when it is ready and not the idle task.\<close>

definition runs_free :: "nat \<Rightarrow> sched \<Rightarrow> bool" where
  "runs_free idle s \<longleftrightarrow> (case pxCurrentTCB s of None \<Rightarrow> False | Some c \<Rightarrow> c \<noteq> idle \<and> is_ready s c)"

definition names_task :: "nat option \<Rightarrow> sched \<Rightarrow> bool" where
  "names_task h s \<longleftrightarrow> (case target h s of None \<Rightarrow> False | Some t \<Rightarrow> is_task s t)"

text \<open>What the callers of the kernel keep to; \<open>E\<close> are the event lists.\<close>

fun allowed :: "nat \<Rightarrow> nat set \<Rightarrow> kevent \<Rightarrow> sched \<Rightarrow> bool" where
  "allowed idle E (Interrupt q) s \<longleftrightarrow> irq_ok E q"
| "allowed idle E Switch s \<longleftrightarrow> True"
| "allowed idle E (Delay qs n) s \<longleftrightarrow> n = 0 \<or> uxSchedulerSuspended s = 0 \<and> runs_free idle s \<and> (\<forall>q\<in>set qs. irq_ok E q)"
| "allowed idle E (Delay_until qs previous n) s \<longleftrightarrow> uxSchedulerSuspended s = 0 \<and> runs_free idle s \<and> (\<forall>q\<in>set qs. irq_ok E q)"
| "allowed idle E Suspend_all s \<longleftrightarrow> uxSchedulerSuspended s + 1 \<noteq> 0"
| "allowed idle E Resume_all s \<longleftrightarrow> uxSchedulerSuspended s \<noteq> 0"
| "allowed idle E (Block l n) s \<longleftrightarrow> l \<in> E \<and> 0 < n \<and> runs_free idle s"
| "allowed idle E (Set_priority h p) s \<longleftrightarrow> names_task h s"
| "allowed idle E (Inherit t) s \<longleftrightarrow> is_task s t"
| "allowed idle E (Disinherit h) s \<longleftrightarrow> (case h of None \<Rightarrow> True | Some t \<Rightarrow> is_task s t \<and> is_ready s t)"
| "allowed idle E (Create name depth p) s \<longleftrightarrow> True"
| "allowed idle E (Delete h) s \<longleftrightarrow> names_task h s \<and> target h s \<noteq> Some idle \<and> (case target h s of None \<Rightarrow> False | Some t \<Rightarrow> generic_in s t \<noteq> Some 10)"
| "allowed idle E Idle_round s \<longleftrightarrow> pxCurrentTCB s = Some idle \<and> uxSchedulerSuspended s = 0"
| "allowed idle E (New_list l) s \<longleftrightarrow> 11 \<le> l \<and> l \<notin> E"

fun lists_after :: "kevent \<Rightarrow> nat set \<Rightarrow> nat set" where
  "lists_after (New_list l) E = insert l E"
| "lists_after _ E = E"

fun kernel_run :: "nat \<Rightarrow> kevent list \<Rightarrow> nat set \<times> sched \<Rightarrow> (nat set \<times> sched) option" where
  "kernel_run idle [] (E, s) = Some (E, s)"
| "kernel_run idle (e # es) (E, s) =
     (if allowed idle E e s then Option.bind (perform e s) (\<lambda>s'. kernel_run idle es (lists_after e E, s')) else None)"

inductive kernel_reach :: "nat \<Rightarrow> nat set \<Rightarrow> sched \<Rightarrow> bool" where
  start: "boot ts = Some (Some idle, s) \<Longrightarrow> kernel_reach idle {} s"
| step: "\<lbrakk>kernel_reach idle E s; allowed idle E e s; perform e s = Some s'\<rbrakk> \<Longrightarrow> kernel_reach idle (lists_after e E) s'"

section \<open>The rounds of the idle task\<close>

abbreviation tasks :: "sched \<Rightarrow> nat set" where
  "tasks s \<equiv> {t. is_task s t}"

lemma tasks_eq: "kernel_ok idle T E s \<Longrightarrow> T = tasks s"
proof -
  assume a: "kernel_ok idle T E s"
  note k = core_okD(2) [OF kernel_okD(1) [OF a]]
  show ?thesis using k tasks_okD(6) [OF k] by (fastforce simp: tasks_ok_def is_task_def)
qed

lemma runs_freeE: "runs_free idle s \<Longrightarrow> (\<And>c. may_block idle c s \<Longrightarrow> thesis) \<Longrightarrow> thesis"
  by (auto simp: runs_free_def may_block_def is_ready_def split: option.splits)

text \<open>A sleeper \<open>c\<close> that has to sleep for \<open>n\<close> ticks, of which \<open>K\<close> have come; some of them may be held back.\<close>

definition asleep :: "nat \<Rightarrow> nat \<Rightarrow> nat \<Rightarrow> sched \<Rightarrow> bool" where
  "asleep n c K s \<longleftrightarrow> delayed s c \<and> event_in s c = None \<and> remaining s c + K = n + unat (uxMissedTicks s) \<and> unat (uxMissedTicks s) \<le> K"

text \<open>What becomes of it when \<open>j\<close> ticks come and the scheduler runs in the end, or does not.\<close>

definition sleeps_on :: "nat \<Rightarrow> nat \<Rightarrow> nat \<Rightarrow> sched \<Rightarrow> bool" where
  "sleeps_on n c K s \<longleftrightarrow> (if K < n \<or> uxSchedulerSuspended s \<noteq> 0 then asleep n c K s else is_ready s c)"

lemma asleep_running:
  assumes "kernel_ok idle T E s" "asleep n c K s" "uxSchedulerSuspended s = 0"
  shows "K < n" "uxMissedTicks s = 0"
proof -
  note d = kernel_okD [OF assms(1)]
  show m: "uxMissedTicks s = 0" using d(4) assms(3) by (simp add: calm_def)
  have "0 < remaining s c" using time_waits [OF d(1,2)] assms(2) by (simp add: asleep_def)
  then show "K < n" using assms(2) m by (simp add: asleep_def)
qed

lemma asleep_spared:
  assumes "asleep n c K s" "spares X s s'" "c \<notin> X"
  shows "asleep n c K s'"
proof -
  have "unmoved c s s'" using assms by (simp add: spares_def asleep_def)
  then show ?thesis using assms(1) by (simp add: asleep_def unmoved_def delayed_def remaining_def)
qed

lemma sleeps_asleep: "kernel_ok idle T E s \<Longrightarrow> asleep n c K s \<Longrightarrow> sleeps_on n c K s"
  using asleep_running by (auto simp: sleeps_on_def)

lemma sleeps_spared: "\<lbrakk>kernel_ok idle T E s'; asleep n c K s; spares X s s'; c \<notin> X\<rbrakk> \<Longrightarrow> sleeps_on n c K s'"
  by (blast intro: sleeps_asleep asleep_spared)

lemma asleep_held:
  assumes "asleep n c K s" "held j s s'" "K + j < 2 ^ 32"
  shows "asleep n c (K + j) s'"
proof -
  have "unat (uxMissedTicks s + word_of_nat j) = unat (uxMissedTicks s) + j"
    using assms(1,3) by (simp add: asleep_def unat_word_ariths unat_of_nat take_bit_nat_eq_self)
  then show ?thesis using assms(1,2) by (auto simp: asleep_def held_def delayed_def remaining_def)
qed

lemma remaining_later: "m \<le> (w - x :: 32 word) \<Longrightarrow> unat (w - (x + m)) = unat (w - x) - unat m"
  by (simp add: diff_diff_eq [symmetric] unat_sub)

lemma asleep_resumed:
  assumes "tasks_ok T s" "asleep n c K s" "resumed s s'"
  shows "sleeps_on n c K s'"
proof -
  from assms(2) have a: "delayed s c" "event_in s c = None" "remaining s c + K = n + unat (uxMissedTicks s)" by (simp_all add: asleep_def)
  note z = resumed_sleeper [OF assms(1,3) a(1,2)]
  show ?thesis
  proof (cases "remaining s c \<le> unat (uxMissedTicks s)")
    case True
    then show ?thesis using a z by (simp add: sleeps_on_def is_ready_def)
  next
    case False
    then have "uxMissedTicks s \<le> wake_time s c - xTickCount s" by (simp add: word_le_nat_alt remaining_def)
    then have "remaining s' c = remaining s c - unat (uxMissedTicks s)" using remaining_later z(3,4) by (simp add: remaining_def)
    then show ?thesis using a z False by (simp add: sleeps_on_def asleep_def delayed_def)
  qed
qed

lemma asleep_tick:
  assumes "kernel_ok idle T E s" "asleep n c K s" "uxSchedulerSuspended s = 0" "elapsed 1 (s\<lparr>pendsv := True\<rparr>) s'"
  shows "sleeps_on n c (K + 1) s'"
proof -
  note d = kernel_okD [OF assms(1)]
  from assms(2) have a: "delayed s c" "event_in s c = None" "remaining s c + K = n" using asleep_running [OF assms(1-3)] by (simp_all add: asleep_def)
  have m: "uxMissedTicks s = 0" using asleep_running [OF assms(1-3)] by simp
  have e: "generic_in s' c = (if remaining s c \<le> 1 then Some (ready_list s c) else generic_in s c)" "event_in s' c = None" "xTickCount s' = xTickCount s + 1"
    "wake_time s' c = wake_time s c" "uxPriority s' = uxPriority s" "uxSchedulerSuspended s' = 0" "uxMissedTicks s' = 0"
    using assms(3,4) a m by (auto elim!: elapsedE simp: delayed_def remaining_def)
  show ?thesis
  proof (cases "remaining s c \<le> 1")
    case True
    then show ?thesis using a e by (simp add: sleeps_on_def is_ready_def)
  next
    case False
    then have "1 \<le> wake_time s c - xTickCount s" by (simp add: word_le_nat_alt remaining_def)
    then have "remaining s' c = remaining s c - 1" using remaining_later [of 1] e by (simp add: remaining_def)
    then show ?thesis using a e False by (simp add: sleeps_on_def asleep_def delayed_def)
  qed
qed

lemma sleeps_yield [simp]: "sleeps_on n c K (if b then s else portYIELD_WITHIN_API s) = sleeps_on n c K s"
  by (auto simp: sleeps_on_def asleep_def delayed_def remaining_def is_ready_def portYIELD_WITHIN_API_def)

lemma asleep_delayed: "kernel_ok idle T E s \<Longrightarrow> asleep n c K s \<Longrightarrow> c \<in> T \<and> delayed s c \<and> \<not> is_ready s c \<and> c \<notin> deleted s"
proof -
  assume a: "kernel_ok idle T E s" "asleep n c K s"
  note k = core_okD [OF kernel_okD(1) [OF a(1)]]
  have c: "c \<in> T" "delayed s c" using delayed_task [OF k(2)] a(2) by (auto simp: asleep_def)
  then show ?thesis using not_deleted [OF k(2)] ready_not_delayed [OF k(2)] by (auto simp: is_ready_def)
qed

section \<open>One event\<close>

lemma resumed_current:
  assumes "resumed s s'"
  shows "pxCurrentTCB s' = pxCurrentTCB s"
proof -
  obtain s2 s3 b where m: "woken (pending s) (s\<lparr>uxSchedulerSuspended := 0\<rparr>) s2" "elapsed (unat (uxMissedTicks s)) s2 s3"
    "s' = s3\<lparr>uxMissedTicks := 0, xMissedYield := b, pendsv := pendsv s'\<rparr>" using assms unfolding resumed_def by blast
  have "pxCurrentTCB s' = pxCurrentTCB s3" by (subst m(3)) simp
  then show ?thesis using m(1,2) by (auto elim!: wokenE elapsedE)
qed

lemma idle_ok:
  assumes "kernel_ok idle T E s" "pxCurrentTCB s = Some idle" "uxSchedulerSuspended s = 0"
  shows "\<exists>T' s'. prvIdleTask s = Some s' \<and> kernel_ok idle T' E s' \<and> (\<forall>n c K. asleep n c K s \<longrightarrow> sleeps_on n c K s')"
proof -
  have fin: "\<exists>T' s'. prvIdleTask s = Some s' \<and> kernel_ok idle T' E s' \<and> (\<forall>n c K. asleep n c K s \<longrightarrow> sleeps_on n c K s')"
    if "prvCheckTasksWaitingTermination s = Some s1" "kernel_ok idle T1 E s1" "\<forall>n c K. asleep n c K s \<longrightarrow> sleeps_on n c K s1" for s1 T1
  proof -
    have "kernel_ok idle T1 E (portYIELD_WITHIN_API s1)" "sleeps_on n c K (portYIELD_WITHIN_API s1) = sleeps_on n c K s1" for n c K
      using that(2) sleeps_yield [of n c K False s1] by (simp_all add: portYIELD_WITHIN_API_def)
    then show ?thesis using that by (auto simp: prvIdleTask_def)
  qed
  show ?thesis
  proof (cases "0 < uxTasksDeleted s")
    case False
    then show ?thesis using fin [of s T] assms(1) sleeps_asleep [OF assms(1)] by (simp add: prvCheckTasksWaitingTermination_def)
  next
    case True
    let ?s1 = "vTaskSuspendAll s"
    have k1: "kernel_ok idle T E ?s1" using suspend_ok [OF assms(1)] assms(3) by simp
    have n1: "uxSchedulerSuspended ?s1 = 1" "uxMissedTicks ?s1 = 0" using assms(3) kernel_okD(4) [OF assms(1)] by (simp_all add: vTaskSuspendAll_def calm_def)
    from resume_ok [OF k1] n1(1) obtain y s2 where r: "xTaskResumeAll ?s1 = Some (y, s2)" "kernel_ok idle T E s2" "resumed ?s1 s2" "deleted s2 = deleted ?s1" by auto
    note t1 = core_okD(2) [OF kernel_okD(1) [OF k1]]
    have cur: "pxCurrentTCB s2 = Some idle" using resumed_current [OF r(3)] assms(2) by (simp add: vTaskSuspendAll_def)
    have sl: "asleep n c K s2" if "asleep n c K s" for n c K
    proof -
      have "asleep n c K ?s1" using that by (simp add: asleep_def delayed_def remaining_def vTaskSuspendAll_def)
      from asleep_resumed [OF t1 this r(3)] that show ?thesis using asleep_running [OF assms(1) that assms(3)] by (simp add: sleeps_on_def)
    qed
    note l2 = core_okD(1) [OF kernel_okD(1) [OF r(2)]] and t2 = core_okD(2) [OF kernel_okD(1) [OF r(2)]]
    have l10: "10 \<in> {..<11} \<union> E" by simp
    show ?thesis
    proof (cases "listLIST_IS_EMPTY xTasksWaitingTermination (lsts ?s1)")
      case e: True
      have "prvCheckTasksWaitingTermination s = Some s2" using True e r(1) by (simp add: prvCheckTasksWaitingTermination_def Let_def)
      then show ?thesis using fin [of s2 T] r(2) sl sleeps_asleep [OF r(2)] by blast
    next
      case e: False
      then obtain i where "pvContainer (lsts ?s1) i = Some 10"
        using lists_ok_empty [OF core_okD(1) [OF kernel_okD(1) [OF k1]] l10] by (auto simp: xTasksWaitingTermination_def)
      then obtain u where "pvContainer (lsts ?s1) (xGenericListItem u) = Some 10" using generic_item [OF t1, of i 10] by auto
      then have "u \<in> deleted s2" unfolding r(4) by (simp add: deleted_def xTasksWaitingTermination_def)
      then have ne: "pvContainer (lsts s2) (xGenericListItem u) = Some 10" by (simp add: deleted_def xTasksWaitingTermination_def)
      obtain j where j: "listGET_OWNER_OF_HEAD_ENTRY 10 (lsts s2) = Some (Some (pvOwner (lsts s2) j))" "pvContainer (lsts s2) j = Some 10"
        by (rule lists_ok_head [OF l2 l10]) (use ne that in auto)
      obtain t where t: "t \<in> T" "j = xGenericListItem t" by (rule generic_item [OF t2 j(2)]) (use that in auto)
      have ow: "pvOwner (lsts s2) j = t" using tasks_okD(4) [OF t2 t(1)] t(2) by simp
      have td: "t \<in> deleted s2" using j(2) t(2) by (simp add: deleted_def xTasksWaitingTermination_def)
      from reap_ok [OF r(2) cur td] obtain l1 s' where p: "try_lists (vListRemove (xGenericListItem t)) s2 = Some (s2\<lparr>lsts := l1\<rparr>)"
        "prvDeleteTCB t (s2\<lparr>lsts := l1, uxCurrentNumberOfTasks := uxCurrentNumberOfTasks s2 - 1, uxTasksDeleted := uxTasksDeleted s2 - 1\<rparr>) = Some s'"
        "kernel_ok idle (T - {t}) E s'" "spares {t} s2 s'" by blast
      have "prvCheckTasksWaitingTermination s = Some s'"
        using True e r(1) j(1) ow p(1,2) by (simp add: prvCheckTasksWaitingTermination_def Let_def xTasksWaitingTermination_def)
      moreover have "sleeps_on n c K s'" if "asleep n c K s" for n c K
        using sleeps_spared [OF p(3) sl [OF that] p(4)] asleep_delayed [OF r(2) sl [OF that]] td by auto
      ultimately show ?thesis using fin [of s' "T - {t}"] p(3) by blast
    qed
  qed
qed

text \<open>The ticks of an event, and whether it deletes a task.\<close>

fun ticks_in :: "kevent \<Rightarrow> nat" where
  "ticks_in (Interrupt q) = ticks_of [q]"
| "ticks_in (Delay qs n) = (if n = 0 then 0 else ticks_of qs)"
| "ticks_in (Delay_until qs previous n) = ticks_of qs"
| "ticks_in _ = 0"

fun deletes :: "nat \<Rightarrow> kevent \<Rightarrow> sched \<Rightarrow> bool" where
  "deletes c (Delete h) s \<longleftrightarrow> target h s = Some c"
| "deletes c _ s \<longleftrightarrow> False"

lemma interrupt_sleeps:
  assumes "kernel_ok idle T E s" "irq_ok E q" "asleep n c K s" "K + ticks_of [q] < 2 ^ 32" "run_irq q s = Some s'" "kernel_ok idle T E s'"
  shows "sleeps_on n c (K + ticks_of [q]) s'"
proof (cases "uxSchedulerSuspended s = 0")
  case False
  from asleep_held [OF assms(3) irq_held [OF assms(1,2) False assms(5)] assms(4)] show ?thesis by (rule sleeps_asleep [OF assms(6)])
next
  case z: True
  show ?thesis
  proof (cases q)
    case Tick_irq
    then have "elapsed 1 (s\<lparr>pendsv := True\<rparr>) s'" using tick_ok [OF assms(1)] assms(5) z by (auto simp: run_irq_def)
    from asleep_tick [OF assms(1,3) z this] show ?thesis using Tick_irq by simp
  next
    case (Wake_irq l)
    show ?thesis
    proof (cases "listLIST_IS_EMPTY l (lsts s)")
      case True
      then show ?thesis using sleeps_asleep [OF assms(1,3)] Wake_irq assms(5) by (simp add: run_irq_def)
    next
      case False
      from wake_ok [OF assms(1) _ False] Wake_irq assms(2) z obtain y t s1 where w: "xTaskRemoveFromEventList l s = Some (y, s1)" "event_in s t = Some l" "woken {t} s s1" by auto
      have "s' = s1" using assms(5) w(1) Wake_irq False by (simp add: run_irq_def)
      moreover have "c \<noteq> t" using assms(3) w(2) by (auto simp: asleep_def)
      ultimately have "spares {t} s s'" using w(3) by (auto elim!: wokenE simp: spares_def unmoved_def)
      then show ?thesis using sleeps_spared [OF assms(6,3)] \<open>c \<noteq> t\<close> Wake_irq by simp
    qed
  qed
qed

lemma suspended_irqs_sleep:
  assumes "asleep n c K s" "uxSchedulerSuspended s = 0" "spares {} (vTaskSuspendAll s) s2" "kernel_ok idle T E s3" "held j s2 s3" "resumed s3 s4" "K + j < 2 ^ 32"
  shows "sleeps_on n c (K + j) s4"
proof -
  have "asleep n c K (vTaskSuspendAll s)" using assms(1) by (simp add: asleep_def delayed_def remaining_def vTaskSuspendAll_def)
  from asleep_spared [OF this assms(3)] have "asleep n c K s2" by simp
  from asleep_held [OF this assms(5,7)] show ?thesis by (rule asleep_resumed [OF core_okD(2) [OF kernel_okD(1) [OF assms(4)]] _ assms(6)])
qed

lemma delay_event:
  assumes "kernel_ok idle T E s" "allowed idle E (Delay qs m) s"
  shows "\<exists>s'. vTaskDelay (run_irqs qs) m s = Some s' \<and> kernel_ok idle T E s' \<and>
    (\<forall>n c K. asleep n c K s \<and> K + ticks_in (Delay qs m) < 2 ^ 32 \<longrightarrow> sleeps_on n c (K + ticks_in (Delay qs m)) s')"
proof (cases "m = 0")
  case True
  have "kernel_ok idle T E (portYIELD_WITHIN_API s)" "sleeps_on n c K (portYIELD_WITHIN_API s) = sleeps_on n c K s" for n c K
    using assms(1) sleeps_yield [of n c K False s] by (simp_all add: portYIELD_WITHIN_API_def)
  then show ?thesis using True delay_zero sleeps_asleep [OF assms(1)] by simp
next
  case False
  then have a: "uxSchedulerSuspended s = 0" "runs_free idle s" "\<forall>q\<in>set qs. irq_ok E q" "0 < m" using assms(2) by (auto simp: word_gt_0)
  from a(2) obtain d where "may_block idle d s" by (rule runs_freeE)
  with assms(1) obtain s2 s3 y s4 where r: "spares {} (vTaskSuspendAll s) s2" "kernel_ok idle T E s3" "held (ticks_of qs) s2 s3" "resumed s3 s4"
    "vTaskDelay (run_irqs qs) m s = Some (if y then s4 else portYIELD_WITHIN_API s4)" "kernel_ok idle T E (if y then s4 else portYIELD_WITHIN_API s4)"
    using a(1,4,3) by (rule delay_steps) (rule that)
  have "sleeps_on n c (K + ticks_of qs) (if y then s4 else portYIELD_WITHIN_API s4)" if "asleep n c K s" "K + ticks_of qs < 2 ^ 32" for n c K
    unfolding sleeps_yield by (rule suspended_irqs_sleep [OF that(1) a(1) r(1-4) that(2)])
  then show ?thesis using r(5,6) False by (intro exI [of _ "if y then s4 else portYIELD_WITHIN_API s4"] conjI) simp_all
qed

lemma should_delay_later: "xShouldDelay x p w \<Longrightarrow> w \<noteq> x"
  by (auto simp: xShouldDelay_def split: if_splits)

lemma delay_until_event:
  assumes "kernel_ok idle T E s" "allowed idle E (Delay_until qs p m) s"
  shows "\<exists>s'. vTaskDelayUntil (run_irqs qs) p m s = Some (p + m, s') \<and> kernel_ok idle T E s' \<and>
    (\<forall>n c K. asleep n c K s \<and> K + ticks_of qs < 2 ^ 32 \<longrightarrow> sleeps_on n c (K + ticks_of qs) s')"
proof -
  from assms(2) have a: "uxSchedulerSuspended s = 0" "runs_free idle s" "\<forall>q\<in>set qs. irq_ok E q" by auto
  from a(2) obtain d where d: "may_block idle d s" by (rule runs_freeE)
  let ?s = "vTaskSuspendAll s"
  have f: "xTickCount ?s = xTickCount s" "pxCurrentTCB ?s = Some d" "uxSchedulerSuspended ?s = 1" using d a(1) by (simp_all add: vTaskSuspendAll_def may_block_def)
  obtain s2 where s2: "(if xShouldDelay (xTickCount ?s) p (p + m) then Option.bind (pxCurrentTCB ?s) (\<lambda>c. add_to_delayed c (p + m) ?s) else Some ?s) = Some s2"
    "kernel_ok idle T E s2" "spares {} ?s s2" "uxSchedulerSuspended s2 = 1"
  proof (cases "xShouldDelay (xTickCount s) p (p + m)")
    case True
    from delay_begins [OF assms(1) d a(1) should_delay_later [OF True]] obtain s2 where "add_to_delayed d (p + m) ?s = Some s2" "kernel_ok idle T E s2" "spares {} ?s s2"
      "uxSchedulerSuspended s2 = 1" by blast
    then show ?thesis using that [of s2] True f by simp
  next
    case False
    have "kernel_ok idle T E ?s" using suspend_ok [OF assms(1)] a(1) by simp
    then show ?thesis using that [of ?s] False f by (simp add: spares_same)
  qed
  from s2(2,4) a(3) obtain s3 y s4 where r: "run_irqs qs s2 = Some s3" "kernel_ok idle T E s3" "held (ticks_of qs) s2 s3" "xTaskResumeAll s3 = Some (y, s4)" "resumed s3 s4"
    "kernel_ok idle T E (if y then s4 else portYIELD_WITHIN_API s4)" by (rule irqs_resume) (rule that)
  have "vTaskDelayUntil (run_irqs qs) p m s = Some (p + m, if y then s4 else portYIELD_WITHIN_API s4)"
    using s2(1) r(1,4) by (simp add: vTaskDelayUntil_def Let_def)
  moreover have "sleeps_on n c (K + ticks_of qs) (if y then s4 else portYIELD_WITHIN_API s4)" if "asleep n c K s" "K + ticks_of qs < 2 ^ 32" for n c K
    unfolding sleeps_yield by (rule suspended_irqs_sleep [OF that(1) a(1) s2(3) r(2,3,5) that(2)])
  ultimately show ?thesis using r(6) by (intro exI [of _ "if y then s4 else portYIELD_WITHIN_API s4"] conjI) simp_all
qed

lemma new_list_ok:
  assumes "kernel_ok idle T E s" "11 \<le> l" "l \<notin> E"
  shows "kernel_ok idle T (insert l E) (on_lists (vListInitialise l) s)" "spares {} s (on_lists (vListInitialise l) s)"
proof -
  note d = kernel_okD [OF assms(1)] and k = core_okD [OF kernel_okD(1) [OF assms(1)]]
  have "pvContainer (lsts s) i \<noteq> Some l" for i using lists_ok_bound [OF k(1), of i l] assms(2,3) by auto
  from lists_ok_initialise [OF k(1) _ this] assms(2) have "lists_ok ({..<11} \<union> insert l E) (lsts (on_lists (vListInitialise l) s))" by (simp add: on_lists_def)
  moreover have "insert l E \<inter> {..<11} = {}" using d(1) assms(2) by (auto simp: core_ok_def)
  ultimately have "core_ok T (insert l E) (on_lists (vListInitialise l) s)"
    using d(1) by (simp add: core_ok_def tasks_ok_def delay_lists_ok_def top_ok_def on_lists_def)
  moreover have "time_ok T (on_lists (vListInitialise l) s)" using d(2) by (simp add: time_ok_def on_lists_def)
  moreover have "rest_ok idle T (on_lists (vListInitialise l) s)" by (rule rest_ok_cong [OF d(3)]) (use d(6,7) in \<open>auto simp: on_lists_def deleted_def\<close>)
  moreover have "calm (on_lists (vListInitialise l) s)" using d(4) by (simp add: calm_def pending_def on_lists_def)
  ultimately show "kernel_ok idle T (insert l E) (on_lists (vListInitialise l) s)" by (simp add: kernel_ok_def)
  show "spares {} s (on_lists (vListInitialise l) s)" by (simp add: spares_def unmoved_def on_lists_def)
qed

text \<open>What every event does: it succeeds, keeps the invariant, and lets sleepers sleep.\<close>

definition good_step :: "nat \<Rightarrow> nat set \<Rightarrow> kevent \<Rightarrow> sched \<Rightarrow> bool" where
  "good_step idle E e s \<longleftrightarrow> (\<exists>T s'. perform e s = Some s' \<and> kernel_ok idle T (lists_after e E) s' \<and>
     (\<forall>n c K. asleep n c K s \<and> \<not> deletes c e s \<and> K + ticks_in e < 2 ^ 32 \<longrightarrow> sleeps_on n c (K + ticks_in e) s'))"

lemma good_step_spares:
  assumes "perform e s = Some s'" "kernel_ok idle T (lists_after e E) s'" "spares X s s'" "ticks_in e = 0" "\<And>c. c \<in> X \<Longrightarrow> deletes c e s"
  shows "good_step idle E e s"
  unfolding good_step_def using assms sleeps_spared [OF assms(2) _ assms(3)] by (intro exI [of _ T] exI [of _ s']) auto

lemma names_taskE:
  assumes "names_task h s" "kernel_ok idle T E s"
  obtains t where "target h s = Some t" "t \<in> T"
  using assms(1) tasks_eq [OF assms(2)] by (auto simp: names_task_def split: option.splits)

lemma step_ok:
  assumes "kernel_ok idle T E s" "allowed idle E e s"
  shows "good_step idle E e s"
proof (cases e)
  case (Interrupt q)
  then have q: "irq_ok E q" using assms(2) by simp
  from run_irq_ok [OF assms(1) q] obtain s' where s': "run_irq q s = Some s'" "kernel_ok idle T E s'" by blast
  then show ?thesis unfolding good_step_def using interrupt_sleeps [OF assms(1) q _ _ s'] Interrupt by (intro exI [of _ T] exI [of _ s']) simp
next
  case Switch
  from switch_ok [OF assms(1)] obtain s' where s': "xPortPendSVHandler s = Some s'" "kernel_ok idle T E s'" "spares {} s s'" by (auto simp: spares_def unmoved_def)
  then show ?thesis using Switch by (intro good_step_spares [of _ _ s' _ T _ "{}"]) simp_all
next
  case (Delay qs m)
  from delay_event [OF assms(1) assms(2) [unfolded Delay]] obtain s' where "vTaskDelay (run_irqs qs) m s = Some s'" "kernel_ok idle T E s'"
    "\<forall>n c K. asleep n c K s \<and> K + ticks_in (Delay qs m) < 2 ^ 32 \<longrightarrow> sleeps_on n c (K + ticks_in (Delay qs m)) s'" by blast
  then show ?thesis unfolding good_step_def using Delay by (intro exI [of _ T] exI [of _ s']) simp
next
  case (Delay_until qs p m)
  from delay_until_event [OF assms(1) assms(2) [unfolded Delay_until]] obtain s' where "vTaskDelayUntil (run_irqs qs) p m s = Some (p + m, s')" "kernel_ok idle T E s'"
    "\<forall>n c K. asleep n c K s \<and> K + ticks_of qs < 2 ^ 32 \<longrightarrow> sleeps_on n c (K + ticks_of qs) s'" by blast
  then show ?thesis unfolding good_step_def using Delay_until by (intro exI [of _ T] exI [of _ s']) simp
next
  case Suspend_all
  have "kernel_ok idle T E (vTaskSuspendAll s)" using suspend_ok [OF assms(1)] assms(2) Suspend_all by simp
  moreover have "spares {} s (vTaskSuspendAll s)" by (simp add: spares_same vTaskSuspendAll_def)
  ultimately show ?thesis using Suspend_all by (intro good_step_spares [of _ _ "vTaskSuspendAll s" _ T _ "{}"]) simp_all
next
  case Resume_all
  from resume_ok [OF assms(1)] assms(2) Resume_all obtain y s' where r: "xTaskResumeAll s = Some (y, s')" "kernel_ok idle T E s'"
    "if uxSchedulerSuspended s = 1 then resumed s s' \<and> deleted s' = deleted s else s' = s\<lparr>uxSchedulerSuspended := uxSchedulerSuspended s - 1\<rparr>" by auto
  have "sleeps_on n c K s'" if "asleep n c K s" for n c K
  proof (cases "uxSchedulerSuspended s = 1")
    case True
    then show ?thesis using asleep_resumed [OF core_okD(2) [OF kernel_okD(1) [OF assms(1)]] that] r(3) by simp
  next
    case False
    then have "spares {} s s'" using r(3) by (simp add: spares_same)
    then show ?thesis using sleeps_spared [OF r(2) that] by simp
  qed
  then show ?thesis unfolding good_step_def using Resume_all r(1,2) by (intro exI [of _ T] exI [of _ s']) simp
next
  case (Block l n)
  then obtain c where "may_block idle c s" using assms(2) by (auto elim: runs_freeE)
  from place_ok [OF assms(1) this] Block assms(2) obtain s' where "vTaskPlaceOnEventList l n s = Some s'" "kernel_ok idle T E s'" "spares {} s s'" by auto
  then show ?thesis using Block by (intro good_step_spares [of _ _ s' _ T _ "{}"]) simp_all
next
  case (Set_priority h p)
  then obtain t where "target h s = Some t" "t \<in> T" using assms by (auto elim: names_taskE)
  from priority_set_ok [OF assms(1) this] obtain s' where "vTaskPrioritySet h p s = Some s'" "kernel_ok idle T E s'" "spares {} s s'" by blast
  then show ?thesis using Set_priority by (intro good_step_spares [of _ _ s' _ T _ "{}"]) simp_all
next
  case (Inherit t)
  then have "t \<in> T" using assms tasks_eq by auto
  from inherit_ok [OF assms(1) this] obtain s' where "vTaskPriorityInherit t s = Some s'" "kernel_ok idle T E s'" "spares {} s s'" by blast
  then show ?thesis using Inherit by (intro good_step_spares [of _ _ s' _ T _ "{}"]) simp_all
next
  case (Disinherit h)
  have "t \<in> T \<and> generic_in s t = Some (ready_list s t)" if "h = Some t" for t using that Disinherit assms tasks_eq by (auto simp: is_ready_def)
  from disinherit_ok [OF assms(1) this] obtain s' where "vTaskPriorityDisinherit h s = Some s'" "kernel_ok idle T E s'" "spares {} s s'" by blast
  then show ?thesis using Disinherit by (intro good_step_spares [of _ _ s' _ T _ "{}"]) simp_all
next
  case (Create name depth p)
  show ?thesis
  proof (rule create_task_ok [OF assms(1), of name depth p])
    show ?thesis if "xTaskGenericCreate name depth p None s = Some (None, s')" "kernel_ok idle T E s'" "spares {} s s'" for s'
      using that Create by (intro good_step_spares [of _ _ s' _ T _ "{}"]) simp_all
    show ?thesis if "xTaskGenericCreate name depth p None s = Some (Some t, s')" "kernel_ok idle (insert t T) E s'" "spares {} s s'" for t s'
      using that Create by (intro good_step_spares [of _ _ s' _ "insert t T" _ "{}"]) simp_all
  qed
next
  case (Delete h)
  then obtain t where t: "target h s = Some t" "t \<in> T" using assms by (auto elim: names_taskE)
  then have "t \<noteq> idle" "t \<notin> deleted s" using Delete assms(2) by (auto simp: deleted_def xTasksWaitingTermination_def)
  from delete_ok [OF assms(1) t this] obtain s' where "vTaskDelete h s = Some s'" "kernel_ok idle T E s'" "spares {t} s s'" by blast
  then show ?thesis using Delete t by (intro good_step_spares [of _ _ s' _ T _ "{t}"]) simp_all
next
  case Idle_round
  from idle_ok [OF assms(1)] assms(2) Idle_round obtain T' s' where "prvIdleTask s = Some s'" "kernel_ok idle T' E s'"
    "\<forall>n c K. asleep n c K s \<longrightarrow> sleeps_on n c K s'" by auto
  then show ?thesis unfolding good_step_def using Idle_round by (intro exI [of _ T'] exI [of _ s']) simp
next
  case (New_list l)
  from new_list_ok [OF assms(1), of l] New_list assms(2) show ?thesis by (intro good_step_spares [of _ _ "on_lists (vListInitialise l) s" _ T _ "{}"]) simp_all
qed

section \<open>All runs\<close>

lemma reach_ok: "kernel_reach idle E s \<Longrightarrow> kernel_ok idle (tasks s) E s"
proof (induction rule: kernel_reach.induct)
  case (start ts idle s)
  from boot_ok [of ts] start obtain T where "kernel_ok idle T {} s" by auto
  then show ?case using tasks_eq by metis
next
  case (step idle E s e s')
  from step_ok [OF step.IH step.hyps(2)] step.hyps(3) obtain T where "kernel_ok idle T (lists_after e E) s'" by (auto simp: good_step_def)
  then show ?case using tasks_eq by metis
qed

lemma run_snoc: "kernel_run idle (es @ [e]) (E, s) = Option.bind (kernel_run idle es (E, s)) (\<lambda>(E', s'). kernel_run idle [e] (E', s'))"
proof (induction es arbitrary: E s)
  case Nil
  then show ?case by simp
next
  case (Cons e' es)
  then show ?case by (cases "perform e' s") simp_all
qed

lemma run_reach:
  assumes "kernel_reach idle E s" "kernel_run idle es (E, s) = Some (E', s')"
  shows "kernel_reach idle E' s'"
  using assms
proof (induction es arbitrary: E s)
  case (Cons e es)
  then obtain s1 where "allowed idle E e s" "perform e s = Some s1" "kernel_run idle es (lists_after e E, s1) = Some (E', s')"
    by (auto simp: bind_eq_Some_conv split: if_splits)
  then show ?case using Cons.IH kernel_reach.step [OF Cons.prems(1)] by blast
qed simp

end
