(* ===== verification/Kernel_Schedule.thy ===== *)
theory Kernel_Schedule
  imports Kernel_Steps
begin

text \<open>
  What the kernel promises to its tasks: no event faults, the state stays well formed, the processor goes to the tasks of the highest
  priority in turn, and delays and timeouts end when they should.
\<close>

section \<open>Turns\<close>

text \<open>The task that a context switch chooses.\<close>

definition dispatch :: "sched \<Rightarrow> (nat \<times> sched) option" where
  "dispatch s = do { s' \<leftarrow> xPortPendSVHandler s; c \<leftarrow> pxCurrentTCB s'; Some (c, s') }"

text \<open>The ready tasks of the highest priority, in the order of their next turns.\<close>

definition line_up :: "sched \<Rightarrow> nat list \<Rightarrow> bool" where
  "line_up s q \<longleftrightarrow> (\<exists>idle T E. kernel_ok idle T E s) \<and> uxSchedulerSuspended s = 0 \<and>
     (\<exists>p<7. queue_of p (lsts s) (map xGenericListItem q) \<and> (\<forall>t. is_ready s t \<longrightarrow> ready_list s t \<le> p))"

lemma ready_task: "kernel_ok idle T E s \<Longrightarrow> generic_in s t = Some p \<Longrightarrow> p < 7 \<Longrightarrow> t \<in> T \<and> ready_list s t = p"
  using tasks_only(1) [OF core_okD(2) [OF kernel_okD(1)], of idle T E s t p] tasks_okD(6) [OF core_okD(2) [OF kernel_okD(1)], of idle T E s t] by auto

lemma queue_container: "queue_of p ls xs \<Longrightarrow> i \<in> set xs \<Longrightarrow> pvContainer ls i = Some p"
  by (auto simp: queue_of_def ring_def)

lemma line_up_next:
  assumes "line_up s (i # q)"
  shows "\<exists>s'. dispatch s = Some (i, s') \<and> line_up s' (q @ [i])"
proof -
  obtain idle T E p where k: "kernel_ok idle T E s" "uxSchedulerSuspended s = 0" "p < 7" "queue_of p (lsts s) (map xGenericListItem (i # q))"
    "\<forall>t. is_ready s t \<longrightarrow> ready_list s t \<le> p" using assms by (auto simp: line_up_def)
  let ?s = "s\<lparr>pendsv := False\<rparr>"
  have i: "generic_in s i = Some p" using queue_container [OF k(4)] by simp
  note ti = ready_task [OF k(1) i k(3)]
  have c: "core_ok T E ?s" using kernel_okD(1) [OF k(1)] by simp
  from top_loop_stops [OF c, of i] i ti obtain w v where w: "top_loop ?s = Some (?s\<lparr>uxTopReadyPriority := w\<rparr>)" "core_ok T E (?s\<lparr>uxTopReadyPriority := w\<rparr>)"
    "v \<in> T" "generic_in s v = Some (ready_list s v)" "uxPriority s v = w" by auto
  have "unat w \<le> p" using k(5) w(4,5) by (auto simp: is_ready_def)
  moreover have "uxPriority s i \<le> w" using core_okD(3) [OF w(2)] i ti by (auto simp: top_ok_def)
  ultimately have wp: "unat w = p" using ti by (simp add: word_le_nat_alt)
  then have l: "pxReadyTasksLists w = Some p" using k(3) by (simp add: pxReadyTasksLists_def configMAX_PRIORITIES_def word_less_nat_alt)
  obtain ls where n: "listGET_OWNER_OF_NEXT_ENTRY p (lsts s) = Some (pvOwner (lsts s) (xGenericListItem i), ls)" "queue_of p ls (map xGenericListItem q @ [xGenericListItem i])"
    using lq.next_front [of p "lsts s" "xGenericListItem i" "map xGenericListItem q"] k(4) by auto
  have ow: "pvOwner (lsts s) (xGenericListItem i) = i" using tasks_okD(4) [OF core_okD(2) [OF kernel_okD(1) [OF k(1)]]] ti by simp
  let ?s' = "?s\<lparr>uxTopReadyPriority := w, lsts := ls, pxCurrentTCB := Some i\<rparr>"
  have d: "xPortPendSVHandler s = Some ?s'" using w(1) l n(1) ow k(2) by (simp add: xPortPendSVHandler_def vTaskSwitchContext_def)
  from switch_ok [OF k(1)] d have r: "kernel_ok idle T E ?s'" "pvContainer (lsts ?s') = pvContainer (lsts s)" "uxPriority ?s' = uxPriority s"
    "uxSchedulerSuspended ?s' = uxSchedulerSuspended s" by auto
  have "is_ready ?s' t = is_ready s t" for t using r(2) by (simp add: is_ready_def)
  then have "line_up ?s' (q @ [i])" using r n(2) k(2,3,5) unfolding line_up_def by (intro conjI) auto
  then show ?thesis using d by (intro exI [of _ ?s']) (simp add: dispatch_def)
qed

interpretation sw: turn_taking line_up dispatch "\<lambda>_ t. t"
  by unfold_locales (use line_up_next in auto)

lemma line_up_exists:
  assumes "kernel_ok idle T E s" "uxSchedulerSuspended s = 0"
  obtains q where "line_up s q" "distinct q" "set q = {t. is_ready s t \<and> (\<forall>u. is_ready s u \<longrightarrow> uxPriority s u \<le> uxPriority s t)}"
proof -
  note d = kernel_okD [OF assms(1)] and k = core_okD [OF kernel_okD(1) [OF assms(1)]]
  from top_loop_stops [OF d(1) d(5,6)] obtain w v where w: "core_ok T E (s\<lparr>uxTopReadyPriority := w\<rparr>)" "v \<in> T" "generic_in s v = Some (ready_list s v)" "uxPriority s v = w" by blast
  have p: "unat w < 7" using core_okD(4) [OF w(1)] by (simp add: word_less_nat_alt)
  have rT: "t \<in> T" if "is_ready s t" for t using that tasks_only(1) [OF k(2)] by (auto simp: is_ready_def)
  have top: "uxPriority s t \<le> w" if "is_ready s t" for t using that rT [OF that] core_okD(3) [OF w(1)] by (auto simp: top_ok_def is_ready_def)
  obtain A where A: "shape ({..<11} \<union> E) A (lsts s)" using k(1) by (auto simp: lists_ok_def)
  have pD: "unat w \<in> {..<11} \<union> E" using p by simp
  from ring_queue [OF shape_ring [OF A pD]] obtain ys zs where q: "items_of (A (unat w)) = ys @ zs" "queue_of (unat w) (lsts s) (zs @ ys)" by blast
  have gen: "\<exists>t. i = xGenericListItem t" if "i \<in> set (zs @ ys)" for i
    by (rule generic_item [OF k(2) queue_container [OF q(2) that]]) (use p in auto)
  define q' where "q' = map (\<lambda>i. i div 2) (zs @ ys)"
  have "xGenericListItem (i div 2) = i" if "i \<in> set (zs @ ys)" for i using gen [OF that] by (auto simp: xGenericListItem_def)
  then have m: "map xGenericListItem q' = zs @ ys" unfolding q'_def map_map by (intro map_idI) simp
  have "distinct (zs @ ys)" using shape_distinct [OF A pD] q(1) by auto
  then have "distinct q'" unfolding m [symmetric] by (simp add: distinct_map)
  moreover have "line_up s q'" using assms q(2) p top unfolding line_up_def m by (auto simp: word_le_nat_alt)
  moreover have "set q' = {t. is_ready s t \<and> (\<forall>u. is_ready s u \<longrightarrow> uxPriority s u \<le> uxPriority s t)}"
  proof (intro set_eqI iffI)
    fix t assume "t \<in> set q'"
    then have "generic_in s t = Some (unat w)" using queue_container [OF q(2), of "xGenericListItem t"] unfolding m [symmetric] by auto
    with ready_task [OF assms(1) this p] show "t \<in> {t. is_ready s t \<and> (\<forall>u. is_ready s u \<longrightarrow> uxPriority s u \<le> uxPriority s t)}"
      using top by (auto simp: is_ready_def word_le_nat_alt)
  next
    fix t assume t: "t \<in> {t. is_ready s t \<and> (\<forall>u. is_ready s u \<longrightarrow> uxPriority s u \<le> uxPriority s t)}"
    then have "w \<le> uxPriority s t" using w(3,4) by (auto simp: is_ready_def)
    moreover have "is_ready s t" using t by simp
    ultimately have "uxPriority s t = w" using top by (blast intro: antisym)
    then have "generic_in s t = Some (unat w)" using t by (simp add: is_ready_def)
    then have "xGenericListItem t \<in> set (ys @ zs)" using shape_container [OF A pD] q(1) by simp
    then have "xGenericListItem t \<in> set (map xGenericListItem q')" unfolding m by auto
    then show "t \<in> set q'" by auto
  qed
  ultimately show ?thesis using that by blast
qed

section \<open>Delays\<close>

abbreviation all_ticks :: "kevent list \<Rightarrow> nat" where
  "all_ticks es \<equiv> sum_list (map ticks_in es)"

lemma delay_starts:
  assumes "kernel_ok idle T E s" "may_block idle c s" "uxSchedulerSuspended s = 0" "0 < n" "\<forall>q\<in>set qs. irq_ok E q" "ticks_of qs < 2 ^ 32"
    "vTaskDelay (run_irqs qs) n s = Some s'"
  shows "sleeps_on (unat n) c (ticks_of qs) s'"
  using assms(1-5)
proof (rule delay_steps)
  fix s2 s3 y s4
  assume a: "kernel_ok idle T E s2" "delayed s2 c" "remaining s2 c = unat n" "event_in s2 c = None" "uxMissedTicks s2 = 0"
    "kernel_ok idle T E s3" "held (ticks_of qs) s2 s3" "resumed s3 s4" "vTaskDelay (run_irqs qs) n s = Some (if y then s4 else portYIELD_WITHIN_API s4)"
  have "asleep (unat n) c 0 s2" using a by (simp add: asleep_def)
  from asleep_held [OF this a(7)] assms(6) have "asleep (unat n) c (ticks_of qs) s3" by simp
  from asleep_resumed [OF core_okD(2) [OF kernel_okD(1) [OF a(6)]] this a(8)] show ?thesis using a(9) assms(7) by auto
qed

lemma delay_runs:
  assumes "kernel_reach idle E s" "pxCurrentTCB s = Some c" "0 < n" "kernel_run idle (Delay qs n # es) (E, s) = Some (E2, s2)"
    "all_ticks (Delay qs n # es) < 2 ^ 32"
    "\<forall>j<length es. \<exists>E' s'. kernel_run idle (take (Suc j) (Delay qs n # es)) (E, s) = Some (E', s') \<and> \<not> deletes c (es ! j) s' \<and>
       (all_ticks (take (Suc j) (Delay qs n # es)) < unat n \<or> uxSchedulerSuspended s' \<noteq> 0)"
  shows "sleeps_on (unat n) c (all_ticks (Delay qs n # es)) s2"
  using assms(4-6)
proof (induction es arbitrary: E2 s2 rule: rev_induct)
  case Nil
  then have a: "allowed idle E (Delay qs n) s" "vTaskDelay (run_irqs qs) n s = Some s2" by (auto simp: bind_eq_Some_conv split: if_splits)
  have "may_block idle c s" using a(1) assms(2,3) by (auto simp: runs_free_def may_block_def is_ready_def)
  with reach_ok [OF assms(1)] show ?case using delay_starts [of idle "tasks s" E s c n qs s2] a assms(3) Nil(2) by auto
next
  case (snoc e es)
  have t: "take (Suc (length es)) (Delay qs n # es @ [e]) = Delay qs n # es" by simp
  have "kernel_run idle ((Delay qs n # es) @ [e]) (E, s) = Some (E2, s2)" using snoc.prems(1) by simp
  from this [unfolded run_snoc] obtain E1 s1 where r: "kernel_run idle (Delay qs n # es) (E, s) = Some (E1, s1)" "kernel_run idle [e] (E1, s1) = Some (E2, s2)"
    by (auto simp: bind_eq_Some_conv simp del: kernel_run.simps)
  from snoc.prems(3) [rule_format, of "length es"] have n: "\<not> deletes c e s1" "all_ticks (Delay qs n # es) < unat n \<or> uxSchedulerSuspended s1 \<noteq> 0"
    unfolding t r(1) by (auto simp: nth_append simp del: kernel_run.simps)
  have "\<forall>j<length es. \<exists>E' s'. kernel_run idle (take (Suc j) (Delay qs n # es)) (E, s) = Some (E', s') \<and> \<not> deletes c (es ! j) s' \<and>
     (all_ticks (take (Suc j) (Delay qs n # es)) < unat n \<or> uxSchedulerSuspended s' \<noteq> 0)"
  proof (intro allI impI)
    fix j assume j: "j < length es"
    then have "take (Suc j) (Delay qs n # es @ [e]) = take (Suc j) (Delay qs n # es)" "(es @ [e]) ! j = es ! j" "j < length (es @ [e])" by (simp_all add: nth_append)
    with snoc.prems(3) [rule_format, of j] show "\<exists>E' s'. kernel_run idle (take (Suc j) (Delay qs n # es)) (E, s) = Some (E', s') \<and> \<not> deletes c (es ! j) s' \<and>
     (all_ticks (take (Suc j) (Delay qs n # es)) < unat n \<or> uxSchedulerSuspended s' \<noteq> 0)" by (simp only:) 
  qed
  from snoc.IH [OF r(1) _ this] snoc.prems(2) n(2) have sl: "asleep (unat n) c (all_ticks (Delay qs n # es)) s1" by (auto simp: sleeps_on_def)
  from r(2) have e: "allowed idle E1 e s1" "perform e s1 = Some s2" by (auto simp: bind_eq_Some_conv split: if_splits)
  from step_ok [OF reach_ok [OF run_reach [OF assms(1) r(1)]] e(1)] e(2)
  have "asleep (unat n) c (all_ticks (Delay qs n # es)) s1 \<and> \<not> deletes c e s1 \<and> all_ticks (Delay qs n # es) + ticks_in e < 2 ^ 32 \<longrightarrow>
    sleeps_on (unat n) c (all_ticks (Delay qs n # es) + ticks_in e) s2" unfolding good_step_def by auto
  moreover have "all_ticks (Delay qs n # es @ [e]) = all_ticks (Delay qs n # es) + ticks_in e" by simp
  ultimately show ?case using sl n(1) snoc.prems(2) by (simp only: simp_thms)
qed

section \<open>Timeouts\<close>

text \<open>The tick count and the overflows after \<open>j\<close> ticks.\<close>

lemma tick_counts:
  assumes "vTaskIncrementTick s = Some s'" "kernel_ok idle T E s" "uxSchedulerSuspended s = 0"
  shows "xTickCount s' = xTickCount s + 1 \<and> xNumOfOverflows s' = xNumOfOverflows s + (if xTickCount s + 1 = 0 then 1 else 0) \<and> uxSchedulerSuspended s' = 0"
proof -
  note d = kernel_okD [OF assms(2)]
  from increment_tick [OF d(1,2) assms(3)] assms(1) obtain W where "woken W (clock s) s'" by auto
  then show ?thesis using assms(3) by (auto elim!: wokenE simp: clock_def)
qed

lemma ticks_count:
  assumes "kernel_ok idle T E s" "uxSchedulerSuspended s = 0" "run_irqs (replicate j Tick_irq) s = Some s'"
  shows "xTickCount s' = word_of_nat (unat (xTickCount s) + j) \<and> xNumOfOverflows s' = xNumOfOverflows s + word_of_nat ((unat (xTickCount s) + j) div 2 ^ 32)"
  using assms
proof (induction j arbitrary: s)
  case 0
  then show ?case using unsigned_less [of "xTickCount s", where 'a = nat] by simp
next
  case (Suc j)
  then obtain s1 where s1: "xPortSysTickHandler s = Some s1" "run_irqs (replicate j Tick_irq) s1 = Some s'" by (auto simp: run_irq_def bind_eq_Some_conv)
  have k1: "kernel_ok idle T E s1" using tick_ok [OF Suc.prems(1)] s1(1) by auto
  have "kernel_ok idle T E (s\<lparr>pendsv := True\<rparr>)" "uxSchedulerSuspended (s\<lparr>pendsv := True\<rparr>) = 0" using Suc.prems by simp_all
  from tick_counts [OF _ this] s1(1) have c: "xTickCount s1 = xTickCount s + 1" "xNumOfOverflows s1 = xNumOfOverflows s + (if xTickCount s + 1 = 0 then 1 else 0)"
    "uxSchedulerSuspended s1 = 0" by (auto simp: xPortSysTickHandler_def)
  from Suc.IH [OF k1 c(3) s1(2)] have ih: "xTickCount s' = word_of_nat (unat (xTickCount s1) + j)"
    "xNumOfOverflows s' = xNumOfOverflows s1 + word_of_nat ((unat (xTickCount s1) + j) div 2 ^ 32)" by simp_all
  show ?case
  proof (cases "xTickCount s + 1 = 0")
    case True
    then have "xTickCount s = - 1" by (simp add: eq_neg_iff_add_eq_0)
    then have u: "unat (xTickCount s) = 2 ^ 32 - 1" by (simp add: unsigned_minus_1_eq_mask mask_eq_exp_minus_1)
    then have "unat (xTickCount s) + Suc j = j + 2 ^ 32" by simp
    moreover have "(word_of_nat (j + 2 ^ 32) :: 32 word) = word_of_nat j" by (simp add: word_of_nat_eq_iff take_bit_eq_mod)
    moreover have "(j + 2 ^ 32) div 2 ^ 32 = j div 2 ^ 32 + 1" by simp
    ultimately show ?thesis using ih c True by (simp only: of_nat_add) simp
  next
    case False
    then have "unat (xTickCount s1) = Suc (unat (xTickCount s))" using c(1) by (simp add: unat_plus_simple word_unat_eq_iff unatSuc add.commute)
    then show ?thesis using ih c False by simp
  qed
qed

lemma unat_wrapped: "2 ^ 32 \<le> n \<Longrightarrow> n < 2 * 2 ^ 32 \<Longrightarrow> unat (word_of_nat n :: 32 word) = n - 2 ^ 32"
  by (simp add: unat_of_nat take_bit_eq_mod mod_if [of n])

section \<open>Mutexes\<close>

lemma add_ready_keeps:
  assumes "prvAddTaskToReadyQueue t s = Some s'"
  shows "uxPriority s' = uxPriority s" "uxBasePriority s' = uxBasePriority s" "is_ready s' t"
  using assms by (auto simp: prvAddTaskToReadyQueue_def Let_def pxReadyTasksLists_def on_lists_def is_ready_def split: if_splits)

lemma try_keeps:
  assumes "try_lists f s = Some s'"
  shows "uxPriority s' = uxPriority s" "uxBasePriority s' = uxBasePriority s" "pxCurrentTCB s' = pxCurrentTCB s"
  using assms by (auto simp: try_lists_def)

lemma set_event_value_keeps [simp]:
  "uxPriority (set_event_value t p s) = uxPriority s" "uxBasePriority (set_event_value t p s) = uxBasePriority s"
  "pxCurrentTCB (set_event_value t p s) = pxCurrentTCB s" "generic_in (set_event_value t p s) u = generic_in s u"
  by (simp_all add: set_event_value_def on_lists_def)

lemma inherit_value:
  assumes "vTaskPriorityInherit t s = Some s'" "pxCurrentTCB s = Some c" "uxPriority s t < 7" "is_ready s t"
  shows "uxPriority s' = (uxPriority s)(t := max (uxPriority s t) (uxPriority s c)) \<and> uxBasePriority s' = uxBasePriority s \<and> is_ready s' t"
proof (cases "uxPriority s t < uxPriority s c")
  case True
  then obtain s1 s2 where s1: "try_lists (vListRemove (xGenericListItem t)) (set_event_value t (uxPriority s c) s) = Some s1"
    "prvAddTaskToReadyQueue t (s1\<lparr>uxPriority := (uxPriority s1)(t := uxPriority s1 c)\<rparr>) = Some s'"
    using assms by (auto simp: vTaskPriorityInherit_def Let_def in_ready_list_value is_ready_def bind_eq_Some_conv)
  from try_keeps [OF s1(1)] add_ready_keeps [OF s1(2)] True show ?thesis by (simp add: max_absorb2 less_imp_le)
next
  case False
  then have "max (uxPriority s t) (uxPriority s c) = uxPriority s t" by (simp add: max_absorb1 not_less)
  moreover have "s' = s" using False assms(1,2) by (simp add: vTaskPriorityInherit_def)
  ultimately show ?thesis using assms(4) by simp
qed

lemma disinherit_value:
  assumes "vTaskPriorityDisinherit (Some t) s = Some s'" "is_ready s t"
  shows "uxPriority s' = (uxPriority s)(t := uxBasePriority s t) \<and> uxBasePriority s' = uxBasePriority s \<and> is_ready s' t"
proof (cases "uxPriority s t = uxBasePriority s t")
  case True
  then have "s' = s" using assms(1) by (simp add: vTaskPriorityDisinherit_def)
  then show ?thesis using True assms(2) by (simp add: fun_upd_idem)
next
  case False
  then obtain s1 where s1: "try_lists (vListRemove (xGenericListItem t)) s = Some s1"
    "prvAddTaskToReadyQueue t (set_event_value t (uxBasePriority s1 t) (s1\<lparr>uxPriority := (uxPriority s1)(t := uxBasePriority s1 t)\<rparr>)) = Some s'"
    using assms(1) by (auto simp: vTaskPriorityDisinherit_def Let_def bind_eq_Some_conv)
  from try_keeps [OF s1(1)] add_ready_keeps [OF s1(2)] show ?thesis by simp
qed

section \<open>Properties\<close>

text \<open>
  C1. The kernel is safe. After any start that finds memory for the idle task, and any events the kernel allows, every
  further event that is allowed succeeds: no interrupt, context switch or call follows a null pointer, indexes the ready lists out
  of range or loops forever; the start itself never faults.
\<close>

theorem kernel_safe:
  assumes "kernel_reach idle E s" "allowed idle E e s"
  shows "(\<exists>s'. perform e s = Some s' \<and> kernel_reach idle (lists_after e E) s') \<and> (\<exists>r s. boot ts = Some (r, s))"
proof -
  from step_ok [OF reach_ok [OF assms(1)] assms(2)] obtain s' where "perform e s = Some s'" by (auto simp: good_step_def)
  then show ?thesis using kernel_reach.step [OF assms] boot_ok [of ts] by blast
qed

text \<open>One task of priority 3, started.\<close>

lemma sample_start:
  obtains s where "boot [(''a'', 64, 3)] = Some (Some 384, s)" "kernel_reach 384 {} s" "pxCurrentTCB s = Some 16" "is_ready s 16" "is_ready s 384"
    "uxPriority s 16 = 3" "uxPriority s 384 = 0" "uxSchedulerSuspended s = 0" "xTickCount s = 0" "\<And>u. is_ready s u \<Longrightarrow> uxPriority s u \<le> 3"
proof -
  have v: "map_option (\<lambda>(r, s). (r, pxCurrentTCB s, generic_in s 16, generic_in s 384, uxPriority s 16, uxPriority s 384, uxSchedulerSuspended s, xTickCount s))
    (boot [(''a'', 64, 3)]) = Some (Some 384, Some 16, Some 3, Some 0, 3, 0, 0, 0)" by code_simp
  then obtain s where s: "boot [(''a'', 64, 3)] = Some (Some 384, s)" by auto
  from boot_ok [of "[(''a'', 64, 3)]"] s obtain T where T: "kernel_ok 384 T {} s" "highest T s" by auto
  have h: "uxPriority s u \<le> 3" if "is_ready s u" for u
  proof -
    have "u \<in> T" using that tasks_only(1) [OF core_okD(2) [OF kernel_okD(1) [OF T(1)]]] by (auto simp: is_ready_def)
    then show ?thesis using that T(2) v unfolding s by (auto simp: highest_def is_ready_def)
  qed
  from v h show ?thesis unfolding s by (intro that [OF s kernel_reach.start [OF s]]) (auto simp: is_ready_def)
qed

theorem kernel_safe_witness: "\<exists>s s'. boot [(''a'', 64, 3)] = Some (Some 384, s) \<and> perform (Delay [] 2) s = Some s'"
proof -
  obtain s where s: "boot [(''a'', 64, 3)] = Some (Some 384, s)" "kernel_reach 384 {} s" "pxCurrentTCB s = Some 16" "is_ready s 16" "uxSchedulerSuspended s = 0"
    by (rule sample_start) (rule that)
  have "allowed 384 {} (Delay [] 2) s" using s(3-5) by (simp add: runs_free_def)
  from kernel_safe [OF s(2) this] s(1) show ?thesis by blast
qed

text \<open>
  C2. The state of the kernel is well typed in every reachable state. The current task is a task and the idle task is
  ready. Every task has priorities below 7 and a control block of its own inside the heap, and is in exactly one place:
  the ready list of its priority, one of the two delayed lists, or the list of deleted tasks. Only a delayed task waits for an event,
  in an event list or in the pending list, the latter only while the scheduler is suspended. The tick count is before the wake time of
  the tasks in the delayed list, and after that of the tasks in the overflow list, which wake when it has wrapped. The
  counters agree with the lists.
\<close>

theorem kernel_state:
  assumes "kernel_reach idle E s"
  shows "(\<exists>c. pxCurrentTCB s = Some c \<and> is_task s c) \<and> is_ready s idle \<and> finite {t. is_task s t} \<and>
    uxCurrentNumberOfTasks s = word_of_nat (card {t. is_task s t}) \<and>
    uxTasksDeleted s = word_of_nat (card {t. generic_in s t = Some xTasksWaitingTermination}) \<and>
    (\<forall>t. is_task s t \<longrightarrow> uxPriority s t < configMAX_PRIORITIES \<and> uxBasePriority s t < configMAX_PRIORITIES \<and> 16 \<le> t \<and> t + 76 \<le> 15360 \<and>
       (\<forall>u. is_task s u \<and> u \<noteq> t \<longrightarrow> t + 76 \<le> u - 16 \<or> u + 76 \<le> t - 16) \<and>
       (is_ready s t \<or> generic_in s t = Some (pxDelayedTaskList s) \<or> generic_in s t = Some (pxOverflowDelayedTaskList s) \<or>
        generic_in s t = Some xTasksWaitingTermination) \<and>
       (generic_in s t = Some (pxDelayedTaskList s) \<longrightarrow> xTickCount s < wake_time s t) \<and>
       (generic_in s t = Some (pxOverflowDelayedTaskList s) \<longrightarrow> wake_time s t < xTickCount s)) \<and>
    (\<forall>t l. event_in s t = Some l \<longrightarrow> (l \<in> E \<or> l = xPendingReadyList \<and> uxSchedulerSuspended s \<noteq> 0) \<and>
       (generic_in s t = Some (pxDelayedTaskList s) \<or> generic_in s t = Some (pxOverflowDelayedTaskList s))) \<and>
    (uxSchedulerSuspended s = 0 \<longrightarrow> uxMissedTicks s = 0)"
proof -
  note r = reach_ok [OF assms]
  note d = kernel_okD [OF r] and k = core_okD [OF kernel_okD(1) [OF r]]
  have me: "memory_ok (tasks s) s" using d(3) by (simp add: rest_ok_def)
  have dl: "generic_in s t = Some 7 \<or> generic_in s t = Some 8 \<longleftrightarrow> generic_in s t = Some (pxDelayedTaskList s) \<or> generic_in s t = Some (pxOverflowDelayedTaskList s)" for t
    using delayed_iff [OF k(5)] by (simp add: delayed_def)
  have heap: "16 \<le> t \<and> t + 76 \<le> 15360 \<and> (is_task s u \<and> u \<noteq> t \<longrightarrow> t + 76 \<le> u - 16 \<or> u + 76 \<le> t - 16)" if t: "is_task s t" for t u
    using me
  proof (rule memory_okE)
    fix live assume m: "heap_live (kheap s) live" "\<And>t. t \<in> tasks s \<Longrightarrow> (t, 76) \<in> set live"
    obtain h0 fs where i: "heap_inv h0 fs (headers live)" "fits h0 live" using heap_live_inv [OF m(1)] by metis
    show ?thesis using inv_regions(2) [OF i m(2) [of t]] inv_regions(3) [OF i m(2) [of t] m(2) [of u]] t by auto
  qed
  have place: "is_ready s t \<or> generic_in s t = Some (pxDelayedTaskList s) \<or> generic_in s t = Some (pxOverflowDelayedTaskList s) \<or>
    generic_in s t = Some xTasksWaitingTermination" if "is_task s t" for t
    using tasks_okD(6) [OF k(2), of t] that dl [of t] by (auto simp: is_ready_def xTasksWaitingTermination_def)
  have ev: "(l \<in> E \<or> l = xPendingReadyList \<and> uxSchedulerSuspended s \<noteq> 0) \<and>
       (generic_in s t = Some (pxDelayedTaskList s) \<or> generic_in s t = Some (pxOverflowDelayedTaskList s))" if "event_in s t = Some l" for t l
  proof -
    have t: "t \<in> tasks s" by (rule tasks_only(2) [OF k(2) that])
    have "l \<in> {..<11} \<union> E" using lists_ok_bound [OF k(1) that] by simp
    moreover have "l = 9 \<or> 11 \<le> l" using k(2) t that by (auto simp: tasks_ok_def)
    moreover have "uxSchedulerSuspended s \<noteq> 0" if "l = 9" using d(4) that \<open>event_in s t = Some l\<close> by (auto simp: calm_def pending_def xPendingReadyList_def)
    moreover have "generic_in s t = Some 7 \<or> generic_in s t = Some 8" using tasks_okD(7) [OF k(2) t] that by simp
    ultimately show ?thesis using dl [of t] by (auto simp: xPendingReadyList_def)
  qed
  have cnt: "(\<exists>c. pxCurrentTCB s = Some c \<and> is_task s c)" "is_ready s idle" "finite (tasks s)" "uxCurrentNumberOfTasks s = word_of_nat (card (tasks s))"
    "uxTasksDeleted s = word_of_nat (card {t. generic_in s t = Some xTasksWaitingTermination})" "uxSchedulerSuspended s = 0 \<longrightarrow> uxMissedTicks s = 0"
    using d(3,4,6,7) deleted_finite [OF k(2)] by (auto simp: rest_ok_def is_ready_def calm_def deleted_def)
  have ty: "uxPriority s t < configMAX_PRIORITIES \<and> uxBasePriority s t < configMAX_PRIORITIES" if "is_task s t" for t
    using tasks_okD(2,3) [OF k(2), of t] that by (simp add: configMAX_PRIORITIES_def)
  have tm: "(generic_in s t = Some (pxDelayedTaskList s) \<longrightarrow> xTickCount s < wake_time s t) \<and>
    (generic_in s t = Some (pxOverflowDelayedTaskList s) \<longrightarrow> wake_time s t < xTickCount s)" if "is_task s t" for t
    using d(2) that by (simp add: time_ok_def)
  show ?thesis using cnt heap place ev ty tm by (intro conjI allI impI) blast+
qed

theorem kernel_state_witness: "\<exists>s. boot [(''a'', 64, 3)] = Some (Some 384, s) \<and> is_ready s 384 \<and> uxPriority s 16 < configMAX_PRIORITIES"
proof -
  obtain s where s: "boot [(''a'', 64, 3)] = Some (Some 384, s)" "kernel_reach 384 {} s" "is_ready s 16" by (rule sample_start) (rule that)
  have "is_task s 16" using s(3) by (simp add: is_task_def is_ready_def)
  then show ?thesis using kernel_state [OF s(2)] s(1) by blast
qed

text \<open>
  C4. The processor goes round among the ready tasks of the highest priority. In every reachable state in
  which the scheduler is not suspended, the tasks that are ready and whose priority no ready task exceeds stand in a line, and
  context switches choose them in this order, over and over; each has one turn in every round, and no other task has one.
\<close>

theorem vTaskSwitchContext_turns:
  assumes "kernel_reach idle E s" "uxSchedulerSuspended s = 0"
  shows "\<exists>q. q \<noteq> [] \<and> distinct q \<and> set q = {t. is_ready s t \<and> (\<forall>u. is_ready s u \<longrightarrow> uxPriority s u \<le> uxPriority s t)} \<and>
    (\<forall>k. \<exists>s'. turns dispatch (k * length q) s = Some (concat (replicate k q), s'))"
proof -
  note r = reach_ok [OF assms(1)]
  obtain q where q: "line_up s q" "distinct q" "set q = {t. is_ready s t \<and> (\<forall>u. is_ready s u \<longrightarrow> uxPriority s u \<le> uxPriority s t)}"
    using r assms(2) by (rule line_up_exists)
  note d = kernel_okD [OF r]
  from switch_ok [OF r] assms(2) obtain s' where "highest (tasks s) s'" "pvContainer (lsts s') = pvContainer (lsts s)" "uxPriority s' = uxPriority s" by auto
  then obtain t where "is_ready s t" "\<forall>u\<in>tasks s. is_ready s u \<longrightarrow> uxPriority s u \<le> uxPriority s t" unfolding highest_def is_ready_def by auto
  moreover have "is_task s u" if "is_ready s u" for u using that by (simp add: is_ready_def is_task_def)
  ultimately have "t \<in> set q" unfolding q(3) by blast
  then have "q \<noteq> []" by auto
  moreover have "\<exists>s'. turns dispatch (k * length q) s = Some (concat (replicate k q), s')" for k using sw.rounds [OF q(1), of k] by auto
  ultimately show ?thesis using q(2,3) by blast
qed

theorem vTaskSwitchContext_turns_witness:
  "\<exists>s q s'. boot [(''a'', 64, 3)] = Some (Some 384, s) \<and> 16 \<in> set q \<and> turns dispatch (2 * length q) s = Some (q @ q, s')"
proof -
  obtain s where s: "boot [(''a'', 64, 3)] = Some (Some 384, s)" "kernel_reach 384 {} s" "uxSchedulerSuspended s = 0" "is_ready s 16" "uxPriority s 16 = 3"
    "\<And>u. is_ready s u \<Longrightarrow> uxPriority s u \<le> 3" by (rule sample_start) (rule that)
  from vTaskSwitchContext_turns [OF s(2,3)] obtain q where q: "set q = {t. is_ready s t \<and> (\<forall>u. is_ready s u \<longrightarrow> uxPriority s u \<le> uxPriority s t)}"
    "\<forall>k. \<exists>s'. turns dispatch (k * length q) s = Some (concat (replicate k q), s')" by blast
  have "16 \<in> set q" using q(1) s(4-6) by simp
  moreover obtain s' where "turns dispatch (2 * length q) s = Some (q @ q, s')" using q(2) [rule_format, of 2] by (auto simp: numeral_2_eq_2)
  ultimately show ?thesis using s(1) by blast
qed

text \<open>
  C3. A delay ends at its tick. When the current task calls \<open>vTaskDelay\<close> with \<open>n\<close> ticks, then whatever events follow, and
  whatever interrupts come meanwhile, wrap-around of the tick count included, it is asleep until \<open>n\<close> ticks have come since the call,
  and it is in the ready list of its priority as soon as they have and the scheduler is not suspended, even when ticks were held back during a suspension.
\<close>

theorem vTaskDelay_wakes:
  assumes "kernel_reach idle E s" "pxCurrentTCB s = Some c" "0 < n" "kernel_run idle (Delay qs n # es) (E, s) = Some (E2, s2)"
    "all_ticks (Delay qs n # es) < 2 ^ 32"
    "\<forall>j<length es. \<exists>E' s'. kernel_run idle (take (Suc j) (Delay qs n # es)) (E, s) = Some (E', s') \<and> \<not> deletes c (es ! j) s' \<and>
       (all_ticks (take (Suc j) (Delay qs n # es)) < unat n \<or> uxSchedulerSuspended s' \<noteq> 0)"
  shows "if all_ticks (Delay qs n # es) < unat n \<or> uxSchedulerSuspended s2 \<noteq> 0
    then \<not> is_ready s2 c \<and> (generic_in s2 c = Some xDelayedTaskList1 \<or> generic_in s2 c = Some xDelayedTaskList2) else is_ready s2 c"
proof -
  have "kernel_ok idle (tasks s2) E2 s2" by (rule reach_ok [OF run_reach [OF assms(1,4)]])
  from asleep_delayed [OF this, of "unat n" c "all_ticks (Delay qs n # es)"] delay_runs [OF assms] show ?thesis
    unfolding sleeps_on_def delayed_def xDelayedTaskList1_def xDelayedTaskList2_def by (auto split del: if_split split: if_split_asm)
qed

definition sample_run :: "kevent list \<Rightarrow> (nat set \<times> sched) option" where
  "sample_run es = Option.bind (boot [(''a'', 64, 3)]) (\<lambda>(r, s). kernel_run 384 es ({}, s))"

theorem vTaskDelay_wakes_witness:
  "\<exists>E s. sample_run [Delay [] 2, Interrupt Tick_irq, Interrupt Tick_irq] = Some (E, s) \<and> is_ready s 16"
proof -
  let ?es = "[Interrupt Tick_irq, Interrupt Tick_irq]"
  obtain s where s: "boot [(''a'', 64, 3)] = Some (Some 384, s)" "kernel_reach 384 {} s" "pxCurrentTCB s = Some 16" by (rule sample_start) (rule that)
  have r: "sample_run es = kernel_run 384 es ({}, s)" for es by (simp add: sample_run_def s(1))
  have "map_option (\<lambda>(E, s). uxSchedulerSuspended s) (sample_run (Delay [] 2 # ?es)) = Some 0" by code_simp
  then obtain E2 s2 where r2: "kernel_run 384 (Delay [] 2 # ?es) ({}, s) = Some (E2, s2)" "uxSchedulerSuspended s2 = 0" unfolding r by auto
  have "\<forall>j<length ?es. \<exists>E' s'. kernel_run 384 (take (Suc j) (Delay [] 2 # ?es)) ({}, s) = Some (E', s') \<and> \<not> deletes 16 (?es ! j) s' \<and>
     (all_ticks (take (Suc j) (Delay [] 2 # ?es)) < unat (2 :: 32 word) \<or> uxSchedulerSuspended s' \<noteq> 0)"
  proof (intro allI impI)
    fix j :: nat assume "j < length ?es"
    then consider "j = 0" | "j = 1" by (auto simp: less_Suc_eq)
    then show "\<exists>E' s'. kernel_run 384 (take (Suc j) (Delay [] 2 # ?es)) ({}, s) = Some (E', s') \<and> \<not> deletes 16 (?es ! j) s' \<and>
     (all_ticks (take (Suc j) (Delay [] 2 # ?es)) < unat (2 :: 32 word) \<or> uxSchedulerSuspended s' \<noteq> 0)"
      by cases (use r2(1) in \<open>auto simp: bind_eq_Some_conv split: if_splits\<close>)
  qed
  from vTaskDelay_wakes [OF s(2,3) _ r2(1) _ this] r2 show ?thesis unfolding r by (simp del: kernel_run.simps)
qed

text \<open>
  C19. Timeouts are exact over the wrap of the tick count. The state set by \<open>vTaskSetTimeOutState\<close> and checked \<open>j\<close> ticks later
  by \<open>xTaskCheckForTimeOut\<close> says that the time is over exactly when \<open>j\<close> has reached the time to wait, and otherwise leaves the
  difference to wait and the new state; this holds as long as the tick count has not come twice to the value it had, and wrapped twice.
\<close>

theorem xTaskCheckForTimeOut_exact:
  assumes "kernel_reach idle E s" "uxSchedulerSuspended s = 0" "run_irqs (replicate j Tick_irq) s = Some s'" "unat (xTickCount s) + j < 2 * 2 ^ 32"
  shows "xTaskCheckForTimeOut (vTaskSetTimeOutState s) xTicksToWait s' =
    (if unat xTicksToWait \<le> j then (True, xTicksToWait, vTaskSetTimeOutState s) else (False, xTicksToWait - word_of_nat j, vTaskSetTimeOutState s'))"
proof -
  let ?t = "unat (xTickCount s)" and ?w = xTicksToWait
  from ticks_count [OF reach_ok [OF assms(1)] assms(2,3)] have c: "xTickCount s' = word_of_nat (?t + j)"
    "xNumOfOverflows s' = xNumOfOverflows s + word_of_nat ((?t + j) div 2 ^ 32)" by simp_all
  have w: "unat ?w < 2 ^ 32" using unsigned_less [of ?w, where 'a = nat] by simp
  have e: "xTickCount s' - xTickCount s = word_of_nat j" unfolding c by simp
  consider "?t + j < 2 ^ 32" | "2 ^ 32 \<le> ?t + j" "j < 2 ^ 32" | "2 ^ 32 \<le> j" by linarith
  then show ?thesis
  proof cases
    case 1
    then have "xNumOfOverflows s' = xNumOfOverflows s" using c(2) by simp
    moreover have "unat (word_of_nat j :: 32 word) = j" using 1 by (simp add: unat_of_nat take_bit_nat_eq_self)
    ultimately show ?thesis using e by (auto simp: xTaskCheckForTimeOut_def vTaskSetTimeOutState_def word_less_nat_alt)
  next
    case 2
    have "(?t + j) div 2 ^ 32 = 1" using 2(1) assms(4) by (simp add: div_nat_eqI)
    then have o1: "xNumOfOverflows s' \<noteq> xNumOfOverflows s" using c(2) by simp
    have "unat (xTickCount s') = ?t + j - 2 ^ 32"
      unfolding c(1) using 2(1) assms(4) by (rule unat_wrapped)
    then have "\<not> xTickCount s \<le> xTickCount s'" using 2 by (simp add: word_le_nat_alt)
    moreover have "unat (word_of_nat j :: 32 word) = j" using 2 by (simp add: unat_of_nat take_bit_nat_eq_self)
    ultimately show ?thesis using e by (auto simp: xTaskCheckForTimeOut_def vTaskSetTimeOutState_def word_less_nat_alt)
  next
    case 3
    have "(?t + j) div 2 ^ 32 = 1" using 3 assms(4) by (simp add: div_nat_eqI)
    then have o1: "xNumOfOverflows s' \<noteq> xNumOfOverflows s" using c(2) by simp
    have "unat (xTickCount s') = ?t + j - 2 ^ 32"
      unfolding c(1) using 3 assms(4) by (intro unat_wrapped) simp_all
    then have "xTickCount s \<le> xTickCount s'" using 3 by (simp add: word_le_nat_alt)
    then show ?thesis using o1 w 3 by (simp add: xTaskCheckForTimeOut_def vTaskSetTimeOutState_def)
  qed
qed

theorem xTaskCheckForTimeOut_exact_witness:
  "\<exists>s s'. boot [(''a'', 64, 3)] = Some (Some 384, s) \<and> run_irqs [Tick_irq, Tick_irq] s = Some s' \<and>
     xTaskCheckForTimeOut (vTaskSetTimeOutState s) 5 s' = (False, 3, vTaskSetTimeOutState s')"
proof -
  obtain s where s: "boot [(''a'', 64, 3)] = Some (Some 384, s)" "kernel_reach 384 {} s" "uxSchedulerSuspended s = 0" "xTickCount s = 0" by (rule sample_start) (rule that)
  from run_irqs_ok [OF reach_ok [OF s(2)], of "[Tick_irq, Tick_irq]"] obtain s' where s': "run_irqs [Tick_irq, Tick_irq] s = Some s'" by auto
  then have "run_irqs (replicate 2 Tick_irq) s = Some s'" by (simp add: numeral_2_eq_2)
  from xTaskCheckForTimeOut_exact [OF s(2,3) this, of 5] s(1,4) s' show ?thesis by simp
qed

text \<open>
  C26. The decision of \<open>vTaskDelayUntil\<close> is that of a circle of \<open>2 ^ 32\<close> ticks: the task has to wait exactly
  when fewer ticks than the increment have come since its previous wake time, whatever of the two times and the
  present one lies behind a wrap of the tick count.
\<close>

theorem xShouldDelay_circle: "xShouldDelay xTick xPreviousWakeTime (xPreviousWakeTime + xTimeIncrement) \<longleftrightarrow> xTick - xPreviousWakeTime < xTimeIncrement"
proof -
  let ?x = "unat xTick" and ?p = "unat xPreviousWakeTime" and ?i = "unat xTimeIncrement"
  have b: "?x < 2 ^ 32" "?p < 2 ^ 32" "?i < 2 ^ 32" using unsigned_less [of xTick, where 'a = nat] unsigned_less [of xPreviousWakeTime, where 'a = nat]
    unsigned_less [of xTimeIncrement, where 'a = nat] by simp_all
  have w: "unat (xPreviousWakeTime + xTimeIncrement) = (if ?p + ?i < 2 ^ 32 then ?p + ?i else ?p + ?i - 2 ^ 32)"
    using b by (simp add: unat_word_ariths mod_if [of "?p + ?i"])
  have d: "unat (xTick - xPreviousWakeTime) = (if ?p \<le> ?x then ?x - ?p else ?x + 2 ^ 32 - ?p)"
    using b by (simp add: unat_sub_if')
  show ?thesis unfolding xShouldDelay_def word_less_nat_alt w d using b by (auto split: if_splits)
qed

text \<open>
  C23. Priority inheritance. When the current task finds a mutex held by a ready task, the holder gets the greater of the two
  priorities and is in the ready list of that priority, with its base priority kept; when it gives the mutex back, it is
  in the ready list of its base priority. No other task changes.
\<close>

theorem vTaskPriorityInherit_mutex:
  assumes "kernel_reach idle E s" "pxCurrentTCB s = Some c" "is_ready s t"
  shows "\<exists>s1 s2. vTaskPriorityInherit t s = Some s1 \<and> uxPriority s1 = (uxPriority s)(t := max (uxPriority s t) (uxPriority s c)) \<and>
    uxBasePriority s1 = uxBasePriority s \<and> is_ready s1 t \<and>
    vTaskPriorityDisinherit (Some t) s1 = Some s2 \<and> uxPriority s2 = (uxPriority s)(t := uxBasePriority s t) \<and> uxBasePriority s2 = uxBasePriority s \<and> is_ready s2 t"
proof -
  note r = reach_ok [OF assms(1)]
  have t: "t \<in> tasks s" using assms(3) by (simp add: is_ready_def is_task_def)
  have p: "uxPriority s t < 7" by (rule tasks_okD(2) [OF core_okD(2) [OF kernel_okD(1) [OF r]] t])
  from inherit_ok [OF r t] obtain s1 where s1: "vTaskPriorityInherit t s = Some s1" "kernel_ok idle (tasks s) E s1" by blast
  note v = inherit_value [OF s1(1) assms(2) p assms(3)]
  from disinherit_ok [OF s1(2), of "Some t"] v t obtain s2 where s2: "vTaskPriorityDisinherit (Some t) s1 = Some s2" by (auto simp: is_ready_def)
  from disinherit_value [OF this] v s1(1) s2 show ?thesis by (intro exI [of _ s1] exI [of _ s2]) simp
qed

theorem vTaskPriorityInherit_mutex_witness:
  "\<exists>s s1. boot [(''a'', 64, 3)] = Some (Some 384, s) \<and> vTaskPriorityInherit 384 s = Some s1 \<and> uxPriority s1 384 = 3 \<and> is_ready s1 384"
proof -
  obtain s where s: "boot [(''a'', 64, 3)] = Some (Some 384, s)" "kernel_reach 384 {} s" "pxCurrentTCB s = Some 16" "is_ready s 384"
    "uxPriority s 16 = 3" "uxPriority s 384 = 0" by (rule sample_start) (rule that)
  from vTaskPriorityInherit_mutex [OF s(2-4)] s(1,5,6) show ?thesis by auto
qed

text \<open>
  A holder that waits for an event itself keeps its place in the event list, though the value of its item is
  now that of its new priority: the event lists are not always in the order of the priorities.
\<close>

lemma inherit_keeps_event_place:
  assumes "kernel_reach idle E s" "pxCurrentTCB s = Some c" "event_in s t = Some l" "uxPriority s t < uxPriority s c"
  shows "\<exists>s'. vTaskPriorityInherit t s = Some s' \<and> uxPriority s' t = uxPriority s c \<and> pxNext (lsts s') = pxNext (lsts s) \<and> pxPrevious (lsts s') = pxPrevious (lsts s) \<and>
    event_in s' t = Some l \<and> xItemValue (lsts s') (Item (xEventListItem t)) = configMAX_PRIORITIES - uxPriority s c"
proof -
  note r = reach_ok [OF assms(1)]
  note k = core_okD [OF kernel_okD(1) [OF r]]
  have t: "t \<in> tasks s" by (rule tasks_only(2) [OF k(2) assms(3)])
  have p: "uxPriority s t < 7" by (rule tasks_okD(2) [OF k(2) t])
  have "generic_in s t \<noteq> Some (ready_list s t)" using tasks_okD(7) [OF k(2) t] ready_list_less [OF k(2) t] assms(3) by auto
  then show ?thesis using assms(2-4) in_ready_list_value [OF p, of t "set_event_value t (uxPriority s c) s"]
    by (simp add: vTaskPriorityInherit_def Let_def) (simp add: set_event_value_def on_lists_def listSET_LIST_ITEM_VALUE_def)
qed

end
