(* ===== verification/Kernel_Queue.thy ===== *)
theory Kernel_Queue
  imports Kernel_Heap "HOL-Library.Monad_Syntax"
begin

text \<open>
  The queues of the kernel, \<open>queue.c\<close>, in the configuration of the projects (mutexes, no coroutines): creation and
  deletion on the modelled allocator, sending and receiving by tasks and by interrupts, and the lock that defers
  the work on the event lists. Pointers into the storage are offsets from \<open>pcHead\<close>; a copy outside the storage
  is a fault. An event list is the sequence of the tasks that wait, with their priorities, first the one
  that is woken first. What the scheduler does on the calls of \<open>queue.c\<close> is kept as far as the queue sees it: the tasks
  made ready, the yields requested and the priorities given back.
\<close>

section \<open>The queue\<close>

type_synonym task = "nat \<times> nat"

record xQUEUE =
  is_mutex :: bool
  pxMutexHolder :: "nat option"
  storage :: "8 word list"
  pcTail :: int
  pcWriteTo :: int
  pcReadFrom :: int
  xTasksWaitingToSend :: "task list"
  xTasksWaitingToReceive :: "task list"
  uxMessagesWaiting :: "32 word"
  uxLength :: "32 word"
  uxItemSize :: "32 word"
  xRxLock :: int
  xTxLock :: int

record qsys = xQUEUE +
  current :: task
  woken :: "nat list"
  yields :: nat
  missed_yield :: bool
  inherited :: "nat option list"
  disinherited :: "nat option list"

datatype position = queueSEND_TO_BACK | queueSEND_TO_FRONT

abbreviation (input) queueUNLOCKED :: int where
  "queueUNLOCKED \<equiv> - 1"

abbreviation (input) queueLOCKED_UNMODIFIED :: int where
  "queueLOCKED_UNMODIFIED \<equiv> 0"

subsection \<open>Storage\<close>

definition mem_write :: "int \<Rightarrow> 8 word list \<Rightarrow> nat \<Rightarrow> 8 word list \<Rightarrow> 8 word list option" where
  "mem_write at x n st =
     (if 0 \<le> at \<and> nat at + n \<le> length st \<and> n \<le> length x then Some (take (nat at) st @ take n x @ drop (nat at + n) st) else None)"

definition mem_read :: "int \<Rightarrow> nat \<Rightarrow> 8 word list \<Rightarrow> 8 word list option" where
  "mem_read at n st = (if 0 \<le> at \<and> nat at + n \<le> length st then Some (take n (drop (nat at) st)) else None)"

definition prvCopyDataToQueue :: "8 word list \<Rightarrow> position \<Rightarrow> qsys \<Rightarrow> qsys option" where
  "prvCopyDataToQueue pvItemToQueue xPosition s = do {
     s1 \<leftarrow>
       (if uxItemSize s = 0 then
          Some (if is_mutex s then s\<lparr>disinherited := disinherited s @ [pxMutexHolder s], pxMutexHolder := None\<rparr> else s)
        else if xPosition = queueSEND_TO_BACK then do {
          st \<leftarrow> mem_write (pcWriteTo s) pvItemToQueue (unat (uxItemSize s)) (storage s);
          let w = pcWriteTo s + uint (uxItemSize s);
          Some (s\<lparr>storage := st, pcWriteTo := if pcTail s \<le> w then 0 else w\<rparr>)
        }
        else do {
          st \<leftarrow> mem_write (pcReadFrom s) pvItemToQueue (unat (uxItemSize s)) (storage s);
          let r = pcReadFrom s - uint (uxItemSize s);
          Some (s\<lparr>storage := st, pcReadFrom := if r < 0 then pcTail s - uint (uxItemSize s) else r\<rparr>)
        });
     Some (s1\<lparr>uxMessagesWaiting := uxMessagesWaiting s1 + 1\<rparr>)
   }"

definition prvCopyDataFromQueue :: "qsys \<Rightarrow> (8 word list \<times> qsys) option" where
  "prvCopyDataFromQueue s =
     (if \<not> is_mutex s then do {
        let r = pcReadFrom s + uint (uxItemSize s);
        let s1 = s\<lparr>pcReadFrom := if pcTail s \<le> r then 0 else r\<rparr>;
        x \<leftarrow> mem_read (pcReadFrom s1) (unat (uxItemSize s)) (storage s1);
        Some (x, s1)
      }
      else Some ([], s))"

subsection \<open>Event lists\<close>

text \<open>\<open>vTaskPlaceOnEventList\<close> and \<open>xTaskRemoveFromEventList\<close> (\<open>tasks.c\<close>) as the queue sees them.\<close>

definition place_waiting :: "task \<Rightarrow> task list \<Rightarrow> task list" where
  "place_waiting t ev = takeWhile (\<lambda>u. snd t \<le> snd u) ev @ t # dropWhile (\<lambda>u. snd t \<le> snd u) ev"

text \<open>If a task waits, it is woken; the flag tells whether its priority is at least that of the current task.\<close>

definition wake_receiver :: "qsys \<Rightarrow> bool \<times> qsys" where
  "wake_receiver s =
     (case xTasksWaitingToReceive s of
        [] \<Rightarrow> (False, s)
      | t # ev \<Rightarrow> (snd (current s) \<le> snd t, s\<lparr>xTasksWaitingToReceive := ev, woken := woken s @ [fst t]\<rparr>))"

definition wake_sender :: "qsys \<Rightarrow> bool \<times> qsys" where
  "wake_sender s =
     (case xTasksWaitingToSend s of
        [] \<Rightarrow> (False, s)
      | t # ev \<Rightarrow> (snd (current s) \<le> snd t, s\<lparr>xTasksWaitingToSend := ev, woken := woken s @ [fst t]\<rparr>))"

definition yield_if :: "bool \<times> qsys \<Rightarrow> qsys" where
  "yield_if r = (if fst r then (snd r)\<lparr>yields := yields (snd r) + 1\<rparr> else snd r)"

definition missed_if :: "bool \<times> qsys \<Rightarrow> qsys" where
  "missed_if r = (if fst r then (snd r)\<lparr>missed_yield := True\<rparr> else snd r)"

subsection \<open>The lock\<close>

definition prvLockQueue :: "qsys \<Rightarrow> qsys" where
  "prvLockQueue s =
     (let s1 = (if xRxLock s = queueUNLOCKED then s\<lparr>xRxLock := queueLOCKED_UNMODIFIED\<rparr> else s) in
      if xTxLock s1 = queueUNLOCKED then s1\<lparr>xTxLock := queueLOCKED_UNMODIFIED\<rparr> else s1)"

lemma wake_locks [simp]:
  "xTxLock (missed_if (wake_receiver s)) = xTxLock s" "xRxLock (missed_if (wake_receiver s)) = xRxLock s"
  "xTxLock (missed_if (wake_sender s)) = xTxLock s" "xRxLock (missed_if (wake_sender s)) = xRxLock s"
  by (auto simp: missed_if_def wake_receiver_def wake_sender_def split: list.splits)

function unlock_tx :: "qsys \<Rightarrow> qsys" where
  "unlock_tx s =
     (if queueLOCKED_UNMODIFIED < xTxLock s \<and> xTasksWaitingToReceive s \<noteq> [] then
        let s1 = missed_if (wake_receiver s) in unlock_tx (s1\<lparr>xTxLock := xTxLock s1 - 1\<rparr>)
      else s)"
  by auto

termination
  by (relation "measure (\<lambda>s. nat (xTxLock s))") (auto simp: Let_def)

function unlock_rx :: "qsys \<Rightarrow> qsys" where
  "unlock_rx s =
     (if queueLOCKED_UNMODIFIED < xRxLock s \<and> xTasksWaitingToSend s \<noteq> [] then
        let s1 = missed_if (wake_sender s) in unlock_rx (s1\<lparr>xRxLock := xRxLock s1 - 1\<rparr>)
      else s)"
  by auto

termination
  by (relation "measure (\<lambda>s. nat (xRxLock s))") (auto simp: Let_def)

declare unlock_tx.simps [simp del] unlock_rx.simps [simp del]

text \<open>
  The two critical sections of \<open>prvUnlockQueue\<close>; between them interrupts may use the queue. \<open>prvUnlockQueue\<close> is the case
  in which none does.
\<close>

definition unlock_queue :: "(qsys \<Rightarrow> qsys) \<Rightarrow> qsys \<Rightarrow> qsys" where
  "unlock_queue between s =
     (let s1 = (unlock_tx s)\<lparr>xTxLock := queueUNLOCKED\<rparr>; s2 = between s1 in (unlock_rx s2)\<lparr>xRxLock := queueUNLOCKED\<rparr>)"

definition prvUnlockQueue :: "qsys \<Rightarrow> qsys" where
  "prvUnlockQueue = unlock_queue (\<lambda>s. s)"

subsection \<open>Interrupts\<close>

text \<open>The result tells whether the item was sent, and whether a task of higher priority was woken.\<close>

definition xQueueGenericSendFromISR :: "8 word list \<Rightarrow> position \<Rightarrow> qsys \<Rightarrow> ((bool \<times> bool) \<times> qsys) option" where
  "xQueueGenericSendFromISR pvItemToQueue xCopyPosition s =
     (if uxMessagesWaiting s < uxLength s then do {
        s1 \<leftarrow> prvCopyDataToQueue pvItemToQueue xCopyPosition s;
        (if xTxLock s1 = queueUNLOCKED then
           Some (case wake_receiver s1 of (hp, s2) \<Rightarrow> ((True, hp), s2))
         else Some ((True, False), s1\<lparr>xTxLock := xTxLock s1 + 1\<rparr>))
      }
      else Some ((False, False), s))"

definition xQueueReceiveFromISR :: "qsys \<Rightarrow> (8 word list option \<times> bool \<times> qsys) option" where
  "xQueueReceiveFromISR s =
     (if 0 < uxMessagesWaiting s then do {
        (x, s1) \<leftarrow> prvCopyDataFromQueue s;
        let s2 = s1\<lparr>uxMessagesWaiting := uxMessagesWaiting s1 - 1\<rparr>;
        (if xRxLock s2 = queueUNLOCKED then
           Some (case wake_sender s2 of (hp, s3) \<Rightarrow> (Some x, hp, s3))
         else Some (Some x, False, s2\<lparr>xRxLock := xRxLock s2 + 1\<rparr>))
      }
      else Some (None, False, s))"

definition uxQueueMessagesWaiting :: "qsys \<Rightarrow> 32 word" where
  "uxQueueMessagesWaiting s = uxMessagesWaiting s"

definition prvIsQueueEmpty :: "qsys \<Rightarrow> bool" where
  "prvIsQueueEmpty s \<longleftrightarrow> uxMessagesWaiting s = 0"

definition prvIsQueueFull :: "qsys \<Rightarrow> bool" where
  "prvIsQueueFull s \<longleftrightarrow> uxMessagesWaiting s = uxLength s"

subsection \<open>Tasks\<close>

text \<open>
  A call from a task may take several rounds. Between its critical sections the rest of the system works: after
  the first section, while the queue is locked and the time is checked, after the queue has been looked at, between the two
  sections of the unlocking, and until the task runs again. A round of the
  environment says what happens there, and whether the time has expired. Waiting for a mutex that is taken but has no holder is a
  fault (\<open>vTaskPriorityInherit\<close> reads the block of the holder). A call is pending when the given rounds are over.
\<close>

record round =
  after_section :: "qsys \<Rightarrow> qsys"
  while_locked :: "qsys \<Rightarrow> qsys"
  after_look :: "qsys \<Rightarrow> qsys"
  between_unlocks :: "qsys \<Rightarrow> qsys"
  until_resumed :: "qsys \<Rightarrow> qsys"
  expired :: bool

datatype 'a outcome = Returned 'a qsys | Pending qsys | Fault

definition send_section :: "8 word list \<Rightarrow> position \<Rightarrow> qsys \<Rightarrow> bool outcome" where
  "send_section x pos s =
     (case prvCopyDataToQueue x pos s of None \<Rightarrow> Fault | Some s1 \<Rightarrow> Returned True (yield_if (wake_receiver s1)))"

fun xQueueGenericSend :: "8 word list \<Rightarrow> nat \<Rightarrow> position \<Rightarrow> round list \<Rightarrow> qsys \<Rightarrow> bool outcome" where
  "xQueueGenericSend x xTicksToWait pos rounds s =
     (if uxMessagesWaiting s < uxLength s then send_section x pos s
      else if xTicksToWait = 0 then Returned False s
      else
        (case rounds of
           [] \<Rightarrow> Pending s
         | r # rs \<Rightarrow>
             (let s1 = while_locked r (prvLockQueue (after_section r s)) in
              if \<not> expired r then
                if prvIsQueueFull s1 then
                  let s2 = s1\<lparr>xTasksWaitingToSend := place_waiting (current s1) (xTasksWaitingToSend s1)\<rparr>
                  in xQueueGenericSend x xTicksToWait pos rs (until_resumed r (unlock_queue (between_unlocks r) (after_look r s2)))
                else xQueueGenericSend x xTicksToWait pos rs (until_resumed r (unlock_queue (between_unlocks r) (after_look r s1)))
              else Returned False (unlock_queue (between_unlocks r) s1))))"

definition receive_section :: "bool \<Rightarrow> qsys \<Rightarrow> 8 word list option outcome" where
  "receive_section xJustPeeking s =
     (case prvCopyDataFromQueue s of
        None \<Rightarrow> Fault
      | Some (x, s1) \<Rightarrow>
          if \<not> xJustPeeking then
            (let s2 = s1\<lparr>uxMessagesWaiting := uxMessagesWaiting s1 - 1\<rparr>;
                 s3 = (if is_mutex s2 then s2\<lparr>pxMutexHolder := Some (fst (current s2))\<rparr> else s2)
             in Returned (Some x) (yield_if (wake_sender s3)))
          else Returned (Some x) (yield_if (wake_receiver (s1\<lparr>pcReadFrom := pcReadFrom s\<rparr>))))"

fun xQueueGenericReceive :: "nat \<Rightarrow> bool \<Rightarrow> round list \<Rightarrow> qsys \<Rightarrow> 8 word list option outcome" where
  "xQueueGenericReceive xTicksToWait xJustPeeking rounds s =
     (if 0 < uxMessagesWaiting s then receive_section xJustPeeking s
      else if xTicksToWait = 0 then Returned None s
      else
        (case rounds of
           [] \<Rightarrow> Pending s
         | r # rs \<Rightarrow>
             (let s1 = while_locked r (prvLockQueue (after_section r s)) in
              if \<not> expired r then
                if prvIsQueueEmpty s1 then
                  if is_mutex s1 \<and> pxMutexHolder s1 = None then Fault
                  else
                    let s2 = (if is_mutex s1 then s1\<lparr>inherited := inherited s1 @ [pxMutexHolder s1]\<rparr> else s1);
                        s3 = s2\<lparr>xTasksWaitingToReceive := place_waiting (current s2) (xTasksWaitingToReceive s2)\<rparr>
                    in xQueueGenericReceive xTicksToWait xJustPeeking rs
                         (until_resumed r (unlock_queue (between_unlocks r) (after_look r s3)))
                else xQueueGenericReceive xTicksToWait xJustPeeking rs
                       (until_resumed r (unlock_queue (between_unlocks r) (after_look r s1)))
              else Returned None (unlock_queue (between_unlocks r) s1))))"

declare xQueueGenericSend.simps [simp del] xQueueGenericReceive.simps [simp del]

subsection \<open>Creation and deletion\<close>

text \<open>\<open>sizeof (xQUEUE)\<close>: four pointers, two lists of 20 bytes, three counts and two locks.\<close>

definition sizeof_xQUEUE :: "32 word" where
  "sizeof_xQUEUE = 4 * 4 + 2 * 20 + 3 * 4 + 2 * 4"

text \<open>\<open>junk\<close> is what the memory granted contains. The result holds the addresses of the structure and of the storage.\<close>

definition new_queue :: "(nat \<Rightarrow> 8 word) \<Rightarrow> 32 word \<Rightarrow> 32 word \<Rightarrow> qsys \<Rightarrow> qsys" where
  "new_queue junk uxQueueLength itemSize s = s\<lparr>is_mutex := False, pxMutexHolder := None,
     storage := map junk [0..<unat (uxQueueLength * itemSize + 1)], pcTail := uint (uxQueueLength * itemSize),
     uxMessagesWaiting := 0, pcWriteTo := 0, pcReadFrom := uint ((uxQueueLength - 1) * itemSize),
     uxLength := uxQueueLength, uxItemSize := itemSize, xRxLock := queueUNLOCKED, xTxLock := queueUNLOCKED,
     xTasksWaitingToSend := [], xTasksWaitingToReceive := []\<rparr>"

definition xQueueCreate :: "(nat \<Rightarrow> 8 word) \<Rightarrow> 32 word \<Rightarrow> 32 word \<Rightarrow> heap \<Rightarrow> qsys \<Rightarrow> ((nat \<times> nat \<times> qsys) option \<times> heap) option" where
  "xQueueCreate junk uxQueueLength itemSize h s =
     (if 0 < uxQueueLength then do {
        (p, h1) \<leftarrow> pvPortMalloc sizeof_xQUEUE h;
        (case p of
           None \<Rightarrow> Some (None, h1)
         | Some pxNewQueue \<Rightarrow> do {
             (b, h2) \<leftarrow> pvPortMalloc (uxQueueLength * itemSize + 1) h1;
             (case b of
                None \<Rightarrow> do { h3 \<leftarrow> vPortFree (Some pxNewQueue) h2; Some (None, h3) }
              | Some pcHead \<Rightarrow> Some (Some (pxNewQueue, pcHead, new_queue junk uxQueueLength itemSize s), h2))
           })
      }
      else Some (None, h))"

definition xQueueCreateCountingSemaphore :: "(nat \<Rightarrow> 8 word) \<Rightarrow> 32 word \<Rightarrow> 32 word \<Rightarrow> heap \<Rightarrow> qsys \<Rightarrow> ((nat \<times> nat \<times> qsys) option \<times> heap) option" where
  "xQueueCreateCountingSemaphore junk uxCountValue uxInitialCount h s =
     map_option (\<lambda>(q, h'). (map_option (\<lambda>(p, b, s'). (p, b, s'\<lparr>uxMessagesWaiting := uxInitialCount\<rparr>)) q, h'))
       (xQueueCreate junk uxCountValue 0 h s)"

definition new_mutex :: "qsys \<Rightarrow> qsys" where
  "new_mutex s = s\<lparr>is_mutex := True, pxMutexHolder := None, storage := [], pcTail := 0, pcWriteTo := 0, pcReadFrom := 0,
     uxMessagesWaiting := 0, uxLength := 1, uxItemSize := 0, xRxLock := queueUNLOCKED, xTxLock := queueUNLOCKED,
     xTasksWaitingToSend := [], xTasksWaitingToReceive := []\<rparr>"

definition xQueueCreateMutex :: "heap \<Rightarrow> qsys \<Rightarrow> ((nat \<times> qsys) option \<times> heap) option" where
  "xQueueCreateMutex h s = do {
     (p, h1) \<leftarrow> pvPortMalloc sizeof_xQUEUE h;
     (case p of
        None \<Rightarrow> Some (None, h1)
      | Some pxNewQueue \<Rightarrow>
          (case xQueueGenericSend [] 0 queueSEND_TO_BACK [] (new_mutex s) of
             Returned ok s1 \<Rightarrow> Some (Some (pxNewQueue, s1), h1)
           | _ \<Rightarrow> None))
   }"

definition vQueueDelete :: "nat \<Rightarrow> nat \<Rightarrow> heap \<Rightarrow> heap option" where
  "vQueueDelete pxQueue pcHead h = do { h1 \<leftarrow> vPortFree (Some pcHead) h; vPortFree (Some pxQueue) h1 }"

section \<open>The items of a queue\<close>

abbreviation qlen :: "qsys \<Rightarrow> nat" where
  "qlen s \<equiv> unat (uxLength s)"

abbreviation qsize :: "qsys \<Rightarrow> nat" where
  "qsize s \<equiv> unat (uxItemSize s)"

abbreviation qcount :: "qsys \<Rightarrow> nat" where
  "qcount s \<equiv> unat (uxMessagesWaiting s)"

definition read_slot :: "qsys \<Rightarrow> nat" where
  "read_slot s = nat (pcReadFrom s) div qsize s"

definition slot_at :: "nat \<Rightarrow> 8 word list \<Rightarrow> nat \<Rightarrow> 8 word list" where
  "slot_at n st i = take n (drop (i * n) st)"

definition items :: "qsys \<Rightarrow> 8 word list list" where
  "items s = map (\<lambda>k. slot_at (qsize s) (storage s) ((read_slot s + 1 + k) mod qlen s)) [0..<qcount s]"

definition queue_inv :: "qsys \<Rightarrow> bool" where
  "queue_inv s \<longleftrightarrow> 0 < qlen s \<and> qcount s \<le> qlen s \<and> qlen s * qsize s \<le> length (storage s) \<and>
     pcTail s = int (qlen s * qsize s) \<and> pcReadFrom s = int (read_slot s * qsize s) \<and> read_slot s < qlen s \<and>
     pcWriteTo s = int ((read_slot s + 1 + qcount s) mod qlen s * qsize s) \<and> (is_mutex s \<longrightarrow> qsize s = 0 \<and> qlen s = 1)"

lemma length_items [simp]: "length (items s) = qcount s"
  by (simp add: items_def)

lemma slot_bound:
  assumes "i < n" "n * z \<le> length (st :: 'a list)"
  shows "i * z + z \<le> length st"
proof -
  have "i * z + z = Suc i * z" by simp
  also have "\<dots> \<le> n * z" using assms(1) by (intro mult_le_mono1) simp
  finally show ?thesis using assms(2) by simp
qed

lemma take_drop_take: "\<lbrakk>a + n \<le> b; b \<le> length st\<rbrakk> \<Longrightarrow> take n (drop a (take b st @ y)) = take n (drop a st)"
  by (auto simp: drop_take min_def)

lemma slot_other:
  assumes "i \<noteq> j" "j * n + n \<le> length st" "length x = n"
  shows "slot_at n (take (j * n) st @ x @ drop (j * n + n) st) i = slot_at n st i"
proof (cases "i < j")
  case True
  then have "i * n + n \<le> j * n" using mult_le_mono1 [of "Suc i" j n] by simp
  moreover have "j * n \<le> length st" using assms(2) by simp
  ultimately show ?thesis unfolding slot_at_def by (rule take_drop_take)
next
  case False
  then have "j * n + n \<le> i * n" using assms(1) mult_le_mono1 [of "Suc j" i n] by simp
  then have "drop (i * n) ((take (j * n) st @ x) @ drop (j * n + n) st) = drop (i * n) st"
    using assms(2,3) False by (subst drop_append) simp
  then show ?thesis by (simp add: slot_at_def)
qed

lemma slot_same: "\<lbrakk>j * n + n \<le> length st; length x = n\<rbrakk> \<Longrightarrow> slot_at n (take (j * n) st @ x @ drop (j * n + n) st) j = x"
  by (simp add: slot_at_def min_def)

lemma ring_less_neq:
  assumes "j < k" "k < n"
  shows "(a + j) mod n \<noteq> (a + k) mod (n :: nat)"
proof
  assume "(a + j) mod n = (a + k) mod n"
  then have "n dvd (a + k) - (a + j)" using assms(1) by (metis add_le_cancel_left less_imp_le mod_eq_dvd_iff_nat)
  then show False using assms by (auto dest: dvd_imp_le)
qed

lemma ring_neq: "\<lbrakk>j \<noteq> k; j < n; k < n\<rbrakk> \<Longrightarrow> (a + j) mod n \<noteq> (a + k) mod (n :: nat)"
  using ring_less_neq [of j k n a] ring_less_neq [of k j n a] by (cases "j < k") auto

text \<open>What the copies leave alone.\<close>

definition side :: "qsys \<Rightarrow> task list \<times> task list \<times> int \<times> int \<times> task \<times> nat list \<times> 32 word \<times> 32 word \<times> bool" where
  "side s = (xTasksWaitingToSend s, xTasksWaitingToReceive s, xRxLock s, xTxLock s, current s, woken s, uxLength s, uxItemSize s, is_mutex s)"

lemma count_Suc: "uxMessagesWaiting s < uxLength s \<Longrightarrow> unat (uxMessagesWaiting s + 1) = Suc (qcount s)"
  using unsigned_less [of "uxLength s", where 'a = nat] by (simp add: word_less_nat_alt unat_word_ariths)

lemma count_pred: "0 < uxMessagesWaiting s \<Longrightarrow> unat (uxMessagesWaiting s - 1) = qcount s - 1"
  by (metis unat_1 unat_minus_one unat_sub word_gt_0 word_le_nat_alt unat_gt_0 Suc_leI One_nat_def)

lemma room_iff: "uxMessagesWaiting s < uxLength s \<longleftrightarrow> qcount s < qlen s"
  by (simp add: word_less_nat_alt)

lemma copy_semaphore:
  assumes "queue_inv s" "uxMessagesWaiting s < uxLength s" "qsize s = 0"
  shows "\<exists>s'. prvCopyDataToQueue x pos s = Some s' \<and> queue_inv s' \<and> items s' = items s @ [[]] \<and> side s' = side s"
proof -
  let ?s = "(if is_mutex s then s\<lparr>disinherited := disinherited s @ [pxMutexHolder s], pxMutexHolder := None\<rparr> else s)\<lparr>uxMessagesWaiting := uxMessagesWaiting s + 1\<rparr>"
  have z: "uxItemSize s = 0" using assms(3) by (simp add: unat_eq_zero)
  have "prvCopyDataToQueue x pos s = Some ?s" by (simp add: prvCopyDataToQueue_def z)
  moreover have "queue_inv ?s" using assms by (auto simp: queue_inv_def read_slot_def count_Suc room_iff z)
  moreover have "items ?s = items s @ [[]]" using assms(2) by (simp add: items_def slot_at_def count_Suc z)
  ultimately show ?thesis by (auto simp: side_def)
qed

lemma advance_slot:
  fixes z :: "32 word"
  assumes "unat z \<noteq> 0" "i < n"
  shows "(if int (n * unat z) \<le> int (i * unat z) + uint z then 0 else int (i * unat z) + uint z) = int (Suc i mod n * unat z)"
proof -
  have e: "int (i * unat z) + uint z = int (Suc i * unat z)" by simp
  have "int (n * unat z) \<le> int (Suc i * unat z) \<longleftrightarrow> Suc i = n"
    unfolding of_nat_le_iff using assms mult_le_cancel2 [of n "unat z" "Suc i"] by auto
  then show ?thesis unfolding e using assms(2) by (auto simp: mod_Suc simp del: of_nat_mult)
qed

lemma copy_to_back:
  assumes "queue_inv s" "uxMessagesWaiting s < uxLength s" "length x = qsize s"
  shows "\<exists>s'. prvCopyDataToQueue x queueSEND_TO_BACK s = Some s' \<and> queue_inv s' \<and> items s' = items s @ [x] \<and> side s' = side s"
proof (cases "qsize s = 0")
  case True
  then show ?thesis using copy_semaphore [OF assms(1,2)] assms(3) by simp
next
  case False
  define W where "W = (read_slot s + 1 + qcount s) mod qlen s"
  have i: "0 < qlen s" "qlen s * qsize s \<le> length (storage s)" "pcTail s = int (qlen s * qsize s)" "pcReadFrom s = int (read_slot s * qsize s)"
    "read_slot s < qlen s" "pcWriteTo s = int (W * qsize s)" "\<not> is_mutex s" using assms(1) False by (auto simp: queue_inv_def W_def)
  have c: "qcount s < qlen s" using assms(2) by (simp add: room_iff)
  have w: "W < qlen s" using i(1) by (simp add: W_def)
  have b: "W * qsize s + qsize s \<le> length (storage s)" using w i(2) by (rule slot_bound)
  let ?st = "take (W * qsize s) (storage s) @ x @ drop (W * qsize s + qsize s) (storage s)"
  let ?w = "int (Suc W mod qlen s * qsize s)"
  define s' where "s' = s\<lparr>storage := ?st, pcWriteTo := ?w, uxMessagesWaiting := uxMessagesWaiting s + 1\<rparr>"
  have "(if pcTail s \<le> pcWriteTo s + uint (uxItemSize s) then 0 else pcWriteTo s + uint (uxItemSize s)) = ?w"
    using False w unfolding i(3,6) by (rule advance_slot)
  moreover have "mem_write (pcWriteTo s) x (qsize s) (storage s) = Some ?st" using b assms(3) by (simp add: mem_write_def i(6) nat_mult_distrib)
  moreover have "uxItemSize s \<noteq> 0" using False by (simp add: unat_eq_zero)
  ultimately have r: "prvCopyDataToQueue x queueSEND_TO_BACK s = Some s'" by (simp add: prvCopyDataToQueue_def Let_def s'_def)
  have R: "read_slot s' = read_slot s" by (simp add: read_slot_def s'_def)
  have l: "length ?st = length (storage s)" using b assms(3) by simp
  have "Suc W mod qlen s = (read_slot s + 1 + Suc (qcount s)) mod qlen s" by (simp add: W_def mod_Suc_eq)
  then have "queue_inv s'" using i c l count_Suc [OF assms(2)] R by (simp add: queue_inv_def s'_def)
  moreover have "items s' = items s @ [x]"
  proof -
    have "slot_at (qsize s) ?st ((read_slot s + 1 + k) mod qlen s) = slot_at (qsize s) (storage s) ((read_slot s + 1 + k) mod qlen s)" if "k < qcount s" for k
      using that c ring_neq [of k "qcount s" "qlen s" "read_slot s + 1"] by (intro slot_other [OF _ b assms(3)]) (simp add: W_def)
    moreover have "slot_at (qsize s) ?st W = x" using b assms(3) by (rule slot_same)
    ultimately show ?thesis using count_Suc [OF assms(2)] R by (simp add: items_def s'_def W_def)
  qed
  ultimately show ?thesis using r by (auto simp: side_def s'_def)
qed

lemma retreat_slot:
  fixes z :: "32 word"
  assumes "unat z \<noteq> 0" "i < n"
  shows "(if int (i * unat z) - uint z < 0 then int (n * unat z) - uint z else int (i * unat z) - uint z) = int ((i + n - 1) mod n * unat z)"
proof (cases i)
  case 0
  have "int (n * unat z) - uint z = int ((n - 1) * unat z)" using assms(2) by (cases n) (simp_all add: algebra_simps)
  moreover have "0 < int (unat z)" using assms(1) by linarith
  ultimately show ?thesis using 0 assms(2) by simp
next
  case (Suc k)
  have e: "int (i * unat z) - uint z = int (k * unat z)" by (simp add: Suc algebra_simps)
  have "(i + n - 1) mod n = k" using Suc assms(2) by simp
  then show ?thesis unfolding e by (simp del: of_nat_mult)
qed

lemma copy_to_front:
  assumes "queue_inv s" "uxMessagesWaiting s < uxLength s" "length x = qsize s"
  shows "\<exists>s'. prvCopyDataToQueue x queueSEND_TO_FRONT s = Some s' \<and> queue_inv s' \<and> items s' = x # items s \<and> side s' = side s"
proof (cases "qsize s = 0")
  case True
  have "items s @ [[]] = [] # items s" using True by (simp add: items_def slot_at_def map_replicate_const replicate_append_same)
  then show ?thesis using copy_semaphore [OF assms(1,2) True] assms(3) True by auto
next
  case False
  define R where "R = read_slot s"
  define Q where "Q = (R + qlen s - 1) mod qlen s"
  have i: "0 < qlen s" "qlen s * qsize s \<le> length (storage s)" "pcTail s = int (qlen s * qsize s)" "pcReadFrom s = int (R * qsize s)"
    "R < qlen s" "pcWriteTo s = int ((R + 1 + qcount s) mod qlen s * qsize s)" "\<not> is_mutex s" using assms(1) False by (auto simp: queue_inv_def R_def)
  have c: "qcount s < qlen s" using assms(2) by (simp add: room_iff)
  have b: "R * qsize s + qsize s \<le> length (storage s)" using i(5,2) by (rule slot_bound)
  let ?st = "take (R * qsize s) (storage s) @ x @ drop (R * qsize s + qsize s) (storage s)"
  define s' where "s' = s\<lparr>storage := ?st, pcReadFrom := int (Q * qsize s), uxMessagesWaiting := uxMessagesWaiting s + 1\<rparr>"
  have "(if pcReadFrom s - uint (uxItemSize s) < 0 then pcTail s - uint (uxItemSize s) else pcReadFrom s - uint (uxItemSize s)) = int (Q * qsize s)"
    using False i(5) unfolding i(3,4) Q_def by (rule retreat_slot)
  moreover have "mem_write (pcReadFrom s) x (qsize s) (storage s) = Some ?st" using b assms(3) by (simp add: mem_write_def i(4) nat_mult_distrib)
  moreover have "uxItemSize s \<noteq> 0" using False by (simp add: unat_eq_zero)
  ultimately have r: "prvCopyDataToQueue x queueSEND_TO_FRONT s = Some s'" by (simp add: prvCopyDataToQueue_def Let_def s'_def)
  have R': "read_slot s' = Q" using False by (simp add: read_slot_def s'_def nat_mult_distrib)
  have q: "(Q + 1 + k) mod qlen s = (R + k) mod qlen s" for k
  proof -
    have "(Q + 1 + k) mod qlen s = (R + qlen s - 1 + (1 + k)) mod qlen s" unfolding Q_def add.assoc mod_add_left_eq ..
    also have "R + qlen s - 1 + (1 + k) = R + k + qlen s" using i(1) by simp
    finally show ?thesis by simp
  qed
  have l: "length ?st = length (storage s)" using b assms(3) by simp
  have "Q < qlen s" using i(1) by (simp add: Q_def)
  then have "queue_inv s'" using i c l count_Suc [OF assms(2)] R' q [of "Suc (qcount s)"] by (simp add: queue_inv_def s'_def)
  moreover have "items s' = x # items s"
  proof -
    have "slot_at (qsize s) ?st ((R + Suc k) mod qlen s) = slot_at (qsize s) (storage s) ((R + 1 + k) mod qlen s)" if "k < qcount s" for k
      using that c i(5) ring_neq [of "Suc k" 0 "qlen s" R] slot_other [OF _ b assms(3), of "(R + Suc k) mod qlen s"] by simp
    moreover have "slot_at (qsize s) ?st R = x" using b assms(3) by (rule slot_same)
    moreover have "items s' = map (\<lambda>k. slot_at (qsize s) ?st ((R + k) mod qlen s)) [0..<Suc (qcount s)]"
      unfolding items_def R' using count_Suc [OF assms(2)] q by (simp add: s'_def del: upt_Suc)
    ultimately show ?thesis using i(5) by (simp add: map_upt_Suc items_def R_def del: upt_Suc)
  qed
  ultimately show ?thesis using r by (auto simp: side_def s'_def)
qed

text \<open>The state after the first item has been copied out and counted off.\<close>

abbreviation one_less :: "qsys \<Rightarrow> qsys" where
  "one_less s \<equiv> s\<lparr>uxMessagesWaiting := uxMessagesWaiting s - 1\<rparr>"

lemma one_less_empty:
  assumes "queue_inv s" "0 < uxMessagesWaiting s" "qsize s = 0"
  shows "hd (items s) = []" "queue_inv (one_less s)" "items (one_less s) = tl (items s)"
proof -
  have m: "qcount s = Suc (qcount (one_less s))" using count_pred [OF assms(2)] assms(2) by (simp add: word_less_nat_alt)
  have it: "items t = replicate (qcount t) []" if "qsize t = 0" for t using that by (simp add: items_def slot_at_def map_replicate_const)
  show "hd (items s) = []" "items (one_less s) = tl (items s)" unfolding it [OF assms(3)] m using it [of "one_less s"] assms(3) by simp_all
  show "queue_inv (one_less s)" using assms(1,3) m by (simp add: queue_inv_def read_slot_def)
qed

lemma copy_from_slot:
  assumes "queue_inv s" "0 < uxMessagesWaiting s" "qsize s \<noteq> 0"
  shows "\<exists>s'. prvCopyDataFromQueue s = Some (hd (items s), s') \<and> side s' = side s \<and> uxMessagesWaiting s' = uxMessagesWaiting s \<and>
    queue_inv (one_less s') \<and> items (one_less s') = tl (items s) \<and> s'\<lparr>pcReadFrom := pcReadFrom s\<rparr> = s"
proof -
  obtain M where M: "qcount s = Suc M" "unat (uxMessagesWaiting s - 1) = M"
    using count_pred [OF assms(2)] assms(2) by (cases "qcount s") (simp_all add: word_less_nat_alt)
  define R Q where "R = read_slot s" and Q: "Q = Suc R mod qlen s"
  have i: "0 < qlen s" "Suc M \<le> qlen s" "qlen s * qsize s \<le> length (storage s)" "pcTail s = int (qlen s * qsize s)"
    "pcReadFrom s = int (R * qsize s)" "R < qlen s" "pcWriteTo s = int ((R + 1 + Suc M) mod qlen s * qsize s)" "\<not> is_mutex s"
    using assms(1,3) M by (auto simp: queue_inv_def R_def)
  have it: "items s = map (\<lambda>k. slot_at (qsize s) (storage s) ((R + 1 + k) mod qlen s)) [0..<Suc M]" by (simp add: items_def M R_def)
  have a: "(if pcTail s \<le> pcReadFrom s + uint (uxItemSize s) then 0 else pcReadFrom s + uint (uxItemSize s)) = int (Q * qsize s)"
    using assms(3) i(6) unfolding i(4,5) Q by (rule advance_slot)
  define s' where "s' = s\<lparr>pcReadFrom := int (Q * qsize s)\<rparr>"
  have q: "Q < qlen s" using i(1) by (simp add: Q)
  have b: "Q * qsize s + qsize s \<le> length (storage s)" using q i(3) by (rule slot_bound)
  have h: "hd (items s) = slot_at (qsize s) (storage s) Q" unfolding it by (simp add: Q upt_conv_Cons del: upt_Suc)
  have "prvCopyDataFromQueue s = Some (hd (items s), s')"
    using i(8) b a by (simp add: prvCopyDataFromQueue_def Let_def mem_read_def h slot_at_def s'_def nat_mult_distrib)
  moreover have e: "(Q + 1 + k) mod qlen s = (R + 1 + Suc k) mod qlen s" for k
    unfolding Q add.assoc mod_add_left_eq by simp
  moreover have R': "read_slot (one_less s') = Q" using assms(3) by (simp add: read_slot_def s'_def nat_mult_distrib)
  have "queue_inv (one_less s')" using i q R' e [of M] M(2) by (simp add: queue_inv_def s'_def)
  moreover have "tl (items s) = map (\<lambda>k. slot_at (qsize s) (storage s) ((R + 1 + Suc k) mod qlen s)) [0..<M]"
    unfolding it by (simp add: map_upt_Suc del: upt_Suc)
  then have "items (one_less s') = tl (items s)" unfolding items_def R' using e M(2) by (simp add: s'_def)
  ultimately show ?thesis by (simp add: side_def s'_def)
qed

lemma copy_from:
  assumes "queue_inv s" "0 < uxMessagesWaiting s"
  shows "\<exists>s'. prvCopyDataFromQueue s = Some (hd (items s), s') \<and> side s' = side s \<and> uxMessagesWaiting s' = uxMessagesWaiting s \<and>
    queue_inv (one_less s') \<and> items (one_less s') = tl (items s) \<and> s'\<lparr>pcReadFrom := pcReadFrom s\<rparr> = s"
proof (cases "qsize s = 0")
  case False
  then show ?thesis by (rule copy_from_slot [OF assms])
next
  case True
  then have "uxItemSize s = 0" "pcReadFrom s = 0" "pcTail s = 0" using assms(1) by (simp_all add: queue_inv_def unat_eq_zero)
  then have "prvCopyDataFromQueue s = Some ([], s)"
    by (cases "is_mutex s") (simp_all add: prvCopyDataFromQueue_def Let_def mem_read_def)
  then show ?thesis using one_less_empty [OF assms True] by simp
qed

section \<open>The operations on the items\<close>

fun enq :: "position \<Rightarrow> 'a \<Rightarrow> 'a list \<Rightarrow> 'a list" where
  "enq queueSEND_TO_BACK x xs = xs @ [x]"
| "enq queueSEND_TO_FRONT x xs = x # xs"

lemma copy_to:
  assumes "queue_inv s" "uxMessagesWaiting s < uxLength s" "length x = qsize s"
  shows "\<exists>s'. prvCopyDataToQueue x pos s = Some s' \<and> queue_inv s' \<and> items s' = enq pos x (items s) \<and> side s' = side s"
  using copy_to_back [OF assms] copy_to_front [OF assms] by (cases pos) simp_all

text \<open>Changes of the event lists, the locks and the scheduler do not concern the items.\<close>

definition core :: "qsys \<Rightarrow> bool \<times> 8 word list \<times> int \<times> int \<times> int \<times> 32 word \<times> 32 word \<times> 32 word" where
  "core s = (is_mutex s, storage s, pcTail s, pcWriteTo s, pcReadFrom s, uxMessagesWaiting s, uxLength s, uxItemSize s)"

lemma core_cong:
  assumes "core s' = core s"
  shows "queue_inv s' = queue_inv s" "items s' = items s" "uxMessagesWaiting s' = uxMessagesWaiting s" "uxLength s' = uxLength s"
    "uxItemSize s' = uxItemSize s" "is_mutex s' = is_mutex s"
  using assms by (auto simp: core_def queue_inv_def items_def read_slot_def)

lemma core_wake [simp]:
  "core (snd (wake_receiver s)) = core s" "core (snd (wake_sender s)) = core s" "core (yield_if r) = core (snd r)" "core (missed_if r) = core (snd r)"
  by (auto simp: core_def wake_receiver_def wake_sender_def yield_if_def missed_if_def split: list.splits)

lemma core_update [simp]:
  "core (s\<lparr>xTxLock := n\<rparr>) = core s" "core (s\<lparr>xRxLock := n\<rparr>) = core s" "core (s\<lparr>pxMutexHolder := m\<rparr>) = core s"
  by (simp_all add: core_def)

lemma core_unlock [simp]: "core (unlock_tx s) = core s" "core (unlock_rx s) = core s"
proof -
  show "core (unlock_tx s) = core s"
    by (induction s rule: unlock_tx.induct) (subst unlock_tx.simps, simp add: Let_def)
  show "core (unlock_rx s) = core s"
    by (induction s rule: unlock_rx.induct) (subst unlock_rx.simps, simp add: Let_def)
qed

lemma send_isr:
  assumes "queue_inv s" "length x = qsize s"
  shows "\<exists>hp s'. xQueueGenericSendFromISR x pos s = Some ((qcount s < qlen s, hp), s') \<and> queue_inv s' \<and>
    items s' = (if qcount s < qlen s then enq pos x (items s) else items s) \<and> uxLength s' = uxLength s \<and> uxItemSize s' = uxItemSize s"
proof (cases "uxMessagesWaiting s < uxLength s")
  case True
  from copy_to [OF assms(1) True assms(2)] obtain s1 where s1: "prvCopyDataToQueue x pos s = Some s1" "queue_inv s1" "items s1 = enq pos x (items s)" "side s1 = side s"
    by blast
  have w: "core (snd (wake_receiver s1)) = core s1" by simp
  show ?thesis using True s1 core_cong [OF w] core_cong [of "s1\<lparr>xTxLock := xTxLock s1 + 1\<rparr>" s1]
    by (auto simp: xQueueGenericSendFromISR_def room_iff side_def split: prod.splits)
next
  case False
  then show ?thesis using assms(1) by (auto simp: xQueueGenericSendFromISR_def room_iff)
qed

lemma send_task:
  assumes "queue_inv s" "length x = qsize s"
  shows "\<exists>s'. xQueueGenericSend x 0 pos rs s = Returned (qcount s < qlen s) s' \<and> queue_inv s' \<and>
    items s' = (if qcount s < qlen s then enq pos x (items s) else items s) \<and> uxLength s' = uxLength s \<and> uxItemSize s' = uxItemSize s"
proof (cases "uxMessagesWaiting s < uxLength s")
  case True
  from copy_to [OF assms(1) True assms(2)] obtain s1 where s1: "prvCopyDataToQueue x pos s = Some s1" "queue_inv s1" "items s1 = enq pos x (items s)" "side s1 = side s"
    by blast
  have "core (yield_if (wake_receiver s1)) = core s1" by simp
  from core_cong [OF this] show ?thesis using True s1
    by (subst xQueueGenericSend.simps) (auto simp: send_section_def room_iff side_def)
next
  case False
  then show ?thesis using assms(1) by (subst xQueueGenericSend.simps) (auto simp: room_iff)
qed

definition head :: "'a list \<Rightarrow> 'a option" where
  "head xs = (case xs of [] \<Rightarrow> None | x # _ \<Rightarrow> Some x)"

lemma items_cases: "if 0 < uxMessagesWaiting s then head (items s) = Some (hd (items s)) else items s = []"
proof (cases "0 < uxMessagesWaiting s")
  case True
  then have "items s \<noteq> []" using length_items [of s] by (simp add: word_less_nat_alt flip: length_greater_0_conv)
  then show ?thesis using True by (cases "items s") (simp_all add: head_def)
next
  case False
  then have "length (items s) = 0" by (simp add: word_less_nat_alt)
  then have "items s = []" by (simp only: length_0_conv)
  then show ?thesis using False by simp
qed

lemma receive_isr:
  assumes "queue_inv s"
  shows "\<exists>hp s'. xQueueReceiveFromISR s = Some (head (items s), hp, s') \<and> queue_inv s' \<and> items s' = tl (items s) \<and>
    uxLength s' = uxLength s \<and> uxItemSize s' = uxItemSize s"
proof (cases "0 < uxMessagesWaiting s")
  case True
  from copy_from [OF assms True] obtain s1 where s1: "prvCopyDataFromQueue s = Some (hd (items s), s1)" "side s1 = side s"
    "uxMessagesWaiting s1 = uxMessagesWaiting s" "queue_inv (one_less s1)"
    "items (one_less s1) = tl (items s)" by blast
  let ?s = "one_less s1"
  obtain hp s2 where w: "wake_sender ?s = (hp, s2)" by (cases "wake_sender ?s")
  then have c: "core s2 = core ?s" "core (?s\<lparr>xRxLock := xRxLock s1 + 1\<rparr>) = core ?s" using core_wake(2) [of ?s] by simp_all
  have "xQueueReceiveFromISR s = Some (head (items s), if xRxLock s1 = queueUNLOCKED then (hp, s2) else (False, ?s\<lparr>xRxLock := xRxLock s1 + 1\<rparr>))"
    using True s1(1,3) items_cases [of s] w by (simp add: xQueueReceiveFromISR_def Let_def)
  then show ?thesis using s1(2,4,5) core_cong [OF c(1)] core_cong [OF c(2)] by (auto simp: side_def split: if_splits)
next
  case False
  then show ?thesis using assms items_cases [of s] by (auto simp: xQueueReceiveFromISR_def head_def)
qed

lemma receive_task:
  assumes "queue_inv s"
  shows "\<exists>s'. xQueueGenericReceive 0 peek rs s = Returned (head (items s)) s' \<and> queue_inv s' \<and> items s' = (if peek then items s else tl (items s)) \<and>
    uxLength s' = uxLength s \<and> uxItemSize s' = uxItemSize s"
proof (cases "0 < uxMessagesWaiting s")
  case True
  from copy_from [OF assms True] obtain s1 where s1: "prvCopyDataFromQueue s = Some (hd (items s), s1)" "side s1 = side s"
    "uxMessagesWaiting s1 = uxMessagesWaiting s" "queue_inv (one_less s1)"
    "items (one_less s1) = tl (items s)" "s1\<lparr>pcReadFrom := pcReadFrom s\<rparr> = s" by blast
  let ?s = "one_less s1"
  let ?m = "if is_mutex s1 then ?s\<lparr>pxMutexHolder := Some (fst (current s1))\<rparr> else ?s"
  have w: "core (yield_if (wake_sender ?m)) = core ?s" "core (yield_if (wake_receiver s)) = core s" by simp_all
  have "xQueueGenericReceive 0 peek rs s = Returned (head (items s)) (if peek then yield_if (wake_receiver s) else yield_if (wake_sender ?m))"
    using True s1(1,3,6) items_cases [of s] by (subst xQueueGenericReceive.simps) (simp add: receive_section_def Let_def)
  then show ?thesis using assms s1(2,4,5) core_cong [OF w(1)] core_cong [OF w(2)] by (simp add: side_def)
next
  case False
  then show ?thesis using assms items_cases [of s] by (subst xQueueGenericReceive.simps) (auto simp: head_def)
qed

section \<open>The queue implements a bounded sequence\<close>

text \<open>What callers do, from a task without waiting or from an interrupt, and what they get.\<close>

datatype qop = Send bool position "8 word list" | Receive bool | Peek

datatype qres = Sent bool | Got "8 word list option"

definition returned :: "('a \<Rightarrow> qres) \<Rightarrow> 'a outcome \<Rightarrow> (qres \<times> qsys) option" where
  "returned f r = (case r of Returned v s \<Rightarrow> Some (f v, s) | _ \<Rightarrow> None)"

fun queue_step :: "qop \<Rightarrow> qsys \<Rightarrow> (qres \<times> qsys) option" where
  "queue_step (Send isr pos x) s =
     (if isr then map_option (\<lambda>(r, s'). (Sent (fst r), s')) (xQueueGenericSendFromISR x pos s)
      else returned Sent (xQueueGenericSend x 0 pos [] s))"
| "queue_step (Receive isr) s =
     (if isr then map_option (\<lambda>(x, hp, s'). (Got x, s')) (xQueueReceiveFromISR s)
      else returned Got (xQueueGenericReceive 0 False [] s))"
| "queue_step Peek s = returned Got (xQueueGenericReceive 0 True [] s)"

fun seq_step :: "nat \<Rightarrow> qop \<Rightarrow> 8 word list list \<Rightarrow> qres \<times> 8 word list list" where
  "seq_step cap (Send isr pos x) xs = (if length xs < cap then (Sent True, enq pos x xs) else (Sent False, xs))"
| "seq_step cap (Receive isr) xs = (Got (head xs), tl xs)"
| "seq_step cap Peek xs = (Got (head xs), xs)"

fun sized :: "nat \<Rightarrow> qop \<Rightarrow> bool" where
  "sized n (Send isr pos x) \<longleftrightarrow> length x = n"
| "sized n _ \<longleftrightarrow> True"

fun steps :: "('op \<Rightarrow> 's \<Rightarrow> ('r \<times> 's) option) \<Rightarrow> 'op list \<Rightarrow> 's \<Rightarrow> ('r list \<times> 's) option" where
  "steps f [] s = Some ([], s)"
| "steps f (a # as) s = do { (r, s1) \<leftarrow> f a s; (rs, s2) \<leftarrow> steps f as s1; Some (r # rs, s2) }"

fun spec_steps :: "('op \<Rightarrow> 'a \<Rightarrow> 'r \<times> 'a) \<Rightarrow> 'op list \<Rightarrow> 'a \<Rightarrow> 'r list \<times> 'a" where
  "spec_steps f [] x = ([], x)"
| "spec_steps f (a # as) x = (case f a x of (r, x1) \<Rightarrow> case spec_steps f as x1 of (rs, x2) \<Rightarrow> (r # rs, x2))"

text \<open>An implementation whose every operation returns what the specification says.\<close>

locale implements =
  fixes step :: "'op \<Rightarrow> 's \<Rightarrow> ('r \<times> 's) option"
    and spec :: "'op \<Rightarrow> 'a \<Rightarrow> 'r \<times> 'a"
    and abs :: "'s \<Rightarrow> 'a"
    and inv :: "'s \<Rightarrow> bool"
    and legal :: "'op \<Rightarrow> bool"
  assumes step_ok: "\<lbrakk>inv s; legal a\<rbrakk> \<Longrightarrow> \<exists>s'. step a s = Some (fst (spec a (abs s)), s') \<and> abs s' = snd (spec a (abs s)) \<and> inv s'"
begin

lemma steps_ok:
  "\<lbrakk>inv s; list_all legal as\<rbrakk> \<Longrightarrow>
     \<exists>s'. steps step as s = Some (fst (spec_steps spec as (abs s)), s') \<and> abs s' = snd (spec_steps spec as (abs s)) \<and> inv s'"
proof (induction as arbitrary: s)
  case (Cons a as)
  then obtain s1 where s1: "step a s = Some (fst (spec a (abs s)), s1)" "abs s1 = snd (spec a (abs s))" "inv s1"
    using step_ok [of s a] by auto
  from Cons.IH [OF s1(3)] Cons.prems(2) obtain s2 where s2: "steps step as s1 = Some (fst (spec_steps spec as (abs s1)), s2)"
    "abs s2 = snd (spec_steps spec as (abs s1))" "inv s2" by auto
  then show ?case using s1 by (auto simp: split_beta)
qed simp

end

definition queue_of_size :: "nat \<Rightarrow> nat \<Rightarrow> qsys \<Rightarrow> bool" where
  "queue_of_size n z s \<longleftrightarrow> queue_inv s \<and> qlen s = n \<and> qsize s = z"

interpretation dq: implements queue_step "seq_step n" items "queue_of_size n z" "sized z" for n z
proof unfold_locales
  fix s a
  assume i: "queue_of_size n z s" and l: "sized z a"
  have q: "queue_inv s" "qlen s = n" "qsize s = z" using i by (simp_all add: queue_of_size_def)
  show "\<exists>s'. queue_step a s = Some (fst (seq_step n a (items s)), s') \<and> items s' = snd (seq_step n a (items s)) \<and> queue_of_size n z s'"
  proof (cases a)
    case (Send isr pos x)
    have x: "length x = qsize s" using l q(3) Send by simp
    obtain hp s1 where s1: "xQueueGenericSendFromISR x pos s = Some ((qcount s < qlen s, hp), s1)" "queue_inv s1"
      "items s1 = (if qcount s < qlen s then enq pos x (items s) else items s)" "uxLength s1 = uxLength s" "uxItemSize s1 = uxItemSize s"
      using send_isr [OF q(1) x] by blast
    obtain s2 where s2: "xQueueGenericSend x 0 pos [] s = Returned (qcount s < qlen s) s2" "queue_inv s2"
      "items s2 = (if qcount s < qlen s then enq pos x (items s) else items s)" "uxLength s2 = uxLength s" "uxItemSize s2 = uxItemSize s"
      using send_task [OF q(1) x] by blast
    have "queue_step a s = Some (Sent (qcount s < qlen s), if isr then s1 else s2)" using Send s1(1) s2(1) by (simp add: returned_def)
    then show ?thesis using Send s1(2-5) s2(2-5) q by (auto simp: queue_of_size_def)
  next
    case (Receive isr)
    then show ?thesis using receive_isr [OF q(1)] receive_task [OF q(1), of False "[]"] q by (auto simp: queue_of_size_def returned_def)
  next
    case Peek
    then show ?thesis using receive_task [OF q(1), of True "[]"] q by (auto simp: queue_of_size_def returned_def)
  qed
qed

text \<open>Items that are sent to the back come out in order.\<close>

definition accepted :: "qop list \<Rightarrow> qres list \<Rightarrow> 8 word list list" where
  "accepted ops rs = concat (map (\<lambda>(a, r). case (a, r) of (Send isr pos x, Sent True) \<Rightarrow> [x] | _ \<Rightarrow> []) (zip ops rs))"

definition delivered :: "qop list \<Rightarrow> qres list \<Rightarrow> 8 word list list" where
  "delivered ops rs = concat (map (\<lambda>(a, r). case (a, r) of (Receive isr, Got (Some x)) \<Rightarrow> [x] | _ \<Rightarrow> []) (zip ops rs))"

fun to_back :: "qop \<Rightarrow> bool" where
  "to_back (Send isr pos x) \<longleftrightarrow> pos = queueSEND_TO_BACK"
| "to_back _ \<longleftrightarrow> True"

lemma seq_fifo:
  "list_all to_back ops \<Longrightarrow> xs @ accepted ops (fst (spec_steps (seq_step n) ops xs)) =
     delivered ops (fst (spec_steps (seq_step n) ops xs)) @ snd (spec_steps (seq_step n) ops xs)"
proof (induction ops arbitrary: xs)
  case (Cons a ops)
  note IH = Cons.IH [OF Cons.prems [THEN list.pred_inject(2) [THEN iffD1], THEN conjunct2]]
  show ?case using Cons.prems IH [of "snd (seq_step n a xs)"]
    by (cases a; cases xs) (auto simp: accepted_def delivered_def head_def split_beta)
qed (simp add: accepted_def delivered_def)

lemma seq_bound: "length xs \<le> n \<Longrightarrow> length (snd (spec_steps (seq_step n) ops xs)) \<le> n"
proof (induction ops arbitrary: xs)
  case (Cons a ops)
  have "length (snd (seq_step n a xs)) \<le> n"
  proof (cases a)
    case (Send isr pos x)
    then show ?thesis using Cons.prems by (cases pos) auto
  qed (use Cons.prems in auto)
  then show ?case using Cons.IH by (simp add: split_beta)
qed simp

section \<open>Creation\<close>

lemma new_queue_ok:
  assumes "0 < n" "unat n * unat z + 24 < 2 ^ 32"
  shows "queue_of_size (unat n) (unat z) (new_queue junk n z s)" "items (new_queue junk n z s) = []"
    "length (storage (new_queue junk n z s)) = unat n * unat z + 1" "unat (n * z + 1) = unat n * unat z + 1"
proof -
  have n: "0 < unat n" using assms(1) by (simp add: word_less_nat_alt)
  have p: "unat (n * z) = unat n * unat z" using assms(2) by (simp add: unat_word_ariths)
  then show l: "unat (n * z + 1) = unat n * unat z + 1" using assms(2) by (simp add: unat_word_ariths)
  then show "length (storage (new_queue junk n z s)) = unat n * unat z + 1" by (simp add: new_queue_def)
  show "items (new_queue junk n z s) = []" by (simp add: items_def new_queue_def)
  have "unat (n - 1) = unat n - 1" using n by (metis One_nat_def Suc_leI unat_1 unat_sub word_le_nat_alt)
  moreover have "(unat n - 1) * unat z \<le> unat n * unat z" by simp
  then have "(unat n - 1) * unat z < 2 ^ 32" using assms(2) by linarith
  ultimately have r: "unat ((n - 1) * z) = (unat n - 1) * unat z" using unat_mult_lem [of "n - 1" z] by simp
  have R: "pcReadFrom (new_queue junk n z s) = int ((unat n - 1) * unat z)" unfolding r [symmetric] by (simp add: new_queue_def)
  have T: "pcTail (new_queue junk n z s) = int (unat n * unat z)" unfolding p [symmetric] by (simp add: new_queue_def)
  have f: "uxLength (new_queue junk n z s) = n" "uxItemSize (new_queue junk n z s) = z" "uxMessagesWaiting (new_queue junk n z s) = 0"
    "pcWriteTo (new_queue junk n z s) = 0" "\<not> is_mutex (new_queue junk n z s)" by (simp_all add: new_queue_def)
  have S: "read_slot (new_queue junk n z s) = (if unat z = 0 then 0 else unat n - 1)"
    using nat_int [of "(unat n - 1) * unat z"] by (simp add: read_slot_def R f(2) del: nat_int)
  show "queue_of_size (unat n) (unat z) (new_queue junk n z s)"
    unfolding queue_of_size_def queue_inv_def f S T R using n l by (cases "unat z = 0") (simp_all add: new_queue_def)
qed

lemma live_malloc:
  assumes "heap_reach h live" "unat n + 23 < 2 ^ 32"
  obtains (none) h' where "pvPortMalloc n h = Some (None, h')" "heap_reach h' live"
  | (block) p h' where "pvPortMalloc n h = Some (Some p, h')" "heap_reach h' ((p, unat n) # live)"
  using heap_live_malloc [OF heap_reach_live [OF assms(1)] assms(2)] heap_reach.malloc [OF assms] heap_reach.failed [OF assms] by metis

lemma live_free:
  assumes "heap_reach h (live @ (p, n) # live')"
  obtains h' where "vPortFree (Some p) h = Some h'" "heap_reach h' (live @ live')"
  using heap_live_free [OF heap_reach_live [OF assms]] heap_reach.free [OF assms] by metis

lemma create_ok:
  assumes "heap_reach h live" "0 < n" "unat n * unat z + 24 < 2 ^ 32"
  obtains (none) h' where "xQueueCreate junk n z h s = Some (None, h')" "heap_reach h' live"
  | (queue) p b h' where "xQueueCreate junk n z h s = Some (Some (p, b, new_queue junk n z s), h')"
      "heap_reach h' ((b, unat n * unat z + 1) # (p, 76) # live)"
proof -
  have z: "unat sizeof_xQUEUE = 76" by (simp add: sizeof_xQUEUE_def)
  note l = new_queue_ok(4) [OF assms(2,3)]
  have "unat sizeof_xQUEUE + 23 < 2 ^ 32" by (simp add: z)
  with assms(1) show ?thesis
  proof (cases rule: live_malloc)
    case (none h')
    then show ?thesis using that(1) assms(2) by (simp add: xQueueCreate_def)
  next
    case (block p h1)
    have "unat (n * z + 1) + 23 < 2 ^ 32" using assms(3) unfolding l by simp
    with block(2) show ?thesis
    proof (cases rule: live_malloc)
      case none: (none h2)
      from live_free [of h2 "[]" p 76 live] none(2) z obtain h3 where "vPortFree (Some p) h2 = Some h3" "heap_reach h3 live" by auto
      then show ?thesis using that(1) assms(2) block(1) none(1) by (simp add: xQueueCreate_def)
    next
      case blk: (block b h2)
      then show ?thesis using that(2) assms(2) block(1) z by (simp add: xQueueCreate_def l)
    qed
  qed
qed

section \<open>The lock\<close>

text \<open>
  \<open>deferred k m s a b\<close>: after the same operations, the locked queue \<open>a\<close> has the items of the unlocked queue \<open>b\<close>; its locks count the
  \<open>k\<close> items sent and the \<open>m\<close> items received; the tasks that wait in \<open>a\<close> waited in \<open>s\<close>, and in \<open>b\<close> the first \<open>k\<close> and \<open>m\<close> of
  them have been woken.
\<close>

definition deferred :: "nat \<Rightarrow> nat \<Rightarrow> qsys \<Rightarrow> qsys \<Rightarrow> qsys \<Rightarrow> bool" where
  "deferred k m s a b \<longleftrightarrow> core a = core b \<and> xTxLock a = int k \<and> xRxLock a = int m \<and> xTxLock b = queueUNLOCKED \<and> xRxLock b = queueUNLOCKED \<and>
     xTasksWaitingToReceive a = xTasksWaitingToReceive s \<and> xTasksWaitingToSend a = xTasksWaitingToSend s \<and> woken a = woken s \<and>
     xTasksWaitingToReceive b = drop k (xTasksWaitingToReceive s) \<and> xTasksWaitingToSend b = drop m (xTasksWaitingToSend s) \<and>
     mset (woken b) = mset (woken s) + mset (map fst (take k (xTasksWaitingToReceive s))) + mset (map fst (take m (xTasksWaitingToSend s)))"

lemma unlock_tx_value:
  "xTxLock s = int k \<Longrightarrow> xTasksWaitingToReceive (unlock_tx s) = drop k (xTasksWaitingToReceive s) \<and>
     woken (unlock_tx s) = woken s @ map fst (take k (xTasksWaitingToReceive s)) \<and>
     xTasksWaitingToSend (unlock_tx s) = xTasksWaitingToSend s \<and> xRxLock (unlock_tx s) = xRxLock s"
proof (induction k arbitrary: s)
  case 0
  then show ?case by (subst (1 2 3 4) unlock_tx.simps) simp
next
  case (Suc k)
  show ?case
  proof (cases "xTasksWaitingToReceive s")
    case Nil
    then have "unlock_tx s = s" by (subst unlock_tx.simps) simp
    then show ?thesis using Nil by simp
  next
    case (Cons t ev)
    let ?s1 = "missed_if (wake_receiver s)"
    have "unlock_tx s = unlock_tx (?s1\<lparr>xTxLock := int k\<rparr>)" using Cons Suc.prems by (subst unlock_tx.simps) (simp add: Let_def)
    moreover have "xTasksWaitingToReceive ?s1 = ev" "woken ?s1 = woken s @ [fst t]" "xTasksWaitingToSend ?s1 = xTasksWaitingToSend s" "xRxLock ?s1 = xRxLock s"
      using Cons by (auto simp: missed_if_def wake_receiver_def)
    ultimately show ?thesis using Suc.IH [of "?s1\<lparr>xTxLock := int k\<rparr>"] Cons by simp
  qed
qed

lemma unlock_rx_value:
  "xRxLock s = int k \<Longrightarrow> xTasksWaitingToSend (unlock_rx s) = drop k (xTasksWaitingToSend s) \<and>
     woken (unlock_rx s) = woken s @ map fst (take k (xTasksWaitingToSend s)) \<and>
     xTasksWaitingToReceive (unlock_rx s) = xTasksWaitingToReceive s \<and> xTxLock (unlock_rx s) = xTxLock s"
proof (induction k arbitrary: s)
  case 0
  then show ?case by (subst (1 2 3 4) unlock_rx.simps) simp
next
  case (Suc k)
  show ?case
  proof (cases "xTasksWaitingToSend s")
    case Nil
    then have "unlock_rx s = s" by (subst unlock_rx.simps) simp
    then show ?thesis using Nil by simp
  next
    case (Cons t ev)
    let ?s1 = "missed_if (wake_sender s)"
    have "unlock_rx s = unlock_rx (?s1\<lparr>xRxLock := int k\<rparr>)" using Cons Suc.prems by (subst unlock_rx.simps) (simp add: Let_def)
    moreover have "xTasksWaitingToSend ?s1 = ev" "woken ?s1 = woken s @ [fst t]" "xTasksWaitingToReceive ?s1 = xTasksWaitingToReceive s" "xTxLock ?s1 = xTxLock s"
      using Cons by (auto simp: missed_if_def wake_sender_def)
    ultimately show ?thesis using Suc.IH [of "?s1\<lparr>xRxLock := int k\<rparr>"] Cons by simp
  qed
qed

lemma deferred_unlock:
  assumes "deferred k m s a b"
  shows "core (prvUnlockQueue a) = core b" "xTasksWaitingToReceive (prvUnlockQueue a) = xTasksWaitingToReceive b"
    "xTasksWaitingToSend (prvUnlockQueue a) = xTasksWaitingToSend b" "mset (woken (prvUnlockQueue a)) = mset (woken b)"
    "xTxLock (prvUnlockQueue a) = queueUNLOCKED" "xRxLock (prvUnlockQueue a) = queueUNLOCKED"
  using assms unlock_tx_value [of a k] unlock_rx_value [of "(unlock_tx a)\<lparr>xTxLock := queueUNLOCKED\<rparr>" m]
  by (simp_all add: deferred_def prvUnlockQueue_def unlock_queue_def Let_def)

lemma drop_Suc_cases:
  "drop k xs = t # ev \<Longrightarrow> drop (Suc k) xs = ev \<and> take (Suc k) xs = take k xs @ [t]"
  "drop k xs = [] \<Longrightarrow> drop (Suc k) xs = [] \<and> take (Suc k) xs = take k xs"
proof -
  assume d: "drop k xs = t # ev"
  then have "k < length xs" by (metis drop_all list.distinct(1) not_le)
  moreover have "xs ! k = t" using d by (metis calculation nth_via_drop)
  ultimately show "drop (Suc k) xs = ev \<and> take (Suc k) xs = take k xs @ [t]"
    using d by (metis drop_Suc list.sel(3) take_Suc_conv_app_nth tl_drop)
qed simp

lemma copy_cores:
  "\<lbrakk>core a = core b; prvCopyDataToQueue x pos a = Some a1; prvCopyDataToQueue x pos b = Some b1\<rbrakk> \<Longrightarrow> core a1 = core b1"
  "\<lbrakk>core a = core b; prvCopyDataFromQueue a = Some (y, a1); prvCopyDataFromQueue b = Some (y', b1)\<rbrakk> \<Longrightarrow> core a1 = core b1"
proof -
  show "core a1 = core b1" if "core a = core b" "prvCopyDataToQueue x pos a = Some a1" "prvCopyDataToQueue x pos b = Some b1"
    using that by (auto simp: core_def prvCopyDataToQueue_def Let_def split: if_splits elim!: bind_SomeE)
  show "core a1 = core b1" if "core a = core b" "prvCopyDataFromQueue a = Some (y, a1)" "prvCopyDataFromQueue b = Some (y', b1)"
    using that by (auto simp: core_def prvCopyDataFromQueue_def Let_def split: if_splits elim!: bind_SomeE)
qed

fun of_isr :: "qop \<Rightarrow> bool" where
  "of_isr (Send isr pos x) \<longleftrightarrow> isr"
| "of_isr (Receive isr) \<longleftrightarrow> isr"
| "of_isr Peek \<longleftrightarrow> False"

lemma deferred_send:
  assumes "deferred k m s a b" "queue_inv b" "length x = qsize b" "uxMessagesWaiting b < uxLength b"
  shows "\<exists>a' b'. queue_step (Send True pos x) a = Some (Sent True, a') \<and> queue_step (Send True pos x) b = Some (Sent True, b') \<and>
    deferred (Suc k) m s a' b'"
proof -
  have c: "core a = core b" using assms(1) by (simp add: deferred_def)
  note e = core_cong [OF c]
  have r: "uxMessagesWaiting a < uxLength a" "queue_inv a" "length x = qsize a" using assms(2-4) e by simp_all
  obtain a1 where a1: "prvCopyDataToQueue x pos a = Some a1" "side a1 = side a" using copy_to [OF r(2,1,3)] by blast
  obtain b1 where b1: "prvCopyDataToQueue x pos b = Some b1" "side b1 = side b" using copy_to [OF assms(2,4,3)] by blast
  have c1: "core a1 = core b1" using copy_cores(1) [OF c a1(1) b1(1)] .
  have w: "xTasksWaitingToReceive b1 = drop k (xTasksWaitingToReceive s)" using assms(1) b1(2) by (simp add: deferred_def side_def)
  obtain hp b2 where b2: "wake_receiver b1 = (hp, b2)" by (cases "wake_receiver b1")
  have "queue_step (Send True pos x) a = Some (Sent True, a1\<lparr>xTxLock := xTxLock a1 + 1\<rparr>)"
    using r(1) a1 assms(1) by (simp add: xQueueGenericSendFromISR_def deferred_def side_def)
  moreover have "queue_step (Send True pos x) b = Some (Sent True, b2)"
    using assms(1,4) b1 b2 by (simp add: xQueueGenericSendFromISR_def deferred_def side_def)
  moreover have "deferred (Suc k) m s (a1\<lparr>xTxLock := xTxLock a1 + 1\<rparr>) b2"
  proof (cases "drop k (xTasksWaitingToReceive s)")
    case Nil
    then have "b2 = b1" using w b2 by (simp add: wake_receiver_def)
    then show ?thesis using assms(1) a1(2) b1(2) c1 drop_Suc_cases(2) [OF Nil] Nil by (simp add: deferred_def side_def)
  next
    case (Cons t ev)
    then have "b2 = b1\<lparr>xTasksWaitingToReceive := ev, woken := woken b1 @ [fst t]\<rparr>" using w b2 by (simp add: wake_receiver_def)
    moreover have "core b2 = core b1" using core_wake(1) [of b1] b2 by simp
    ultimately show ?thesis using assms(1) a1(2) b1(2) c1 drop_Suc_cases(1) [OF Cons] by (simp add: deferred_def side_def)
  qed
  ultimately show ?thesis by blast
qed

lemma deferred_receive:
  assumes "deferred k m s a b" "queue_inv b" "0 < uxMessagesWaiting b"
  shows "\<exists>a' b'. queue_step (Receive True) a = Some (Got (head (items b)), a') \<and> queue_step (Receive True) b = Some (Got (head (items b)), b') \<and>
    deferred k (Suc m) s a' b'"
proof -
  have c: "core a = core b" using assms(1) by (simp add: deferred_def)
  note e = core_cong [OF c]
  have r: "0 < uxMessagesWaiting a" "queue_inv a" using assms(2,3) e by simp_all
  obtain a1 where a1: "prvCopyDataFromQueue a = Some (hd (items b), a1)" "side a1 = side a" using copy_from [OF r(2,1)] e by auto
  obtain b1 where b1: "prvCopyDataFromQueue b = Some (hd (items b), b1)" "side b1 = side b" using copy_from [OF assms(2,3)] by auto
  have c0: "core a1 = core b1" using copy_cores(2) [OF c a1(1) b1(1)] .
  let ?a = "a1\<lparr>uxMessagesWaiting := uxMessagesWaiting a1 - 1\<rparr>"
  let ?b = "b1\<lparr>uxMessagesWaiting := uxMessagesWaiting b1 - 1\<rparr>"
  have c1: "core ?a = core ?b" using c0 by (simp add: core_def)
  have h: "head (items b) = Some (hd (items b))" using items_cases [of b] assms(3) by simp
  have w: "xTasksWaitingToSend ?b = drop m (xTasksWaitingToSend s)" using assms(1) b1(2) by (simp add: deferred_def side_def)
  obtain hp b2 where b2: "wake_sender ?b = (hp, b2)" by (cases "wake_sender ?b")
  have "queue_step (Receive True) a = Some (Got (head (items b)), ?a\<lparr>xRxLock := xRxLock a1 + 1\<rparr>)"
    using r(1) a1 assms(1) h by (simp add: xQueueReceiveFromISR_def Let_def deferred_def side_def)
  moreover have "queue_step (Receive True) b = Some (Got (head (items b)), b2)"
    using assms(1,3) b1 b2 h by (simp add: xQueueReceiveFromISR_def Let_def deferred_def side_def)
  moreover have "deferred k (Suc m) s (?a\<lparr>xRxLock := xRxLock a1 + 1\<rparr>) b2"
  proof (cases "drop m (xTasksWaitingToSend s)")
    case Nil
    then have "b2 = ?b" using w b2 by (simp add: wake_sender_def)
    then show ?thesis using assms(1) a1(2) b1(2) c1 drop_Suc_cases(2) [OF Nil] Nil by (simp add: deferred_def side_def)
  next
    case (Cons t ev)
    then have "b2 = ?b\<lparr>xTasksWaitingToSend := ev, woken := woken b1 @ [fst t]\<rparr>" using w b2 by (simp add: wake_sender_def)
    moreover have "core b2 = core ?b" using core_wake(2) [of ?b] b2 by simp
    ultimately show ?thesis using assms(1) a1(2) b1(2) c1 drop_Suc_cases(1) [OF Cons] by (simp add: deferred_def side_def)
  qed
  ultimately show ?thesis by blast
qed

lemma deferred_step:
  assumes "deferred k m s a b" "queue_of_size n z b" "sized z op" "of_isr op"
  shows "\<exists>r a' b' k' m'. queue_step op a = Some (r, a') \<and> queue_step op b = Some (r, b') \<and> deferred k' m' s a' b' \<and> queue_of_size n z b'"
proof -
  have q: "queue_inv b" "qsize b = z" using assms(2) by (simp_all add: queue_of_size_def)
  have e: "core a = core b" using assms(1) by (simp add: deferred_def)
  note ec = core_cong [OF e]
  obtain b0 where b0: "queue_step op b = Some (fst (seq_step n op (items b)), b0)" "queue_of_size n z b0" using dq.step_ok [OF assms(2,3)] by blast
  show ?thesis
  proof (cases op)
    case (Send isr pos x)
    show ?thesis
    proof (cases "uxMessagesWaiting b < uxLength b")
      case True
      then show ?thesis using deferred_send [OF assms(1) q(1) _ True, of x pos] Send assms(3,4) q(2) b0 by fastforce
    next
      case False
      then show ?thesis using Send assms ec by (simp add: xQueueGenericSendFromISR_def) blast
    qed
  next
    case (Receive isr)
    show ?thesis
    proof (cases "0 < uxMessagesWaiting b")
      case True
      then show ?thesis using deferred_receive [OF assms(1) q(1) True] Receive assms(4) b0 by fastforce
    next
      case False
      then show ?thesis using Receive assms ec by (simp add: xQueueReceiveFromISR_def) blast
    qed
  qed (use assms(4) in simp)
qed

lemma deferred_steps:
  "\<lbrakk>deferred k m s a b; queue_of_size n z b; list_all (sized z) ops; list_all of_isr ops\<rbrakk> \<Longrightarrow>
     \<exists>rs a' b' k' m'. steps queue_step ops a = Some (rs, a') \<and> steps queue_step ops b = Some (rs, b') \<and> deferred k' m' s a' b'"
proof (induction ops arbitrary: k m a b)
  case (Cons op ops)
  then obtain r a1 b1 k1 m1 where s: "queue_step op a = Some (r, a1)" "queue_step op b = Some (r, b1)" "deferred k1 m1 s a1 b1" "queue_of_size n z b1"
    using deferred_step [of k m s a b n z op] by auto
  from Cons.IH [OF s(3,4)] Cons.prems(3,4) show ?case using s(1,2) by fastforce
qed auto

section \<open>Waiting\<close>

text \<open>
  A queue that is well formed, and that has a holder if it is a mutex that is taken; and an environment that keeps it so, as the operations of tasks do.
\<close>

definition kept :: "nat \<Rightarrow> nat \<Rightarrow> qsys \<Rightarrow> bool" where
  "kept n z s \<longleftrightarrow> queue_of_size n z s \<and> (is_mutex s \<and> uxMessagesWaiting s = 0 \<longrightarrow> pxMutexHolder s \<noteq> None)"

definition calm :: "nat \<Rightarrow> nat \<Rightarrow> round \<Rightarrow> bool" where
  "calm n z r \<longleftrightarrow> (\<forall>f\<in>{after_section r, while_locked r, after_look r, between_unlocks r, until_resumed r}. \<forall>s. kept n z s \<longrightarrow> kept n z (f s))"

lemma calmD:
  "\<lbrakk>calm n z r; kept n z s\<rbrakk> \<Longrightarrow> kept n z (after_section r s)" "\<lbrakk>calm n z r; kept n z s\<rbrakk> \<Longrightarrow> kept n z (while_locked r s)"
  "\<lbrakk>calm n z r; kept n z s\<rbrakk> \<Longrightarrow> kept n z (after_look r s)" "\<lbrakk>calm n z r; kept n z s\<rbrakk> \<Longrightarrow> kept n z (between_unlocks r s)"
  "\<lbrakk>calm n z r; kept n z s\<rbrakk> \<Longrightarrow> kept n z (until_resumed r s)"
  by (simp_all add: calm_def)

lemma kept_cong: "\<lbrakk>core s' = core s; pxMutexHolder s' = pxMutexHolder s\<rbrakk> \<Longrightarrow> kept n z s' = kept n z s"
  using core_cong [of s' s] by (simp add: kept_def queue_of_size_def)

lemma unlock_holder [simp]: "pxMutexHolder (unlock_tx s) = pxMutexHolder s" "pxMutexHolder (unlock_rx s) = pxMutexHolder s"
proof -
  have w: "pxMutexHolder (missed_if (wake_receiver s)) = pxMutexHolder s" "pxMutexHolder (missed_if (wake_sender s)) = pxMutexHolder s" for s
    by (auto simp: missed_if_def wake_receiver_def wake_sender_def split: list.splits)
  show "pxMutexHolder (unlock_tx s) = pxMutexHolder s"
    by (induction s rule: unlock_tx.induct) (subst unlock_tx.simps, simp add: Let_def w)
  show "pxMutexHolder (unlock_rx s) = pxMutexHolder s"
    by (induction s rule: unlock_rx.induct) (subst unlock_rx.simps, simp add: Let_def w)
qed

lemma kept_lock [simp]: "kept n z (prvLockQueue s) = kept n z s"
  by (rule kept_cong) (simp_all add: prvLockQueue_def Let_def)

lemma kept_unlock: "\<lbrakk>calm n z r; kept n z s\<rbrakk> \<Longrightarrow> kept n z (unlock_queue (between_unlocks r) s)"
proof -
  assume c: "calm n z r" and s: "kept n z s"
  have "kept n z ((unlock_tx s)\<lparr>xTxLock := queueUNLOCKED\<rparr>)" using s kept_cong [of "(unlock_tx s)\<lparr>xTxLock := queueUNLOCKED\<rparr>" s] by simp
  from calmD(4) [OF c this] show ?thesis
    using kept_cong [of "(unlock_rx t)\<lparr>xRxLock := queueUNLOCKED\<rparr>" t for t] by (simp add: unlock_queue_def Let_def)
qed

lemma kept_waiting [simp]:
  "kept n z (s\<lparr>xTasksWaitingToSend := ev\<rparr>) = kept n z s" "kept n z (s\<lparr>xTasksWaitingToReceive := ev\<rparr>) = kept n z s"
  "kept n z (s\<lparr>inherited := ms\<rparr>) = kept n z s"
  by (rule kept_cong, simp add: core_def, simp)+

text \<open>
  What happens from one look at the queue to the next while a call waits: the environment, and the task itself when it
  has to block. \<open>section_state turn rounds k s\<close> is the state in which the call looks at the queue for the \<open>k\<close>-th time.
\<close>

definition send_turn :: "round \<Rightarrow> qsys \<Rightarrow> qsys" where
  "send_turn r s =
     (let s1 = while_locked r (prvLockQueue (after_section r s));
          s2 = (if prvIsQueueFull s1 then s1\<lparr>xTasksWaitingToSend := place_waiting (current s1) (xTasksWaitingToSend s1)\<rparr> else s1)
      in until_resumed r (unlock_queue (between_unlocks r) (after_look r s2)))"

definition receive_turn :: "round \<Rightarrow> qsys \<Rightarrow> qsys" where
  "receive_turn r s =
     (let s1 = while_locked r (prvLockQueue (after_section r s));
          s2 = (if prvIsQueueEmpty s1 \<and> is_mutex s1 then s1\<lparr>inherited := inherited s1 @ [pxMutexHolder s1]\<rparr> else s1);
          s3 = (if prvIsQueueEmpty s1 then s2\<lparr>xTasksWaitingToReceive := place_waiting (current s2) (xTasksWaitingToReceive s2)\<rparr> else s2)
      in until_resumed r (unlock_queue (between_unlocks r) (after_look r s3)))"

definition section_state :: "(round \<Rightarrow> qsys \<Rightarrow> qsys) \<Rightarrow> round list \<Rightarrow> nat \<Rightarrow> qsys \<Rightarrow> qsys" where
  "section_state turn rounds k s = fold turn (take k rounds) s"

lemma section_state_simps [simp]:
  "section_state turn rounds 0 s = s" "section_state turn (r # rounds) (Suc k) s = section_state turn rounds k (turn r s)"
  by (simp_all add: section_state_def)

text \<open>Before its \<open>k\<close>-th look the call has found \<open>c\<close> items every time, the time had not expired, and it was willing to wait.\<close>

definition blocked :: "(round \<Rightarrow> qsys \<Rightarrow> qsys) \<Rightarrow> nat \<Rightarrow> nat \<Rightarrow> round list \<Rightarrow> nat \<Rightarrow> qsys \<Rightarrow> bool" where
  "blocked turn c ticks rounds k s \<longleftrightarrow> k \<le> length rounds \<and> (0 < k \<longrightarrow> 0 < ticks) \<and>
     (\<forall>i<k. length (items (section_state turn rounds i s)) = c \<and> \<not> expired (rounds ! i))"

lemma blocked_start [simp]: "blocked turn c ticks rounds 0 s"
  by (simp add: blocked_def)

lemma blocked_Suc:
  "\<lbrakk>blocked turn c ticks rounds k (turn r s); length (items s) = c; \<not> expired r; 0 < ticks\<rbrakk> \<Longrightarrow> blocked turn c ticks (r # rounds) (Suc k) s"
  by (auto simp: blocked_def less_Suc_eq_0_disj simp del: length_items)

definition gave_up :: "nat \<Rightarrow> round list \<Rightarrow> nat \<Rightarrow> bool" where
  "gave_up ticks rounds k \<longleftrightarrow> ticks = 0 \<or> k < length rounds \<and> expired (rounds ! k)"

lemma gave_up_Suc [simp]: "gave_up ticks (r # rounds) (Suc k) = gave_up ticks rounds k"
  by (simp add: gave_up_def)

definition sent_from :: "nat \<Rightarrow> nat \<Rightarrow> position \<Rightarrow> 8 word list \<Rightarrow> nat \<Rightarrow> round list \<Rightarrow> qsys \<Rightarrow> bool outcome \<Rightarrow> bool" where
  "sent_from n z pos x ticks rounds s r \<longleftrightarrow>
     (case r of
        Returned ok s' \<Rightarrow> queue_of_size n z s' \<and>
          (\<exists>k. blocked send_turn n ticks rounds k s \<and>
             (let xs = items (section_state send_turn rounds k s) in
              if ok then length xs < n \<and> items s' = enq pos x xs else length xs = n \<and> gave_up ticks rounds k))
      | Pending s' \<Rightarrow> blocked send_turn n ticks rounds (length rounds) s \<and> s' = section_state send_turn rounds (length rounds) s \<and>
          length (items s') = n \<and> 0 < ticks
      | Fault \<Rightarrow> False)"

definition received_from :: "nat \<Rightarrow> nat \<Rightarrow> bool \<Rightarrow> nat \<Rightarrow> round list \<Rightarrow> qsys \<Rightarrow> 8 word list option outcome \<Rightarrow> bool" where
  "received_from n z peek ticks rounds s r \<longleftrightarrow>
     (case r of
        Returned y s' \<Rightarrow> queue_of_size n z s' \<and>
          (\<exists>k. blocked receive_turn 0 ticks rounds k s \<and>
             (let xs = items (section_state receive_turn rounds k s) in
              case y of
                Some v \<Rightarrow> xs \<noteq> [] \<and> v = hd xs \<and> items s' = (if peek then xs else tl xs)
              | None \<Rightarrow> xs = [] \<and> gave_up ticks rounds k))
      | Pending s' \<Rightarrow> blocked receive_turn 0 ticks rounds (length rounds) s \<and>
          s' = section_state receive_turn rounds (length rounds) s \<and> items s' = [] \<and> 0 < ticks
      | Fault \<Rightarrow> False)"

lemma sent_from_Suc:
  assumes "sent_from n z pos x ticks rounds (send_turn r s) res" "length (items s) = n" "\<not> expired r" "0 < ticks"
  shows "sent_from n z pos x ticks (r # rounds) s res"
proof (cases res)
  case (Returned ok s')
  then obtain k where k: "queue_of_size n z s'" "blocked send_turn n ticks rounds k (send_turn r s)"
    "let xs = items (section_state send_turn rounds k (send_turn r s)) in
       if ok then length xs < n \<and> items s' = enq pos x xs else length xs = n \<and> gave_up ticks rounds k"
    using assms(1) by (auto simp: sent_from_def)
  then show ?thesis using Returned blocked_Suc [OF k(2) assms(2-4)]
    by (simp add: sent_from_def del: length_items) (intro exI [of _ "Suc k"], simp add: Let_def del: length_items)
next
  case (Pending s')
  then show ?thesis using assms blocked_Suc [OF _ assms(2-4)] by (auto simp: sent_from_def simp del: length_items)
qed (use assms in \<open>simp add: sent_from_def\<close>)

lemma received_from_Suc:
  assumes "received_from n z peek ticks rounds (receive_turn r s) res" "length (items s) = 0" "\<not> expired r" "0 < ticks"
  shows "received_from n z peek ticks (r # rounds) s res"
proof (cases res)
  case (Returned y s')
  then obtain k where k: "queue_of_size n z s'" "blocked receive_turn 0 ticks rounds k (receive_turn r s)"
    "let xs = items (section_state receive_turn rounds k (receive_turn r s)) in
       case y of Some v \<Rightarrow> xs \<noteq> [] \<and> v = hd xs \<and> items s' = (if peek then xs else tl xs) | None \<Rightarrow> xs = [] \<and> gave_up ticks rounds k"
    using assms(1) by (auto simp: received_from_def)
  then show ?thesis using Returned blocked_Suc [OF k(2) assms(2-4)]
    by (simp add: received_from_def del: length_items)
      (intro exI [of _ "Suc k"], cases y; simp add: Let_def del: length_items)
next
  case (Pending s')
  then show ?thesis using assms blocked_Suc [OF _ assms(2-4)] by (auto simp: received_from_def simp del: length_items)
qed (use assms in \<open>simp add: received_from_def\<close>)

lemma send_stops:
  assumes "kept n z s" "length x = z" "uxMessagesWaiting s < uxLength s \<or> ticks = 0"
  shows "sent_from n z pos x ticks rounds s (xQueueGenericSend x ticks pos rounds s)"
proof -
  have q: "queue_inv s" "qlen s = n" "qsize s = z" using assms(1) by (simp_all add: kept_def queue_of_size_def)
  then have x: "length x = qsize s" using assms(2) by simp
  have "xQueueGenericSend x ticks pos rounds s = xQueueGenericSend x 0 pos [] s" using assms(3) by (subst (1 2) xQueueGenericSend.simps) auto
  moreover obtain s' where "xQueueGenericSend x 0 pos [] s = Returned (qcount s < qlen s) s'" "queue_inv s'"
    "items s' = (if qcount s < qlen s then enq pos x (items s) else items s)" "uxLength s' = uxLength s" "uxItemSize s' = uxItemSize s"
    using send_task [OF q(1) x, of pos "[]"] by blast
  moreover have "qcount s \<le> qlen s" using q(1) by (simp add: queue_inv_def)
  moreover have "qcount s < qlen s \<or> gave_up ticks rounds 0" using assms(3) by (auto simp: room_iff gave_up_def)
  ultimately show ?thesis using q by (auto simp: sent_from_def queue_of_size_def intro!: exI [of _ 0])
qed

lemma send_waits:
  "\<lbrakk>kept n z s; length x = z; list_all (calm n z) rounds\<rbrakk> \<Longrightarrow> sent_from n z pos x ticks rounds s (xQueueGenericSend x ticks pos rounds s)"
proof (induction rounds arbitrary: s)
  case Nil
  show ?case
  proof (cases "uxMessagesWaiting s < uxLength s \<or> ticks = 0")
    case False
    then have "qcount s = n" using Nil(1) by (auto simp: kept_def queue_of_size_def queue_inv_def room_iff)
    then show ?thesis using False by (subst xQueueGenericSend.simps) (simp add: sent_from_def)
  qed (use Nil in \<open>auto intro: send_stops\<close>)
next
  case (Cons r rounds)
  show ?case
  proof (cases "uxMessagesWaiting s < uxLength s \<or> ticks = 0")
    case True
    then show ?thesis using Cons.prems by (auto intro: send_stops)
  next
    case False
    then have full: "length (items s) = n" "0 < ticks" using Cons.prems(1) by (auto simp: kept_def queue_of_size_def queue_inv_def room_iff)
    have c: "calm n z r" "list_all (calm n z) rounds" using Cons.prems(3) by auto
    define s1 where "s1 = while_locked r (prvLockQueue (after_section r s))"
    have s1: "kept n z s1" unfolding s1_def using calmD(1,2) [OF c(1)] Cons.prems(1) by simp
    show ?thesis
    proof (cases "expired r")
      case True
      then have "xQueueGenericSend x ticks pos (r # rounds) s = Returned False (unlock_queue (between_unlocks r) s1)"
        using False by (subst xQueueGenericSend.simps) (simp add: Let_def s1_def)
      moreover have "gave_up ticks (r # rounds) 0" using True by (simp add: gave_up_def)
      moreover have "queue_of_size n z (unlock_queue (between_unlocks r) s1)" using kept_unlock [OF c(1) s1] by (simp add: kept_def)
      ultimately show ?thesis using full(1) by (auto simp: sent_from_def simp del: length_items intro!: exI [of _ 0])
    next
      case e: False
      then have "xQueueGenericSend x ticks pos (r # rounds) s = xQueueGenericSend x ticks pos rounds (send_turn r s)"
        using False by (subst xQueueGenericSend.simps) (simp add: Let_def send_turn_def s1_def)
      moreover have "kept n z (send_turn r s)"
        unfolding send_turn_def Let_def s1_def [symmetric] using s1 by (intro calmD(3,5) [OF c(1)] kept_unlock [OF c(1)]) simp
      from Cons.IH [OF this Cons.prems(2) c(2)] sent_from_Suc [OF _ full(1) e full(2)]
      have "sent_from n z pos x ticks (r # rounds) s (xQueueGenericSend x ticks pos rounds (send_turn r s))" by blast
      ultimately show ?thesis by simp
    qed
  qed
qed

lemma receive_stops:
  assumes "kept n z s" "0 < uxMessagesWaiting s \<or> ticks = 0"
  shows "received_from n z peek ticks rounds s (xQueueGenericReceive ticks peek rounds s)"
proof -
  have q: "queue_inv s" "qlen s = n" "qsize s = z" using assms(1) by (simp_all add: kept_def queue_of_size_def)
  have "xQueueGenericReceive ticks peek rounds s = xQueueGenericReceive 0 peek [] s" using assms(2) by (subst (1 2) xQueueGenericReceive.simps) auto
  moreover obtain s' where "xQueueGenericReceive 0 peek [] s = Returned (head (items s)) s'" "queue_inv s'"
    "items s' = (if peek then items s else tl (items s))" "uxLength s' = uxLength s" "uxItemSize s' = uxItemSize s"
    using receive_task [OF q(1), of peek "[]"] by blast
  moreover have "head (items s) = None \<longrightarrow> items s = [] \<and> gave_up ticks rounds 0"
    using assms(2) items_cases [of s] by (auto simp: head_def gave_up_def split: if_splits list.splits)
  ultimately show ?thesis using q by (cases "items s") (auto simp: received_from_def queue_of_size_def head_def intro!: exI [of _ 0])
qed

lemma receive_waits:
  "\<lbrakk>kept n z s; list_all (calm n z) rounds\<rbrakk> \<Longrightarrow> received_from n z peek ticks rounds s (xQueueGenericReceive ticks peek rounds s)"
proof (induction rounds arbitrary: s)
  case Nil
  show ?case
  proof (cases "0 < uxMessagesWaiting s \<or> ticks = 0")
    case False
    then show ?thesis using items_cases [of s] by (subst xQueueGenericReceive.simps) (simp add: received_from_def)
  qed (use Nil in \<open>auto intro: receive_stops\<close>)
next
  case (Cons r rounds)
  show ?case
  proof (cases "0 < uxMessagesWaiting s \<or> ticks = 0")
    case True
    then show ?thesis using Cons.prems by (auto intro: receive_stops)
  next
    case False
    then have empty: "length (items s) = 0" "items s = []" "0 < ticks" using items_cases [of s] by auto
    have c: "calm n z r" "list_all (calm n z) rounds" using Cons.prems(2) by auto
    define s1 where "s1 = while_locked r (prvLockQueue (after_section r s))"
    have s1: "kept n z s1" unfolding s1_def using calmD(1,2) [OF c(1)] Cons.prems(1) by simp
    show ?thesis
    proof (cases "expired r")
      case True
      then have "xQueueGenericReceive ticks peek (r # rounds) s = Returned None (unlock_queue (between_unlocks r) s1)"
        using False by (subst xQueueGenericReceive.simps) (simp add: Let_def s1_def)
      moreover have "gave_up ticks (r # rounds) 0" using True by (simp add: gave_up_def)
      moreover have "queue_of_size n z (unlock_queue (between_unlocks r) s1)" using kept_unlock [OF c(1) s1] by (simp add: kept_def)
      ultimately show ?thesis using empty(2) by (auto simp: received_from_def intro!: exI [of _ 0])
    next
      case e: False
      have "prvIsQueueEmpty s1 \<and> is_mutex s1 \<longrightarrow> pxMutexHolder s1 \<noteq> None" using s1 by (simp add: kept_def prvIsQueueEmpty_def)
      then have "xQueueGenericReceive ticks peek (r # rounds) s = xQueueGenericReceive ticks peek rounds (receive_turn r s)"
        using False e by (subst xQueueGenericReceive.simps) (auto simp: Let_def receive_turn_def s1_def)
      moreover have "kept n z (receive_turn r s)"
        unfolding receive_turn_def Let_def s1_def [symmetric] using s1 by (intro calmD(3,5) [OF c(1)] kept_unlock [OF c(1)]) simp
      from Cons.IH [OF this c(2)] received_from_Suc [OF _ empty(1) e empty(3)]
      have "received_from n z peek ticks (r # rounds) s (xQueueGenericReceive ticks peek rounds (receive_turn r s))" by blast
      ultimately show ?thesis by simp
    qed
  qed
qed

section \<open>Properties\<close>

text \<open>
  C5. A queue of the kernel is a bounded sequence. \<open>xQueueCreate\<close>, called on a heap reached by any history, either returns
  \<open>NULL\<close> and gives back what it took, or takes a region for the structure and one for exactly the items and a
  byte. Then any sequence of sends to either end, receives and peeks, by tasks and by interrupts, returns what the
  same operations on a sequence of at most \<open>n\<close> items return, without a copy outside the
  storage; and what is sent to the back only is delivered in the order in which it was accepted.
\<close>

theorem xQueue_fifo:
  assumes "heap_reach h live" "0 < n" "unat n * unat z + 24 < 2 ^ 32" "list_all (sized (unat z)) ops"
  shows "\<exists>q h'. xQueueCreate junk n z h s = Some (q, h') \<and>
    (case q of
       None \<Rightarrow> heap_reach h' live
     | Some (p, b, s0) \<Rightarrow> heap_reach h' ((b, unat n * unat z + 1) # (p, 76) # live) \<and>
         (\<exists>rs s1. steps queue_step ops s0 = Some (rs, s1) \<and> (rs, items s1) = spec_steps (seq_step (unat n)) ops [] \<and>
           length (items s1) \<le> unat n \<and>
           (list_all to_back ops \<longrightarrow> accepted ops rs = delivered ops rs @ items s1)))"
  using assms(1-3)
proof (cases rule: create_ok [where junk = junk and s = s])
  case (none h')
  then show ?thesis by auto
next
  case (queue p b h')
  let ?q = "new_queue junk n z s"
  note q = new_queue_ok(1,2) [OF assms(2,3), of junk s]
  obtain s1 where s1: "steps queue_step ops ?q = Some (fst (spec_steps (seq_step (unat n)) ops []), s1)" "items s1 = snd (spec_steps (seq_step (unat n)) ops [])"
    using dq.steps_ok [OF q(1) assms(4)] unfolding q(2) by blast
  then show ?thesis using queue seq_fifo [of ops "[]" "unat n"] seq_bound [of "[]" "unat n" ops]
    by (auto simp del: length_items)
qed

definition idle :: qsys where
  "idle = new_queue (\<lambda>_. 0) 2 1 \<lparr>is_mutex = False, pxMutexHolder = None, storage = [], pcTail = 0, pcWriteTo = 0, pcReadFrom = 0,
     xTasksWaitingToSend = [], xTasksWaitingToReceive = [], uxMessagesWaiting = 0, uxLength = 0, uxItemSize = 0, xRxLock = 0, xTxLock = 0,
     current = (1, 3), woken = [], yields = 0, missed_yield = False, inherited = [], disinherited = []\<rparr>"

theorem xQueue_fifo_witness:
  "\<exists>p b s0 h' rs s1. xQueueCreate (\<lambda>_. 0) 2 1 heap_0 idle = Some (Some (p, b, s0), h') \<and>
     steps queue_step [Send True queueSEND_TO_BACK [7], Send False queueSEND_TO_BACK [8], Send True queueSEND_TO_BACK [9], Receive False] s0 = Some (rs, s1) \<and>
     rs = [Sent True, Sent True, Sent False, Got (Some [7])] \<and> items s1 = [[8]]"
proof -
  let ?ops = "[Send True queueSEND_TO_BACK [7], Send False queueSEND_TO_BACK [8], Send True queueSEND_TO_BACK [9], Receive False]"
  have "map_option (\<lambda>(q, h). q \<noteq> None) (xQueueCreate (\<lambda>_. 0) 2 1 heap_0 idle) = Some True" by code_simp
  moreover have "spec_steps (seq_step (unat (2 :: 32 word))) ?ops [] = ([Sent True, Sent True, Sent False, Got (Some [7])], [[8]])"
    by (simp add: head_def)
  ultimately show ?thesis using xQueue_fifo [OF heap_reach.start, of 2 1 ?ops "\<lambda>_. 0" idle] by auto
qed

text \<open>
  C15. Locking only postpones the work on the event lists. Interrupts that send and receive while a task holds the lock get
  the same results as without the lock; and once the queue is unlocked it holds the same items, the
  same tasks still wait in the same order, and the same tasks have been woken: no wake-up is lost.
\<close>

theorem xQueue_lock_defers:
  assumes "queue_of_size n z s" "xTxLock s = queueUNLOCKED" "xRxLock s = queueUNLOCKED" "list_all (sized z) ops" "list_all of_isr ops"
  shows "\<exists>rs a b. steps queue_step ops (prvLockQueue s) = Some (rs, a) \<and> steps queue_step ops s = Some (rs, b) \<and>
    items (prvUnlockQueue a) = items b \<and> xTasksWaitingToReceive (prvUnlockQueue a) = xTasksWaitingToReceive b \<and>
    xTasksWaitingToSend (prvUnlockQueue a) = xTasksWaitingToSend b \<and> mset (woken (prvUnlockQueue a)) = mset (woken b) \<and>
    xTxLock (prvUnlockQueue a) = queueUNLOCKED \<and> xRxLock (prvUnlockQueue a) = queueUNLOCKED"
proof -
  have "deferred 0 0 s (prvLockQueue s) s" using assms(2,3) by (simp add: deferred_def prvLockQueue_def core_def)
  from deferred_steps [OF this assms(1,4,5)] obtain rs a b k m where
    r: "steps queue_step ops (prvLockQueue s) = Some (rs, a)" "steps queue_step ops s = Some (rs, b)" "deferred k m s a b" by blast
  show ?thesis using r(1,2) deferred_unlock [OF r(3)] core_cong(2) [of "prvUnlockQueue a" b] by blast
qed

definition one_waits :: qsys where
  "one_waits = idle\<lparr>xTasksWaitingToReceive := [(5, 2)]\<rparr>"

lemma one_waits_size: "queue_of_size 2 1 one_waits"
proof -
  have "queue_of_size (unat (2 :: 32 word)) (unat (1 :: 32 word)) idle" unfolding idle_def by (rule new_queue_ok(1)) simp_all
  moreover have "core one_waits = core idle" by (simp add: one_waits_def core_def)
  ultimately show ?thesis using core_cong [of one_waits idle] by (simp add: queue_of_size_def)
qed

theorem xQueue_lock_defers_witness:
  "\<exists>a. steps queue_step [Send True queueSEND_TO_BACK [7]] (prvLockQueue one_waits) = Some ([Sent True], a) \<and>
     xTasksWaitingToReceive (prvUnlockQueue a) = [] \<and> mset (woken (prvUnlockQueue a)) = {#5#} \<and> items (prvUnlockQueue a) = [[7]]"
proof -
  let ?ops = "[Send True queueSEND_TO_BACK [7]]"
  have l: "xTxLock one_waits = queueUNLOCKED" "xRxLock one_waits = queueUNLOCKED" by (simp_all add: one_waits_def idle_def new_queue_def)
  have "map_option (\<lambda>(rs, b). (rs, xTasksWaitingToReceive b, woken b, items b)) (steps queue_step ?ops one_waits) = Some ([Sent True], [], [5], [[7]])"
    by code_simp
  with xQueue_lock_defers [OF one_waits_size l, of ?ops] show ?thesis by auto
qed

text \<open>
  C25. What a call that may wait has done when it returns. The rest of the system may use the queue at every point of a round
  where the call lets it, as long as it keeps the queue well formed and a mutex that is taken has a holder. Then the call
  never copies outside the storage and never faults. It looks at the queue once per round. It returns success at the first look that
  finds room (an item): the items it leaves are those of that moment with its own put in (with the first taken out, which it
  returns; a peek leaves them). It fails only if every look found the queue full (empty), and either it was not willing to wait or its
  time expired in the round after the last look. It is still waiting when the rounds are over only if every look found the queue full (empty).
\<close>

theorem xQueue_waiting:
  assumes "kept n z s" "length x = z" "list_all (calm n z) rounds"
  shows "sent_from n z pos x ticks rounds s (xQueueGenericSend x ticks pos rounds s) \<and>
    received_from n z peek ticks rounds s (xQueueGenericReceive ticks peek rounds s)"
  using send_waits [OF assms] receive_waits [OF assms(1,3)] by blast

text \<open>A round in which an interrupt sends the byte 9 while the task is blocked.\<close>

definition isr_sends :: "qsys \<Rightarrow> qsys" where
  "isr_sends s = (case xQueueGenericSendFromISR [9] queueSEND_TO_BACK s of None \<Rightarrow> s | Some (r, s') \<Rightarrow> s')"

definition arrival :: round where
  "arrival = \<lparr>after_section = id, while_locked = id, after_look = id, between_unlocks = id, until_resumed = isr_sends, expired = False\<rparr>"

lemma arrival_calm: "calm 2 1 arrival"
proof -
  have b: "kept 2 (Suc 0) s \<longleftrightarrow> queue_of_size 2 (Suc 0) s" for s by (auto simp: kept_def queue_of_size_def queue_inv_def)
  have "queue_of_size 2 1 (isr_sends s)" if "queue_of_size 2 1 s" for s
    using that send_isr [of s "[9]" queueSEND_TO_BACK] by (auto simp: isr_sends_def queue_of_size_def)
  then show ?thesis by (auto simp: calm_def arrival_def b)
qed

theorem xQueue_waiting_witness:
  "\<exists>s'. xQueueGenericReceive 5 False [arrival] one_waits = Returned (Some [9]) s' \<and>
     received_from 2 1 False 5 [arrival] one_waits (Returned (Some [9]) s') \<and> items one_waits = [] \<and>
     items (section_state receive_turn [arrival] 1 one_waits) = [[9]] \<and> items s' = []"
proof -
  have "kept 2 1 one_waits" using one_waits_size by (simp add: kept_def one_waits_def idle_def new_queue_def)
  from xQueue_waiting [OF this, of "[7]" "[arrival]" queueSEND_TO_FRONT 5 False] arrival_calm
  have r: "received_from 2 1 False 5 [arrival] one_waits (xQueueGenericReceive 5 False [arrival] one_waits)" by simp
  have "(case xQueueGenericReceive 5 False [arrival] one_waits of Returned y s' \<Rightarrow> (y, items s') | _ \<Rightarrow> (None, [])) = (Some [9], [])"
    by code_simp
  then obtain s' where "xQueueGenericReceive 5 False [arrival] one_waits = Returned (Some [9]) s'" "items s' = []"
    by (auto split: outcome.splits)
  moreover have "items one_waits = []" "items (section_state receive_turn [arrival] 1 one_waits) = [[9]]" by code_simp+
  ultimately show ?thesis using r by metis
qed

text \<open>
  The size of the storage is computed without a check for overflow: a queue of 65536 items of 65536 bytes is created with a storage of
  one byte, and the first item is written past its end.
\<close>

lemma queue_create_wraps:
  "map_option (\<lambda>(q, h). map_option (\<lambda>(p, b, s). (length (storage s), uxLength s, uxItemSize s)) q) (xQueueCreate (\<lambda>_. 0) 0x10000 0x10000 heap_0 idle) =
   Some (Some (1, 0x10000, 0x10000))"
  by code_simp

end
