(* ===== verification/Kernel_Waiting.thy ===== *)
theory Kernel_Waiting
  imports Kernel_Schedule Kernel_Queue
begin

text \<open>
  The event lists of queues, twice: as rings of event items in \<open>tasks.c\<close> and as the sequences of tasks that the model of
  \<open>queue.c\<close> uses. Blocking and waking on the rings do what the queue expects.
\<close>

section \<open>One list among others\<close>

text \<open>List \<open>l\<close> holds the items \<open>xs\<close> and its index rests on the end marker, as in all lists filled by sorted insertion.\<close>

definition lists_at :: "nat set \<Rightarrow> nat \<Rightarrow> nat list \<Rightarrow> lists \<Rightarrow> bool" where
  "lists_at D l xs ls \<longleftrightarrow> (\<exists>A. shape D A ls \<and> (\<forall>m\<in>D. m \<notin> end_lists \<longrightarrow> fst (A m) = []) \<and> A l = ([], xs))"

lemma lists_atE:
  assumes "lists_at D l xs ls"
  obtains A where "shape D A ls" "\<And>m. m \<in> D \<Longrightarrow> m \<notin> end_lists \<Longrightarrow> fst (A m) = []" "A l = ([], xs)"
  using assms unfolding lists_at_def by blast

lemma lists_atI: "\<lbrakk>shape D A ls; \<And>m. m \<in> D \<Longrightarrow> m \<notin> end_lists \<Longrightarrow> fst (A m) = []; A l = ([], xs)\<rbrakk> \<Longrightarrow> lists_at D l xs ls"
  unfolding lists_at_def by blast

lemma seg_unique: "seg s a (map Item xs) (xListEnd l) \<Longrightarrow> seg s a (map Item ys) (xListEnd l) \<Longrightarrow> xs = ys"
proof (induction xs arbitrary: a ys)
  case Nil
  then show ?case by (cases ys) auto
next
  case (Cons x xs)
  then show ?case by (cases ys) auto
qed

lemma lists_at_ring: "lists_at D l xs ls \<Longrightarrow> l \<in> D \<Longrightarrow> ring ls l xs"
  by (erule lists_atE) (use shape_ring in fastforce)

lemma lists_ok_at:
  assumes "lists_ok D ls" "l \<in> D" "l \<notin> end_lists" "ring ls l xs"
  shows "lists_at D l xs ls"
proof -
  obtain A where A: "shape D A ls" "\<And>l. l \<in> D \<Longrightarrow> l \<notin> end_lists \<Longrightarrow> fst (A l) = []" "{..<11} \<subseteq> D"
    "\<And>l. l = 7 \<or> l = 8 \<Longrightarrow> by_value ls (items_of (A l))" by (rule lists_okE [OF assms(1)]) (rule that)
  have f: "fst (A l) = []" by (rule A(2) [OF assms(2,3)])
  then have "items_of (A l) = snd (A l)" by (simp add: items_of_def)
  then have "seg ls (xListEnd l) (map Item (snd (A l))) (xListEnd l)" using shape_ring [OF A(1) assms(2)] by (simp add: ring_def)
  moreover have "seg ls (xListEnd l) (map Item xs) (xListEnd l)" using assms(4) by (simp add: ring_def)
  ultimately have "snd (A l) = xs" by (rule seg_unique)
  with f have "A l = ([], xs)" by (simp add: prod_eq_iff)
  with A(1,2) show ?thesis by (rule lists_atI)
qed

lemma remove_other:
  assumes "lists_at D l xs ls" "pvContainer ls i = Some m" "m \<noteq> l"
  obtains ls' where "vListRemove i ls = Some ls'" "lists_at D l xs ls'" "xItemValue ls' = xItemValue ls" "pvOwner ls' = pvOwner ls"
    "pvContainer ls' = (pvContainer ls)(i := None)"
proof -
  obtain A where A: "shape D A ls" "\<And>m. m \<in> D \<Longrightarrow> m \<notin> end_lists \<Longrightarrow> fst (A m) = []" "A l = ([], xs)" by (rule lists_atE [OF assms(1)]) (rule that)
  from shape_remove [OF A(1) assms(2)] obtain ls' where s: "vListRemove i ls = Some ls'" "shape D (A(m := remove_c i (A m))) ls'"
    "xItemValue ls' = xItemValue ls" "pvOwner ls' = pvOwner ls" "pvContainer ls' = (pvContainer ls)(i := None)" by blast
  have "lists_at D l xs ls'" by (rule lists_atI [OF s(2)]) (use A(2,3) assms(3) in \<open>auto simp: remove_c_def\<close>)
  then show ?thesis using that s by blast
qed

lemma remove_front:
  assumes "lists_at D l (i # xs) ls" "l \<in> D"
  obtains ls' where "vListRemove i ls = Some ls'" "lists_at D l xs ls'" "xItemValue ls' = xItemValue ls" "pvOwner ls' = pvOwner ls"
    "pvContainer ls' = (pvContainer ls)(i := None)"
proof -
  obtain A where A: "shape D A ls" "\<And>m. m \<in> D \<Longrightarrow> m \<notin> end_lists \<Longrightarrow> fst (A m) = []" "A l = ([], i # xs)" by (rule lists_atE [OF assms(1)]) (rule that)
  have "pvContainer ls i = Some l" using shape_container [OF A(1) assms(2)] A(3) by simp
  from shape_remove [OF A(1) this] obtain ls' where s: "vListRemove i ls = Some ls'" "shape D (A(l := remove_c i (A l))) ls'"
    "xItemValue ls' = xItemValue ls" "pvOwner ls' = pvOwner ls" "pvContainer ls' = (pvContainer ls)(i := None)" by blast
  have "lists_at D l xs ls'" by (rule lists_atI [OF s(2)]) (use A(2,3) in \<open>auto simp: remove_c_def\<close>)
  then show ?thesis using that s by blast
qed

lemma insert_other:
  assumes "lists_at D l xs ls" "m \<in> D" "m \<notin> end_lists" "m \<noteq> l" "pvContainer ls i = None" "i < 2 ^ 31"
  obtains ls' where "vListInsert m i ls = Some ls'" "lists_at D l xs ls'" "xItemValue ls' = xItemValue ls"
proof -
  obtain A where A: "shape D A ls" "\<And>m. m \<in> D \<Longrightarrow> m \<notin> end_lists \<Longrightarrow> fst (A m) = []" "A l = ([], xs)" by (rule lists_atE [OF assms(1)]) (rule that)
  have m: "A m = ([], snd (A m))" using A(2) [OF assms(2,3)] by (simp add: prod_eq_iff)
  from shape_insert [OF A(1) assms(2) m assms(5,6)] obtain ls' where s: "vListInsert m i ls = Some ls'" "shape D (A(m := ([], ins_sorted ls i (snd (A m))))) ls'"
    "xItemValue ls' = xItemValue ls" by blast
  have "lists_at D l xs ls'" by (rule lists_atI [OF s(2)]) (use A(2,3) assms(4) in auto)
  then show ?thesis using that s by blast
qed

lemma insert_here:
  assumes "lists_at D l xs ls" "l \<in> D" "pvContainer ls i = None" "i < 2 ^ 31"
  obtains ls' where "vListInsert l i ls = Some ls'" "lists_at D l (ins_sorted ls i xs) ls'" "xItemValue ls' = xItemValue ls" "pvOwner ls' = pvOwner ls"
    "pvContainer ls' = (pvContainer ls)(i \<mapsto> l)"
proof -
  obtain A where A: "shape D A ls" "\<And>m. m \<in> D \<Longrightarrow> m \<notin> end_lists \<Longrightarrow> fst (A m) = []" "A l = ([], xs)" by (rule lists_atE [OF assms(1)]) (rule that)
  from shape_insert [OF A(1) assms(2) A(3) assms(3,4)] obtain ls' where s: "vListInsert l i ls = Some ls'" "shape D (A(l := ([], ins_sorted ls i xs))) ls'"
    "xItemValue ls' = xItemValue ls" "pvOwner ls' = pvOwner ls" "pvContainer ls' = (pvContainer ls)(i \<mapsto> l)" by blast
  have "lists_at D l (ins_sorted ls i xs) ls'" by (rule lists_atI [OF s(2)]) (use A(2,3) in auto)
  then show ?thesis using that s by blast
qed

lemma insert_end_other:
  assumes "lists_at D l xs ls" "m \<in> D" "m \<in> end_lists" "m \<noteq> l" "pvContainer ls i = None" "i < 2 ^ 31"
  shows "lists_at D l xs (vListInsertEnd m i ls)"
proof -
  obtain A where A: "shape D A ls" "\<And>m. m \<in> D \<Longrightarrow> m \<notin> end_lists \<Longrightarrow> fst (A m) = []" "A l = ([], xs)" by (rule lists_atE [OF assms(1)]) (rule that)
  show ?thesis by (rule lists_atI [OF shape_insert_end [OF A(1) assms(2,5,6)]]) (use A(2,3) assms(3,4) in auto)
qed

lemma set_value_at: "lists_at D l xs ls \<Longrightarrow> lists_at D l xs (listSET_LIST_ITEM_VALUE i v ls)"
  by (erule lists_atE) (rule lists_atI [OF shape_set_value])

section \<open>The sequence of waiting tasks\<close>

text \<open>The tasks \<open>ts\<close> wait in list \<open>l\<close>, and the values of their items are those of their priorities.\<close>

definition waits :: "sched \<Rightarrow> nat \<Rightarrow> nat list \<Rightarrow> bool" where
  "waits s l ts \<longleftrightarrow> ring (lsts s) l (map xEventListItem ts) \<and>
     (\<forall>t\<in>set ts. xItemValue (lsts s) (Item (xEventListItem t)) = configMAX_PRIORITIES - uxPriority s t)"

text \<open>A task as the queue sees it.\<close>

definition as_task :: "sched \<Rightarrow> nat \<Rightarrow> task" where
  "as_task s t = (t, ready_list s t)"

lemma value_order: "p < 7 \<Longrightarrow> q < 7 \<Longrightarrow> configMAX_PRIORITIES - p \<le> configMAX_PRIORITIES - q \<longleftrightarrow> unat q \<le> unat p"
proof -
  assume a: "p < (7 :: 32 word)" "q < (7 :: 32 word)"
  then have "unat (7 - p) = 7 - unat p" "unat (7 - q) = 7 - unat q" by (simp_all add: unat_sub word_le_nat_alt word_less_nat_alt)
  then show ?thesis using a by (auto simp: configMAX_PRIORITIES_def word_le_nat_alt word_less_nat_alt)
qed

lemma ins_sorted_waiting:
  assumes "\<forall>t\<in>insert c (set ts). xItemValue ls (Item (xEventListItem t)) = configMAX_PRIORITIES - uxPriority s t \<and> uxPriority s t < 7"
  shows "ins_sorted ls (xEventListItem c) (map xEventListItem ts) = map xEventListItem (map fst (place_waiting (as_task s c) (map (as_task s) ts)))"
proof -
  let ?P = "\<lambda>j. xItemValue ls (Item j) \<le> xItemValue ls (Item (xEventListItem c))" and ?Q = "\<lambda>t. ready_list s c \<le> ready_list s t"
  have e: "?P (xEventListItem t) = ?Q t" if "t \<in> set ts" for t using that assms value_order by auto
  have "takeWhile (\<lambda>t. ?P (xEventListItem t)) ts = takeWhile ?Q ts" "dropWhile (\<lambda>t. ?P (xEventListItem t)) ts = dropWhile ?Q ts"
    by (intro takeWhile_cong dropWhile_cong refl; simp add: e)+
  then show ?thesis by (simp add: ins_sorted_def place_waiting_def as_task_def takeWhile_map dropWhile_map comp_def)
qed

lemma set_place: "fst ` set (place_waiting x ys) = insert (fst x) (fst ` set ys)"
proof -
  have "set ys = set (takeWhile (\<lambda>u. snd x \<le> snd u) ys) \<union> set (dropWhile (\<lambda>u. snd x \<le> snd u) ys)" by (metis set_append takeWhile_dropWhile_id)
  then show ?thesis by (auto simp: place_waiting_def)
qed

text \<open>
  The order a list is meant to have. Inheritance of priorities changes the value of a waiting task without moving it, so
  that a list need not be in this order.
\<close>

definition by_priority :: "sched \<Rightarrow> nat list \<Rightarrow> bool" where
  "by_priority s = sorted_wrt (\<lambda>t u. uxPriority s u \<le> uxPriority s t)"

lemma by_priority_insert:
  assumes "\<forall>t\<in>set us. uxPriority s c \<le> uxPriority s t" "vs \<noteq> [] \<longrightarrow> uxPriority s (hd vs) < uxPriority s c" "by_priority s (us @ vs)"
  shows "(\<forall>t\<in>set vs. uxPriority s t < uxPriority s c) \<and> by_priority s (us @ c # vs)"
proof -
  have v: "uxPriority s t < uxPriority s c" if "t \<in> set vs" for t
    using that assms(2,3) by (cases vs) (auto simp: by_priority_def sorted_wrt_append intro: le_less_trans)
  then show ?thesis using assms(1,3) by (auto simp: by_priority_def sorted_wrt_append dest: less_imp_le)
qed

lemma place_between:
  obtains us vs where "ts = us @ vs" "map fst (place_waiting (as_task s c) (map (as_task s) ts)) = us @ c # vs"
    "\<forall>t\<in>set us. uxPriority s c \<le> uxPriority s t" "vs \<noteq> [] \<longrightarrow> uxPriority s (hd vs) < uxPriority s c"
proof -
  let ?Q = "\<lambda>t. ready_list s c \<le> ready_list s t"
  have "vs \<noteq> [] \<longrightarrow> uxPriority s (hd vs) < uxPriority s c" if "vs = dropWhile ?Q ts" for vs
    using that hd_dropWhile [of ?Q ts] by (auto simp: word_less_nat_alt not_le)
  then show ?thesis
    using that [of "takeWhile ?Q ts" "dropWhile ?Q ts"]
    by (auto simp: place_waiting_def as_task_def takeWhile_map dropWhile_map comp_def word_le_nat_alt dest: set_takeWhileD)
qed

lemma waits_at:
  assumes "kernel_ok idl T E s" "l \<in> E" "waits s l ts"
  shows "lists_at ({..<11} \<union> E) l (map xEventListItem ts) (lsts s)" "l \<in> {..<11} \<union> E" "l \<notin> end_lists" "11 \<le> l"
proof -
  note k = core_okD [OF kernel_okD(1) [OF assms(1)]]
  show l: "l \<in> {..<11} \<union> E" "11 \<le> l" using assms(2) kernel_okD(1) [OF assms(1)] by (auto simp: core_ok_def)
  then show "l \<notin> end_lists" by (auto simp: end_lists_def)
  then show "lists_at ({..<11} \<union> E) l (map xEventListItem ts) (lsts s)" using assms(3) l(1) by (intro lists_ok_at [OF k(1)]) (simp_all add: waits_def)
qed

lemma wait_tasks:
  assumes "kernel_ok idl T E s" "waits s l ts" "t \<in> set ts"
  shows "t \<in> T" "event_in s t = Some l" "uxPriority s t < 7"
proof -
  note k = core_okD [OF kernel_okD(1) [OF assms(1)]]
  show e: "event_in s t = Some l" using assms(2,3) by (auto simp: waits_def ring_def)
  then show t: "t \<in> T" by (rule tasks_only(2) [OF k(2)])
  then show "uxPriority s t < 7" by (rule tasks_okD(2) [OF k(2)])
qed

lemma delayed_lists_other:
  assumes "lists_at D l xs (lsts s)" "generic_in s c = Some r" "r \<noteq> l" "{7, 8} \<subseteq> D" "11 \<le> l" "delay_lists_ok s" "xGenericListItem c < 2 ^ 31"
  shows "\<exists>ls. add_to_delayed c w s = Some (s\<lparr>lsts := ls\<rparr>) \<and> lists_at D l xs ls \<and> xItemValue ls = (xItemValue (lsts s))(Item (xGenericListItem c) := w)"
proof -
  from assms(1-3) obtain l1 where l1: "vListRemove (xGenericListItem c) (lsts s) = Some l1" "lists_at D l xs l1" "xItemValue l1 = xItemValue (lsts s)"
    "pvContainer l1 = (pvContainer (lsts s))(xGenericListItem c := None)" by (rule remove_other) (rule that)
  let ?l2 = "listSET_LIST_ITEM_VALUE (xGenericListItem c) w l1" and ?d = "if w < xTickCount s then pxOverflowDelayedTaskList s else pxDelayedTaskList s"
  have d: "?d \<in> D" "?d \<notin> end_lists" "?d \<noteq> l" using assms(4-6) by (auto simp: delay_lists_ok_def end_lists_def)
  have "pvContainer ?l2 (xGenericListItem c) = None" by (simp add: l1(4))
  from set_value_at [OF l1(2), of "xGenericListItem c" w] d this assms(7) obtain l3 where
    l3: "vListInsert ?d (xGenericListItem c) ?l2 = Some l3" "lists_at D l xs l3" "xItemValue l3 = xItemValue ?l2" by (rule insert_other) (rule that)
  have "add_to_delayed c w s = Some (s\<lparr>lsts := l3\<rparr>)"
    using l1(1) l3(1) by (cases "w < xTickCount s") (simp_all add: add_to_delayed_def try_lists_def on_lists_def Let_def)
  then show ?thesis using l3(2,3) l1(3) by (intro exI [of _ l3]) simp
qed

section \<open>Blocking\<close>

lemma place_waits:
  assumes "kernel_reach idl E s" "allowed idl E (Block l n) s" "pxCurrentTCB s = Some c" "waits s l ts"
    "xItemValue (lsts s) (Item (xEventListItem c)) = configMAX_PRIORITIES - uxPriority s c"
  shows "\<exists>s'. vTaskPlaceOnEventList l n s = Some s' \<and> waits s' l (map fst (place_waiting (as_task s c) (map (as_task s) ts))) \<and>
    uxPriority s' = uxPriority s \<and> generic_in s' c \<in> {Some xDelayedTaskList1, Some xDelayedTaskList2} \<and> wake_time s' c = xTickCount s' + n"
proof -
  note r = reach_ok [OF assms(1)]
  note k = core_okD [OF kernel_okD(1) [OF r]]
  have l: "l \<in> E" "0 < n" and mb: "may_block idl c s" using assms(2,3) by (auto simp: runs_free_def may_block_def is_ready_def)
  note a = waits_at [OF r l(1) assms(4)]
  have c: "c \<in> tasks s" using kernel_okD(7) [OF r] assms(3) by auto
  have g: "generic_in s c = Some (ready_list s c)" using mb by (simp add: may_block_def)
  have ev: "event_in s c = None" by (rule ready_no_event [OF k(2) c g])
  note it = task_items [OF k(2) c]
  from a(1,2) ev it(2) obtain l1 where l1: "vListInsert l (xEventListItem c) (lsts s) = Some l1"
    "lists_at ({..<11} \<union> E) l (ins_sorted (lsts s) (xEventListItem c) (map xEventListItem ts)) l1" "xItemValue l1 = xItemValue (lsts s)"
    "pvContainer l1 = (pvContainer (lsts s))(xEventListItem c \<mapsto> l)" by (rule insert_here) (rule that)
  let ?ts = "map fst (place_waiting (as_task s c) (map (as_task s) ts))"
  have "\<forall>t\<in>insert c (set ts). xItemValue (lsts s) (Item (xEventListItem t)) = configMAX_PRIORITIES - uxPriority s t \<and> uxPriority s t < 7"
    using assms(4,5) wait_tasks(3) [OF r assms(4)] tasks_okD(2) [OF k(2) c] by (auto simp: waits_def)
  from ins_sorted_waiting [OF this] l1(2) have at: "lists_at ({..<11} \<union> E) l (map xEventListItem ?ts) (lsts (s\<lparr>lsts := l1\<rparr>))" by simp
  have g1: "generic_in (s\<lparr>lsts := l1\<rparr>) c = Some (ready_list s c)" "ready_list s c \<noteq> l" using g l1(4) ready_list_less [OF k(2) c] a(4) by auto
  have "delay_lists_ok (s\<lparr>lsts := l1\<rparr>)" "{7, 8} \<subseteq> {..<11} \<union> E" using k(5) by (auto simp: delay_lists_ok_def)
  from delayed_lists_other [OF at g1 this(2) a(4) this(1) it(1), of "xTickCount s + n"] obtain ls where
    ls: "add_to_delayed c (xTickCount s + n) (s\<lparr>lsts := l1\<rparr>) = Some (s\<lparr>lsts := ls\<rparr>)" "lists_at ({..<11} \<union> E) l (map xEventListItem ?ts) ls"
    "xItemValue ls = (xItemValue l1)(Item (xGenericListItem c) := xTickCount s + n)" by auto
  have p: "vTaskPlaceOnEventList l n s = Some (s\<lparr>lsts := ls\<rparr>)" using assms(3) l1(1) ls(1) by (simp add: vTaskPlaceOnEventList_def try_lists_def)
  have st: "set ?ts = insert c (set ts)" by (simp add: set_place as_task_def image_image)
  have "waits (s\<lparr>lsts := ls\<rparr>) l ?ts"
    using lists_at_ring [OF ls(2) a(2)] st assms(4,5) ls(3) l1(3) by (auto simp: waits_def)
  moreover from place_ok [OF r mb l] p have "delayed (s\<lparr>lsts := ls\<rparr>) c" by auto
  ultimately show ?thesis using p ls(3) by (auto simp: delayed_def xDelayedTaskList1_def xDelayedTaskList2_def)
qed

section \<open>Properties\<close>

text \<open>
  C9. Blocking refines the queue's view of its event lists. When the current task has to wait on an event list of a queue, and the
  values of the items are those of the priorities, it gets the place among the waiting tasks that the model of \<open>queue.c\<close> gives
  it: behind the leading tasks of its own or a higher priority, in front of the first task of a lower one. When the list is in
  the order of the priorities, it comes behind all tasks of its own or a higher priority and in front of all others, and the list stays
  in that order. The task is delayed for the ticks asked for.
\<close>

theorem vTaskPlaceOnEventList_refines:
  assumes "kernel_reach idl E s" "allowed idl E (Block l n) s" "pxCurrentTCB s = Some c" "waits s l ts"
    "xItemValue (lsts s) (Item (xEventListItem c)) = configMAX_PRIORITIES - uxPriority s c"
  shows "\<exists>s' us vs. vTaskPlaceOnEventList l n s = Some s' \<and> waits s' l (map fst (place_waiting (as_task s c) (map (as_task s) ts))) \<and>
    ts = us @ vs \<and> waits s' l (us @ c # vs) \<and>
    (\<forall>t\<in>set us. uxPriority s c \<le> uxPriority s t) \<and> (vs \<noteq> [] \<longrightarrow> uxPriority s (hd vs) < uxPriority s c) \<and>
    (by_priority s ts \<longrightarrow> (\<forall>t\<in>set vs. uxPriority s t < uxPriority s c) \<and> by_priority s' (us @ c # vs)) \<and>
    uxPriority s' = uxPriority s \<and> generic_in s' c \<in> {Some xDelayedTaskList1, Some xDelayedTaskList2} \<and> wake_time s' c = xTickCount s' + n"
proof -
  obtain us vs where u: "ts = us @ vs" "map fst (place_waiting (as_task s c) (map (as_task s) ts)) = us @ c # vs"
    "\<forall>t\<in>set us. uxPriority s c \<le> uxPriority s t" "vs \<noteq> [] \<longrightarrow> uxPriority s (hd vs) < uxPriority s c" by (rule place_between)
  from place_waits [OF assms] obtain s' where s': "vTaskPlaceOnEventList l n s = Some s'" "waits s' l (us @ c # vs)"
    "uxPriority s' = uxPriority s" "generic_in s' c \<in> {Some xDelayedTaskList1, Some xDelayedTaskList2}" "wake_time s' c = xTickCount s' + n"
    unfolding u(2) by blast
  have "by_priority s ts \<longrightarrow> (\<forall>t\<in>set vs. uxPriority s t < uxPriority s c) \<and> by_priority s' (us @ c # vs)"
    using by_priority_insert [OF u(3,4)] s'(3) unfolding u(1) by_priority_def by simp
  then show ?thesis using s' u by (intro exI [of _ s'] exI [of _ us] exI [of _ vs]) simp
qed

text \<open>An event list is made, and the task of priority 3 blocks on it.\<close>

lemma sample_block:
  obtains s where "kernel_reach 384 {11} s" "pxCurrentTCB s = Some 16" "waits s 11 []" "allowed 384 {11} (Block 11 5) s"
    "xItemValue (lsts s) (Item (xEventListItem 16)) = configMAX_PRIORITIES - uxPriority s 16" "uxPriority s 16 = 3"
proof -
  obtain s where s: "boot [(''a'', 64, 3)] = Some (Some 384, s)" "kernel_reach 384 {} s" "pxCurrentTCB s = Some 16" "is_ready s 16" "uxPriority s 16 = 3" by (rule sample_start) (rule that)
  have "map_option (\<lambda>(r, s). xItemValue (lsts s) (Item (xEventListItem 16))) (boot [(''a'', 64, 3)]) = Some 4" by code_simp
  then have v: "xItemValue (lsts s) (Item (xEventListItem 16)) = 4" unfolding s(1) by simp
  let ?s = "on_lists (vListInitialise 11) s"
  have "kernel_reach 384 (lists_after (New_list 11) {}) ?s" by (rule kernel_reach.step [OF s(2)]) simp_all
  moreover have "waits ?s 11 []" by (simp add: waits_def ring_def on_lists_def vListInitialise_def Let_def)
  moreover have "allowed 384 {11} (Block 11 5) ?s" using s(3,4) by (simp add: runs_free_def is_ready_def on_lists_def)
  ultimately show ?thesis using that [of ?s] s(3,5) v by (simp add: on_lists_def configMAX_PRIORITIES_def)
qed

theorem vTaskPlaceOnEventList_refines_witness:
  "\<exists>s s'. kernel_reach 384 {11} s \<and> vTaskPlaceOnEventList 11 5 s = Some s' \<and> waits s' 11 [16] \<and> wake_time s' 16 = xTickCount s' + 5"
proof -
  obtain s where s: "kernel_reach 384 {11} s" "pxCurrentTCB s = Some 16" "waits s 11 []" "allowed 384 {11} (Block 11 5) s"
    "xItemValue (lsts s) (Item (xEventListItem 16)) = configMAX_PRIORITIES - uxPriority s 16" by (rule sample_block) (rule that)
  from vTaskPlaceOnEventList_refines [OF s(1,4,2,3,5)] s(1) show ?thesis by (auto simp: place_waiting_def as_task_def)
qed

text \<open>
  C17. Waking refines the queue's view as well. On an event list in which tasks wait, \<open>xTaskRemoveFromEventList\<close> leaves and
  answers what the model of \<open>queue.c\<close> expects: the first task leaves the list, and the answer says whether its priority is at
  least that of the current task. It is in the ready list of its priority at once, or pending until the scheduler is resumed.
\<close>

theorem xTaskRemoveFromEventList_refines:
  assumes "kernel_reach idl E s" "l \<in> E" "pxCurrentTCB s = Some c" "waits s l (t # ts)" "current q = as_task s c"
    "xTasksWaitingToReceive q = map (as_task s) (t # ts)"
  shows "\<exists>s'. xTaskRemoveFromEventList l s = Some (fst (wake_receiver q), s') \<and>
    waits s' l (map fst (xTasksWaitingToReceive (snd (wake_receiver q)))) \<and> woken (snd (wake_receiver q)) = woken q @ [t] \<and>
    (if uxSchedulerSuspended s = 0 then is_ready s' t else event_in s' t = Some xPendingReadyList)"
proof -
  note r = reach_ok [OF assms(1)]
  note k = core_okD [OF kernel_okD(1) [OF r]]
  note a = waits_at [OF r assms(2,4)]
  have t: "t \<in> tasks s" "event_in s t = Some l" "uxPriority s t < 7" using wait_tasks [OF r assms(4), of t] by simp_all
  have d: "t \<notin> set ts" using assms(4) by (auto simp: waits_def ring_def)
  have ow: "pvOwner (lsts s) (xEventListItem t) = t" by (rule tasks_okD(5) [OF k(2) t(1)])
  obtain g where g: "generic_in s t = Some g" "g = 7 \<or> g = 8" using tasks_okD(7) [OF k(2) t(1)] t(2) by auto
  note it = task_items [OF k(2) t(1)]
  have "lists_at ({..<11} \<union> E) l (xEventListItem t # map xEventListItem ts) (lsts s)" using a(1) by simp
  note at = this
  from at have hd: "listGET_OWNER_OF_HEAD_ENTRY l (lsts s) = Some (Some t)"
    by (rule lists_atE) (use shape_head [OF _ a(2)] ow in fastforce)
  from at a(2) obtain l1 where l1: "vListRemove (xEventListItem t) (lsts s) = Some l1" "lists_at ({..<11} \<union> E) l (map xEventListItem ts) l1"
    "xItemValue l1 = xItemValue (lsts s)" "pvOwner l1 = pvOwner (lsts s)" "pvContainer l1 = (pvContainer (lsts s))(xEventListItem t := None)"
    by (rule remove_front) (rule that)
  have ws: "waits s' l ts" if "lists_at ({..<11} \<union> E) l (map xEventListItem ts) (lsts s')" "xItemValue (lsts s') = xItemValue (lsts s)" "uxPriority s' = uxPriority s" for s'
    using lists_at_ring [OF that(1) a(2)] that(2,3) assms(4) by (simp add: waits_def)
  have q: "fst (wake_receiver q) = (uxPriority s c \<le> uxPriority s t)" "map fst (xTasksWaitingToReceive (snd (wake_receiver q))) = ts"
    "woken (snd (wake_receiver q)) = woken q @ [t]"
    using assms(5,6) by (simp_all add: wake_receiver_def as_task_def word_le_nat_alt comp_def)
  show ?thesis
  proof (cases "uxSchedulerSuspended s = 0")
    case True
    have "pvContainer l1 (xGenericListItem t) = Some g" "g \<noteq> l" using l1(5) g a(4) by auto
    with l1(2) obtain l2 where l2: "vListRemove (xGenericListItem t) l1 = Some l2" "lists_at ({..<11} \<union> E) l (map xEventListItem ts) l2"
      "xItemValue l2 = xItemValue l1" "pvContainer l2 = (pvContainer l1)(xGenericListItem t := None)" by (rule remove_other) (rule that)
    let ?tp = "if uxTopReadyPriority s < uxPriority s t then uxPriority s t else uxTopReadyPriority s"
    let ?s = "s\<lparr>lsts := vListInsertEnd (ready_list s t) (xGenericListItem t) l2, uxTopReadyPriority := ?tp\<rparr>"
    have p: "pxReadyTasksLists (uxPriority s t) = Some (ready_list s t)" using t(3) by (simp add: pxReadyTasksLists_def configMAX_PRIORITIES_def)
    have rl: "ready_list s t < 7" using t(3) by (simp add: word_less_nat_alt)
    have "lists_at ({..<11} \<union> E) l (map xEventListItem ts) (lsts ?s)"
      using insert_end_other [OF l2(2), of "ready_list s t" "xGenericListItem t"] rl a(4) l2(4) it(1) by (simp add: end_lists_def)
    from ws [OF this] have "waits ?s l ts" using l2(3) l1(3) by simp
    moreover have "xTaskRemoveFromEventList l s = Some (uxPriority s c \<le> uxPriority s t, ?s)"
      using hd l1(1) l2(1) True p assms(3) by (simp add: xTaskRemoveFromEventList_def try_lists_def prvAddTaskToReadyQueue_def on_lists_def)
    moreover have "is_ready ?s t" by (simp add: is_ready_def)
    ultimately show ?thesis using q True by (intro exI [of _ ?s]) simp
  next
    case False
    let ?s = "s\<lparr>lsts := vListInsertEnd xPendingReadyList (xEventListItem t) l1\<rparr>"
    have "lists_at ({..<11} \<union> E) l (map xEventListItem ts) (lsts ?s)"
      using insert_end_other [OF l1(2), of xPendingReadyList "xEventListItem t"] a(4) l1(5) it(2) by (simp add: end_lists_def xPendingReadyList_def)
    from ws [OF this] have "waits ?s l ts" using l1(3) by simp
    moreover have "xTaskRemoveFromEventList l s = Some (uxPriority s c \<le> uxPriority s t, ?s)"
      using hd l1(1) False assms(3) by (simp add: xTaskRemoveFromEventList_def try_lists_def on_lists_def)
    ultimately show ?thesis using q False by (intro exI [of _ ?s]) simp
  qed
qed

theorem xTaskRemoveFromEventList_refines_witness:
  "\<exists>s s' y. waits s 11 [16] \<and> xTaskRemoveFromEventList 11 s = Some (y, s') \<and> waits s' 11 []"
proof -
  obtain s where s: "kernel_reach 384 {11} s" "pxCurrentTCB s = Some 16" "waits s 11 []" "allowed 384 {11} (Block 11 5) s"
    "xItemValue (lsts s) (Item (xEventListItem 16)) = configMAX_PRIORITIES - uxPriority s 16" by (rule sample_block) (rule that)
  from place_waits [OF s(1,4,2,3,5)] obtain s1 where s1: "vTaskPlaceOnEventList 11 5 s = Some s1" "waits s1 11 [16]" by (auto simp: place_waiting_def as_task_def)
  have r: "kernel_reach 384 (lists_after (Block 11 5) {11}) s1" by (rule kernel_reach.step [OF s(1,4)]) (simp add: s1(1))
  from kernel_okD(7) [OF reach_ok [OF this]] obtain c where c: "pxCurrentTCB s1 = Some c" by blast
  from xTaskRemoveFromEventList_refines [OF r _ c s1(2), of "idle\<lparr>current := as_task s1 c, xTasksWaitingToReceive := [as_task s1 16]\<rparr>"] s1(2)
  show ?thesis by (auto simp: wake_receiver_def)
qed

end
