(* ===== verification/Chksum.thy ===== *)
theory Chksum
  imports Pbuf
begin

text \<open>
  The Internet checksum of lwIP, \<open>core/ipv4/inet_chksum.c\<close> and the byte order functions of
  \<open>core/def.c\<close>: the two first versions of \<open>lwip_standard_chksum\<close> (the second is the one that is
  compiled), and the sums over memory, over a chain of packet buffers and with the pseudo header
  of TCP and UDP. The host is little endian, assertions expand to nothing. Whether a payload
  starts at an odd address is an argument.
\<close>

unbundle bit_operations_syntax

section \<open>Byte order\<close>

definition lwip_htons :: "16 word \<Rightarrow> 16 word" where
  "lwip_htons n = push_bit 8 (n AND 0xff) OR drop_bit 8 (n AND 0xff00)"

definition lwip_htonl :: "32 word \<Rightarrow> 32 word" where
  "lwip_htonl n = push_bit 24 (n AND 0xff) OR push_bit 8 (n AND 0xff00) OR drop_bit 8 (n AND 0xff0000) OR drop_bit 24 (n AND 0xff000000)"

definition FOLD_U32T :: "32 word \<Rightarrow> 32 word" where
  "FOLD_U32T u = drop_bit 16 u + (u AND 0xffff)"

definition SWAP_BYTES_IN_WORD :: "32 word \<Rightarrow> 32 word" where
  "SWAP_BYTES_IN_WORD w = push_bit 8 (w AND 0xff) OR drop_bit 8 (w AND 0xff00)"

section \<open>The sum of a stretch of memory\<close>

text \<open>A 16-bit word in memory, low byte first, and the words that \<open>while (len > 1)\<close> adds.\<close>

definition le16 :: "byte \<Rightarrow> byte \<Rightarrow> 16 word" where
  "le16 lo hi = ucast lo OR push_bit 8 (ucast hi)"

fun sum_loop :: "32 word \<Rightarrow> byte list \<Rightarrow> 32 word \<times> byte list" where
  "sum_loop s (a # b # bs) = sum_loop (s + ucast (le16 a b)) bs"
| "sum_loop s bs = (s, bs)"

text \<open>Version 2. The bytes at the two ends are collected in \<open>t\<close>.\<close>

definition lwip_standard_chksum :: "bool \<Rightarrow> byte list \<Rightarrow> 16 word" where
  "lwip_standard_chksum od bs =
     (let (t1, pb) = (if od \<and> bs \<noteq> [] then (hd bs, tl bs) else (0, bs));
          (s, ps) = sum_loop 0 pb;
          t0 = (if ps \<noteq> [] then hd ps else 0);
          s = s + ucast (le16 t0 t1);
          s = FOLD_U32T s;
          s = FOLD_U32T s;
          s = (if od then SWAP_BYTES_IN_WORD s else s)
      in ucast s)"

text \<open>Version 1: the words are added high byte first and the sum is turned round at the end.\<close>

fun acc_loop :: "32 word \<Rightarrow> byte list \<Rightarrow> 32 word" where
  "acc_loop acc (a # b # bs) = acc_loop (acc + ucast (le16 b a)) bs"
| "acc_loop acc [a] = acc + ucast (le16 0 a)"
| "acc_loop acc [] = acc"

definition lwip_standard_chksum_1 :: "byte list \<Rightarrow> 16 word" where
  "lwip_standard_chksum_1 bs =
     (let acc = acc_loop 0 bs;
          acc = drop_bit 16 acc + (acc AND 0xffff);
          acc = (if acc AND 0xffff0000 \<noteq> 0 then drop_bit 16 acc + (acc AND 0xffff) else acc)
      in lwip_htons (ucast acc))"

definition inet_chksum :: "bool \<Rightarrow> byte list \<Rightarrow> 16 word" where
  "inet_chksum od bs = NOT (lwip_standard_chksum od bs)"

section \<open>The sum of a chain\<close>

text \<open>\<open>al\<close> tells for a buffer whether its payload starts at an odd address.\<close>

partial_function (option) chain_loop :: "(nat \<Rightarrow> bool) \<Rightarrow> pheap \<Rightarrow> nat option \<Rightarrow> 32 word \<Rightarrow> bool \<Rightarrow> (32 word \<times> bool) option" where
  "chain_loop al h q acc swapped =
     (case q of
        None \<Rightarrow> Some (acc, swapped)
      | Some a \<Rightarrow>
          (case cells h a of
             None \<Rightarrow> None
           | Some b \<Rightarrow>
               (let acc = FOLD_U32T (acc + ucast (lwip_standard_chksum (al a) (bytes b))) in
                if len b mod 2 \<noteq> 0 then chain_loop al h (nxt b) (SWAP_BYTES_IN_WORD acc) (\<not> swapped)
                else chain_loop al h (nxt b) acc swapped)))"

definition unswap :: "32 word \<times> bool \<Rightarrow> 32 word" where
  "unswap r = (if snd r then SWAP_BYTES_IN_WORD (fst r) else fst r)"

definition inet_chksum_pbuf :: "(nat \<Rightarrow> bool) \<Rightarrow> nat option \<Rightarrow> pheap \<Rightarrow> 16 word option" where
  "inet_chksum_pbuf al p h = map_option (\<lambda>r. NOT (ucast (unswap r AND 0xffff))) (chain_loop al h p 0 False)"

definition pseudo_header :: "32 word \<Rightarrow> 32 word \<Rightarrow> 32 word \<Rightarrow> 8 word \<Rightarrow> 16 word \<Rightarrow> 32 word" where
  "pseudo_header acc src dest proto proto_len =
     (let acc = acc + (src AND 0xffff);
          acc = acc + (drop_bit 16 src AND 0xffff);
          acc = acc + (dest AND 0xffff);
          acc = acc + (drop_bit 16 dest AND 0xffff);
          acc = acc + ucast (lwip_htons (ucast proto))
      in acc + ucast (lwip_htons proto_len))"

definition inet_chksum_pseudo :: "(nat \<Rightarrow> bool) \<Rightarrow> nat option \<Rightarrow> 32 word \<Rightarrow> 32 word \<Rightarrow> 8 word \<Rightarrow> 16 word \<Rightarrow> pheap \<Rightarrow> 16 word option" where
  "inet_chksum_pseudo al p src dest proto proto_len h =
     map_option (\<lambda>r. let acc = FOLD_U32T (FOLD_U32T (pseudo_header (unswap r) src dest proto proto_len)) in NOT (ucast (acc AND 0xffff)))
       (chain_loop al h p 0 False)"

text \<open>The sum over the first \<open>chksum_len\<close> bytes only (UDP-Lite).\<close>

partial_function (option) partial_loop ::
    "(nat \<Rightarrow> bool) \<Rightarrow> pheap \<Rightarrow> nat option \<Rightarrow> nat \<Rightarrow> 32 word \<Rightarrow> bool \<Rightarrow> (32 word \<times> bool) option" where
  "partial_loop al h q chksum_len acc swapped =
     (case q of
        None \<Rightarrow> Some (acc, swapped)
      | Some a \<Rightarrow>
          if chksum_len = 0 then Some (acc, swapped)
          else
            (case cells h a of
               None \<Rightarrow> None
             | Some b \<Rightarrow>
                 (let chklen = min (len b) chksum_len;
                      acc = FOLD_U32T (acc + ucast (lwip_standard_chksum (al a) (take chklen (bytes b)))) in
                  if len b mod 2 \<noteq> 0 then partial_loop al h (nxt b) (chksum_len - chklen) (SWAP_BYTES_IN_WORD acc) (\<not> swapped)
                  else partial_loop al h (nxt b) (chksum_len - chklen) acc swapped)))"

definition inet_chksum_pseudo_partial ::
    "(nat \<Rightarrow> bool) \<Rightarrow> nat option \<Rightarrow> 32 word \<Rightarrow> 32 word \<Rightarrow> 8 word \<Rightarrow> 16 word \<Rightarrow> 16 word \<Rightarrow> pheap \<Rightarrow> 16 word option" where
  "inet_chksum_pseudo_partial al p src dest proto proto_len chksum_len h =
     map_option (\<lambda>r. let acc = FOLD_U32T (FOLD_U32T (pseudo_header (unswap r) src dest proto proto_len)) in NOT (ucast (acc AND 0xffff)))
       (partial_loop al h p (unat chksum_len) 0 False)"

section \<open>The reference sum\<close>

text \<open>The bytes weighted 1 and 256 in turn; \<open>hi\<close> tells that the first byte has the weight 256.\<close>

fun wsum :: "bool \<Rightarrow> byte list \<Rightarrow> nat" where
  "wsum hi [] = 0"
| "wsum hi (b # bs) = (if hi then 256 else 1) * unat b + wsum (\<not> hi) bs"

text \<open>Reduction to 16 bits with end-around carry: the representative modulo 65535 that is zero only for zero.\<close>

definition ocsum :: "nat \<Rightarrow> nat" where
  "ocsum n = (if n = 0 then 0 else (n - 1) mod 65535 + 1)"

lemma ocsum_unique: "\<lbrakk>r \<le> 65535; r mod 65535 = n mod 65535; r = 0 \<longleftrightarrow> n = 0\<rbrakk> \<Longrightarrow> r = ocsum n"
  by (cases n; cases r) (auto simp: ocsum_def mod_Suc split: if_splits)

section \<open>Words as numbers\<close>

lemma mask_simps: "(0xff :: 'a::len word) = mask 8" "(0xffff :: 'a::len word) = mask 16" "(0xff00 :: 'a::len word) = push_bit 8 (mask 8)"
  by (simp_all add: mask_eq_exp_minus_1 push_bit_eq_mult)

lemma unat_FOLD: "unat (FOLD_U32T u) = unat u div 65536 + unat u mod 65536"
proof -
  have "unat (drop_bit 16 u) = unat u div 65536" unfolding unat_drop_bit_eq by (simp add: drop_bit_eq_div)
  moreover have "unat (u AND 0xffff) = unat u mod 65536" 
    unfolding mask_simps take_bit_eq_mask [symmetric] unsigned_take_bit_eq by (simp add: take_bit_eq_mod)
  moreover have "unat u < 2 ^ 32" using unsigned_less [of u, where 'a = nat] by simp
  ultimately show ?thesis unfolding FOLD_U32T_def by (subst unat_add_lem [THEN iffD1]) auto
qed

lemma swap_bytes: "push_bit 8 (w AND 0xff) OR drop_bit 8 (w AND 0xff00) = push_bit 8 (take_bit 8 w) + take_bit 8 (drop_bit 8 w)" for w :: "'a::len word"
proof -
  have "push_bit 8 (w AND 0xff) OR drop_bit 8 (w AND 0xff00) = push_bit 8 (take_bit 8 w) OR take_bit 8 (drop_bit 8 w)"
    unfolding mask_simps by (rule bit_eqI) (auto simp: bit_simps dest: bit_imp_le_length)
  also have "\<dots> = push_bit 8 (take_bit 8 w) + take_bit 8 (drop_bit 8 w)"
    by (rule disjunctive_add_eq_or [symmetric]) (rule bit_eqI, auto simp: bit_simps)
  finally show ?thesis .
qed

lemma unat_swapped:
  fixes w :: "'a::len word"
  assumes "16 \<le> LENGTH('a)"
  shows "unat (push_bit 8 (take_bit 8 w) + take_bit 8 (drop_bit 8 w)) = 256 * (unat w mod 256) + (unat w div 256) mod 256"
proof -
  have "(2::nat) ^ 16 \<le> 2 ^ LENGTH('a)" using assms by (rule power_increasing) simp
  then have l: "65536 \<le> (2::nat) ^ LENGTH('a)" by simp
  have a: "unat (take_bit 8 w) = unat w mod 256" unfolding unsigned_take_bit_eq by (simp add: take_bit_eq_mod)
  have b: "unat (take_bit 8 (drop_bit 8 w)) = (unat w div 256) mod 256"
    unfolding unsigned_take_bit_eq unat_drop_bit_eq by (simp add: take_bit_eq_mod drop_bit_eq_div)
  have "unat (push_bit 8 (take_bit 8 w)) = 256 * (unat w mod 256)"
  proof -
    have "256 * (unat w mod 256) < 2 ^ LENGTH('a)" using l mod_less_divisor [of 256 "unat w"] by linarith
    then show ?thesis unfolding unsigned_push_bit_eq a by (simp add: take_bit_eq_mod push_bit_eq_mult mult.commute)
  qed
  then show ?thesis using b l mod_less_divisor [of 256 "unat w"] mod_less_divisor [of 256 "unat w div 256"]
    by (subst unat_add_lem [THEN iffD1]) auto
qed

lemma unat_SWAP: "unat (SWAP_BYTES_IN_WORD w) = 256 * (unat w mod 256) + (unat w div 256) mod 256"
  unfolding SWAP_BYTES_IN_WORD_def swap_bytes by (rule unat_swapped) simp

lemma unat_htons: "unat (lwip_htons w) = 256 * (unat w mod 256) + (unat w div 256) mod 256"
  unfolding lwip_htons_def swap_bytes by (rule unat_swapped) simp

lemma unat_le16: "unat (le16 a b) = unat a + 256 * unat b"
proof -
  have "ucast a OR push_bit 8 (ucast b :: 16 word) = ucast a + push_bit 8 (ucast b)"
    by (rule disjunctive_add_eq_or [symmetric]) (rule bit_eqI, auto simp: bit_simps dest: bit_imp_le_length)
  moreover have "unat a < 256" "unat b < 256" using unsigned_less [of a, where 'a = nat] unsigned_less [of b, where 'a = nat] by simp_all
  ultimately show ?thesis unfolding le16_def push_bit_eq_mult
    by (simp add: unat_word_ariths unsigned_ucast_eq take_bit_eq_mod)
qed

section \<open>End-around carry\<close>

definition swapn :: "nat \<Rightarrow> nat" where
  "swapn n = 256 * (n mod 256) + (n div 256) mod 256"

lemma ocsum_le: "ocsum n \<le> 65535"
proof (cases n)
  case (Suc m)
  then show ?thesis using mod_less_divisor [of 65535 m] by (simp add: ocsum_def)
qed (simp add: ocsum_def)

lemma ocsum_mod: "ocsum n mod 65535 = n mod 65535"
  by (cases n) (auto simp: ocsum_def mod_Suc)

lemma ocsum_zero [simp]: "ocsum n = 0 \<longleftrightarrow> n = 0"
  by (simp add: ocsum_def)

lemma ocsum_cong: "\<lbrakk>m mod 65535 = n mod 65535; m = 0 \<longleftrightarrow> n = 0\<rbrakk> \<Longrightarrow> ocsum m = ocsum n"
  using ocsum_unique [of "ocsum m" n] ocsum_le ocsum_mod by simp

lemma fold_mod: "(n div 65536 + n mod 65536) mod 65535 = n mod (65535 :: nat)"
proof -
  have "n = 65535 * (n div 65536) + (n div 65536 + n mod 65536)" using div_mult_mod_eq [of n 65536] by linarith
  then have "n mod 65535 = (65535 * (n div 65536) + (n div 65536 + n mod 65536)) mod 65535" by simp
  then show ?thesis by (simp only: mod_mult_self4)
qed

lemma fold_zero: "n div 65536 + n mod 65536 = 0 \<longleftrightarrow> n = (0 :: nat)"
proof
  assume "n div 65536 + n mod 65536 = 0"
  then show "n = 0" using div_mult_mod_eq [of n 65536] by simp
qed simp

lemma fold_le:
  assumes "n \<le> 131070"
  shows "n div 65536 + n mod 65536 \<le> (65535 :: nat)"
proof (cases "n < 65536")
  case False
  then have "n div 65536 = 1" using assms by (intro div_nat_eqI) simp_all
  then show ?thesis using assms div_mult_mod_eq [of n 65536] by linarith
qed simp

lemma unat_FOLD_twice: "unat (FOLD_U32T (FOLD_U32T u)) = ocsum (unat u)"
proof -
  let ?m = "unat u div 65536 + unat u mod 65536"
  have "unat u < 2 ^ 32" using unsigned_less [of u, where 'a = nat] by simp
  then have "unat u div 65536 < 65536" by (simp add: less_mult_imp_div_less)
  then have "?m \<le> 131070" using mod_less_divisor [of 65536 "unat u"] by linarith
  then have "?m div 65536 + ?m mod 65536 \<le> 65535" by (rule fold_le)
  then show ?thesis unfolding unat_FOLD
    by (intro ocsum_unique) (simp_all only: fold_mod fold_zero)
qed

lemma unat_FOLD_once: "unat u \<le> 131070 \<Longrightarrow> unat (FOLD_U32T u) = ocsum (unat u)"
  unfolding unat_FOLD by (rule ocsum_unique) (simp_all only: fold_mod fold_zero fold_le)

lemma swapn_mod:
  assumes "n \<le> 65535"
  shows "swapn n mod 65535 = (256 * n) mod 65535" "swapn n \<le> 65535" "swapn n = 0 \<longleftrightarrow> n = 0"
proof -
  have d: "n div 256 < 256" using assms by (simp add: less_mult_imp_div_less)
  have "256 * n = 65536 * (n div 256) + 256 * (n mod 256)" using div_mult_mod_eq [of n 256] by linarith
  also have "\<dots> = 65535 * (n div 256) + swapn n" using d by (simp add: swapn_def)
  finally have "(256 * n) mod 65535 = (65535 * (n div 256) + swapn n) mod 65535" by simp
  then show "swapn n mod 65535 = (256 * n) mod 65535" by (simp only: mod_mult_self4)
  show "swapn n \<le> 65535" using mod_less_divisor [of 256 n] mod_less_divisor [of 256 "n div 256"] unfolding swapn_def by linarith
  show "swapn n = 0 \<longleftrightarrow> n = 0" using d div_mult_mod_eq [of n 256] unfolding swapn_def by auto
qed

lemma swapn_ocsum:
  assumes "(256 * n) mod 65535 = m mod 65535" "n = 0 \<longleftrightarrow> m = 0"
  shows "swapn (ocsum n) = ocsum m"
proof (rule ocsum_unique)
  note sw = swapn_mod [OF ocsum_le [of n]]
  show "swapn (ocsum n) \<le> 65535" by (rule sw)
  have "swapn (ocsum n) mod 65535 = (256 * (ocsum n mod 65535)) mod 65535" using sw(1) by (simp add: mod_mult_right_eq)
  also have "\<dots> = (256 * n) mod 65535" unfolding ocsum_mod by (simp add: mod_mult_right_eq)
  finally show "swapn (ocsum n) mod 65535 = m mod 65535" using assms(1) by simp
  show "swapn (ocsum n) = 0 \<longleftrightarrow> m = 0" using sw(3) assms(2) by simp
qed

lemma wsum_zero: "wsum p bs = 0 \<longleftrightarrow> (\<forall>b\<in>set bs. b = 0)"
  by (induction bs arbitrary: p) (auto simp: unsigned_eq_0_iff)

lemma wsum_swap: "(256 * wsum p bs) mod 65535 = wsum (\<not> p) bs mod 65535"
proof (induction bs arbitrary: p)
  case (Cons b bs)
  have "(256 * (256 * unat b)) mod 65535 = unat b mod 65535"
  proof -
    have "256 * (256 * unat b) = 65535 * unat b + unat b" by simp
    then show ?thesis by (simp only: mod_mult_self4)
  qed
  then have "(256 * ((if p then 256 else 1) * unat b)) mod 65535 = ((if \<not> p then 256 else 1) * unat b) mod 65535" by simp
  from mod_add_cong [OF this Cons.IH [of "\<not> p"]] show ?case by (simp add: distrib_left)
qed simp

lemma wsum_append: "wsum p (xs @ ys) = wsum p xs + wsum (p \<noteq> odd (length xs)) ys"
proof (induction xs arbitrary: p)
  case (Cons x xs)
  then show ?case by (cases p) auto
qed simp

lemma wsum_le: "wsum p bs \<le> 65535 * ((length bs + 1) div 2)"
proof (induction bs arbitrary: p rule: induct_list012)
  case (2 x)
  then show ?case using unsigned_less [of x, where 'a = nat] by simp
next
  case (3 x y zs)
  define k where "k = 65535 * ((length zs + 1) div 2)"
  have "wsum True zs \<le> k" "wsum False zs \<le> k" unfolding k_def by (rule "3.IH"(1))+
  moreover have "unat x \<le> 255" "unat y \<le> 255" using unsigned_less [of x, where 'a = nat] unsigned_less [of y, where 'a = nat] by simp_all
  moreover have "65535 * ((length (x # y # zs) + 1) div 2) = 65535 + k" by (simp add: k_def)
  ultimately show ?case by (cases p) simp_all
qed simp

lemma sum_loop_value:
  "\<lbrakk>sum_loop s bs = (s', r); unat s + wsum False bs < 2 ^ 32\<rbrakk> \<Longrightarrow> unat s' + wsum False r = unat s + wsum False bs \<and> length r \<le> 1"
proof (induction s bs rule: sum_loop.induct)
  case (1 s a b bs)
  have "unat (s + ucast (le16 a b)) = unat s + unat a + 256 * unat b"
  proof -
    have "unat (ucast (le16 a b) :: 32 word) = unat a + 256 * unat b"
      using unsigned_less [of "le16 a b", where 'a = nat] by (simp add: unsigned_ucast_eq take_bit_eq_mod unat_le16)
    then show ?thesis using 1(3) by (simp add: unat_word_ariths)
  qed
  then show ?case using 1 by simp
qed auto

lemma lwip_standard_chksum_value:
  assumes "length bs \<le> 0x20000"
  shows "unat (lwip_standard_chksum od bs) = ocsum (wsum False bs)"
proof -
  let ?f = "od \<and> bs \<noteq> []"
  let ?t = "if ?f then hd bs else 0" and ?pb = "if ?f then tl bs else bs"
  obtain s ps where l: "sum_loop 0 ?pb = (s, ps)" by fastforce
  let ?lo = "if ps \<noteq> [] then hd ps else 0"
  have w: "wsum od bs = 256 * unat ?t + wsum False ?pb" by (cases bs) auto
  have "65535 * ((length bs + 1) div 2) \<le> 65535 * 65536" using assms by (intro mult_le_mono) auto
  then have b: "wsum od bs < 2 ^ 32" using wsum_le [of od bs] by simp
  then have v: "unat s + wsum False ps = wsum False ?pb" "length ps \<le> 1" using sum_loop_value [OF l] w by simp_all
  then have "wsum False ps = unat ?lo" by (cases ps) auto
  then have "unat s + (unat ?lo + 256 * unat ?t) = wsum od bs" using v(1) w by simp
  moreover have "unat (ucast (le16 ?lo ?t) :: 32 word) = unat ?lo + 256 * unat ?t"
    using unsigned_less [of "le16 ?lo ?t", where 'a = nat] by (simp add: unsigned_ucast_eq take_bit_eq_mod unat_le16)
  ultimately have n: "unat (s + ucast (le16 ?lo ?t)) = wsum od bs" using b by (simp add: unat_word_ariths)
  let ?r = "FOLD_U32T (FOLD_U32T (s + ucast (le16 ?lo ?t)))"
  have r: "unat ?r = ocsum (wsum od bs)" unfolding unat_FOLD_twice n by simp
  have "lwip_standard_chksum od bs = ucast (if od then SWAP_BYTES_IN_WORD ?r else ?r)"
    using l unfolding lwip_standard_chksum_def Let_def by (auto split: prod.splits if_splits)
  moreover have "unat (if od then SWAP_BYTES_IN_WORD ?r else ?r) = ocsum (wsum False bs)"
  proof (cases od)
    case True
    have "swapn (ocsum (wsum True bs)) = ocsum (wsum False bs)"
      using wsum_swap [of True bs] wsum_zero by (intro swapn_ocsum) auto
    then show ?thesis using True r by (simp add: unat_SWAP swapn_def)
  qed (use r in simp)
  ultimately show ?thesis using ocsum_le [of "wsum False bs"] by (simp add: unsigned_ucast_eq take_bit_eq_mod)
qed

text \<open>Sums up to end-around carry.\<close>

lemma oc_iff: "ocsum m = ocsum n \<longleftrightarrow> m mod 65535 = n mod 65535 \<and> (m = 0 \<longleftrightarrow> n = 0)"
  by (metis ocsum_cong ocsum_mod ocsum_zero)

lemma oc_idem [simp]: "ocsum (ocsum n) = ocsum n"
  by (simp add: oc_iff ocsum_mod)

lemma oc_add: "\<lbrakk>ocsum m = ocsum m'; ocsum n = ocsum n'\<rbrakk> \<Longrightarrow> ocsum (m + n) = ocsum (m' + n')"
  by (auto simp: oc_iff intro: mod_add_cong)

lemma oc_mult: "ocsum m = ocsum n \<Longrightarrow> ocsum (256 * m) = ocsum (256 * n)"
  by (auto simp: oc_iff intro: mod_mult_cong)

lemma oc_65536: "ocsum (256 * (256 * n)) = ocsum n"
proof -
  have "256 * (256 * n) = 65535 * n + n" by simp
  then have "(256 * (256 * n)) mod 65535 = n mod 65535" by (simp only: mod_mult_self4)
  then show ?thesis by (simp add: oc_iff)
qed

lemma oc_wsum: "ocsum (256 * wsum p bs) = ocsum (wsum (\<not> p) bs)"
  using wsum_swap [of p bs] wsum_zero [of p bs] wsum_zero [of "\<not> p" bs] by (auto simp: oc_iff)

lemma oc_swapn: "swapn (ocsum n) = ocsum (256 * n)"
  by (rule swapn_ocsum) simp_all

section \<open>Chains\<close>

definition weigh :: "bool \<Rightarrow> nat \<Rightarrow> nat" where
  "weigh sw n = (if sw then 256 * n else n)"

lemma unswap_value: "unat acc = ocsum n \<Longrightarrow> unat (unswap (acc, sw)) = ocsum (weigh sw n)"
  using oc_swapn [of n] by (simp add: unswap_def weigh_def unat_SWAP flip: swapn_def)

text \<open>One buffer: what is added to the accumulator, which is then turned round when the length is odd.\<close>

lemma turn_value:
  assumes "unat acc = ocsum n" "length d \<le> 0x20000"
  shows "unat (FOLD_U32T (acc + ucast (lwip_standard_chksum od d))) = ocsum (n + wsum False d)"
proof -
  have c: "unat (ucast (lwip_standard_chksum od d) :: 32 word) = ocsum (wsum False d)"
    using lwip_standard_chksum_value [OF assms(2), of od] ocsum_le [of "wsum False d"] by (simp add: unsigned_ucast_eq take_bit_eq_mod)
  have "unat (acc + ucast (lwip_standard_chksum od d)) = ocsum n + ocsum (wsum False d)"
    using assms(1) c ocsum_le [of n] ocsum_le [of "wsum False d"] by (simp add: unat_word_ariths)
  then show ?thesis using ocsum_le [of n] ocsum_le [of "wsum False d"] by (simp add: unat_FOLD_once oc_add [of "ocsum n" n "ocsum (wsum False d)" "wsum False d"])
qed

lemma weigh_step:
  "ocsum (weigh sw (n + wsum False d) + m) = ocsum (weigh sw n + (wsum sw d + m))"
  "ocsum (weigh (\<not> sw) (256 * (n + wsum False d)) + m) = ocsum (weigh sw n + (wsum sw d + m))"
proof -
  have e: "ocsum (weigh sw (n + wsum False d)) = ocsum (weigh sw n + wsum sw d)"
  proof (cases sw)
    case True
    have "ocsum (256 * n + 256 * wsum False d) = ocsum (256 * n + wsum True d)" using oc_wsum [of False d] by (intro oc_add) simp_all
    then show ?thesis using True by (simp add: weigh_def distrib_left)
  qed (simp add: weigh_def)
  then show "ocsum (weigh sw (n + wsum False d) + m) = ocsum (weigh sw n + (wsum sw d + m))"
    using oc_add [OF e refl, of m] by (simp add: add.assoc)
  have "ocsum (weigh (\<not> sw) (256 * (n + wsum False d))) = ocsum (weigh sw (n + wsum False d))"
    using oc_65536 [of "n + wsum False d"] by (cases sw) (simp_all only: weigh_def not_True_eq_False not_False_eq_True if_True if_False)
  from oc_add [OF trans [OF this e] refl, of m] show "ocsum (weigh (\<not> sw) (256 * (n + wsum False d)) + m) = ocsum (weigh sw n + (wsum sw d + m))"
    by (simp add: add.assoc)
qed

lemma chain_loop_value:
  assumes "packet (cells h) p xs" "unat acc = ocsum n"
  shows "\<exists>r. chain_loop al h p acc sw = Some r \<and> unat (unswap r) = ocsum (weigh sw n + wsum sw (content (cells h) xs))"
  using assms
proof (induction xs arbitrary: p acc sw n)
  case Nil
  then show ?case by (subst chain_loop.simps) (simp add: unswap_value)
next
  case (Cons a xs)
  obtain b where b: "p = Some a" "cells h a = Some b" "packet (cells h) (nxt b) xs" "pay b + len b \<le> length (mem b)" "len b < 65536"
    using Cons.prems(1) by (auto simp: packet_Cons)
  have l: "length (bytes b) = len b" using b(4) by (simp add: bytes_def)
  define acc1 where "acc1 = FOLD_U32T (acc + ucast (lwip_standard_chksum (al a) (bytes b)))"
  have v: "unat acc1 = ocsum (n + wsum False (bytes b))" unfolding acc1_def using turn_value [OF Cons.prems(2)] l b(5) by simp
  then have v2: "unat (SWAP_BYTES_IN_WORD acc1) = ocsum (256 * (n + wsum False (bytes b)))"
    using oc_swapn by (simp add: unat_SWAP flip: swapn_def)
  have c: "content (cells h) (a # xs) = bytes b @ content (cells h) xs" using b(2) by simp
  show ?case
  proof (cases "odd (len b)")
    case True
    then have "chain_loop al h p acc sw = chain_loop al h (nxt b) (SWAP_BYTES_IN_WORD acc1) (\<not> sw)"
      using b by (subst chain_loop.simps) (simp add: Let_def acc1_def odd_iff_mod_2_eq_one)
    moreover have "wsum sw (content (cells h) (a # xs)) = wsum sw (bytes b) + wsum (\<not> sw) (content (cells h) xs)"
      unfolding c wsum_append l using True by simp
    ultimately show ?thesis using Cons.IH [OF b(3) v2, of "\<not> sw"] weigh_step(2) by simp
  next
    case False
    then have "chain_loop al h p acc sw = chain_loop al h (nxt b) acc1 sw"
      using b by (subst chain_loop.simps) (simp add: Let_def acc1_def odd_iff_mod_2_eq_one)
    moreover have "wsum sw (content (cells h) (a # xs)) = wsum sw (bytes b) + wsum sw (content (cells h) xs)"
      unfolding c wsum_append l using False by simp
    ultimately show ?thesis using Cons.IH [OF b(3) v, of sw] weigh_step(1) by simp
  qed
qed

lemma partial_loop_value:
  assumes "packet (cells h) p xs" "unat acc = ocsum n"
  shows "\<exists>r. partial_loop al h p k acc sw = Some r \<and> unat (unswap r) = ocsum (weigh sw n + wsum sw (take k (content (cells h) xs)))"
  using assms
proof (induction xs arbitrary: p acc sw n k)
  case Nil
  then show ?case by (subst partial_loop.simps) (simp add: unswap_value)
next
  case (Cons a xs)
  obtain b where b: "p = Some a" "cells h a = Some b" "packet (cells h) (nxt b) xs" "pay b + len b \<le> length (mem b)" "len b < 65536"
    using Cons.prems(1) by (auto simp: packet_Cons)
  show ?case
  proof (cases "k = 0")
    case True
    then show ?thesis using b(1) Cons.prems(2) by (subst partial_loop.simps) (simp add: unswap_value)
  next
    case k: False
    have l: "length (bytes b) = len b" using b(4) by (simp add: bytes_def)
    define d where "d = take (min (len b) k) (bytes b)"
    define acc1 where "acc1 = FOLD_U32T (acc + ucast (lwip_standard_chksum (al a) d))"
    have v: "unat acc1 = ocsum (n + wsum False d)" unfolding acc1_def using turn_value [OF Cons.prems(2), of d] l b(5) by (simp add: d_def)
    then have v2: "unat (SWAP_BYTES_IN_WORD acc1) = ocsum (256 * (n + wsum False d))"
      using oc_swapn by (simp add: unat_SWAP flip: swapn_def)
    have run: "partial_loop al h p k acc sw = partial_loop al h (nxt b) (k - min (len b) k)
        (if odd (len b) then SWAP_BYTES_IN_WORD acc1 else acc1) (sw \<noteq> odd (len b))"
      using b k by (subst partial_loop.simps) (auto simp: Let_def acc1_def d_def odd_iff_mod_2_eq_one min.commute)
    have "wsum sw (take k (content (cells h) (a # xs))) = wsum sw d + wsum (sw \<noteq> odd (len b)) (take (k - min (len b) k) (content (cells h) xs))"
    proof (cases "len b \<le> k")
      case True
      then show ?thesis using b(2) l by (simp add: wsum_append d_def)
    next
      case False
      then show ?thesis using b(2) l by (simp add: d_def)
    qed
    then show ?thesis
      using Cons.IH [OF b(3) v2, of "k - min (len b) k" "\<not> sw"] Cons.IH [OF b(3) v, of "k - min (len b) k" sw] weigh_step run
      by (cases "odd (len b)") simp_all
  qed
qed

definition pseudo_sum :: "32 word \<Rightarrow> 32 word \<Rightarrow> 8 word \<Rightarrow> 16 word \<Rightarrow> nat" where
  "pseudo_sum src dest proto proto_len = unat src mod 65536 + unat src div 65536 + unat dest mod 65536 + unat dest div 65536 +
     256 * unat proto + swapn (unat proto_len)"

lemma unat_halves: "unat (u AND 0xffff) = unat u mod 65536" "unat (drop_bit 16 u AND 0xffff) = unat u div 65536" for u :: "32 word"
proof -
  have "unat u div 65536 < 65536" using unsigned_less [of u, where 'a = nat] by (simp add: less_mult_imp_div_less)
  then show "unat (u AND 0xffff) = unat u mod 65536" "unat (drop_bit 16 u AND 0xffff) = unat u div 65536"
    unfolding mask_simps take_bit_eq_mask [symmetric] unsigned_take_bit_eq unat_drop_bit_eq by (simp_all add: take_bit_eq_mod drop_bit_eq_div)
qed

lemma pseudo_header_value:
  assumes "unat acc \<le> 65535"
  shows "unat (pseudo_header acc src dest proto proto_len) = unat acc + pseudo_sum src dest proto proto_len"
proof -
  have s: "unat u div 65536 \<le> 65535" "unat u mod 65536 \<le> 65535" for u :: "32 word"
    using unsigned_less [of u, where 'a = nat] mod_less_divisor [of 65536 "unat u"] by (simp_all add: less_mult_imp_div_less flip: less_Suc_eq_le)
  have p: "unat (ucast (lwip_htons (ucast proto)) :: 32 word) = 256 * unat proto"
    using unsigned_less [of proto, where 'a = nat] by (simp add: unsigned_ucast_eq take_bit_eq_mod unat_htons)
  have q: "unat (ucast (lwip_htons proto_len) :: 32 word) = swapn (unat proto_len)"
    using unsigned_less [of "lwip_htons proto_len", where 'a = nat] by (simp add: unsigned_ucast_eq take_bit_eq_mod unat_htons swapn_def)
  have "swapn (unat proto_len) \<le> 65535" using unsigned_less [of proto_len, where 'a = nat] by (intro swapn_mod) simp
  then show ?thesis using assms s [of src] s [of dest] unsigned_less [of proto, where 'a = nat]
    unfolding pseudo_header_def Let_def by (simp add: unat_word_ariths unat_halves unat_halves(2) [unfolded unat_halves(1)] p q pseudo_sum_def)
qed

lemma unat_not16: "unat (NOT w) = 65535 - unat w" for w :: "16 word"
proof -
  have "NOT w = - 1 - w" by (simp add: not_eq_complement)
  moreover have "unat (- 1 - w) = unat (- 1 :: 16 word) - unat w" by (rule unat_sub) simp
  moreover have "unat (- 1 :: 16 word) = 65535" by (simp add: unsigned_minus_1_eq_mask mask_eq_exp_minus_1)
  ultimately show ?thesis by simp
qed

lemma low16: "unat acc \<le> 65535 \<Longrightarrow> unat (ucast (acc AND 0xffff) :: 16 word) = unat acc" for acc :: "32 word"
  by (simp add: unsigned_ucast_eq take_bit_eq_mod unat_halves)

lemma high16: "u AND 0xffff0000 = 0 \<longleftrightarrow> unat u < 65536" for u :: "32 word"
proof -
  have m: "(0xffff0000 :: 32 word) = push_bit 16 (mask 16)" by (simp add: mask_eq_exp_minus_1 push_bit_eq_mult)
  have "u AND push_bit 16 (mask 16) = 0 \<longleftrightarrow> drop_bit 16 u = 0"
  proof
    assume z: "u AND push_bit 16 (mask 16) = 0"
    show "drop_bit 16 u = 0"
    proof (rule bit_eqI)
      fix n assume "possible_bit TYPE(32 word) n"
      have "\<not> bit (u AND push_bit 16 (mask 16)) (16 + n)" using z by simp
      then show "bit (drop_bit 16 u) n \<longleftrightarrow> bit 0 n" by (auto simp: bit_simps dest: bit_imp_le_length)
    qed
  next
    assume z: "drop_bit 16 u = 0"
    show "u AND push_bit 16 (mask 16) = 0"
    proof (rule bit_eqI)
      fix n assume "possible_bit TYPE(32 word) n"
      have "\<not> bit (drop_bit 16 u) (n - 16)" using z by simp
      then show "bit (u AND push_bit 16 (mask 16)) n \<longleftrightarrow> bit 0 n" by (auto simp: bit_simps)
    qed
  qed
  then show ?thesis unfolding m using unat_drop_bit_eq [of 16 u] by (simp add: unat_eq_0 [symmetric] drop_bit_eq_div div_eq_0_iff)
qed

text \<open>Version 1 of the sum.\<close>

lemma acc_loop_value: "unat acc + wsum True bs < 2 ^ 32 \<Longrightarrow> unat (acc_loop acc bs) = unat acc + wsum True bs"
proof (induction acc bs rule: acc_loop.induct)
  case (1 acc a b bs)
  have "unat (ucast (le16 b a) :: 32 word) = unat b + 256 * unat a"
    using unsigned_less [of "le16 b a", where 'a = nat] by (simp add: unsigned_ucast_eq take_bit_eq_mod unat_le16)
  then have "unat (acc + ucast (le16 b a)) = unat acc + unat b + 256 * unat a" using 1(2) by (simp add: unat_word_ariths)
  then show ?case using 1 by simp
next
  case (2 acc a)
  have "unat (ucast (le16 0 a) :: 32 word) = 256 * unat a"
    using unsigned_less [of "le16 0 a", where 'a = nat] by (simp add: unsigned_ucast_eq take_bit_eq_mod unat_le16)
  then show ?case using 2 by (simp add: unat_word_ariths)
qed simp

lemma version_1_value:
  assumes "length bs < 65536"
  shows "unat (lwip_standard_chksum_1 bs) = ocsum (wsum False bs)"
proof -
  have "65535 * ((length bs + 1) div 2) \<le> 65535 * 32768" using assms by (intro mult_le_mono) auto
  then have b: "wsum True bs < 2 ^ 32" using wsum_le [of True bs] by simp
  define acc where "acc = FOLD_U32T (acc_loop 0 bs)"
  have a: "unat (FOLD_U32T acc) = ocsum (wsum True bs)" unfolding acc_def unat_FOLD_twice using acc_loop_value [of 0 bs] b by simp
  have z: "(acc AND 0xffff0000 = 0) \<longleftrightarrow> unat acc < 65536" by (rule high16)
  have "unat (if acc AND 0xffff0000 \<noteq> 0 then FOLD_U32T acc else acc) = ocsum (wsum True bs)"
    using a z by (auto simp: unat_FOLD)
  then have "unat (lwip_standard_chksum_1 bs) = swapn (ocsum (wsum True bs))"
    using ocsum_le [of "wsum True bs"] unfolding lwip_standard_chksum_1_def Let_def FOLD_U32T_def [symmetric] acc_def [symmetric]
    by (simp add: unat_htons unsigned_ucast_eq take_bit_eq_mod swapn_def)
  then show ?thesis using oc_swapn oc_wsum [of True bs] by simp
qed

section \<open>Properties\<close>

text \<open>The 16-bit complement of a sum: what is stored in a header.\<close>

definition complement :: "nat \<Rightarrow> 16 word" where
  "complement n = word_of_nat (65535 - ocsum n)"

lemma not_ocsum: "unat w = ocsum n \<Longrightarrow> NOT w = complement n" for w :: "16 word"
  unfolding word_unat_eq_iff by (simp add: unat_not16 complement_def unat_of_nat)

lemma chain_value:
  assumes "packet (cells h) p xs"
  shows "\<exists>r. chain_loop al h p 0 False = Some r \<and> unat (unswap r) = ocsum (wsum False (content (cells h) xs))"
    "\<exists>r. partial_loop al h p k 0 False = Some r \<and> unat (unswap r) = ocsum (wsum False (take k (content (cells h) xs)))"
  using chain_loop_value [OF assms, of 0 0 al False] partial_loop_value [OF assms, of 0 0 al k False] by (simp_all add: weigh_def)

lemma pseudo_value:
  assumes "unat acc = ocsum n"
  shows "NOT (ucast (FOLD_U32T (FOLD_U32T (pseudo_header acc src dest proto proto_len)) AND 0xffff) :: 16 word) =
    complement (n + pseudo_sum src dest proto proto_len)"
proof (rule not_ocsum)
  let ?a = "FOLD_U32T (FOLD_U32T (pseudo_header acc src dest proto proto_len))"
  have "unat ?a = ocsum (ocsum n + pseudo_sum src dest proto proto_len)"
    using pseudo_header_value [of acc] assms ocsum_le [of n] by (simp add: unat_FOLD_twice)
  then have "unat ?a = ocsum (n + pseudo_sum src dest proto proto_len)" using oc_add [of "ocsum n" n] by simp
  then show "unat (ucast (?a AND 0xffff) :: 16 word) = ocsum (n + pseudo_sum src dest proto proto_len)" using ocsum_le low16 by simp
qed

text \<open>
  C12. The optimised checksums compute the Internet checksum. \<open>lwip_standard_chksum\<close>, which reads 16-bit
  words from the first even address on, swaps and folds, returns for every alignment and up to
  0x20000 bytes the one's complement sum of the bytes, and agrees with the portable version 1.
  The sums over a chain of buffers, whatever the lengths and alignments of its parts, are those
  of the bytes in one piece: alone, with the pseudo header, and with the pseudo header over the
  first bytes only.
\<close>

theorem inet_chksum_equivalent:
  assumes "packet (cells h) p xs" "length bs \<le> 0x20000"
  shows "inet_chksum od bs = complement (wsum False bs) \<and>
    (length bs < 65536 \<longrightarrow> lwip_standard_chksum_1 bs = lwip_standard_chksum od bs) \<and>
    inet_chksum_pbuf al p h = Some (complement (wsum False (content (cells h) xs))) \<and>
    inet_chksum_pseudo al p src dest proto proto_len h =
      Some (complement (wsum False (content (cells h) xs) + pseudo_sum src dest proto proto_len)) \<and>
    inet_chksum_pseudo_partial al p src dest proto proto_len chksum_len h =
      Some (complement (wsum False (take (unat chksum_len) (content (cells h) xs)) + pseudo_sum src dest proto proto_len))"
proof (intro conjI impI)
  show "inet_chksum od bs = complement (wsum False bs)"
    unfolding inet_chksum_def by (rule not_ocsum) (rule lwip_standard_chksum_value [OF assms(2)])
  show "lwip_standard_chksum_1 bs = lwip_standard_chksum od bs" if "length bs < 65536"
    using version_1_value [OF that] lwip_standard_chksum_value [OF assms(2), of od] by (simp add: word_unat_eq_iff)
  obtain r where r: "chain_loop al h p 0 False = Some r" "unat (unswap r) = ocsum (wsum False (content (cells h) xs))"
    using chain_value(1) [OF assms(1)] by blast
  have "unat (ucast (unswap r AND 0xffff) :: 16 word) = ocsum (wsum False (content (cells h) xs))" using r(2) ocsum_le low16 by simp
  then show "inet_chksum_pbuf al p h = Some (complement (wsum False (content (cells h) xs)))"
    using r(1) not_ocsum by (simp add: inet_chksum_pbuf_def)
  show "inet_chksum_pseudo al p src dest proto proto_len h =
      Some (complement (wsum False (content (cells h) xs) + pseudo_sum src dest proto proto_len))"
    using r(1) pseudo_value [OF r(2)] by (simp add: inet_chksum_pseudo_def Let_def)
  obtain r' where r': "partial_loop al h p (unat chksum_len) 0 False = Some r'"
    "unat (unswap r') = ocsum (wsum False (take (unat chksum_len) (content (cells h) xs)))" using chain_value(2) [OF assms(1)] by blast
  show "inet_chksum_pseudo_partial al p src dest proto proto_len chksum_len h =
      Some (complement (wsum False (take (unat chksum_len) (content (cells h) xs)) + pseudo_sum src dest proto proto_len))"
    using r'(1) pseudo_value [OF r'(2)] by (simp add: inet_chksum_pseudo_partial_def Let_def)
qed

theorem inet_chksum_equivalent_witness:
  "inet_chksum True [1, 2, 3] = complement 516 \<and> inet_chksum_pbuf (\<lambda>_. True) (Some 0) one_heap = Some (complement (wsum False (content (cells one_heap) [0])))"
proof -
  have "packet (cells one_heap) (Some 0) [0]" by (simp add: one_heap_def sample_pbuf_def packet_Cons)
  from inet_chksum_equivalent [OF this, of "[1, 2, 3]"] show ?thesis by simp
qed

end
