(* ===== verification/Ip_Addr.thy ===== *)
theory Ip_Addr
  imports Json Chksum
begin

text \<open>
  Internet addresses of lwIP, \<open>core/ipv4/ip_addr.c\<close>: the parser and the printer of the dotted
  notation, the test of a netmask and the test for broadcast addresses. An address is the 32-bit
  word whose bytes in memory, low byte first, are the octets. A text is the list of its characters in
  front of the NUL; a function that returns 0 or \<open>NULL\<close> has the value \<open>None\<close>.
\<close>

section \<open>Parsing\<close>

definition in_range :: "char \<Rightarrow> nat \<Rightarrow> nat \<Rightarrow> bool" where
  "in_range c lo up \<longleftrightarrow> lo \<le> of_char c \<and> of_char c \<le> up"

definition isxdigit :: "char \<Rightarrow> bool" where
  "isxdigit c \<longleftrightarrow> is_digit c \<or> in_range c 97 102 \<or> in_range c 65 70"

definition islower :: "char \<Rightarrow> bool" where
  "islower c \<longleftrightarrow> in_range c 97 122"

definition isspace :: "char \<Rightarrow> bool" where
  "isspace c \<longleftrightarrow> c \<in> {CHR '' '', CHR 0x0C, CHR 0x0A, CHR 0x0D, CHR 0x09, CHR 0x0B}"

text \<open>The inner loop: the digits of one part, in 32-bit arithmetic.\<close>

fun scan_part :: "32 word \<Rightarrow> 32 word \<Rightarrow> string \<Rightarrow> 32 word \<times> string" where
  "scan_part base val [] = (val, [])"
| "scan_part base val (c # cp) =
     (if is_digit c then scan_part base (val * base + word_of_nat (of_char c - 48)) cp
      else if base = 16 \<and> isxdigit c then
        scan_part base (push_bit 4 val OR word_of_nat (of_char c + 10 - (if islower c then 97 else 65))) cp
      else (val, c # cp))"

lemma scan_part_length: "length (snd (scan_part base val cp)) \<le> length cp"
  by (induction base val cp rule: scan_part.induct) auto

text \<open>The prefix that chooses the base.\<close>

definition part_base :: "string \<Rightarrow> 32 word \<times> string" where
  "part_base cp =
     (if hd cp = CHR ''0'' then
        (case tl cp of
           c # cp' \<Rightarrow> if c = CHR ''x'' \<or> c = CHR ''X'' then (16, cp') else (8, c # cp')
         | [] \<Rightarrow> (8, []))
      else (10, cp))"

lemma part_base_length: "length (snd (part_base cp)) \<le> length cp"
  by (cases cp; cases "tl cp") (auto simp: part_base_def)

function aton_loop :: "32 word list \<Rightarrow> string \<Rightarrow> (32 word list \<times> 32 word \<times> string) option" where
  "aton_loop parts cp =
     (if cp = [] \<or> \<not> is_digit (hd cp) then None
      else
        let (base, cp1) = part_base cp;
            (val, cp2) = scan_part base 0 cp1
        in if cp2 \<noteq> [] \<and> hd cp2 = CHR ''.'' then
             if 3 \<le> length parts then None else aton_loop (parts @ [val]) (tl cp2)
           else Some (parts, val, cp2))"
  by auto

termination
proof (relation "measure (\<lambda>(parts, cp). length cp)", goal_cases)
  case (2 parts cp b base cp1 v val cp2)
  have "length cp2 \<le> length cp1" using scan_part_length [of base 0 cp1] 2(2-5) by (metis snd_conv)
  moreover have "length cp1 \<le> length cp" using part_base_length [of cp] 2(2-5) by (metis snd_conv)
  moreover have "cp2 \<noteq> []" using 2 by simp
  ultimately show ?case by (cases cp2) auto
qed simp

declare aton_loop.simps [simp del]

definition ipaddr_aton :: "string \<Rightarrow> 32 word option" where
  "ipaddr_aton cp =
     (case aton_loop [] cp of
        None \<Rightarrow> None
      | Some (parts, val, cp') \<Rightarrow>
          if cp' \<noteq> [] \<and> \<not> isspace (hd cp') then None
          else
            map_option lwip_htonl
              (case length parts + 1 of
                 Suc 0 \<Rightarrow> Some val
               | Suc (Suc 0) \<Rightarrow> if 0xffffff < val then None else Some (val OR push_bit 24 (parts ! 0))
               | Suc (Suc (Suc 0)) \<Rightarrow> if 0xffff < val then None else Some (val OR (push_bit 24 (parts ! 0) OR push_bit 16 (parts ! 1)))
               | _ \<Rightarrow> if 0xff < val then None
                      else Some (val OR (push_bit 24 (parts ! 0) OR push_bit 16 (parts ! 1) OR push_bit 8 (parts ! 2)))))"

definition ipaddr_addr :: "string \<Rightarrow> 32 word" where
  "ipaddr_addr cp = (case ipaddr_aton cp of Some val \<Rightarrow> val | None \<Rightarrow> 0xffffffff)"

section \<open>Printing\<close>

text \<open>The octets in memory order; the digits of an octet are collected in \<open>inv\<close>, last digit first.\<close>

definition octets :: "32 word \<Rightarrow> nat list" where
  "octets s_addr = map (\<lambda>n. unat (take_bit 8 (drop_bit (8 * n) s_addr))) [0, 1, 2, 3]"

function inv_loop :: "nat \<Rightarrow> string \<Rightarrow> string" where
  "inv_loop ap ds = (let ds = ds @ [char_of (48 + ap mod 10)]; ap = ap div 10 in if ap = 0 then ds else inv_loop ap ds)"
  by auto

termination
  by (relation "measure fst") auto

declare inv_loop.simps [simp del]

text \<open>Storing a character fails when the buffer is full. The text stored so far is \<open>buf\<close>, \<open>len\<close> its length.\<close>

definition put_char :: "int \<Rightarrow> char \<Rightarrow> string \<Rightarrow> string option" where
  "put_char buflen c buf = (if buflen \<le> int (length buf) then None else Some (buf @ [c]))"

fun digits_out :: "int \<Rightarrow> string \<Rightarrow> string \<Rightarrow> string option" where
  "digits_out buflen [] buf = Some buf"
| "digits_out buflen (c # cs) buf = Option.bind (put_char buflen c buf) (digits_out buflen cs)"

fun ntoa_loop :: "int \<Rightarrow> nat list \<Rightarrow> string \<Rightarrow> string option" where
  "ntoa_loop buflen [] buf = Some buf"
| "ntoa_loop buflen (ap # aps) buf =
     Option.bind (digits_out buflen (rev (inv_loop ap [])) buf) (\<lambda>buf.
     Option.bind (put_char buflen CHR ''.'' buf) (ntoa_loop buflen aps))"

text \<open>The last dot becomes the NUL.\<close>

definition ipaddr_ntoa_r :: "32 word \<Rightarrow> int \<Rightarrow> string option" where
  "ipaddr_ntoa_r addr buflen = map_option butlast (ntoa_loop buflen (octets addr) [])"

definition ipaddr_ntoa :: "32 word \<Rightarrow> string option" where
  "ipaddr_ntoa addr = ipaddr_ntoa_r addr 16"

section \<open>Netmasks and broadcast addresses\<close>

lemma halve_less: "m \<noteq> 0 \<Longrightarrow> unat (drop_bit 1 m) < unat m" for m :: "32 word"
  unfolding unat_drop_bit_eq by (simp add: drop_bit_eq_div unat_gt_0)

function ones_loop :: "32 word \<Rightarrow> 32 word \<Rightarrow> 32 word" where
  "ones_loop nm m = (if m = 0 \<or> nm AND m = 0 then m else ones_loop nm (drop_bit 1 m))"
  by auto

termination
  by (relation "measure (\<lambda>(nm, m). unat m)") (auto simp: halve_less [simplified])

function zeros_loop :: "32 word \<Rightarrow> 32 word \<Rightarrow> bool" where
  "zeros_loop nm m = (if m = 0 then True else if nm AND m \<noteq> 0 then False else zeros_loop nm (drop_bit 1 m))"
  by auto

termination
  by (relation "measure (\<lambda>(nm, m). unat m)") (auto simp: halve_less [simplified])

declare ones_loop.simps [simp del] zeros_loop.simps [simp del]

definition ip4_addr_netmask_valid :: "32 word \<Rightarrow> bool" where
  "ip4_addr_netmask_valid netmask = (let nm = lwip_htonl netmask in zeros_loop nm (ones_loop nm (push_bit 31 1)))"

record netif =
  netif_flags :: "8 word"
  netif_ip_addr :: "32 word"
  netif_netmask :: "32 word"

definition ip_addr_netcmp :: "32 word \<Rightarrow> 32 word \<Rightarrow> 32 word \<Rightarrow> bool" where
  "ip_addr_netcmp addr1 addr2 m \<longleftrightarrow> addr1 AND m = addr2 AND m"

definition ip4_addr_isbroadcast :: "32 word \<Rightarrow> netif \<Rightarrow> bool" where
  "ip4_addr_isbroadcast addr ni =
     (if NOT addr = 0 \<or> addr = 0 then True
      else if netif_flags ni AND 0x02 = 0 then False
      else if addr = netif_ip_addr ni then False
      else if ip_addr_netcmp addr (netif_ip_addr ni) (netif_netmask ni) \<and>
        addr AND NOT (netif_netmask ni) = 0xffffffff AND NOT (netif_netmask ni) then True
      else False)"

section \<open>Lemmas\<close>

lemma inv_loop_digits: "inv_loop n ds = ds @ rev (nat_dec n)"
proof (induction n arbitrary: ds rule: nat_dec.induct)
  case (1 n)
  then show ?case by (subst inv_loop.simps, subst nat_dec.simps) (auto simp: Let_def)
qed

lemma digits_out_value: "digits_out n cs buf = (if cs = [] \<or> int (length buf + length cs) \<le> n then Some (buf @ cs) else None)"
  by (induction cs arbitrary: buf) (auto simp: put_char_def)

definition dotted :: "nat list \<Rightarrow> string" where
  "dotted ns = concat (map (\<lambda>n. nat_dec n @ ''.'') ns)"

lemma nat_dec_not_Nil [simp]: "nat_dec n \<noteq> []"
  using nat_dec_Cons [of n] by auto

lemma ntoa_loop_value: "ns \<noteq> [] \<Longrightarrow> ntoa_loop n ns buf = (if int (length buf + length (dotted ns)) \<le> n then Some (buf @ dotted ns) else None)"
proof (induction ns arbitrary: buf)
  case (Cons a ns)
  then show ?case by (cases "ns = []") (auto simp: digits_out_value inv_loop_digits put_char_def dotted_def)
qed simp

lemma scan_part_nat_dec: "scan_part 10 0 (nat_dec n @ cp) = scan_part 10 (word_of_nat n) cp"
proof (induction n arbitrary: cp rule: nat_dec.induct)
  case (1 n)
  show ?case
  proof (cases "n < 10")
    case True
    then show ?thesis by (subst nat_dec.simps) (simp add: is_digit_def)
  next
    case False
    have "word_of_nat (n div 10) * 10 + word_of_nat (n mod 10) = (word_of_nat (n div 10 * 10 + n mod 10) :: 32 word)"
      by (simp only: of_nat_add of_nat_mult of_nat_numeral)
    moreover have "n mod 10 \<le> 9" using mod_less_divisor [of 10 n] by linarith
    ultimately show ?thesis using 1 False by (subst nat_dec.simps) (simp add: is_digit_def [of "char_of _"])
  qed
qed

lemma nat_dec_hd: "0 < n \<Longrightarrow> hd (nat_dec n) \<noteq> CHR ''0''"
proof (induction n rule: nat_dec.induct)
  case (1 n)
  show ?case
  proof (cases "n < 10")
    case True
    have "(of_char (char_of (48 + n) :: char) :: nat) \<noteq> of_char CHR ''0''" using True 1(2) by simp
    then have "char_of (48 + n) \<noteq> CHR ''0''" by metis
    then show ?thesis using True by (subst nat_dec.simps) simp
  next
    case False
    then show ?thesis using 1 by (subst nat_dec.simps) simp
  qed
qed

lemma part_scan:
  assumes "cp = [] \<or> \<not> isxdigit (hd cp) \<and> hd cp \<noteq> CHR ''x'' \<and> hd cp \<noteq> CHR ''X''"
  shows "(case part_base (nat_dec n @ cp) of (base, cp1) \<Rightarrow> scan_part base 0 cp1) = (word_of_nat n, cp)"
proof (cases "n = 0")
  case True
  have "nat_dec 0 = ''0''" by code_simp
  with True assms show ?thesis by (cases cp) (auto simp: part_base_def isxdigit_def)
next
  case False
  then have "part_base (nat_dec n @ cp) = (10, nat_dec n @ cp)" using nat_dec_hd [of n] by (simp add: part_base_def)
  moreover have "scan_part 10 (word_of_nat n) cp = (word_of_nat n, cp)" using assms by (cases cp) (auto simp: isxdigit_def)
  ultimately show ?thesis by (simp add: scan_part_nat_dec)
qed

lemma aton_loop_part:
  "length parts < 3 \<Longrightarrow> aton_loop parts (nat_dec n @ CHR ''.'' # cp) = aton_loop (parts @ [word_of_nat n]) cp"
  "cp = [] \<or> isspace (hd cp) \<Longrightarrow> aton_loop parts (nat_dec n @ cp) = Some (parts, word_of_nat n, cp)"
proof -
  have d: "is_digit (hd (nat_dec n))" using nat_dec_Cons [of n] by auto
  {
    assume "length parts < 3"
    moreover have "\<not> isxdigit CHR ''.''" by code_simp
    ultimately show "aton_loop parts (nat_dec n @ CHR ''.'' # cp) = aton_loop (parts @ [word_of_nat n]) cp"
      using part_scan [of "CHR ''.'' # cp" n] d by (subst aton_loop.simps) (auto simp: Let_def split_beta)
  next
    assume s: "cp = [] \<or> isspace (hd cp)"
    then have "cp = [] \<or> \<not> isxdigit (hd cp) \<and> hd cp \<noteq> CHR ''x'' \<and> hd cp \<noteq> CHR ''X'' \<and> hd cp \<noteq> CHR ''.''"
      by (auto simp: isspace_def isxdigit_def is_digit_def in_range_def)
    then show "aton_loop parts (nat_dec n @ cp) = Some (parts, word_of_nat n, cp)"
      using part_scan [of cp n] d by (subst aton_loop.simps) (auto simp: Let_def split_beta)
  }
qed

lemma bit_htonl:
  assumes "n < 8"
  shows "bit (lwip_htonl w) n = bit w (24 + n)" "bit (lwip_htonl w) (8 + n) = bit w (16 + n)"
    "bit (lwip_htonl w) (16 + n) = bit w (8 + n)" "bit (lwip_htonl w) (24 + n) = bit w n"
proof -
  have m: "(0xff :: 32 word) = mask 8" "(0xff00 :: 32 word) = push_bit 8 (mask 8)" "(0xff0000 :: 32 word) = push_bit 16 (mask 8)"
    "(0xff000000 :: 32 word) = push_bit 24 (mask 8)" by (simp_all add: mask_eq_exp_minus_1 push_bit_eq_mult)
  show "bit (lwip_htonl w) n = bit w (24 + n)" "bit (lwip_htonl w) (8 + n) = bit w (16 + n)"
    "bit (lwip_htonl w) (16 + n) = bit w (8 + n)" "bit (lwip_htonl w) (24 + n) = bit w n"
    using assms unfolding lwip_htonl_def m by (simp_all add: bit_simps add.commute)
qed

lemma word32_bytewise:
  assumes "\<And>n. n < 8 \<Longrightarrow> bit v n = bit w n \<and> bit v (8 + n) = bit w (8 + n) \<and> bit v (16 + n) = bit w (16 + n) \<and> bit v (24 + n) = bit w (24 + n)"
  shows "v = (w :: 32 word)"
proof (rule bit_eqI)
  fix n assume "possible_bit TYPE(32 word) n"
  then consider "n < 8" | k where "n = 8 + k" "k < 8" | k where "n = 16 + k" "k < 8" | k where "n = 24 + k" "k < 8"
    by (cases "n < 8"; cases "n < 16"; cases "n < 24") (auto dest!: le_Suc_ex simp: not_less)
  then show "bit v n = bit w n" using assms by cases simp_all
qed

lemma htonl_octets:
  "lwip_htonl (take_bit 8 (drop_bit 24 a) OR (push_bit 24 (take_bit 8 a) OR push_bit 16 (take_bit 8 (drop_bit 8 a)) OR
     push_bit 8 (take_bit 8 (drop_bit 16 a)))) = a"
  by (rule word32_bytewise) (simp add: bit_htonl, simp add: bit_simps add.commute)

text \<open>The text of an address, and its value as one, two, three or four numbers.\<close>

definition quad :: "32 word \<Rightarrow> string" where
  "quad addr = butlast (dotted (octets addr))"

lemma octets_list:
  "octets a = [unat (take_bit 8 a), unat (take_bit 8 (drop_bit 8 a)), unat (take_bit 8 (drop_bit 16 a)), unat (take_bit 8 (drop_bit 24 a))]"
  by (simp add: octets_def)

lemma octet_le: "unat (take_bit 8 w) < 256" for w :: "32 word"
  unfolding unsigned_take_bit_eq by (simp add: take_bit_eq_mod)

lemma octets_less: "n \<in> set (octets a) \<Longrightarrow> n < 256"
  unfolding octets_list using octet_le by auto

lemma dotted_length: "(\<And>n. n \<in> set ns \<Longrightarrow> n < 256) \<Longrightarrow> length (dotted ns) \<le> 4 * length ns"
proof (induction ns)
  case (Cons a ns)
  have "length (nat_dec a) \<le> 3" using Cons.prems [of a] by (intro nat_dec_length) auto
  with Cons show ?case by (simp add: dotted_def)
qed (simp add: dotted_def)

lemma quad_length: "length (dotted (octets a)) = Suc (length (quad a))" "length (quad a) \<le> 15"
proof -
  have "dotted (octets a) \<noteq> []" by (simp add: dotted_def octets_def)
  then show "length (dotted (octets a)) = Suc (length (quad a))" by (simp add: quad_def)
  moreover have "length (dotted (octets a)) \<le> 16" using dotted_length [of "octets a"] octets_less by (simp add: octets_def)
  ultimately show "length (quad a) \<le> 15" by simp
qed

lemma ntoa_value: "ipaddr_ntoa_r a n = (if int (length (quad a)) < n then Some (quad a) else None)"
proof -
  have "octets a \<noteq> []" by (simp add: octets_def)
  then show ?thesis unfolding ipaddr_ntoa_r_def by (auto simp: ntoa_loop_value quad_length quad_def [symmetric])
qed

lemma aton_quad:
  assumes "cp = [] \<or> isspace (hd cp)"
  shows "ipaddr_aton (quad a @ cp) = Some a"
proof -
  let ?o = "\<lambda>n. take_bit 8 (drop_bit n a)"
  have q: "quad a @ cp = nat_dec (unat (take_bit 8 a)) @ CHR ''.'' # nat_dec (unat (?o 8)) @ CHR ''.'' # nat_dec (unat (?o 16)) @ CHR ''.'' #
      nat_dec (unat (?o 24)) @ cp"
    by (simp add: quad_def octets_list dotted_def butlast_append)
  have l: "aton_loop [] (quad a @ cp) = Some ([take_bit 8 a, ?o 8, ?o 16], ?o 24, cp)"
    unfolding q using assms by (simp add: aton_loop_part)
  have "?o 24 \<le> 0xff" using octet_le [of "drop_bit 24 a"] by (simp add: word_le_nat_alt)
  then show ?thesis using l assms htonl_octets [of a] by (auto simp: ipaddr_aton_def not_less numeral_3_eq_3)
qed

section \<open>Netmasks\<close>

lemma word32_eq_iff: "v = w \<longleftrightarrow> (\<forall>n<32. bit v n = bit w n)" for v w :: "32 word"
  by (auto intro: bit_word_eqI)

lemma AND_bit: "nm AND push_bit i 1 = 0 \<longleftrightarrow> \<not> bit nm i" for nm :: "32 word"
  using bit_imp_le_length [of nm i] by (auto simp: word32_eq_iff bit_simps)

lemma shift_bit:
  assumes "Suc i < 32"
  shows "push_bit (Suc i) 1 \<noteq> (0 :: 32 word)" "drop_bit 1 (push_bit (Suc i) 1) = (push_bit i 1 :: 32 word)"
proof -
  have "bit (push_bit (Suc i) 1 :: 32 word) (Suc i)" using assms by (simp add: bit_simps)
  then show "push_bit (Suc i) 1 \<noteq> (0 :: 32 word)" by fastforce
  show "drop_bit 1 (push_bit (Suc i) 1) = (push_bit i 1 :: 32 word)" using assms by (auto simp: word32_eq_iff bit_simps)
qed

lemma zeros_loop_value: "i < 32 \<Longrightarrow> zeros_loop nm (push_bit i 1) \<longleftrightarrow> (\<forall>j\<le>i. \<not> bit nm j)"
proof (induction i)
  case 0
  then show ?case using AND_bit [of nm 0] by (simp add: zeros_loop.simps)
next
  case (Suc i)
  note p = shift_bit [OF Suc.prems]
  then show ?case using Suc AND_bit [of nm "Suc i"] by (subst zeros_loop.simps) (auto simp: le_Suc_eq)
qed

lemma ones_loop_value:
  "i < 32 \<Longrightarrow> zeros_loop nm (ones_loop nm (push_bit i 1)) \<longleftrightarrow> (\<exists>k \<le> Suc i. \<forall>j\<le>i. bit nm j \<longleftrightarrow> k \<le> j)"
proof (induction i)
  case 0
  then show ?case using AND_bit [of nm 0] zeros_loop_value [of 0 nm]
    by (subst ones_loop.simps) (auto simp: ones_loop.simps zeros_loop.simps le_Suc_eq)
next
  case (Suc i)
  note p = shift_bit [OF Suc.prems]
  show ?case
  proof (cases "bit nm (Suc i)")
    case True
    then have "ones_loop nm (push_bit (Suc i) 1) = ones_loop nm (push_bit i 1)" using p AND_bit [of nm "Suc i"] by (subst ones_loop.simps) simp
    moreover have "(\<exists>k \<le> Suc (Suc i). \<forall>j\<le>Suc i. bit nm j \<longleftrightarrow> k \<le> j) \<longleftrightarrow> (\<exists>k \<le> Suc i. \<forall>j\<le>i. bit nm j \<longleftrightarrow> k \<le> j)"
      using True by (auto simp: le_Suc_eq)
    ultimately show ?thesis using Suc by simp
  next
    case False
    then have "ones_loop nm (push_bit (Suc i) 1) = push_bit (Suc i) 1" using AND_bit [of nm "Suc i"] by (subst ones_loop.simps) simp
    moreover have "(\<exists>k \<le> Suc (Suc i). \<forall>j\<le>Suc i. bit nm j \<longleftrightarrow> k \<le> j) \<longleftrightarrow> (\<forall>j\<le>Suc i. \<not> bit nm j)"
    proof
      assume "\<exists>k \<le> Suc (Suc i). \<forall>j\<le>Suc i. bit nm j \<longleftrightarrow> k \<le> j"
      then obtain k where k: "\<forall>j\<le>Suc i. bit nm j \<longleftrightarrow> k \<le> j" by auto
      with False have "\<not> k \<le> Suc i" by blast
      with k show "\<forall>j\<le>Suc i. \<not> bit nm j" by auto
    next
      assume "\<forall>j\<le>Suc i. \<not> bit nm j"
      then have "\<forall>j\<le>Suc i. bit nm j \<longleftrightarrow> Suc (Suc i) \<le> j" by auto
      then show "\<exists>k \<le> Suc (Suc i). \<forall>j\<le>Suc i. bit nm j \<longleftrightarrow> k \<le> j" by blast
    qed
    ultimately show ?thesis using zeros_loop_value [OF Suc.prems] by simp
  qed
qed

text \<open>A netmask is accepted exactly when it is a block of ones followed by zeros, either of them possibly empty.\<close>

lemma netmask_valid_iff: "ip4_addr_netmask_valid netmask \<longleftrightarrow> (\<exists>k\<le>32. lwip_htonl netmask = push_bit k (mask (32 - k)))"
proof -
  have "(\<forall>j\<le>31. bit (lwip_htonl netmask) j \<longleftrightarrow> k \<le> j) \<longleftrightarrow> lwip_htonl netmask = push_bit k (mask (32 - k))" if "k \<le> 32" for k
    using that by (auto simp: word32_eq_iff bit_simps less_Suc_eq_le [symmetric])
  then show ?thesis unfolding ip4_addr_netmask_valid_def Let_def using ones_loop_value [of 31 "lwip_htonl netmask"] by auto
qed

section \<open>Properties\<close>

text \<open>
  C18. The printer and the parser of Internet addresses are inverse. For every address \<open>ipaddr_ntoa_r\<close>
  writes the four octets in decimal with dots between them if that text and its NUL fit the buffer, and
  reports failure otherwise; the 16 bytes of \<open>ipaddr_ntoa\<close> are always enough, and the three
  bytes of \<open>inv\<close> hold the digits of any octet. Read back, alone or in front of white space, the
  text gives the address again.
\<close>

theorem ipaddr_roundtrip:
  "ipaddr_ntoa_r addr buflen = (if int (length (quad addr)) < buflen then Some (quad addr) else None) \<and>
   ipaddr_ntoa addr = Some (quad addr) \<and>
   list_all (\<lambda>ap. length (inv_loop ap []) \<le> 3) (octets addr) \<and>
   ipaddr_aton (quad addr) = Some addr \<and>
   ipaddr_aton (quad addr @ CHR '' '' # cp) = Some addr \<and>
   ipaddr_addr (quad addr) = addr"
proof (intro conjI)
  show "ipaddr_ntoa_r addr buflen = (if int (length (quad addr)) < buflen then Some (quad addr) else None)" by (rule ntoa_value)
  show "ipaddr_ntoa addr = Some (quad addr)" using quad_length(2) [of addr] by (simp add: ipaddr_ntoa_def ntoa_value)
  show "list_all (\<lambda>ap. length (inv_loop ap []) \<le> 3) (octets addr)"
    unfolding list_all_iff inv_loop_digits by (auto dest!: octets_less intro!: nat_dec_length)
  show a: "ipaddr_aton (quad addr) = Some addr" using aton_quad [of "[]"] by simp
  show "ipaddr_aton (quad addr @ CHR '' '' # cp) = Some addr" by (rule aton_quad) (simp add: isspace_def)
  show "ipaddr_addr (quad addr) = addr" using a by (simp add: ipaddr_addr_def)
qed

text \<open>
  Only the last number is checked against its range: the numbers in front of it may exceed an octet, and
  the digits 8 and 9 are read in octal numbers.
\<close>

lemma ipaddr_aton_unchecked:
  "ipaddr_aton ''256.0.0.1'' = ipaddr_aton ''0.0.0.1'' \<and> ipaddr_aton ''10.256.0.1'' = ipaddr_aton ''11.0.0.1'' \<and>
   ipaddr_aton ''10.0.0.256'' = None \<and> ipaddr_aton ''10.0.0.09'' = ipaddr_aton ''10.0.0.9''"
  by code_simp

end
