(* ===== verification/Spec2Isabelle.thy ===== *)
theory Spec2Isabelle
  imports Json_Packets Echo_Server Echo_Client Board Kernel_Waiting Ip_Addr
begin

text \<open>
  A verification library of the firmware of an STM32F4 network device. The repository holds the
  application projects (\<open>Project\<close>), of which \<open>tcp_echo_client\<close> and \<open>working\<close> are the device itself, the TCP/IP stack lwIP and the
  kernel FreeRTOS they are linked with (\<open>Utilities\<close>), and the drivers of the vendor (\<open>Libraries\<close>).

  \<^bold>\<open>The program.\<close> The device posts JSON messages to a server and takes its serial number from a peer.
  A main loop polls a button and the stack; the stack calls the callbacks of \<open>tcp_echoclient.c\<close> and \<open>tcp_server.c\<close>,
  which build their messages with \<open>json.c\<close>, copy them into packet buffers (\<open>pbuf.c\<close>), hand these to
  \<open>tcp_write\<close> (\<open>tcp_out.c\<close>) and report on the serial line (\<open>UART_Perlib.c\<close>). Received JSON is split
  by the tokenizer \<open>jsmn.c\<close>. Interrupts advance the time base and move characters between
  ring buffers and the line.

  \<^bold>\<open>Theories and what they model.\<close>

  \<^item> \<open>Prelude\<close>: C strings, pieces of texts, the 32-bit decrement.

  \<^item> \<open>Jsmn\<close>, \<open>Jsmn_Render\<close>: every function of \<open>jsmn.c\<close> (\<open>jsmn_parse\<close>, its loop \<open>jsmn_loop\<close> and a turn of it \<open>jsmn_step\<close>,
  \<open>jsmn_parse_string\<close>, \<open>jsmn_parse_primitive\<close>, allocation, brackets, comma). Tokens are a list of
  records, errors a datatype. Shown: the tokens are in order, nested and inside the text; counting without a
  token array gives the number of tokens needed; a compact text of any JSON value is parsed into exactly the tokens that describe it.

  \<^item> \<open>Json\<close>, \<open>Json_Packets\<close>: \<open>json.c\<close> with its two message generators, the reader of a message and the number parser.
  \<open>None\<close> is a write outside a buffer, a read outside an object or a signed overflow. Shown: the buffers suffice;
  the message of \<open>working\<close> is parsed as the JSON value meant, that of \<open>tcp_echo_client\<close> is malformed; the reader rejects every message.

  \<^item> \<open>Uart\<close>: the transmit and receive rings of \<open>UART_Perlib.c\<close> with their interrupt handlers, the printers of numbers and
  the reception of strings. The locale \<open>fifo\<close> is the contract of a ring; it is interpreted for both rings. Interrupts come
  between any two accesses of \<open>USART2_PutChar\<close>: the steps are the relation of the theorem on interleavings. The code does not check
  for room, so the relation does not either; the theorem says what is sent while the ring suffices and how much is lost when it does not.

  \<^item> \<open>Pbuf\<close>, \<open>Tcp_Out\<close>: \<open>pbuf.c\<close> and the queueing part of \<open>tcp_out.c\<close> on an explicit heap of buffers with reference counts and
  16-bit lengths. Which requests for memory succeed is the list \<open>grants\<close> of the heap, so that a
  theorem for all heaps covers every pattern of failures. The locale \<open>send_api\<close> is what the
  applications rely on (all of the data is queued, or nothing is and the memory is given back); \<open>tcp_write\<close> interprets it.

  \<^item> \<open>Echo\<close>, \<open>Echo_Server\<close>, \<open>Device\<close>, \<open>Echo_Client\<close>: the callbacks of \<open>tcp_echoserver.c\<close>, \<open>tcp_server.c\<close> and
  \<open>tcp_echoclient.c\<close> on the world of one connection, and the loop that feeds a chain to \<open>tcp_write\<close>, proved once over
  \<open>send_api\<close>. Calls that stay inside the stack are logged. Shown: on an open connection every byte received without error is echoed in order or still waits, and in which branches waiting bytes
  are lost; no interleaving of the callbacks with the
  stack touches freed memory; the client posts its request exactly when the memory for it is granted; and where the code leaks, blocks or overflows, that it does.

  \<^item> \<open>Board\<close>: the time base, the delay, the debounced button, the periodic timers and the DHCP states
  (\<open>main.c\<close>, \<open>stm32f4xx_it.c\<close>, \<open>netconf.c\<close>).

  \<^item> \<open>Kernel_List\<close>, \<open>Kernel_Heap\<close>, \<open>Kernel_Queue\<close>: the lists (\<open>list.c\<close>), the allocator (\<open>heap_2.c\<close>) and the queues (\<open>queue.c\<close>) of
  FreeRTOS. The locale \<open>round_robin\<close>, which extends \<open>turn_taking\<close>, is the circular queue the scheduler walks, interpreted by the list. The allocator keeps
  all regions aligned, inside the heap and disjoint over every history of requests and releases. The locale \<open>implements\<close> is the
  refinement of a specification by operations on a state; it is interpreted for the queue and the bounded sequence. The lock of a queue
  only postpones wake-ups, and calls that wait transfer their item at the first look that allows it: what the rest of the system does at the points
  of a round where a call lets it (between its critical sections, while the queue is locked, between the two sections of the unlocking) is a list
  of rounds, an argument of the call.

  \<^item> \<open>Kernel_Task\<close>: the scheduler (\<open>tasks.c\<close>, with the SysTick and PendSV handlers of \<open>port.c\<close>) on these lists and this
  allocator: creation and deletion, ticks, delays, context switches, suspension, priorities and their inheritance, event lists, timeouts and the
  idle task. A task is the address of its control block, its two list items are members of the block. \<open>Kernel_Rings\<close> describes all rings of a
  store at once by their items; \<open>Kernel_Sched\<close> has the invariant and what the loops do; \<open>Kernel_Run\<close> the interrupts and the calls of
  tasks, \<open>Kernel_Life\<close> creation and deletion, \<open>Kernel_Start\<close> the way from \<open>main\<close> to the running scheduler.

  \<^item> \<open>Kernel_Steps\<close>, \<open>Kernel_Schedule\<close>: interrupts, switches and calls as events (\<open>kevent\<close>), what their callers keep to (\<open>allowed\<close>), and the
  reachable states (\<open>kernel_reach\<close>). Shown: no allowed event faults; the state stays well typed; the processor goes round among the ready tasks of the
  highest priority (the locale \<open>turn_taking\<close>, interpreted a second time); delays and timeouts end at their tick, over the wrap of the tick count
  and over suspensions; inherited priorities are given back.

  \<^item> \<open>Kernel_Waiting\<close>: the rings of event items refine the sequences of waiting tasks of \<open>Kernel_Queue\<close>; a list in the order of the priorities
  stays so, but inheritance can leave a list out of that order.

  \<^item> \<open>Chksum\<close>, \<open>Ip_Addr\<close>: the Internet checksum (\<open>inet_chksum.c\<close>), byte order (\<open>def.c\<close>) and Internet addresses (\<open>ip_addr.c\<close>) of lwIP. The optimised
  sums equal the sum of the bytes in one piece for every alignment and every division into buffers;
  addresses survive printing and parsing.

  \<^bold>\<open>Conventions.\<close> A structure is a record, a store of structures a partial function from addresses. An access through
  \<open>NULL\<close> or to a freed object and a write outside an array are the value \<open>None\<close> of an option, the
  loops over linked structures are \<open>partial_function (option)\<close>, and each theorem that such code works states that the result is \<open>Some\<close>.
  Integers that wrap are words, or naturals with the reduction written out (\<open>u16\<close>). Assertions
  and debug output of lwIP expand to nothing, as in the configuration of the projects.

  \<^bold>\<open>Bounds and fuel.\<close> There is no fuel. The lists of grants, of polls of a status flag (\<open>poll_txe\<close>), of ticks (\<open>delay_loop\<close>) and of rounds
  are the environment: a theorem either holds for all of them or says how long they must be. Lengths are bounded where the code's types are: a chain has at most 65535 bytes,
  a reference count fits its type, a request to the kernel allocator stays 23 bytes below the range of \<open>size_t\<close>, a buffer in RAM has at most 65460 bytes unless its request wraps in \<open>mem_size_t\<close> (the case is a branch of \<open>pbuf_alloc\<close>), a delay
  is followed for fewer than \<open>2 ^ 32\<close> ticks, a timeout until the tick count wraps for the second time.

  \<^bold>\<open>Simplified.\<close> The positions and token fields of \<open>jsmn\<close> are unbounded, which differs from the code for texts of \<open>2 ^ 31\<close> bytes or more. A
  read behind the memory of a packet buffer yields fewer bytes; a write behind it is \<open>None\<close> (\<open>memcpy_at\<close>). The lock counts of a
  queue are unbounded, and the theorem on deferred wake-ups is about an unlocking without an interrupt between its two sections. \<open>Kernel_Queue\<close> logs the calls
  of \<open>vTaskPriorityInherit\<close> and \<open>vTaskPriorityDisinherit\<close>; their effect is modelled in \<open>Kernel_Task\<close>. The creation of a task, with the allocation
  in it, is one step: no interrupt comes while \<open>pvPortMalloc\<close> has suspended the scheduler.

  \<^bold>\<open>Not modelled.\<close> Stacks and registers of tasks, the trace functions of the kernel and what its configuration leaves out
  (single tasks are not suspended, there are no hooks, coroutines or memory protection); the tasks of the FreeRTOS projects over the blocking interface; the HTTP servers and the UDP examples; TCP input, timers and the other protocols of
  lwIP, of which the modelled code sees the logged calls and the fields of the control block; the initialisation of peripherals and the
  vendor libraries, which are register accesses; FatFs, the second copy of lwIP and lwIP 2.0.2, which no project compiles.
  \<open>sprintf\<close> of floating point numbers is a parameter (the texts \<open>item_1_text\<close>, \<open>item_2_text\<close>).
\<close>

end
